(* ===== verification/Prelude.thy ===== *)
theory Prelude
  imports Main "HOL-Library.Word" "HOL-Library.Monad_Syntax"
begin

unbundle bit_operations_syntax

text \<open>
  What the components share: the names of the machine types of the build this development
  models (64-bit pointers and \<open>size_t\<close>, little-endian), sequencing of C functions that
  return \<open>bool\<close> and change a state through a pointer, little-endian byte strings, and
  byte-addressed memory.
\<close>

section \<open>Machine types\<close>

type_synonym u8 = "8 word"
type_synonym u16 = "16 word"
type_synonym u32 = "32 word"
type_synonym u64 = "64 word"

text \<open>An address. The NULL pointer is 0; pointer arithmetic that leaves the address space is
  undefined in C and is not wrapped here.\<close>

type_synonym addr = int

named_theorems byte_simps \<open>little-endian strings and memory accesses\<close>
named_theorems word_bounds \<open>bounds of machine words as natural numbers\<close>

section \<open>Sequencing\<close>

text \<open>
  A C function \<open>bool f(stream *s, ...)\<close> is a function from the state to its result and the new
  state. The idiom \<open>if (!f(s)) return false; ...\<close> is \<open>and_then\<close>. \<open>None\<close> is a call that does
  not return within the fuel given or that has undefined behaviour; \<open>and_then_opt\<close> propagates it.
\<close>

definition and_then :: "bool \<times> 's \<Rightarrow> ('s \<Rightarrow> bool \<times> 's) \<Rightarrow> bool \<times> 's" where
  "and_then r k = (if fst r then k (snd r) else (False, snd r))"

definition and_then_opt ::
  "(bool \<times> 's) option \<Rightarrow> ('s \<Rightarrow> (bool \<times> 's) option) \<Rightarrow> (bool \<times> 's) option" where
  "and_then_opt r k = (case r of None \<Rightarrow> None
     | Some (ok, s) \<Rightarrow> if ok then k s else Some (False, s))"

lemma and_then_simps [simp]:
  "and_then (True, s) k = k s"
  "and_then (False, s) k = (False, s)"
  by (simp_all add: and_then_def)

lemma and_then_opt_simps [simp]:
  "and_then_opt None k = None"
  "and_then_opt (Some (True, s)) k = k s"
  "and_then_opt (Some (False, s)) k = Some (False, s)"
  by (simp_all add: and_then_opt_def)

lemma and_then_True:
  "and_then r k = (True, s') \<longleftrightarrow> (\<exists>s. r = (True, s) \<and> k s = (True, s'))"
  by (cases r) (auto simp: and_then_def)

lemma and_then_opt_True:
  "and_then_opt r k = Some (True, s') \<longleftrightarrow> (\<exists>s. r = Some (True, s) \<and> k s = Some (True, s'))"
  by (auto simp: and_then_opt_def split: option.splits)

lemma and_then_opt_SomeE:
  assumes "and_then_opt r k = Some (ok, s')"
  obtains s where "r = Some (True, s)" "k s = Some (ok, s')"
    | "r = Some (False, s')" "\<not> ok"
  using assms by (auto simp: and_then_opt_def split: option.splits if_splits)

lemma and_then_E:
  assumes "and_then r k = (ok, s')"
  obtains s where "r = (True, s)" "k s = (ok, s')"
    | "r = (False, s')" "\<not> ok"
  using assms by (cases r) (auto simp: and_then_def split: if_splits)

lemma ex_pair_eq: "(\<exists>a b. p = (a, b) \<and> P a b) \<longleftrightarrow> P (fst p) (snd p)"
  by (cases p) auto

section \<open>Words\<close>

lemma unat_lt_64 [word_bounds]: "unat (w :: u64) < 18446744073709551616"
  using unsigned_less [of w] by simp

lemma unat_lt_32 [word_bounds]: "unat (w :: u32) < 4294967296"
  using unsigned_less [of w] by simp

lemma unat_lt_8 [word_bounds]: "unat (w :: u8) < 256"
  using unsigned_less [of w] by simp

lemma unat_of_nat_64 [word_bounds]:
  "n < 18446744073709551616 \<Longrightarrow> unat (word_of_nat n :: u64) = n"
  by (simp add: unat_of_nat take_bit_nat_eq_self)

lemma unat_of_nat_32 [word_bounds]:
  "n < 4294967296 \<Longrightarrow> unat (word_of_nat n :: u32) = n"
  by (simp add: unat_of_nat take_bit_nat_eq_self)

lemma unat_ucast_32_64 [simp]: "unat (ucast (w :: u32) :: u64) = unat w"
  using unat_lt_32 [of w] by (simp add: unsigned_ucast_eq take_bit_nat_eq_self)

lemma uint_ucast_32_64 [simp]: "uint (ucast (w :: u32) :: u64) = uint w"
  using unat_ucast_32_64 [of w] by (simp only: uint_nat)

lemma unat_of_nat_8 [word_bounds]: "n < 256 \<Longrightarrow> unat (word_of_nat n :: u8) = n"
  by (simp add: unat_of_nat take_bit_nat_eq_self)

lemma unat_add_64:
  "unat a + n < 18446744073709551616 \<Longrightarrow> unat (a + word_of_nat n :: u64) = unat a + n"
  by (simp add: unat_word_ariths unat_of_nat take_bit_eq_mod mod_simps)

lemma word_of_nat_add_lt_64:
  "unat (a :: u64) + n < 18446744073709551616 \<Longrightarrow>
     (a + word_of_nat n < a) = False"
  by (simp add: word_less_nat_alt unat_add_64)

lemma unat_drop_bit: "unat (drop_bit n (v :: 'a::len word)) = unat v div 2 ^ n"
  by (simp add: unsigned_drop_bit_eq drop_bit_eq_div [where 'a = nat] take_bit_nat_eq_self)

lemma drop_bit_less: "v \<noteq> 0 \<Longrightarrow> 0 < n \<Longrightarrow> unat (drop_bit n (v :: 'a::len word)) < unat v"
  using one_less_power [of "2 :: nat" n]
  by (simp add: unat_drop_bit unat_gt_0)

text \<open>The bits of the masks of the code: \<open>bit_simps\<close> leaves them as integer literals.\<close>

lemma bit_int_pow: "bit (2 ^ k :: int) n \<longleftrightarrow> n = k"
  by (auto simp: bit_exp_iff)

lemma bit_int_mask: "bit (2 ^ k - 1 :: int) n \<longleftrightarrow> n < k"
  by (simp add: bit_simps flip: mask_eq_exp_minus_1)

lemma bit_masks_int [simp]:
  "bit (128 :: int) n \<longleftrightarrow> n = 7"
  "bit (127 :: int) n \<longleftrightarrow> n < 7"
  "bit (255 :: int) n \<longleftrightarrow> n < 8"
  "bit (63 :: int) n \<longleftrightarrow> n < 6"
  "bit (31 :: int) n \<longleftrightarrow> n < 5"
  "bit (15 :: int) n \<longleftrightarrow> n < 4"
  "bit (7 :: int) n \<longleftrightarrow> n < 3"
  "bit (1 :: int) n \<longleftrightarrow> n = 0"
  using bit_int_pow [of 7 n] bit_int_mask [of 7 n] bit_int_mask [of 8 n] bit_int_mask [of 6 n]
    bit_int_mask [of 5 n] bit_int_mask [of 4 n] bit_int_mask [of 3 n] bit_int_mask [of 1 n]
  by simp_all

lemma bit_0x70_int [simp]: "bit (112 :: int) n \<longleftrightarrow> n = 4 \<or> n = 5 \<or> n = 6"
proof -
  have "bit (push_bit 4 7 :: int) n \<longleftrightarrow> 4 \<le> n \<and> n - 4 < 3"
    unfolding bit_push_bit_iff by simp
  then show ?thesis by auto
qed

lemma bit_0x30_int [simp]:
  "bit (48 :: int) n \<longleftrightarrow> n = 4 \<or> n = 5" "bit (16 :: int) n \<longleftrightarrow> n = 4" "bit (32 :: int) n \<longleftrightarrow> n = 5"
proof -
  have "bit (push_bit 4 3 :: int) n \<longleftrightarrow> 4 \<le> n \<and> n - 4 < 2"
    unfolding bit_push_bit_iff using bit_int_mask [of 2 "n - 4"] by simp
  then show "bit (48 :: int) n \<longleftrightarrow> n = 4 \<or> n = 5" by auto
  show "bit (16 :: int) n \<longleftrightarrow> n = 4" "bit (32 :: int) n \<longleftrightarrow> n = 5"
    using bit_int_pow [of 4 n] bit_int_pow [of 5 n] by simp_all
qed

lemma AND_mask_small: "drop_bit n v = 0 \<Longrightarrow> v AND mask n = (v :: 'a::len word)"
  by (simp add: take_bit_eq_mask [symmetric] take_bit_eq_self_iff_drop_bit_eq_0)

lemma drop_bit_0_bit:
  assumes "drop_bit k w = 0" "bit (w :: 'a::len word) n"
  shows "n < k"
proof (rule ccontr)
  assume "\<not> n < k"
  then have "bit (drop_bit k w) (n - k)"
    using assms(2) by (simp add: bit_drop_bit_eq)
  then show False
    using assms(1) by simp
qed

lemma ucast_AND_FF: "ucast (v AND 0xFF :: u64) = (ucast v :: u8)"
    "ucast (w AND 0xFF :: u32) = (ucast w :: u8)"
  by (rule bit_word_eqI; auto simp: bit_simps)+

lemma bit_nat_less: "bit (n :: nat) i \<Longrightarrow> n < 2 ^ k \<Longrightarrow> i < k"
  by (metis bit_take_bit_iff take_bit_nat_eq_self)

lemma unat_or_shift:
  assumes "unat w < 2 ^ k" "unat v * 2 ^ k < 2 ^ LENGTH('a)"
  shows "unat (push_bit k v OR w :: 'a::len word) = unat v * 2 ^ k + unat w"
proof -
  have "take_bit LENGTH('a) (push_bit k (unat v)) = push_bit k (unat v)"
    using assms(2) by (simp add: push_bit_eq_mult take_bit_nat_eq_self)
  then have "unat (push_bit k v OR w) = push_bit k (unat v) OR unat w"
    by (simp only: unsigned_or_eq unsigned_push_bit_eq)
  also have "\<dots> = push_bit k (unat v) + unat w"
    by (rule disjunctive_add [symmetric])
      (use assms(1) in \<open>auto simp: bit_push_bit_iff dest: bit_nat_less\<close>)
  finally show ?thesis by (simp add: push_bit_eq_mult)
qed

lemma unat_AND_7F: "unat (b AND 0x7F :: u8) = unat b mod 128"
proof -
  have "b AND 0x7F = take_bit 7 b" by (simp add: take_bit_eq_mask mask_eq_exp_minus_1)
  then have "unat (b AND 0x7F) = take_bit 7 (unat b)"
    by (simp only: unsigned_take_bit_eq)
  then show ?thesis by (simp add: take_bit_eq_mod)
qed

lemma take_bit_eq_self_unat: "take_bit m w = w \<longleftrightarrow> unat (w :: 'a::len word) < 2 ^ m"
  by (metis take_bit_nat_eq_self_iff unsigned_take_bit_eq unsigned_word_eqI)

lemma AND_80_eq_0: "b AND 0x80 = (0 :: u8) \<longleftrightarrow> unat b < 128"
proof -
  have "b AND 0x80 = 0 \<longleftrightarrow> \<not> bit b 7"
    using and_exp_eq_0_iff_not_bit [of b 7] by simp
  also have "\<dots> \<longleftrightarrow> take_bit 7 b = b"
  proof
    show "take_bit 7 b = b" if "\<not> bit b 7"
    proof (rule bit_word_eqI)
      show "bit (take_bit 7 b) n \<longleftrightarrow> bit b n" if "n < LENGTH(8)" for n
        using that \<open>\<not> bit b 7\<close> by (cases "n = 7") (auto simp: bit_simps)
    qed
    show "\<not> bit b 7" if "take_bit 7 b = b"
      using bit_take_bit_iff [of 7 b 7] by (simp add: that)
  qed
  finally have "b AND 0x80 = 0 \<longleftrightarrow> take_bit 7 b = b" .
  then show ?thesis using take_bit_eq_self_unat [of 7 b] by simp
qed

section \<open>Little-endian byte strings\<close>

fun le_word :: "u8 list \<Rightarrow> 'a::len word" where
  "le_word [] = 0"
| "le_word (b # bs) = (ucast b :: 'a word) OR push_bit 8 (le_word bs)"

fun le_bytes :: "nat \<Rightarrow> 'a::len word \<Rightarrow> u8 list" where
  "le_bytes 0 w = []"
| "le_bytes (Suc n) w = (ucast w :: u8) # le_bytes n (drop_bit 8 w)"

lemma length_le_bytes [simp, byte_simps]: "length (le_bytes n w) = n"
  by (induction n arbitrary: w) auto

lemma le_word_le_bytes: "le_word (le_bytes n w) = take_bit (8 * n) (w :: 'a::len word)"
proof (induction n arbitrary: w)
  case 0
  show ?case by simp
next
  case (Suc n)
  show ?case
    by (simp add: Suc) (auto simp: bit_eq_iff bit_simps not_less)
qed


lemma nth_le_bytes: "i < n \<Longrightarrow> le_bytes n w ! i = ucast (drop_bit (8 * i) w)"
proof (induction n arbitrary: w i)
  case 0
  then show ?case by simp
next
  case (Suc n)
  then show ?case
    by (cases i) (simp_all add: drop_bit_drop_bit add.commute)
qed

lemma bit_le_word:
  "bit (le_word bs :: 'a::len word) j \<longleftrightarrow>
     j < LENGTH('a) \<and> j < 8 * length bs \<and> bit (bs ! (j div 8)) (j mod 8)"
proof (induction bs arbitrary: j)
  case Nil
  show ?case by simp
next
  case (Cons b bs)
  show ?case
  proof (cases "j < 8")
    case True
    then show ?thesis
      by (auto simp: bit_simps dest: bit_imp_le_length)
  next
    case False
    then have "j div 8 = Suc ((j - 8) div 8)" "j mod 8 = (j - 8) mod 8"
      by (auto simp: le_div_geq le_mod_geq)
    with False show ?thesis
      by (auto simp: bit_simps Cons dest: bit_imp_le_length)
  qed
qed

lemma le_bytes_le_word:
  assumes "length bs = n" "8 * n \<le> LENGTH('a)"
  shows "le_bytes n (le_word bs :: 'a::len word) = bs"
proof (rule nth_equalityI)
  fix i
  assume "i < length (le_bytes n (le_word bs :: 'a word))"
  then have i: "i < n" by simp
  show "le_bytes n (le_word bs :: 'a word) ! i = bs ! i"
  proof (rule bit_word_eqI)
    fix k
    assume "k < LENGTH(8)"
    then have "(8 * i + k) div 8 = i" "(8 * i + k) mod 8 = k" "8 * i + k < 8 * n"
      using i by simp_all
    then show "bit (le_bytes n (le_word bs :: 'a word) ! i) k \<longleftrightarrow> bit (bs ! i) k"
      using i assms \<open>k < LENGTH(8)\<close> by (simp add: nth_le_bytes bit_simps bit_le_word)
  qed
qed (use assms in simp)

lemma le_word_le_bytes_64 [byte_simps]: "le_word (le_bytes 8 w) = (w :: u64)"
  by (simp add: le_word_le_bytes take_bit_word_eq_self)

lemma le_word_le_bytes_32 [byte_simps]: "le_word (le_bytes 4 w) = (w :: u32)"
  by (simp add: le_word_le_bytes take_bit_word_eq_self)

lemma le_word_append:
  "le_word (xs @ ys) = le_word xs OR (push_bit (8 * length xs) (le_word ys) :: 'a::len word)"
proof (induction xs)
  case (Cons x xs)
  then show ?case by (simp add: push_bit_or or.assoc)
qed simp
lemma ucast_le_word:
  "8 * length bs \<le> LENGTH('a) \<Longrightarrow> ucast (le_word bs :: 'a::len word) = (le_word bs :: 'b::len word)"
  by (rule bit_word_eqI) (auto simp: bit_simps bit_le_word)

section \<open>Big-endian byte strings\<close>

definition be_word :: "u8 list \<Rightarrow> 'a::len word" where
  "be_word bs = le_word (rev bs)"

definition be_bytes :: "nat \<Rightarrow> 'a::len word \<Rightarrow> u8 list" where
  "be_bytes n w = rev (le_bytes n w)"

lemma length_be_bytes [simp, byte_simps]: "length (be_bytes n w) = n"
  by (simp add: be_bytes_def)

lemma be_word_be_bytes: "be_word (be_bytes n w) = take_bit (8 * n) (w :: 'a::len word)"
  by (simp add: be_word_def be_bytes_def le_word_le_bytes)

lemma be_bytes_be_word:
  "length bs = n \<Longrightarrow> 8 * n \<le> LENGTH('a) \<Longrightarrow> be_bytes n (be_word bs :: 'a::len word) = bs"
  by (simp add: be_word_def be_bytes_def le_bytes_le_word)

lemma be_word_Nil [simp]: "be_word [] = 0"
  by (simp add: be_word_def)

lemma be_word_snoc: "be_word (bs @ [b]) = (ucast b :: 'a::len word) OR push_bit 8 (be_word bs)"
  by (simp add: be_word_def)

lemma be_word_Cons:
  "be_word (b # bs) = be_word bs OR (push_bit (8 * length bs) (ucast b) :: 'a::len word)"
  by (simp add: be_word_def le_word_append)

section \<open>Byte-addressed memory\<close>

type_synonym memory = "addr \<Rightarrow> u8"

definition load :: "memory \<Rightarrow> addr \<Rightarrow> nat \<Rightarrow> u8 list" where
  "load m p n = map (\<lambda>i. m (p + int i)) [0..<n]"

definition store :: "memory \<Rightarrow> addr \<Rightarrow> u8 list \<Rightarrow> memory" where
  "store m p bs = (\<lambda>a. if p \<le> a \<and> a < p + int (length bs) then bs ! nat (a - p) else m a)"

lemma length_load [simp, byte_simps]: "length (load m p n) = n"
  by (simp add: load_def)

lemma load_0 [simp]: "load m p 0 = []"
  by (simp add: load_def)

lemma load_Suc: "load m p (Suc n) = m p # load m (p + 1) n"
  by (simp add: load_def upt_conv_Cons map_Suc_upt [symmetric] add.assoc del: upt_Suc)

lemma nth_load: "i < n \<Longrightarrow> load m p n ! i = m (p + int i)"
  by (simp add: load_def)

lemma load_append: "load m p (a + b) = load m p a @ load m (p + int a) b"
  by (induction a arbitrary: p) (simp_all add: load_Suc add_ac)

lemma store_Nil [simp]: "store m p [] = m"
  by (auto simp: store_def fun_eq_iff)

text \<open>Reading back inside what was stored, and reading outside it.\<close>

lemma load_store_within:
  "k + n \<le> length bs \<Longrightarrow> load (store m p bs) (p + int k) n = take n (drop k bs)"
  by (rule nth_equalityI) (auto simp: nth_load store_def nat_add_distrib add_ac)

lemma load_store_same [byte_simps]: "length bs = n \<Longrightarrow> load (store m p bs) p n = bs"
  using load_store_within [of 0 n bs m p] by simp

lemma load_store_other [byte_simps]:
  "p + int (length bs) \<le> q \<or> q + int n \<le> p \<Longrightarrow> load (store m p bs) q n = load m q n"
  by (rule nth_equalityI) (auto simp: nth_load store_def)

lemma load_cong: "(\<And>a. p \<le> a \<Longrightarrow> a < p + int n \<Longrightarrow> m a = m' a) \<Longrightarrow> load m p n = load m' p n"
  by (rule nth_equalityI) (auto simp: nth_load)

text \<open>\<open>only_writes lo n m m'\<close>: between \<open>m\<close> and \<open>m'\<close> nothing outside the \<open>n\<close> bytes from \<open>lo\<close> on
  has changed.\<close>

definition only_writes :: "addr \<Rightarrow> nat \<Rightarrow> memory \<Rightarrow> memory \<Rightarrow> bool" where
  "only_writes lo n m m' \<longleftrightarrow> (\<forall>a. a < lo \<or> lo + int n \<le> a \<longrightarrow> m' a = m a)"

lemma only_writes_refl [simp, intro]: "only_writes lo n m m"
  by (simp add: only_writes_def)

lemma only_writes_trans [trans]:
  "only_writes lo n m m' \<Longrightarrow> only_writes lo n m' m'' \<Longrightarrow> only_writes lo n m m''"
  by (simp add: only_writes_def)

lemma only_writes_mono:
  "only_writes p k m m' \<Longrightarrow> lo \<le> p \<Longrightarrow> p + int k \<le> lo + int n \<Longrightarrow> only_writes lo n m m'"
  by (auto simp: only_writes_def)

lemma only_writes_store:
  "lo \<le> p \<Longrightarrow> p + int (length bs) \<le> lo + int n \<Longrightarrow> only_writes lo n m (store m p bs)"
  by (auto simp: only_writes_def store_def)

lemma only_writes_load:
  "only_writes lo n m m' \<Longrightarrow> p + int k \<le> lo \<or> lo + int n \<le> p \<Longrightarrow> load m' p k = load m p k"
  by (rule load_cong) (auto simp: only_writes_def)

text \<open>Typed accesses. A cell of \<open>size\<close> bytes obeys the laws of the locale \<open>cell\<close>.\<close>

definition ld8 :: "memory \<Rightarrow> addr \<Rightarrow> u8" where "ld8 m p = le_word (load m p 1)"
definition ld16 :: "memory \<Rightarrow> addr \<Rightarrow> u16" where "ld16 m p = le_word (load m p 2)"
definition ld32 :: "memory \<Rightarrow> addr \<Rightarrow> u32" where "ld32 m p = le_word (load m p 4)"
definition ld64 :: "memory \<Rightarrow> addr \<Rightarrow> u64" where "ld64 m p = le_word (load m p 8)"
definition ld_ptr :: "memory \<Rightarrow> addr \<Rightarrow> addr" where "ld_ptr m p = uint (ld64 m p)"

definition st8 :: "memory \<Rightarrow> addr \<Rightarrow> u8 \<Rightarrow> memory" where "st8 m p v = store m p (le_bytes 1 v)"
definition st16 :: "memory \<Rightarrow> addr \<Rightarrow> u16 \<Rightarrow> memory" where "st16 m p v = store m p (le_bytes 2 v)"
definition st32 :: "memory \<Rightarrow> addr \<Rightarrow> u32 \<Rightarrow> memory" where "st32 m p v = store m p (le_bytes 4 v)"
definition st64 :: "memory \<Rightarrow> addr \<Rightarrow> u64 \<Rightarrow> memory" where "st64 m p v = store m p (le_bytes 8 v)"
definition st_ptr :: "memory \<Rightarrow> addr \<Rightarrow> addr \<Rightarrow> memory" where
  "st_ptr m p q = st64 m p (word_of_int q)"

locale cell =
  fixes ld :: "memory \<Rightarrow> addr \<Rightarrow> 'v"
    and st :: "memory \<Rightarrow> addr \<Rightarrow> 'v \<Rightarrow> memory"
    and size :: nat
    and ok :: "'v \<Rightarrow> bool"
  assumes ld_st_same: "ok v \<Longrightarrow> ld (st m p v) p = v"
    and ld_cong: "load m p size = load m' p size \<Longrightarrow> ld m p = ld m' p"
    and st_only: "only_writes p size m (st m p v)"
begin

lemma ld_st_other:
  "p + int size \<le> q \<or> q + int size \<le> p \<Longrightarrow> ld (st m p v) q = ld m q"
  by (rule ld_cong, rule only_writes_load [OF st_only]) auto

lemma ld_unwritten:
  "only_writes lo n m m' \<Longrightarrow> p + int size \<le> lo \<or> lo + int n \<le> p \<Longrightarrow> ld m' p = ld m p"
  by (rule ld_cong, rule only_writes_load)

lemma st_within:
  "lo \<le> p \<Longrightarrow> p + int size \<le> lo + int n \<Longrightarrow> only_writes lo n m (st m p v)"
  by (rule only_writes_mono [OF st_only])

lemma st_ld_back: "ok v \<Longrightarrow> only_writes lo n (st m p v) m' \<Longrightarrow>
    p + int size \<le> lo \<or> lo + int n \<le> p \<Longrightarrow> ld m' p = v"
  by (simp add: ld_unwritten ld_st_same)

end

lemma le_bytes_ld32 [byte_simps]: "le_bytes 4 (ld32 m p) = load m p 4"
  by (simp add: ld32_def le_bytes_le_word)

lemma le_bytes_ld64 [byte_simps]: "le_bytes 8 (ld64 m p) = load m p 8"
  by (simp add: ld64_def le_bytes_le_word)

interpretation c8: cell ld8 st8 1 "\<lambda>_. True"
  by unfold_locales
    (simp_all add: ld8_def st8_def load_store_same le_word_le_bytes take_bit_word_eq_self
      only_writes_store)

interpretation c16: cell ld16 st16 2 "\<lambda>_. True"
  by unfold_locales
    (simp_all add: ld16_def st16_def load_store_same le_word_le_bytes take_bit_word_eq_self
      only_writes_store)

interpretation c32: cell ld32 st32 4 "\<lambda>_. True"
  by unfold_locales
    (simp_all add: ld32_def st32_def load_store_same le_word_le_bytes take_bit_word_eq_self
      only_writes_store)

interpretation c64: cell ld64 st64 8 "\<lambda>_. True"
  by unfold_locales
    (simp_all add: ld64_def st64_def load_store_same le_word_le_bytes take_bit_word_eq_self
      only_writes_store)

interpretation cptr: cell ld_ptr st_ptr 8 "\<lambda>q. 0 \<le> q \<and> q < 18446744073709551616"
proof unfold_locales
  fix v :: addr and m p
  assume "0 \<le> v \<and> v < 18446744073709551616"
  then show "ld_ptr (st_ptr m p v) p = v"
    by (simp add: ld_ptr_def st_ptr_def c64.ld_st_same uint_word_of_int)
next
  fix m m' :: memory and p
  assume "load m p 8 = load m' p 8"
  then show "ld_ptr m p = ld_ptr m' p"
    by (simp add: ld_ptr_def ld64_def)
next
  fix p m and v :: addr
  show "only_writes p 8 m (st_ptr m p v)"
    unfolding st_ptr_def by (rule c64.st_only)
qed

end
