(* ===== verification/Pb_Types.thy ===== *)
theory Pb_Types
  imports Prelude
begin

text \<open>
  \<open>Reservation/Pods/nanopb/pb.h\<close>, as the pod is built here (\<open>PB_FIELD_32BIT\<close>,
  \<open>PB_ENABLE_MALLOC\<close>, error messages, custom streams, 64-bit integers): the field type bytes, the
  field descriptor \<open>pb_field_t\<close>, wire types, and the layout of the structures the library itself
  reads from memory (bytes arrays, callbacks, extensions). A descriptor array is the list of its
  entries; reading at or past its end gives the terminator \<open>PB_LAST_FIELD\<close>.
\<close>

named_theorems pb_consts \<open>the numeric constants of pb.h\<close>

section \<open>Field types\<close>

type_synonym pb_type = u8
type_synonym pb_size = u32

definition PB_LTYPE_BOOL :: pb_type where [pb_consts]: "PB_LTYPE_BOOL = 0x00"
definition PB_LTYPE_VARINT :: pb_type where [pb_consts]: "PB_LTYPE_VARINT = 0x01"
definition PB_LTYPE_UVARINT :: pb_type where [pb_consts]: "PB_LTYPE_UVARINT = 0x02"
definition PB_LTYPE_SVARINT :: pb_type where [pb_consts]: "PB_LTYPE_SVARINT = 0x03"
definition PB_LTYPE_FIXED32 :: pb_type where [pb_consts]: "PB_LTYPE_FIXED32 = 0x04"
definition PB_LTYPE_FIXED64 :: pb_type where [pb_consts]: "PB_LTYPE_FIXED64 = 0x05"
definition PB_LTYPE_LAST_PACKABLE :: pb_type where [pb_consts]: "PB_LTYPE_LAST_PACKABLE = 0x05"
definition PB_LTYPE_BYTES :: pb_type where [pb_consts]: "PB_LTYPE_BYTES = 0x06"
definition PB_LTYPE_STRING :: pb_type where [pb_consts]: "PB_LTYPE_STRING = 0x07"
definition PB_LTYPE_SUBMESSAGE :: pb_type where [pb_consts]: "PB_LTYPE_SUBMESSAGE = 0x08"
definition PB_LTYPE_EXTENSION :: pb_type where [pb_consts]: "PB_LTYPE_EXTENSION = 0x09"
definition PB_LTYPE_FIXED_LENGTH_BYTES :: pb_type where
  [pb_consts]: "PB_LTYPE_FIXED_LENGTH_BYTES = 0x0A"
definition PB_LTYPE_MASK :: pb_type where [pb_consts]: "PB_LTYPE_MASK = 0x0F"

definition PB_HTYPE_REQUIRED :: pb_type where [pb_consts]: "PB_HTYPE_REQUIRED = 0x00"
definition PB_HTYPE_OPTIONAL :: pb_type where [pb_consts]: "PB_HTYPE_OPTIONAL = 0x10"
definition PB_HTYPE_REPEATED :: pb_type where [pb_consts]: "PB_HTYPE_REPEATED = 0x20"
definition PB_HTYPE_ONEOF :: pb_type where [pb_consts]: "PB_HTYPE_ONEOF = 0x30"
definition PB_HTYPE_MASK :: pb_type where [pb_consts]: "PB_HTYPE_MASK = 0x30"

definition PB_ATYPE_STATIC :: pb_type where [pb_consts]: "PB_ATYPE_STATIC = 0x00"
definition PB_ATYPE_POINTER :: pb_type where [pb_consts]: "PB_ATYPE_POINTER = 0x80"
definition PB_ATYPE_CALLBACK :: pb_type where [pb_consts]: "PB_ATYPE_CALLBACK = 0x40"
definition PB_ATYPE_MASK :: pb_type where [pb_consts]: "PB_ATYPE_MASK = 0xC0"

definition PB_ATYPE :: "pb_type \<Rightarrow> pb_type" where "PB_ATYPE x = x AND PB_ATYPE_MASK"
definition PB_HTYPE :: "pb_type \<Rightarrow> pb_type" where "PB_HTYPE x = x AND PB_HTYPE_MASK"
definition PB_LTYPE :: "pb_type \<Rightarrow> pb_type" where "PB_LTYPE x = x AND PB_LTYPE_MASK"

lemmas pb_type_defs = PB_ATYPE_def PB_HTYPE_def PB_LTYPE_def

definition PB_SIZE_MAX :: pb_size where [pb_consts]: "PB_SIZE_MAX = 0xFFFFFFFF"
definition PB_MAX_REQUIRED_FIELDS :: nat where [pb_consts]: "PB_MAX_REQUIRED_FIELDS = 64"

text \<open>\<open>sizeof(void*)\<close>, \<open>sizeof(bool)\<close> of the build.\<close>

definition sizeof_ptr :: nat where [pb_consts]: "sizeof_ptr = 8"
definition sizeof_bool :: nat where [pb_consts]: "sizeof_bool = 1"

lemma htype_distinct [simp]:
  "PB_HTYPE_REQUIRED \<noteq> PB_HTYPE_OPTIONAL" "PB_HTYPE_OPTIONAL \<noteq> PB_HTYPE_REQUIRED"
  "PB_HTYPE_REQUIRED \<noteq> PB_HTYPE_REPEATED" "PB_HTYPE_REPEATED \<noteq> PB_HTYPE_REQUIRED"
  "PB_HTYPE_REQUIRED \<noteq> PB_HTYPE_ONEOF" "PB_HTYPE_ONEOF \<noteq> PB_HTYPE_REQUIRED"
  "PB_HTYPE_OPTIONAL \<noteq> PB_HTYPE_REPEATED" "PB_HTYPE_REPEATED \<noteq> PB_HTYPE_OPTIONAL"
  "PB_HTYPE_OPTIONAL \<noteq> PB_HTYPE_ONEOF" "PB_HTYPE_ONEOF \<noteq> PB_HTYPE_OPTIONAL"
  "PB_HTYPE_REPEATED \<noteq> PB_HTYPE_ONEOF" "PB_HTYPE_ONEOF \<noteq> PB_HTYPE_REPEATED"
  by (simp_all add: pb_consts)

lemma htype_cases:
  "PB_HTYPE t = PB_HTYPE_REQUIRED \<or> PB_HTYPE t = PB_HTYPE_OPTIONAL \<or>
   PB_HTYPE t = PB_HTYPE_REPEATED \<or> PB_HTYPE t = PB_HTYPE_ONEOF"
proof -
  have "PB_HTYPE t = (if bit t 4 then 16 else 0) OR (if bit t 5 then 32 else 0)"
    by (rule bit_word_eqI) (auto simp: PB_HTYPE_def pb_consts bit_simps)
  then show ?thesis
    by (auto simp: pb_consts)
qed

section \<open>Field descriptors\<close>

text \<open>\<open>struct pb_field_s\<close>; the C field \<open>type\<close> is \<open>ftype\<close>. \<open>size_offset\<close> is a \<open>pb_ssize_t\<close>: read it
  with \<open>sint\<close>. \<open>ptr\<close> is the address of the submessage's descriptor array or of the default value.\<close>

record pb_field =
  tag :: pb_size
  ftype :: pb_type
  data_offset :: pb_size
  size_offset :: "32 word"
  data_size :: pb_size
  array_size :: pb_size
  ptr :: addr

definition PB_LAST_FIELD :: pb_field where
  "PB_LAST_FIELD = \<lparr>tag = 0, ftype = 0, data_offset = 0, size_offset = 0, data_size = 0,
     array_size = 0, ptr = 0\<rparr>"

definition field_at :: "pb_field list \<Rightarrow> nat \<Rightarrow> pb_field" where
  "field_at fs i = (if i < length fs then fs ! i else PB_LAST_FIELD)"

lemma tag_PB_LAST_FIELD [simp]: "tag PB_LAST_FIELD = 0"
  by (simp add: PB_LAST_FIELD_def)

text \<open>A descriptor array whose terminator is at its end: no earlier entry has tag 0.\<close>

definition fields_wf :: "pb_field list \<Rightarrow> bool" where
  "fields_wf fs \<longleftrightarrow> (\<forall>f \<in> set fs. tag f \<noteq> 0)"

lemma field_at_tag:
  "fields_wf fs \<Longrightarrow> tag (field_at fs i) = 0 \<longleftrightarrow> length fs \<le> i"
  by (auto simp: fields_wf_def field_at_def)

section \<open>Wire types\<close>

type_synonym pb_wire_type = u32

definition PB_WT_VARINT :: pb_wire_type where [pb_consts]: "PB_WT_VARINT = 0"
definition PB_WT_64BIT :: pb_wire_type where [pb_consts]: "PB_WT_64BIT = 1"
definition PB_WT_STRING :: pb_wire_type where [pb_consts]: "PB_WT_STRING = 2"
definition PB_WT_32BIT :: pb_wire_type where [pb_consts]: "PB_WT_32BIT = 5"

section \<open>Structures the library reads from memory\<close>

text \<open>\<open>struct pb_bytes_array_s\<close>: a 4-byte size, then the bytes.\<close>

definition bytes_size :: "memory \<Rightarrow> addr \<Rightarrow> pb_size" where "bytes_size m p = ld32 m p"
definition bytes_bytes :: "addr \<Rightarrow> addr" where "bytes_bytes p = p + 4"

definition PB_BYTES_ARRAY_T_ALLOCSIZE :: "u64 \<Rightarrow> u64" where
  "PB_BYTES_ARRAY_T_ALLOCSIZE n = n + 4"

text \<open>\<open>struct pb_callback_s\<close>: the function pointer, then the \<open>arg\<close> pointer, whose address the
  callback receives.\<close>

definition callback_funcs :: "memory \<Rightarrow> addr \<Rightarrow> addr" where "callback_funcs m p = ld_ptr m p"
definition callback_arg_at :: "addr \<Rightarrow> addr" where "callback_arg_at p = p + 8"

text \<open>\<open>struct pb_extension_type_s\<close>: \<open>decode\<close>, \<open>encode\<close>, \<open>arg\<close>.\<close>

definition ext_type_decode :: "memory \<Rightarrow> addr \<Rightarrow> addr" where "ext_type_decode m p = ld_ptr m p"
definition ext_type_encode :: "memory \<Rightarrow> addr \<Rightarrow> addr" where
  "ext_type_encode m p = ld_ptr m (p + 8)"
definition ext_type_arg :: "memory \<Rightarrow> addr \<Rightarrow> addr" where "ext_type_arg m p = ld_ptr m (p + 16)"

text \<open>\<open>struct pb_extension_s\<close>: \<open>type\<close>, \<open>dest\<close>, \<open>next\<close>, \<open>found\<close>.\<close>

definition ext_type :: "memory \<Rightarrow> addr \<Rightarrow> addr" where "ext_type m p = ld_ptr m p"
definition ext_dest_at :: "addr \<Rightarrow> addr" where "ext_dest_at p = p + 8"
definition ext_dest :: "memory \<Rightarrow> addr \<Rightarrow> addr" where "ext_dest m p = ld_ptr m (ext_dest_at p)"
definition ext_next :: "memory \<Rightarrow> addr \<Rightarrow> addr" where "ext_next m p = ld_ptr m (p + 16)"
definition ext_found_at :: "addr \<Rightarrow> addr" where "ext_found_at p = p + 24"

section \<open>Error messages\<close>

text \<open>\<open>PB_SET_ERROR\<close>: the first message stays.\<close>

definition PB_SET_ERROR :: "string option \<Rightarrow> string \<Rightarrow> string option" where
  "PB_SET_ERROR errmsg msg = (case errmsg of Some e \<Rightarrow> Some e | None \<Rightarrow> Some msg)"

definition PB_GET_ERROR :: "string option \<Rightarrow> string" where
  "PB_GET_ERROR errmsg = (case errmsg of Some e \<Rightarrow> e | None \<Rightarrow> ''(none)'')"

lemma PB_SET_ERROR_simps [simp]:
  "PB_SET_ERROR None msg = Some msg"
  "PB_SET_ERROR (Some e) msg = Some e"
  "PB_SET_ERROR oe msg \<noteq> None"
  by (simp_all add: PB_SET_ERROR_def split: option.splits)

end
