(* ===== verification/Pb_Common.thy ===== *)
theory Pb_Common
  imports Pb_Types
begin

text \<open>
  \<open>pb_common.c\<close>: the iterator over a descriptor array, which computes the address of each field
  and of its size or presence cell from the offsets in the descriptors. The C pointer \<open>pos\<close> is the
  index of the entry in the array \<open>start\<close>. The lemmas give the iterator's closed form
  (\<open>iter_at\<close>), show that stepping it visits every field once at its address and then wraps, and
  that the search loops return for every well-formed array.
\<close>

record pb_field_iter =
  start :: "pb_field list"
  pos :: nat
  required_field_index :: nat
  dest_struct :: addr
  pData :: addr
  pSize :: addr

definition pos_field :: "pb_field_iter \<Rightarrow> pb_field" where
  "pos_field it = field_at (start it) (pos it)"

definition pb_field_iter_begin :: "pb_field list \<Rightarrow> addr \<Rightarrow> bool \<times> pb_field_iter" where
  "pb_field_iter_begin fs dest =
     (let f = field_at fs 0; pd = dest + uint (data_offset f) in
      (tag f \<noteq> 0,
       \<lparr>start = fs, pos = 0, required_field_index = 0, dest_struct = dest,
        pData = pd, pSize = pd + sint (size_offset f)\<rparr>))"

definition pb_field_iter_next :: "pb_field_iter \<Rightarrow> bool \<times> pb_field_iter" where
  "pb_field_iter_next it =
     (let prev = pos_field it in
      if tag prev = 0 then (False, it)
      else
        let it1 = it\<lparr>pos := Suc (pos it)\<rparr>; f = pos_field it1 in
        if tag f = 0 then (False, snd (pb_field_iter_begin (start it) (dest_struct it)))
        else if PB_HTYPE (ftype prev) = PB_HTYPE_ONEOF \<and> PB_HTYPE (ftype f) = PB_HTYPE_ONEOF \<and>
                data_offset f = PB_SIZE_MAX
        then (True, it1)
        else
          let prev_size =
                (if PB_ATYPE (ftype prev) = PB_ATYPE_STATIC \<and>
                    PB_HTYPE (ftype prev) = PB_HTYPE_REPEATED
                 then uint (ucast (data_size prev) * ucast (array_size prev) :: u64)
                 else if PB_ATYPE (ftype prev) = PB_ATYPE_POINTER then int sizeof_ptr
                 else uint (data_size prev));
              pd = pData it + prev_size + uint (data_offset f)
          in (True, it1\<lparr>
                required_field_index :=
                  (if PB_HTYPE (ftype prev) = PB_HTYPE_REQUIRED
                   then Suc (required_field_index it) else required_field_index it),
                pData := pd,
                pSize := pd + sint (size_offset f)\<rparr>))"

text \<open>The loop \<open>do { if (found) return true; next; } while (iter->pos != start)\<close>. It returns
  \<open>None\<close> if it never gets back to where it started.\<close>

partial_function (option) iter_search ::
  "(pb_field \<Rightarrow> bool) \<Rightarrow> nat \<Rightarrow> pb_field_iter \<Rightarrow> (bool \<times> pb_field_iter) option" where
  "iter_search found start_pos it =
     (if found (pos_field it) then Some (True, it)
      else
        let it' = snd (pb_field_iter_next it) in
        if pos it' \<noteq> start_pos then iter_search found start_pos it' else Some (False, it'))"

definition pb_field_iter_find :: "pb_field_iter \<Rightarrow> u32 \<Rightarrow> (bool \<times> pb_field_iter) option" where
  "pb_field_iter_find it t =
     iter_search (\<lambda>f. tag f = t \<and> PB_LTYPE (ftype f) \<noteq> PB_LTYPE_EXTENSION) (pos it) it"

text \<open>The loops over all fields, \<open>begin; do body while (next)\<close>. \<open>next\<close> only returns true for a
  later entry, so they return whenever every body does.\<close>

lemma pb_field_iter_next_True:
  "pb_field_iter_next it = (True, it') \<Longrightarrow>
     start it' = start it \<and> pos it' = Suc (pos it) \<and> pos it' < length (start it)"
  by (auto simp: pb_field_iter_next_def Let_def pos_field_def field_at_def split: if_splits)

function iter_do ::
  "(pb_field_iter \<Rightarrow> 's \<Rightarrow> (bool \<times> 's) option) \<Rightarrow> pb_field_iter \<Rightarrow> 's \<Rightarrow> (bool \<times> 's) option" where
  "iter_do body it s =
     and_then_opt (body it s) (\<lambda>s'.
       case pb_field_iter_next it of (again, it') \<Rightarrow>
         if again then iter_do body it' s' else Some (True, s'))"
  by pat_completeness auto
termination
  by (relation "measure (\<lambda>(body, it, s). length (start it) - pos it)")
    (auto dest!: pb_field_iter_next_True [OF sym])

declare iter_do.simps [simp del]

section \<open>The iterator in closed form\<close>

text \<open>The address of the data of entry \<open>i\<close>, and of its size cell.\<close>

definition in_union :: "pb_field list \<Rightarrow> nat \<Rightarrow> bool" where
  "in_union fs i \<longleftrightarrow> PB_HTYPE (ftype (field_at fs i)) = PB_HTYPE_ONEOF \<and>
     PB_HTYPE (ftype (field_at fs (Suc i))) = PB_HTYPE_ONEOF \<and>
     data_offset (field_at fs (Suc i)) = PB_SIZE_MAX"

definition member_size :: "pb_field \<Rightarrow> int" where
  "member_size f =
     (if PB_ATYPE (ftype f) = PB_ATYPE_STATIC \<and> PB_HTYPE (ftype f) = PB_HTYPE_REPEATED
      then uint (data_size f) * uint (array_size f)
      else if PB_ATYPE (ftype f) = PB_ATYPE_POINTER then 8
      else uint (data_size f))"

fun data_addr :: "pb_field list \<Rightarrow> addr \<Rightarrow> nat \<Rightarrow> addr" where
  "data_addr fs dest 0 = dest + uint (data_offset (field_at fs 0))"
| "data_addr fs dest (Suc i) =
     (if in_union fs i then data_addr fs dest i
      else data_addr fs dest i + member_size (field_at fs i) +
             uint (data_offset (field_at fs (Suc i))))"

fun size_addr :: "pb_field list \<Rightarrow> addr \<Rightarrow> nat \<Rightarrow> addr" where
  "size_addr fs dest 0 = data_addr fs dest 0 + sint (size_offset (field_at fs 0))"
| "size_addr fs dest (Suc i) =
     (if in_union fs i then size_addr fs dest i
      else data_addr fs dest (Suc i) + sint (size_offset (field_at fs (Suc i))))"

definition required_before :: "pb_field list \<Rightarrow> nat \<Rightarrow> nat" where
  "required_before fs i =
     length (filter (\<lambda>f. PB_HTYPE (ftype f) = PB_HTYPE_REQUIRED) (take i fs))"

definition iter_at :: "pb_field list \<Rightarrow> addr \<Rightarrow> nat \<Rightarrow> pb_field_iter" where
  "iter_at fs dest i = \<lparr>start = fs, pos = i, required_field_index = required_before fs i,
     dest_struct = dest, pData = data_addr fs dest i, pSize = size_addr fs dest i\<rparr>"

lemma iter_at_sel [simp]:
  "start (iter_at fs dest i) = fs" "pos (iter_at fs dest i) = i"
  "required_field_index (iter_at fs dest i) = required_before fs i"
  "dest_struct (iter_at fs dest i) = dest"
  "pData (iter_at fs dest i) = data_addr fs dest i"
  "pSize (iter_at fs dest i) = size_addr fs dest i"
  "pos_field (iter_at fs dest i) = field_at fs i"
  by (simp_all add: iter_at_def pos_field_def)

lemma uint_mult_u32: "uint (ucast (a :: u32) * ucast (b :: u32) :: u64) = uint a * uint b"
proof -
  have "uint a * uint b < 2 ^ 32 * 2 ^ 32"
    using uint_lt2p [of a] uint_lt2p [of b] uint_ge_0 [of a] uint_ge_0 [of b]
    by (intro mult_strict_mono) auto
  then show ?thesis
    by (simp add: uint_word_ariths unsigned_ucast_eq take_bit_eq_mod mod_mult_eq)
qed

lemma pb_field_iter_begin_eq:
  "pb_field_iter_begin fs dest = (tag (field_at fs 0) \<noteq> 0, iter_at fs dest 0)"
  by (simp add: pb_field_iter_begin_def iter_at_def Let_def required_before_def)

lemma required_before_Suc:
  "i < length fs \<Longrightarrow> required_before fs (Suc i) = required_before fs i +
     (if PB_HTYPE (ftype (field_at fs i)) = PB_HTYPE_REQUIRED then 1 else 0)"
  by (simp add: required_before_def take_Suc_conv_app_nth field_at_def)

lemma pb_field_iter_next_eq:
  assumes "fields_wf fs" "i < length fs"
  shows "pb_field_iter_next (iter_at fs dest i) =
    (if Suc i < length fs then (True, iter_at fs dest (Suc i)) else (False, iter_at fs dest 0))"
proof -
  have "tag (field_at fs i) \<noteq> 0"
    using assms by (simp add: field_at_tag)
  moreover have "tag (field_at fs (Suc i)) = 0 \<longleftrightarrow> \<not> Suc i < length fs"
    using assms by (simp add: field_at_tag not_less)
  moreover have "pos_field (iter_at fs dest i\<lparr>pos := Suc i\<rparr>) = field_at fs (Suc i)"
    by (simp add: pos_field_def)
  ultimately show ?thesis
    using assms
    by (simp add: pb_field_iter_next_def Let_def pb_field_iter_begin_eq in_union_def
        member_size_def uint_mult_u32 required_before_Suc)
       (auto simp: iter_at_def in_union_def member_size_def required_before_Suc pb_consts)
qed

text \<open>So a loop over all fields runs its body once per entry, in order, at the entry's address.\<close>

fun run_all :: "('i \<Rightarrow> 's \<Rightarrow> (bool \<times> 's) option) \<Rightarrow> 'i list \<Rightarrow> 's \<Rightarrow> (bool \<times> 's) option" where
  "run_all body [] s = Some (True, s)"
| "run_all body (it # its) s = and_then_opt (body it s) (run_all body its)"

lemma iter_do_from:
  assumes "fields_wf fs" "i < length fs"
  shows "iter_do body (iter_at fs dest i) s =
    run_all body (map (iter_at fs dest) [i..<length fs]) s"
  using assms(2)
proof (induction "length fs - i" arbitrary: i s)
  case 0
  then show ?case by simp
next
  case (Suc d)
  have "run_all body (map (iter_at fs dest) [Suc i..<length fs]) s' =
      (if Suc i < length fs then iter_do body (iter_at fs dest (Suc i)) s' else Some (True, s'))"
    for s'
    using Suc by auto
  then have "(\<lambda>s'. case pb_field_iter_next (iter_at fs dest i) of (again, it') \<Rightarrow>
      if again then iter_do body it' s' else Some (True, s')) =
      run_all body (map (iter_at fs dest) [Suc i..<length fs])"
    using assms(1) Suc.prems by (auto simp: fun_eq_iff pb_field_iter_next_eq)
  with Suc.prems show ?case
    by (simp add: iter_do.simps [of body "iter_at fs dest i"] upt_conv_Cons)
qed

text \<open>The search visits the entries from \<open>j\<close> on, round the end, up to where it started.\<close>

definition visited :: "nat \<Rightarrow> nat \<Rightarrow> nat \<Rightarrow> nat set" where
  "visited n i j = (if j < i then {j..<i} else {j..<n} \<union> {0..<i})"

lemma visited_step:
  assumes "j < n" "i < n" "j' = (if Suc j < n then Suc j else 0)"
  shows "visited n i j = (if j' = i then {j} else insert j (visited n i j'))"
  using assms by (auto simp: visited_def split: if_splits)

lemma iter_search_result:
  assumes wf: "fields_wf fs" and "i < length fs" "j < length fs"
  shows "(\<exists>k < length fs. found (field_at fs k) \<and>
        iter_search found i (iter_at fs dest j) = Some (True, iter_at fs dest k)) \<or>
    (\<forall>k \<in> visited (length fs) i j. \<not> found (field_at fs k)) \<and>
      iter_search found i (iter_at fs dest j) = Some (False, iter_at fs dest i)"
  using assms(2,3)
proof (induction "card (visited (length fs) i j)" arbitrary: j rule: less_induct)
  case less
  let ?n = "length fs"
  define j' where "j' = (if Suc j < ?n then Suc j else 0)"
  have j': "j' < ?n"
    using less.prems by (auto simp: j'_def)
  have step: "snd (pb_field_iter_next (iter_at fs dest j)) = iter_at fs dest j'"
    using wf less.prems by (simp add: pb_field_iter_next_eq j'_def)
  note unfold = iter_search.simps [of found i "iter_at fs dest j"] step
  note vis = visited_step [OF less.prems(2) less.prems(1) j'_def]
  show ?case
  proof (cases "found (field_at fs j) \<or> j' = i")
    case True
    then show ?thesis
      using less.prems j' vis by (auto simp: unfold)
  next
    case False
    have "j \<notin> visited ?n i j'" "finite (visited ?n i j')"
      using False less.prems by (auto simp: visited_def j'_def split: if_splits)
    then have "card (visited ?n i j') < card (visited ?n i j)"
      using vis False by simp
    from less.hyps [OF this less.prems(1) j'] show ?thesis
      using False vis by (simp add: unfold)
  qed
qed

lemma iter_search_from_start:
  assumes "fields_wf fs" "i < length fs"
  shows "(\<exists>k < length fs. found (field_at fs k) \<and>
        iter_search found i (iter_at fs dest i) = Some (True, iter_at fs dest k)) \<or>
    (\<forall>k < length fs. \<not> found (field_at fs k)) \<and>
      iter_search found i (iter_at fs dest i) = Some (False, iter_at fs dest i)"
proof -
  have "visited (length fs) i i = {..<length fs}"
    using assms(2) by (auto simp: visited_def)
  then show ?thesis
    using iter_search_result [OF assms(1) assms(2) assms(2), of found dest] by auto
qed

text \<open>On an empty descriptor array the search looks at the terminator once.\<close>

lemma iter_search_empty:
  "iter_search found 0 (iter_at [] dest 0) =
     Some (found PB_LAST_FIELD, iter_at [] dest 0)"
proof -
  have "pb_field_iter_next (iter_at [] dest 0) = (False, iter_at [] dest 0)"
    by (simp add: pb_field_iter_next_def Let_def field_at_def)
  then show ?thesis
    by (simp add: iter_search.simps field_at_def)
qed

end
