(* ===== verification/Pb_Ostream.thy ===== *)
theory Pb_Ostream
  imports Pb_Types
begin

text \<open>
  The output streams of \<open>pb_encode.c\<close> and the encoders of single wire values: \<open>buf_write\<close>,
  \<open>pb_ostream_from_buffer\<close>, \<open>pb_write\<close>, \<open>pb_encode_varint\<close>, \<open>pb_encode_svarint\<close>,
  \<open>pb_encode_fixed32\<close>, \<open>pb_encode_fixed64\<close>, \<open>pb_encode_tag\<close>, \<open>pb_encode_tag_for_field\<close> and
  \<open>pb_encode_string\<close>. A stream whose callback is NULL only counts.

  The predicate \<open>emits\<close> is the contract of every encoder: a sizing stream counts exactly the bytes
  a writing stream stores, and a writing stream fails exactly when they do not fit. It composes,
  so the encoders of fields and messages inherit it.
\<close>

section \<open>Streams\<close>

text \<open>The callback may change the user state of the stream; \<open>None\<close> is the NULL callback.\<close>

type_synonym 's ocallback = "'s \<Rightarrow> u8 list \<Rightarrow> bool \<times> 's"

record 's pb_ostream =
  os_callback :: "'s ocallback option"
  os_state :: 's
  max_size :: u64
  bytes_written :: u64
  os_errmsg :: "string option"

definition os_error :: "'s pb_ostream \<Rightarrow> string \<Rightarrow> bool \<times> 's pb_ostream" where
  "os_error s msg = (False, s\<lparr>os_errmsg := PB_SET_ERROR (os_errmsg s) msg\<rparr>)"

text \<open>The state of a buffer stream is its \<open>dest\<close> pointer: here the bytes stored so far from the
  start of the buffer, since the pointer only advances by what is stored.\<close>

definition buf_write :: "u8 list ocallback" where
  "buf_write st buf = (True, st @ buf)"

definition pb_ostream_from_buffer :: "u64 \<Rightarrow> u8 list pb_ostream" where
  "pb_ostream_from_buffer bufsize = \<lparr>os_callback = Some buf_write, os_state = [],
     max_size = bufsize, bytes_written = 0, os_errmsg = None\<rparr>"

text \<open>The state of a sizing stream is never used.\<close>

definition PB_OSTREAM_SIZING :: "'s \<Rightarrow> 's pb_ostream" where
  "PB_OSTREAM_SIZING st = \<lparr>os_callback = None, os_state = st, max_size = 0, bytes_written = 0,
     os_errmsg = None\<rparr>"

text \<open>\<open>buf\<close> holds the bytes at the C pointer, at least \<open>count\<close> of them; NULL is the empty list.\<close>

definition pb_write :: "'s pb_ostream \<Rightarrow> u8 list \<Rightarrow> u64 \<Rightarrow> bool \<times> 's pb_ostream" where
  "pb_write s buf count =
     (case (if count > 0 then os_callback s else None) of
        Some cb \<Rightarrow>
          (if bytes_written s + count < bytes_written s \<or> bytes_written s + count > max_size s
           then os_error s ''stream full''
           else case cb (os_state s) (take (unat count) buf) of (ok, st) \<Rightarrow>
             let s1 = s\<lparr>os_state := st\<rparr> in
             if \<not> ok then os_error s1 ''io error''
             else (True, s1\<lparr>bytes_written := bytes_written s1 + count\<rparr>))
      | None \<Rightarrow> (True, s\<lparr>bytes_written := bytes_written s + count\<rparr>))"

section \<open>Integers, tags and strings\<close>

text \<open>The loop \<open>while (value) { buffer[i] = (value & 0x7F) | 0x80; value >>= 7; i++; }\<close>: the
  bytes it puts in \<open>buffer\<close>.\<close>

function varint_loop :: "u64 \<Rightarrow> u8 list" where
  "varint_loop v =
     (if v = 0 then [] else (ucast (v AND 0x7F) OR 0x80) # varint_loop (drop_bit 7 v))"
  by pat_completeness auto
termination
  by (relation "measure unat") (auto intro: drop_bit_less)

declare varint_loop.simps [simp del]

definition pb_encode_varint :: "'s pb_ostream \<Rightarrow> u64 \<Rightarrow> bool \<times> 's pb_ostream" where
  "pb_encode_varint s v =
     (if v \<le> 0x7F then pb_write s [ucast v] 1
      else
        let buffer = varint_loop v; i = length buffer in
        pb_write s (buffer[i - 1 := buffer ! (i - 1) AND 0x7F]) (of_nat i))"

text \<open>\<open>pb_int64_t\<close> values are words read with \<open>sint\<close>; \<open>value < 0\<close> is the sign bit.\<close>

definition zigzag :: "u64 \<Rightarrow> u64" where
  "zigzag v = (if sint v < 0 then NOT (push_bit 1 v) else push_bit 1 v)"

definition pb_encode_svarint :: "'s pb_ostream \<Rightarrow> u64 \<Rightarrow> bool \<times> 's pb_ostream" where
  "pb_encode_svarint s v = pb_encode_varint s (zigzag v)"

definition pb_encode_fixed32 :: "memory \<Rightarrow> 's pb_ostream \<Rightarrow> addr \<Rightarrow> bool \<times> 's pb_ostream" where
  "pb_encode_fixed32 m s p =
     (let val = ld32 m p in
      pb_write s [ucast (val AND 0xFF), ucast (drop_bit 8 val AND 0xFF),
        ucast (drop_bit 16 val AND 0xFF), ucast (drop_bit 24 val AND 0xFF)] 4)"

definition pb_encode_fixed64 :: "memory \<Rightarrow> 's pb_ostream \<Rightarrow> addr \<Rightarrow> bool \<times> 's pb_ostream" where
  "pb_encode_fixed64 m s p =
     (let val = ld64 m p in
      pb_write s [ucast (val AND 0xFF), ucast (drop_bit 8 val AND 0xFF),
        ucast (drop_bit 16 val AND 0xFF), ucast (drop_bit 24 val AND 0xFF),
        ucast (drop_bit 32 val AND 0xFF), ucast (drop_bit 40 val AND 0xFF),
        ucast (drop_bit 48 val AND 0xFF), ucast (drop_bit 56 val AND 0xFF)] 8)"

definition pb_encode_tag ::
  "'s pb_ostream \<Rightarrow> pb_wire_type \<Rightarrow> u32 \<Rightarrow> bool \<times> 's pb_ostream" where
  "pb_encode_tag s wiretype field_number =
     pb_encode_varint s (push_bit 3 (ucast field_number) OR ucast wiretype)"

definition wire_type_of_ltype :: "pb_type \<Rightarrow> pb_wire_type option" where
  "wire_type_of_ltype lt =
     (if lt = PB_LTYPE_BOOL \<or> lt = PB_LTYPE_VARINT \<or> lt = PB_LTYPE_UVARINT \<or> lt = PB_LTYPE_SVARINT
      then Some PB_WT_VARINT
      else if lt = PB_LTYPE_FIXED32 then Some PB_WT_32BIT
      else if lt = PB_LTYPE_FIXED64 then Some PB_WT_64BIT
      else if lt = PB_LTYPE_BYTES \<or> lt = PB_LTYPE_STRING \<or> lt = PB_LTYPE_SUBMESSAGE \<or>
              lt = PB_LTYPE_FIXED_LENGTH_BYTES
      then Some PB_WT_STRING
      else None)"

definition pb_encode_tag_for_field ::
  "'s pb_ostream \<Rightarrow> pb_field \<Rightarrow> bool \<times> 's pb_ostream" where
  "pb_encode_tag_for_field s f =
     (case wire_type_of_ltype (PB_LTYPE (ftype f)) of
        Some wiretype \<Rightarrow> pb_encode_tag s wiretype (tag f)
      | None \<Rightarrow> os_error s ''invalid field type'')"

definition pb_encode_string ::
  "'s pb_ostream \<Rightarrow> u8 list \<Rightarrow> u64 \<Rightarrow> bool \<times> 's pb_ostream" where
  "pb_encode_string s buffer n =
     and_then (pb_encode_varint s n) (\<lambda>s. pb_write s buffer n)"

section \<open>The wire format of a varint\<close>

function varint_bytes :: "u64 \<Rightarrow> u8 list" where
  "varint_bytes v =
     (if v \<le> 0x7F then [ucast v]
      else (ucast (v AND 0x7F) OR 0x80) # varint_bytes (drop_bit 7 v))"
  by pat_completeness auto
termination
  by (relation "measure unat") (auto intro!: drop_bit_less)

declare varint_bytes.simps [simp del]

lemma varint_bytes_nonempty [simp]: "varint_bytes v \<noteq> []"
  by (subst varint_bytes.simps) simp

lemma le_7F_iff: "v \<le> 0x7F \<longleftrightarrow> drop_bit 7 (v :: u64) = 0"
proof -
  have "drop_bit 7 v = 0 \<longleftrightarrow> unat (drop_bit 7 v) = 0"
    by (simp add: unat_eq_0)
  also have "\<dots> \<longleftrightarrow> v \<le> 0x7F"
    by (simp add: unat_drop_bit word_le_nat_alt div_eq_0_iff less_Suc_eq_le [symmetric])
  finally show ?thesis by simp
qed

lemma low7_OR_AND: "(ucast (v AND 0x7F) OR 0x80) AND 0x7F = (ucast (v AND 0x7F :: u64) :: u8)"
  by (rule bit_word_eqI) (auto simp: bit_simps)

lemma low7_small: "v \<le> 0x7F \<Longrightarrow> v AND 0x7F = (v :: u64)"
  using AND_mask_small [of 7 v] by (simp add: le_7F_iff mask_eq_exp_minus_1)

lemma varint_loop_patched:
  "v \<noteq> 0 \<Longrightarrow> (varint_loop v)[length (varint_loop v) - 1 :=
     varint_loop v ! (length (varint_loop v) - 1) AND 0x7F] = varint_bytes v"
proof (induction v rule: varint_loop.induct)
  case (1 v)
  show ?case
  proof (cases "v \<le> 0x7F")
    case True
    then have "drop_bit 7 v = 0"
      by (simp add: le_7F_iff)
    then show ?thesis
      using 1 True low7_OR_AND [of v]
      by (simp add: varint_loop.simps [of v] varint_loop.simps [of 0] varint_bytes.simps [of v]
          low7_small)
  next
    case False
    then have ne: "drop_bit 7 v \<noteq> 0"
      by (simp add: le_7F_iff)
    then have "varint_loop (drop_bit 7 v) \<noteq> []"
      by (subst varint_loop.simps) simp
    then obtain k where "length (varint_loop (drop_bit 7 v)) = Suc k"
      by (cases "length (varint_loop (drop_bit 7 v))") auto
    then show ?thesis
      using 1 False ne
      by (simp add: varint_loop.simps [of v] varint_bytes.simps [of v])
  qed
qed

lemma length_varint_loop: "v \<noteq> 0 \<Longrightarrow> length (varint_loop v) = length (varint_bytes v)"
  using varint_loop_patched [of v] by (metis length_list_update)

lemma length_varint_bytes_le:
  "unat v < 2 ^ (7 * k) \<Longrightarrow> 0 < k \<Longrightarrow> length (varint_bytes v) \<le> k"
proof (induction v arbitrary: k rule: varint_bytes.induct)
  case (1 v)
  show ?case
  proof (cases "v \<le> 0x7F")
    case True
    with 1 show ?thesis
      by (simp add: varint_bytes.simps [of v])
  next
    case False
    obtain k' where k: "k = Suc k'"
      using 1 by (cases k) auto
    have "unat (drop_bit 7 v) < 2 ^ (7 * k')"
      using 1 by (simp add: k unat_drop_bit power_add div_less_iff_less_mult mult.commute)
    moreover have "0 < k'"
    proof (rule ccontr)
      assume "\<not> 0 < k'"
      with 1 k have "unat v < 128" by simp
      with False show False by (simp add: word_le_nat_alt)
    qed
    ultimately show ?thesis
      using 1 False by (simp add: varint_bytes.simps [of v] k)
  qed
qed

text \<open>So the buffer of ten bytes on the stack of \<open>pb_encode_varint\<close> is never overrun.\<close>

lemma length_varint_bytes: "length (varint_bytes v) \<le> 10"
proof (rule length_varint_bytes_le)
  have "unat v < 2 ^ 64"
    using unat_lt_64 [of v] by simp
  also have "(2::nat) ^ 64 < 2 ^ (7 * 10)"
    by simp
  finally show "unat v < 2 ^ (7 * 10)" .
qed simp

lemma pb_encode_varint_write:
  "pb_encode_varint s v = pb_write s (varint_bytes v) (of_nat (length (varint_bytes v)))"
proof (cases "v \<le> 0x7F")
  case True
  then show ?thesis
    by (simp add: pb_encode_varint_def varint_bytes.simps [of v])
next
  case False
  then have "v \<noteq> 0"
    by auto
  with False show ?thesis
    using varint_loop_patched [of v] length_varint_loop [of v]
    by (simp add: pb_encode_varint_def Let_def)
qed

lemma pb_encode_fixed32_write:
  "pb_encode_fixed32 m s p = pb_write s (le_bytes 4 (ld32 m p)) 4"
  by (simp add: pb_encode_fixed32_def Let_def ucast_AND_FF eval_nat_numeral drop_bit_drop_bit)

lemma pb_encode_fixed64_write:
  "pb_encode_fixed64 m s p = pb_write s (le_bytes 8 (ld64 m p)) 8"
  by (simp add: pb_encode_fixed64_def Let_def ucast_AND_FF eval_nat_numeral drop_bit_drop_bit)

section \<open>The contract of an encoder\<close>

text \<open>
  A sink is a callback that never fails and appends what it is given to the bytes it holds.
  \<open>emits cb out f bs\<close>: on a sizing stream \<open>f\<close> counts \<open>length bs\<close>; on a stream with callback
  \<open>cb\<close> it appends \<open>bs\<close> when there is room, and otherwise fails with \<open>stream full\<close>.
\<close>

definition advance :: "'s pb_ostream \<Rightarrow> 's \<Rightarrow> nat \<Rightarrow> 's pb_ostream" where
  "advance s st n = s\<lparr>os_state := st, bytes_written := bytes_written s + of_nat n\<rparr>"

definition emits :: "'s ocallback \<Rightarrow> ('s \<Rightarrow> u8 list) \<Rightarrow>
    ('s pb_ostream \<Rightarrow> (bool \<times> 's pb_ostream) option) \<Rightarrow> u8 list \<Rightarrow> bool" where
  "emits cb out f bs \<longleftrightarrow>
     (\<forall>s. os_callback s = None \<longrightarrow> os_errmsg s = None \<longrightarrow>
        f s = Some (True, advance s (os_state s) (length bs))) \<and>
     (\<forall>s. os_callback s = Some cb \<longrightarrow> os_errmsg s = None \<longrightarrow>
        unat (bytes_written s) + length bs \<le> unat (max_size s) \<longrightarrow>
        (\<exists>st. f s = Some (True, advance s st (length bs)) \<and> out st = out (os_state s) @ bs)) \<and>
     (\<forall>s. os_callback s = Some cb \<longrightarrow> os_errmsg s = None \<longrightarrow>
        unat (bytes_written s) \<le> unat (max_size s) \<longrightarrow>
        unat (max_size s) < unat (bytes_written s) + length bs \<longrightarrow>
        unat (bytes_written s) + length bs < 18446744073709551616 \<longrightarrow>
        (\<exists>s'. f s = Some (False, s') \<and> os_errmsg s' = Some ''stream full''))"

lemma advance_sel [simp]:
  "os_callback (advance s st n) = os_callback s" "os_state (advance s st n) = st"
  "max_size (advance s st n) = max_size s" "os_errmsg (advance s st n) = os_errmsg s"
  "bytes_written (advance s st n) = bytes_written s + of_nat n"
  by (simp_all add: advance_def)

lemma advance_advance [simp]:
  "advance (advance s st n) st' k = advance s st' (n + k)"
  by (simp add: advance_def add.assoc)

lemma advance_0 [simp]: "advance s (os_state s) 0 = s"
  by (simp add: advance_def)

lemma emits_sizing:
  "emits cb out f bs \<Longrightarrow> os_callback s = None \<Longrightarrow> os_errmsg s = None \<Longrightarrow>
     f s = Some (True, advance s (os_state s) (length bs))"
  by (simp add: emits_def)

lemma emits_fits:
  "emits cb out f bs \<Longrightarrow> os_callback s = Some cb \<Longrightarrow> os_errmsg s = None \<Longrightarrow>
     unat (bytes_written s) + length bs \<le> unat (max_size s) \<Longrightarrow>
     \<exists>st. f s = Some (True, advance s st (length bs)) \<and> out st = out (os_state s) @ bs"
  by (simp add: emits_def)

lemma emits_full:
  "emits cb out f bs \<Longrightarrow> os_callback s = Some cb \<Longrightarrow> os_errmsg s = None \<Longrightarrow>
     unat (bytes_written s) \<le> unat (max_size s) \<Longrightarrow>
     unat (max_size s) < unat (bytes_written s) + length bs \<Longrightarrow>
     unat (bytes_written s) + length bs < 18446744073709551616 \<Longrightarrow>
     \<exists>s'. f s = Some (False, s') \<and> os_errmsg s' = Some ''stream full''"
  by (simp add: emits_def)

lemma emits_Nil: "emits cb out (\<lambda>s. Some (True, s)) []"
  unfolding emits_def by (auto intro!: exI [of _ "os_state s" for s])

lemma emits_cong: "(\<And>s. f s = g s) \<Longrightarrow> emits cb out g bs \<Longrightarrow> emits cb out f bs"
  by (simp add: emits_def)

lemma unat_bytes_written:
  "unat (w :: u64) + n \<le> unat (m :: u64) \<Longrightarrow> unat (w + of_nat n) = unat w + n"
  using unat_lt_64 [of m] by (intro unat_add_64) simp

lemma emits_and_then_opt:
  assumes f: "emits cb out f bs" and g: "emits cb out g cs"
  shows "emits cb out (\<lambda>s. and_then_opt (f s) g) (bs @ cs)"
  unfolding emits_def
proof (intro conjI allI impI)
  fix s :: "'a pb_ostream"
  assume "os_callback s = None" "os_errmsg s = None"
  then show "and_then_opt (f s) g = Some (True, advance s (os_state s) (length (bs @ cs)))"
    by (simp add: emits_sizing [OF f] emits_sizing [OF g])
next
  fix s :: "'a pb_ostream"
  assume s: "os_callback s = Some cb" "os_errmsg s = None"
    and room: "unat (bytes_written s) + length (bs @ cs) \<le> unat (max_size s)"
  then obtain st where st: "f s = Some (True, advance s st (length bs))"
    "out st = out (os_state s) @ bs"
    using emits_fits [OF f, of s] by auto
  have "unat (bytes_written s + of_nat (length bs)) = unat (bytes_written s) + length bs"
    using room by (intro unat_bytes_written [of _ _ "max_size s"]) simp
  then obtain st' where "g (advance s st (length bs)) =
      Some (True, advance (advance s st (length bs)) st' (length cs))" "out st' = out st @ cs"
    using emits_fits [OF g, of "advance s st (length bs)"] s room by auto
  with st show "\<exists>st. and_then_opt (f s) g = Some (True, advance s st (length (bs @ cs))) \<and>
      out st = out (os_state s) @ bs @ cs"
    by auto
next
  fix s :: "'a pb_ostream"
  assume s: "os_callback s = Some cb" "os_errmsg s = None"
    "unat (bytes_written s) \<le> unat (max_size s)"
    and full: "unat (max_size s) < unat (bytes_written s) + length (bs @ cs)"
    and small: "unat (bytes_written s) + length (bs @ cs) < 18446744073709551616"
  show "\<exists>s'. and_then_opt (f s) g = Some (False, s') \<and> os_errmsg s' = Some ''stream full''"
  proof (cases "unat (bytes_written s) + length bs \<le> unat (max_size s)")
    case False
    then show ?thesis
      using emits_full [OF f, of s] s small by auto
  next
    case True
    then obtain st where st: "f s = Some (True, advance s st (length bs))"
      using emits_fits [OF f, of s] s by auto
    have "unat (bytes_written s + of_nat (length bs)) = unat (bytes_written s) + length bs"
      using True by (rule unat_bytes_written)
    then have "\<exists>s'. g (advance s st (length bs)) = Some (False, s') \<and>
        os_errmsg s' = Some ''stream full''"
      using emits_full [OF g, of "advance s st (length bs)"] s full small True by auto
    with st show ?thesis by simp
  qed
qed

lemma and_then_opt_Some: "Some (and_then r k) = and_then_opt (Some r) (\<lambda>s. Some (k s))"
  by (cases r) (simp add: and_then_def and_then_opt_def)

lemma emits_and_then:
  "emits cb out (\<lambda>s. Some (f s)) bs \<Longrightarrow> emits cb out (\<lambda>s. Some (g s)) cs \<Longrightarrow>
     emits cb out (\<lambda>s. Some (and_then (f s) g)) (bs @ cs)"
  unfolding and_then_opt_Some by (rule emits_and_then_opt)

locale sink =
  fixes cb :: "'s ocallback" and out :: "'s \<Rightarrow> u8 list"
  assumes sink_ok: "fst (cb st bs)"
    and sink_out: "out (snd (cb st bs)) = out st @ bs"
begin

lemma write_fits:
  assumes "os_callback s = Some cb" "unat (bytes_written s) + length bs \<le> unat (max_size s)"
  shows "\<exists>st. pb_write s bs (of_nat (length bs)) = (True, advance s st (length bs)) \<and>
    out st = out (os_state s) @ bs"
proof (cases "bs = []")
  case True
  then show ?thesis
    by (auto simp: pb_write_def advance_def intro!: exI [of _ "os_state s"])
next
  case False
  have "length bs < 18446744073709551616"
    using assms(2) unat_lt_64 [of "max_size s"] by simp
  then have len: "unat (of_nat (length bs) :: u64) = length bs"
    by (rule unat_of_nat_64)
  then have pos: "(0 :: u64) < of_nat (length bs)"
    using False by (simp add: word_less_nat_alt)
  have sum: "unat (bytes_written s + of_nat (length bs)) = unat (bytes_written s) + length bs"
    using assms(2) by (rule unat_bytes_written)
  then have "\<not> bytes_written s + of_nat (length bs) < bytes_written s"
    "\<not> max_size s < bytes_written s + of_nat (length bs)"
    using assms(2) by (simp_all add: word_less_nat_alt)
  moreover obtain st where "cb (os_state s) bs = (True, st)" "out st = out (os_state s) @ bs"
    using sink_ok [of "os_state s" bs] sink_out [of "os_state s" bs]
    by (cases "cb (os_state s) bs") auto
  ultimately show ?thesis
    using assms(1) pos by (intro exI [of _ st]) (simp add: pb_write_def len advance_def Let_def)
qed

lemma write_full:
  assumes "os_callback s = Some cb" "os_errmsg s = None"
    "unat (bytes_written s) \<le> unat (max_size s)"
    "unat (max_size s) < unat (bytes_written s) + length bs"
    "unat (bytes_written s) + length bs < 18446744073709551616"
  shows "pb_write s bs (of_nat (length bs)) = os_error s ''stream full''"
proof -
  have "unat (of_nat (length bs) :: u64) = length bs"
    using assms(5) by (intro unat_of_nat_64) simp
  then have pos: "(0 :: u64) < of_nat (length bs)"
    using assms(3,4) by (auto simp: word_less_nat_alt)
  have "unat (bytes_written s + of_nat (length bs)) = unat (bytes_written s) + length bs"
    using assms(5) by (rule unat_add_64)
  then have "max_size s < bytes_written s + of_nat (length bs)"
    using assms(4) by (simp add: word_less_nat_alt)
  then show ?thesis
    using assms(1) pos by (simp add: pb_write_def)
qed

lemma emits_write: "emits cb out (\<lambda>s. Some (pb_write s bs (of_nat (length bs)))) bs"
  unfolding emits_def
proof (intro conjI allI impI)
  fix s :: "'s pb_ostream"
  assume "os_callback s = None"
  then show "Some (pb_write s bs (of_nat (length bs))) =
      Some (True, advance s (os_state s) (length bs))"
    by (simp add: pb_write_def advance_def)
qed (auto simp: write_fits write_full os_error_def)

lemma emits_varint: "emits cb out (\<lambda>s. Some (pb_encode_varint s v)) (varint_bytes v)"
  unfolding pb_encode_varint_write by (rule emits_write)

lemma emits_string:
  "n = of_nat (length bs) \<Longrightarrow>
     emits cb out (\<lambda>s. Some (pb_encode_string s bs n)) (varint_bytes n @ bs)"
  by (simp add: pb_encode_string_def emits_and_then [OF emits_varint emits_write])

lemma emits_fixed32:
  "emits cb out (\<lambda>s. Some (pb_encode_fixed32 m s p)) (le_bytes 4 (ld32 m p))"
  using emits_write [of "le_bytes 4 (ld32 m p)"] by (simp add: pb_encode_fixed32_write)

lemma emits_fixed64:
  "emits cb out (\<lambda>s. Some (pb_encode_fixed64 m s p)) (le_bytes 8 (ld64 m p))"
  using emits_write [of "le_bytes 8 (ld64 m p)"] by (simp add: pb_encode_fixed64_write)

lemma emits_svarint: "emits cb out (\<lambda>s. Some (pb_encode_svarint s v)) (varint_bytes (zigzag v))"
  by (simp add: pb_encode_svarint_def emits_varint)

lemma emits_tag:
  "emits cb out (\<lambda>s. Some (pb_encode_tag s wt n))
     (varint_bytes (push_bit 3 (ucast n) OR ucast wt))"
  by (simp add: pb_encode_tag_def emits_varint)

lemma emits_tag_for_field:
  "wire_type_of_ltype (PB_LTYPE (ftype f)) = Some wt \<Longrightarrow>
     emits cb out (\<lambda>s. Some (pb_encode_tag_for_field s f))
       (varint_bytes (push_bit 3 (ucast (tag f)) OR ucast wt))"
  by (simp add: pb_encode_tag_for_field_def emits_tag)

end

interpretation buf: sink buf_write "\<lambda>st. st"
  by unfold_locales (simp_all add: buf_write_def)

end
