(* ===== verification/Pb_Encode.thy ===== *)
theory Pb_Encode
  imports Pb_Common Pb_Ostream
begin

text \<open>
  The message encoder of \<open>pb_encode.c\<close>: the field encoders and their table, arrays and packing,
  the proto3 default check, pointer, callback, oneof and extension fields, submessages and the
  entry points. The message is read from byte memory through its descriptors. The encoder does
  not change memory: user callbacks are arguments that read memory and write to the stream.

  Recursion goes through submessages. Each function takes the encoder (or the default check) of
  one level below as an argument, and \<open>pb_encode\<close> closes the knot with a fuel \<open>d\<close> that bounds the
  nesting of submessages and the length of extension lists; \<open>None\<close> is running out of it, or a call
  through a table entry that is NULL or outside the table.
\<close>

record 's enc_env =
  enc_descs :: "addr \<Rightarrow> pb_field list"
  call_encode :: "addr \<Rightarrow> memory \<Rightarrow> 's pb_ostream \<Rightarrow> pb_field \<Rightarrow> addr \<Rightarrow> bool \<times> 's pb_ostream"
  call_ext_encode :: "addr \<Rightarrow> memory \<Rightarrow> 's pb_ostream \<Rightarrow> addr \<Rightarrow> bool \<times> 's pb_ostream"

type_synonym 's encoder =
  "'s pb_ostream \<Rightarrow> pb_field \<Rightarrow> addr \<Rightarrow> (bool \<times> 's pb_ostream) option"

type_synonym 's msg_encoder =
  "'s pb_ostream \<Rightarrow> pb_field list \<Rightarrow> addr \<Rightarrow> (bool \<times> 's pb_ostream) option"

section \<open>Reading values\<close>

definition safe_read_bool :: "memory \<Rightarrow> addr \<Rightarrow> bool" where
  "safe_read_bool m p = list_ex (\<lambda>i. m (p + int i) \<noteq> 0) [0..<sizeof_bool]"

text \<open>\<open>value = *(const intN_t*)src\<close> by \<open>data_size\<close>, sign-extended or not.\<close>

definition read_signed :: "memory \<Rightarrow> pb_size \<Rightarrow> addr \<Rightarrow> u64 option" where
  "read_signed m n src =
     (if n = 1 then Some (scast (ld8 m src))
      else if n = 2 then Some (scast (ld16 m src))
      else if n = 4 then Some (scast (ld32 m src))
      else if n = 8 then Some (ld64 m src)
      else None)"

definition read_unsigned :: "memory \<Rightarrow> pb_size \<Rightarrow> addr \<Rightarrow> u64 option" where
  "read_unsigned m n src =
     (if n = 1 then Some (ucast (ld8 m src))
      else if n = 2 then Some (ucast (ld16 m src))
      else if n = 4 then Some (ucast (ld32 m src))
      else if n = 8 then Some (ld64 m src)
      else None)"

text \<open>\<open>while (size < max_size && *p != 0) { size++; p++; }\<close>\<close>

function strnlen :: "memory \<Rightarrow> addr \<Rightarrow> nat \<Rightarrow> nat" where
  "strnlen m p n = (if n = 0 \<or> m p = 0 then 0 else Suc (strnlen m (p + 1) (n - 1)))"
  by pat_completeness auto
termination
  by (relation "measure (\<lambda>(m, p, n). n)") auto

declare strnlen.simps [simp del]

section \<open>Field encoders\<close>

definition pb_enc_bool :: "memory \<Rightarrow> 's encoder" where
  "pb_enc_bool m s f src = Some (pb_encode_varint s (if safe_read_bool m src then 1 else 0))"

definition pb_enc_varint :: "memory \<Rightarrow> 's encoder" where
  "pb_enc_varint m s f src = Some
     (case read_signed m (data_size f) src of
        Some v \<Rightarrow> pb_encode_varint s v
      | None \<Rightarrow> os_error s ''invalid data_size'')"

definition pb_enc_uvarint :: "memory \<Rightarrow> 's encoder" where
  "pb_enc_uvarint m s f src = Some
     (case read_unsigned m (data_size f) src of
        Some v \<Rightarrow> pb_encode_varint s v
      | None \<Rightarrow> os_error s ''invalid data_size'')"

definition pb_enc_svarint :: "memory \<Rightarrow> 's encoder" where
  "pb_enc_svarint m s f src = Some
     (case read_signed m (data_size f) src of
        Some v \<Rightarrow> pb_encode_svarint s v
      | None \<Rightarrow> os_error s ''invalid data_size'')"

definition pb_enc_fixed64 :: "memory \<Rightarrow> 's encoder" where
  "pb_enc_fixed64 m s f src = Some (pb_encode_fixed64 m s src)"

definition pb_enc_fixed32 :: "memory \<Rightarrow> 's encoder" where
  "pb_enc_fixed32 m s f src = Some (pb_encode_fixed32 m s src)"

definition pb_enc_bytes :: "memory \<Rightarrow> 's encoder" where
  "pb_enc_bytes m s f src = Some
     (if src = 0 then pb_encode_string s [] 0
      else
        let n = ucast (bytes_size m src) :: u64; allocsize = PB_BYTES_ARRAY_T_ALLOCSIZE n in
        if allocsize < n \<or>
           PB_ATYPE (ftype f) = PB_ATYPE_STATIC \<and> allocsize > ucast (data_size f)
        then os_error s ''bytes size exceeded''
        else pb_encode_string s (load m (bytes_bytes src) (unat n)) n)"

definition pb_enc_string :: "memory \<Rightarrow> 's encoder" where
  "pb_enc_string m s f src =
     (let max_n = (if PB_ATYPE (ftype f) = PB_ATYPE_POINTER then 18446744073709551615
                   else unat (data_size f));
          n = (if src = 0 then 0 else strnlen m src max_n)
      in Some (pb_encode_string s (load m src n) (of_nat n)))"

definition pb_enc_fixed_length_bytes :: "memory \<Rightarrow> 's encoder" where
  "pb_enc_fixed_length_bytes m s f src =
     Some (pb_encode_string s (load m src (unat (data_size f))) (ucast (data_size f)))"

text \<open>The size is computed on a sizing stream first, then the message is written through a
  substream limited to that size (\<open>write_submessage\<close>, from the test \<open>stream->callback == NULL\<close> on;
  all five fields of \<open>substream\<close> are assigned there).\<close>

definition write_submessage :: "'s msg_encoder \<Rightarrow> u64 \<Rightarrow> 's msg_encoder" where
  "write_submessage enc n s fs src =
     (if os_callback s = None then Some (pb_write s [] n)
      else if bytes_written s + n > max_size s then Some (os_error s ''stream full'')
      else
        case enc \<lparr>os_callback = os_callback s, os_state = os_state s, max_size = n,
            bytes_written = 0, os_errmsg = None\<rparr> fs src of
          None \<Rightarrow> None
        | Some (status, sub) \<Rightarrow>
            let s1 = s\<lparr>bytes_written := bytes_written s + bytes_written sub,
                  os_state := os_state sub, os_errmsg := os_errmsg sub\<rparr> in
            if bytes_written sub \<noteq> n then Some (os_error s1 ''submsg size changed'')
            else Some (status, s1))"

definition pb_encode_submessage :: "'s msg_encoder \<Rightarrow> 's msg_encoder" where
  "pb_encode_submessage enc s fs src =
     (case enc (PB_OSTREAM_SIZING (os_state s)) fs src of
        None \<Rightarrow> None
      | Some (False, sub) \<Rightarrow> Some (False, s\<lparr>os_errmsg := os_errmsg sub\<rparr>)
      | Some (True, sub) \<Rightarrow>
          and_then_opt (Some (pb_encode_varint s (bytes_written sub)))
            (\<lambda>s. write_submessage enc (bytes_written sub) s fs src))"

definition pb_enc_submessage :: "'s enc_env \<Rightarrow> 's msg_encoder \<Rightarrow> 's encoder" where
  "pb_enc_submessage env enc s f src =
     (if ptr f = 0 then Some (os_error s ''invalid field descriptor'')
      else pb_encode_submessage enc s (enc_descs env (ptr f)) src)"

definition PB_ENCODERS ::
  "'s enc_env \<Rightarrow> memory \<Rightarrow> 's msg_encoder \<Rightarrow> 's encoder option list" where
  "PB_ENCODERS env m enc =
     [Some (pb_enc_bool m), Some (pb_enc_varint m), Some (pb_enc_uvarint m),
      Some (pb_enc_svarint m), Some (pb_enc_fixed32 m), Some (pb_enc_fixed64 m),
      Some (pb_enc_bytes m), Some (pb_enc_string m), Some (pb_enc_submessage env enc),
      None, Some (pb_enc_fixed_length_bytes m)]"

text \<open>\<open>func = PB_ENCODERS[PB_LTYPE(field->type)]\<close>: reading past the table is undefined, and so is
  calling the NULL entry.\<close>

definition encoder_of ::
  "'s enc_env \<Rightarrow> memory \<Rightarrow> 's msg_encoder \<Rightarrow> pb_field \<Rightarrow> 's encoder option" where
  "encoder_of env m enc f =
     (let i = unat (PB_LTYPE (ftype f)) in
      if i < length (PB_ENCODERS env m enc)
      then Some (case PB_ENCODERS env m enc ! i of Some func \<Rightarrow> func | None \<Rightarrow> (\<lambda>s f p. None))
      else None)"

section \<open>Arrays\<close>

fun encode_items :: "'s encoder \<Rightarrow> 's pb_ostream \<Rightarrow> pb_field \<Rightarrow> addr \<Rightarrow> nat \<Rightarrow>
    (bool \<times> 's pb_ostream) option" where
  "encode_items func s f p 0 = Some (True, s)"
| "encode_items func s f p (Suc n) =
     and_then_opt (func s f p) (\<lambda>s. encode_items func s f (p + uint (data_size f)) n)"

text \<open>One entry of an array that is not packed. The entries of a pointer array of strings or bytes
  are pointers themselves.\<close>

definition encode_unpacked_item :: "memory \<Rightarrow> 's encoder \<Rightarrow> 's encoder" where
  "encode_unpacked_item m func s f p =
     and_then_opt (Some (pb_encode_tag_for_field s f)) (\<lambda>s.
       if PB_ATYPE (ftype f) = PB_ATYPE_POINTER \<and>
          (PB_LTYPE (ftype f) = PB_LTYPE_STRING \<or> PB_LTYPE (ftype f) = PB_LTYPE_BYTES)
       then func s f (ld_ptr m p)
       else func s f p)"

definition encode_array ::
  "memory \<Rightarrow> 's encoder \<Rightarrow> 's pb_ostream \<Rightarrow> pb_field \<Rightarrow> addr \<Rightarrow> pb_size \<Rightarrow>
     (bool \<times> 's pb_ostream) option" where
  "encode_array m func s f pd count =
     (if count = 0 then Some (True, s)
      else if PB_ATYPE (ftype f) \<noteq> PB_ATYPE_POINTER \<and> count > array_size f
      then Some (os_error s ''array max size exceeded'')
      else if PB_LTYPE (ftype f) \<le> PB_LTYPE_LAST_PACKABLE
      then
        and_then_opt (Some (pb_encode_tag s PB_WT_STRING (tag f))) (\<lambda>s.
          case (if PB_LTYPE (ftype f) = PB_LTYPE_FIXED32 then Some (True, 4 * ucast count)
                else if PB_LTYPE (ftype f) = PB_LTYPE_FIXED64 then Some (True, 8 * ucast count)
                else map_option (\<lambda>(ok, sz). (ok, bytes_written sz))
                  (encode_items func (PB_OSTREAM_SIZING (os_state s)) f pd (unat count))) of
            None \<Rightarrow> None
          | Some (False, _) \<Rightarrow> Some (False, s)
          | Some (True, n) \<Rightarrow>
              and_then_opt (Some (pb_encode_varint s n)) (\<lambda>s.
                if os_callback s = None then Some (pb_write s [] n)
                else encode_items func s f pd (unat count)))
      else encode_items (encode_unpacked_item m func) s f pd (unat count))"

section \<open>The proto3 default check\<close>

text \<open>\<open>chk\<close> is the check of one level below. A field whose value is its default is not written.\<close>

definition check_default ::
  "(addr \<Rightarrow> pb_field list) \<Rightarrow> memory \<Rightarrow> (pb_field \<Rightarrow> addr \<Rightarrow> bool option) \<Rightarrow>
     pb_field \<Rightarrow> addr \<Rightarrow> bool option" where
  "check_default descs m chk f pd =
     (let t = ftype f; ps = pd + sint (size_offset f) in
      if PB_HTYPE t = PB_HTYPE_REQUIRED then Some False
      else if PB_HTYPE t = PB_HTYPE_REPEATED \<and> size_offset f \<noteq> 0 then Some (ld32 m ps = 0)
      else if PB_HTYPE t = PB_HTYPE_REPEATED \<and> PB_ATYPE t = PB_ATYPE_STATIC then Some False
      else if PB_HTYPE t = PB_HTYPE_ONEOF then Some (ld32 m ps = 0)
      else if PB_HTYPE t = PB_HTYPE_OPTIONAL \<and> size_offset f \<noteq> 0
      then Some (\<not> safe_read_bool m ps)
      else if PB_ATYPE t = PB_ATYPE_STATIC \<and> PB_LTYPE t = PB_LTYPE_BYTES
      then Some (bytes_size m pd = 0)
      else if PB_ATYPE t = PB_ATYPE_STATIC \<and> PB_LTYPE t = PB_LTYPE_STRING then Some (m pd = 0)
      else if PB_ATYPE t = PB_ATYPE_STATIC \<and> PB_LTYPE t = PB_LTYPE_FIXED_LENGTH_BYTES
      then Some (data_size f = 0)
      else if PB_ATYPE t = PB_ATYPE_STATIC \<and> PB_LTYPE t = PB_LTYPE_SUBMESSAGE
      then
        (case pb_field_iter_begin (descs (ptr f)) pd of
           (False, it) \<Rightarrow> Some True
         | (True, it) \<Rightarrow>
             map_option fst (iter_do
               (\<lambda>it u. map_option (\<lambda>b. (b, u)) (chk (pos_field it) (pData it))) it ()))
      else if PB_ATYPE t = PB_ATYPE_POINTER \<and> PB_LTYPE t > PB_LTYPE_LAST_PACKABLE
      then Some (ld_ptr m pd = 0)
      else Some (list_all (\<lambda>b. b = 0) (load m pd (unat (data_size f)))))"

fun pb_check_proto3_default_value ::
  "(addr \<Rightarrow> pb_field list) \<Rightarrow> memory \<Rightarrow> nat \<Rightarrow> pb_field \<Rightarrow> addr \<Rightarrow> bool option" where
  "pb_check_proto3_default_value descs m 0 f pd = None"
| "pb_check_proto3_default_value descs m (Suc d) f pd =
     check_default descs m (pb_check_proto3_default_value descs m d) f pd"

section \<open>Fields\<close>

text \<open>The value of \<open>implicit_has\<close> before the pointer is followed; only read where \<open>size_offset\<close> is
  0.\<close>

definition implicit_has ::
  "'s enc_env \<Rightarrow> memory \<Rightarrow> nat \<Rightarrow> pb_field \<Rightarrow> addr \<Rightarrow> bool option" where
  "implicit_has env m d f pd =
     (if size_offset f \<noteq> 0 then Some True
      else if PB_HTYPE (ftype f) = PB_HTYPE_OPTIONAL
      then map_option Not (pb_check_proto3_default_value (enc_descs env) m d f pd)
      else Some True)"

definition encode_tagged ::
  "'s encoder \<Rightarrow> 's pb_ostream \<Rightarrow> pb_field \<Rightarrow> addr \<Rightarrow> (bool \<times> 's pb_ostream) option" where
  "encode_tagged func s f pd =
     and_then_opt (Some (pb_encode_tag_for_field s f)) (\<lambda>s. func s f pd)"

text \<open>The four cases of \<open>PB_HTYPE\<close> are all there are, so the \<open>default\<close> of the switch is not
  reachable. A oneof field without an offset would read its tag from a \<open>bool\<close> on the stack.\<close>

definition encode_basic_field ::
  "'s enc_env \<Rightarrow> memory \<Rightarrow> nat \<Rightarrow> 's msg_encoder \<Rightarrow> 's encoder" where
  "encode_basic_field env m d enc s f pd0 =
     do {
       func \<leftarrow> encoder_of env m enc f;
       has0 \<leftarrow> implicit_has env m d f pd0;
       let ps = pd0 + sint (size_offset f);
       let pd = (if PB_ATYPE (ftype f) = PB_ATYPE_POINTER then ld_ptr m pd0 else pd0);
       let has = (if PB_ATYPE (ftype f) = PB_ATYPE_POINTER then pd \<noteq> 0 else has0);
       if PB_HTYPE (ftype f) = PB_HTYPE_REQUIRED then
         (if pd = 0 then Some (os_error s ''missing required field'')
          else encode_tagged func s f pd)
       else if PB_HTYPE (ftype f) = PB_HTYPE_OPTIONAL then
         (if (if size_offset f \<noteq> 0 then safe_read_bool m ps else has)
          then encode_tagged func s f pd else Some (True, s))
       else if PB_HTYPE (ftype f) = PB_HTYPE_REPEATED then
         encode_array m func s f pd (if size_offset f \<noteq> 0 then ld32 m ps else array_size f)
       else
         (if size_offset f = 0 then None
          else if ld32 m ps = tag f then encode_tagged func s f pd else Some (True, s))
     }"

definition encode_callback_field :: "'s enc_env \<Rightarrow> memory \<Rightarrow> 's encoder" where
  "encode_callback_field env m s f pd =
     Some (if callback_funcs m pd \<noteq> 0
      then case call_encode env (callback_funcs m pd) m s f (callback_arg_at pd) of
          (True, s) \<Rightarrow> (True, s)
        | (False, s) \<Rightarrow> os_error s ''callback error''
      else (True, s))"

definition encode_field ::
  "'s enc_env \<Rightarrow> memory \<Rightarrow> nat \<Rightarrow> 's msg_encoder \<Rightarrow> 's encoder" where
  "encode_field env m d enc s f pd =
     (if PB_ATYPE (ftype f) = PB_ATYPE_STATIC \<or> PB_ATYPE (ftype f) = PB_ATYPE_POINTER
      then encode_basic_field env m d enc s f pd
      else if PB_ATYPE (ftype f) = PB_ATYPE_CALLBACK then encode_callback_field env m s f pd
      else Some (os_error s ''invalid field type''))"

definition default_extension_encoder ::
  "'s enc_env \<Rightarrow> memory \<Rightarrow> nat \<Rightarrow> 's msg_encoder \<Rightarrow> 's pb_ostream \<Rightarrow> addr \<Rightarrow>
     (bool \<times> 's pb_ostream) option" where
  "default_extension_encoder env m d enc s ext =
     (let f = field_at (enc_descs env (ext_type_arg m (ext_type m ext))) 0 in
      if PB_ATYPE (ftype f) = PB_ATYPE_POINTER
      then encode_field env m d enc s f (ext_dest_at ext)
      else encode_field env m d enc s f (ext_dest m ext))"

fun encode_extensions ::
  "'s enc_env \<Rightarrow> memory \<Rightarrow> nat \<Rightarrow> 's msg_encoder \<Rightarrow> nat \<Rightarrow> 's pb_ostream \<Rightarrow> addr \<Rightarrow>
     (bool \<times> 's pb_ostream) option" where
  "encode_extensions env m d enc k s ext =
     (if ext = 0 then Some (True, s)
      else case k of 0 \<Rightarrow> None
      | Suc k \<Rightarrow>
        and_then_opt
          (let e = ext_type_encode m (ext_type m ext) in
           if e \<noteq> 0 then Some (call_ext_encode env e m s ext)
           else default_extension_encoder env m d enc s ext)
          (\<lambda>s. encode_extensions env m d enc k s (ext_next m ext)))"

declare encode_extensions.simps [simp del]

definition encode_extension_field ::
  "'s enc_env \<Rightarrow> memory \<Rightarrow> nat \<Rightarrow> 's msg_encoder \<Rightarrow> 's encoder" where
  "encode_extension_field env m d enc s f pd = encode_extensions env m d enc d s (ld_ptr m pd)"

section \<open>Messages\<close>

text \<open>The body of the loop over the fields.\<close>

definition encode_any_field ::
  "'s enc_env \<Rightarrow> memory \<Rightarrow> nat \<Rightarrow> 's msg_encoder \<Rightarrow> pb_field_iter \<Rightarrow> 's pb_ostream \<Rightarrow>
     (bool \<times> 's pb_ostream) option" where
  "encode_any_field env m d enc it s =
     (if PB_LTYPE (ftype (pos_field it)) = PB_LTYPE_EXTENSION
      then encode_extension_field env m d enc s (pos_field it) (pData it)
      else encode_field env m d enc s (pos_field it) (pData it))"

fun pb_encode :: "'s enc_env \<Rightarrow> memory \<Rightarrow> nat \<Rightarrow> 's msg_encoder" where
  "pb_encode env m 0 s fs src = None"
| "pb_encode env m (Suc d) s fs src =
     (case pb_field_iter_begin fs src of
        (False, it) \<Rightarrow> Some (True, s)
      | (True, it) \<Rightarrow> iter_do (encode_any_field env m d (pb_encode env m d)) it s)"

definition pb_encode_delimited :: "'s enc_env \<Rightarrow> memory \<Rightarrow> nat \<Rightarrow> 's msg_encoder" where
  "pb_encode_delimited env m d s fs src = pb_encode_submessage (pb_encode env m d) s fs src"

definition pb_encode_nullterminated :: "'s enc_env \<Rightarrow> memory \<Rightarrow> nat \<Rightarrow> 's msg_encoder" where
  "pb_encode_nullterminated env m d s fs src =
     and_then_opt (pb_encode env m d s fs src) (\<lambda>s. Some (pb_write s [0] 1))"

text \<open>The result is the return value and \<open>*size\<close>, which is only written on success. The unit
  state is that of the sizing stream.\<close>

definition pb_get_encoded_size ::
  "'s enc_env \<Rightarrow> memory \<Rightarrow> nat \<Rightarrow> 's \<Rightarrow> u64 \<Rightarrow> pb_field list \<Rightarrow> addr \<Rightarrow> (bool \<times> u64) option" where
  "pb_get_encoded_size env m d st n fs src =
     (case pb_encode env m d (PB_OSTREAM_SIZING st) fs src of
        None \<Rightarrow> None
      | Some (False, s) \<Rightarrow> Some (False, n)
      | Some (True, s) \<Rightarrow> Some (True, bytes_written s))"

end
