(* ===== verification/Pb_Encode_Spec.thy ===== *)
theory Pb_Encode_Spec
  imports Pb_Encode
begin

text \<open>
  What the encoder promises: the bytes of a message as a function of the memory, with no streams,
  no sizing pass and no loops over iterators (\<open>msg_bytes\<close>), and the refinement theorem that
  \<open>pb_encode\<close> emits exactly these bytes. The bytes written by user callbacks are given by the
  arguments \<open>cbs\<close> and \<open>xcbs\<close>; a callback is assumed to obey the contract \<open>emits\<close> for them.
\<close>

section \<open>The bytes of a message\<close>

definition tag_bytes :: "pb_wire_type \<Rightarrow> u32 \<Rightarrow> u8 list" where
  "tag_bytes wt n = varint_bytes (push_bit 3 (ucast n) OR ucast wt)"

text \<open>A length-delimited value; its length must be a \<open>size_t\<close>.\<close>

definition delimited :: "u8 list \<Rightarrow> u8 list option" where
  "delimited bs = (if length bs < 18446744073709551616
     then Some (varint_bytes (of_nat (length bs)) @ bs) else None)"

definition field_tag_bytes :: "pb_field \<Rightarrow> u8 list option" where
  "field_tag_bytes f =
     map_option (\<lambda>wt. tag_bytes wt (tag f)) (wire_type_of_ltype (PB_LTYPE (ftype f)))"

type_synonym msg_fun = "pb_field list \<Rightarrow> addr \<Rightarrow> u8 list option"
type_synonym value_fun = "pb_field \<Rightarrow> addr \<Rightarrow> u8 list option"

definition value_bytes :: "(addr \<Rightarrow> pb_field list) \<Rightarrow> memory \<Rightarrow> msg_fun \<Rightarrow> value_fun" where
  "value_bytes descs m msg f p =
     (let lt = PB_LTYPE (ftype f) in
      if lt = PB_LTYPE_BOOL then Some (varint_bytes (if safe_read_bool m p then 1 else 0))
      else if lt = PB_LTYPE_VARINT then map_option varint_bytes (read_signed m (data_size f) p)
      else if lt = PB_LTYPE_UVARINT then map_option varint_bytes (read_unsigned m (data_size f) p)
      else if lt = PB_LTYPE_SVARINT
      then map_option (\<lambda>v. varint_bytes (zigzag v)) (read_signed m (data_size f) p)
      else if lt = PB_LTYPE_FIXED32 then Some (load m p 4)
      else if lt = PB_LTYPE_FIXED64 then Some (load m p 8)
      else if lt = PB_LTYPE_BYTES then
        (if p = 0 then delimited []
         else if PB_ATYPE (ftype f) = PB_ATYPE_STATIC \<and>
                 unat (bytes_size m p) + 4 > unat (data_size f) then None
         else delimited (load m (bytes_bytes p) (unat (bytes_size m p))))
      else if lt = PB_LTYPE_STRING then
        delimited (if p = 0 then [] else load m p (strnlen m p
          (if PB_ATYPE (ftype f) = PB_ATYPE_POINTER then 18446744073709551615
           else unat (data_size f))))
      else if lt = PB_LTYPE_SUBMESSAGE then
        (if ptr f = 0 then None else Option.bind (msg (descs (ptr f)) p) delimited)
      else if lt = PB_LTYPE_FIXED_LENGTH_BYTES then delimited (load m p (unat (data_size f)))
      else None)"

definition tagged_bytes :: "value_fun \<Rightarrow> value_fun" where
  "tagged_bytes val f p =
     do { t \<leftarrow> field_tag_bytes f; v \<leftarrow> val f p; Some (t @ v) }"

fun items_bytes :: "value_fun \<Rightarrow> pb_field \<Rightarrow> addr \<Rightarrow> nat \<Rightarrow> u8 list option" where
  "items_bytes val f p 0 = Some []"
| "items_bytes val f p (Suc n) =
     do { v \<leftarrow> val f p; vs \<leftarrow> items_bytes val f (p + uint (data_size f)) n; Some (v @ vs) }"

text \<open>In an array of strings or bytes with pointer allocation the items are pointers.\<close>

definition item_addr :: "memory \<Rightarrow> pb_field \<Rightarrow> addr \<Rightarrow> addr" where
  "item_addr m f p =
     (if PB_ATYPE (ftype f) = PB_ATYPE_POINTER \<and>
         (PB_LTYPE (ftype f) = PB_LTYPE_STRING \<or> PB_LTYPE (ftype f) = PB_LTYPE_BYTES)
      then ld_ptr m p else p)"

definition array_bytes ::
  "memory \<Rightarrow> value_fun \<Rightarrow> pb_field \<Rightarrow> addr \<Rightarrow> pb_size \<Rightarrow> u8 list option" where
  "array_bytes m val f p count =
     (if count = 0 then Some []
      else if PB_ATYPE (ftype f) \<noteq> PB_ATYPE_POINTER \<and> count > array_size f then None
      else if PB_LTYPE (ftype f) \<le> PB_LTYPE_LAST_PACKABLE then
        do { vs \<leftarrow> items_bytes val f p (unat count);
             b \<leftarrow> delimited vs;
             Some (tag_bytes PB_WT_STRING (tag f) @ b) }
      else items_bytes (\<lambda>f p. tagged_bytes val f (item_addr m f p)) f p (unat count))"

definition basic_field_bytes ::
  "'s enc_env \<Rightarrow> memory \<Rightarrow> nat \<Rightarrow> msg_fun \<Rightarrow> value_fun" where
  "basic_field_bytes env m d msg f pd0 =
     do {
       has0 \<leftarrow> implicit_has env m d f pd0;
       let val = value_bytes (enc_descs env) m msg;
       let ps = pd0 + sint (size_offset f);
       let pd = (if PB_ATYPE (ftype f) = PB_ATYPE_POINTER then ld_ptr m pd0 else pd0);
       let has = (if size_offset f \<noteq> 0 then safe_read_bool m ps
                  else if PB_ATYPE (ftype f) = PB_ATYPE_POINTER then pd \<noteq> 0 else has0);
       if PB_HTYPE (ftype f) = PB_HTYPE_REQUIRED
       then (if pd = 0 then None else tagged_bytes val f pd)
       else if PB_HTYPE (ftype f) = PB_HTYPE_OPTIONAL
       then (if has then tagged_bytes val f pd else Some [])
       else if PB_HTYPE (ftype f) = PB_HTYPE_REPEATED
       then array_bytes m val f pd (if size_offset f \<noteq> 0 then ld32 m ps else array_size f)
       else if size_offset f = 0 then None
       else if ld32 m ps = tag f then tagged_bytes val f pd
       else Some []
     }"

definition field_bytes ::
  "'s enc_env \<Rightarrow> memory \<Rightarrow> (addr \<Rightarrow> pb_field \<Rightarrow> addr \<Rightarrow> u8 list option) \<Rightarrow> nat \<Rightarrow> msg_fun \<Rightarrow>
     value_fun" where
  "field_bytes env m cbs d msg f pd =
     (if PB_ATYPE (ftype f) = PB_ATYPE_STATIC \<or> PB_ATYPE (ftype f) = PB_ATYPE_POINTER
      then if PB_LTYPE (ftype f) \<le> PB_LTYPE_FIXED_LENGTH_BYTES
           then basic_field_bytes env m d msg f pd else None
      else if PB_ATYPE (ftype f) = PB_ATYPE_CALLBACK
      then (if callback_funcs m pd = 0 then Some []
            else cbs (callback_funcs m pd) f (callback_arg_at pd))
      else None)"

fun extension_bytes ::
  "'s enc_env \<Rightarrow> memory \<Rightarrow> (addr \<Rightarrow> pb_field \<Rightarrow> addr \<Rightarrow> u8 list option) \<Rightarrow>
     (addr \<Rightarrow> addr \<Rightarrow> u8 list option) \<Rightarrow> nat \<Rightarrow> msg_fun \<Rightarrow> nat \<Rightarrow> addr \<Rightarrow> u8 list option" where
  "extension_bytes env m cbs xcbs d msg k ext =
     (if ext = 0 then Some []
      else case k of 0 \<Rightarrow> None
      | Suc k \<Rightarrow> do {
          let f = field_at (enc_descs env (ext_type_arg m (ext_type m ext))) 0;
          b \<leftarrow> (if ext_type_encode m (ext_type m ext) \<noteq> 0
               then xcbs (ext_type_encode m (ext_type m ext)) ext
               else field_bytes env m cbs d msg f
                 (if PB_ATYPE (ftype f) = PB_ATYPE_POINTER then ext_dest_at ext
                  else ext_dest m ext));
          bs \<leftarrow> extension_bytes env m cbs xcbs d msg k (ext_next m ext);
          Some (b @ bs)
        })"

declare extension_bytes.simps [simp del]

fun all_bytes :: "('i \<Rightarrow> u8 list option) \<Rightarrow> 'i list \<Rightarrow> u8 list option" where
  "all_bytes g [] = Some []"
| "all_bytes g (x # xs) = do { b \<leftarrow> g x; bs \<leftarrow> all_bytes g xs; Some (b @ bs) }"

fun msg_bytes ::
  "'s enc_env \<Rightarrow> memory \<Rightarrow> (addr \<Rightarrow> pb_field \<Rightarrow> addr \<Rightarrow> u8 list option) \<Rightarrow>
     (addr \<Rightarrow> addr \<Rightarrow> u8 list option) \<Rightarrow> nat \<Rightarrow> msg_fun" where
  "msg_bytes env m cbs xcbs 0 fs src = None"
| "msg_bytes env m cbs xcbs (Suc d) fs src =
     (if \<not> fields_wf fs then None else all_bytes (\<lambda>i.
       if PB_LTYPE (ftype (field_at fs i)) = PB_LTYPE_EXTENSION
       then extension_bytes env m cbs xcbs d (msg_bytes env m cbs xcbs d) d
              (ld_ptr m (data_addr fs src i))
       else field_bytes env m cbs d (msg_bytes env m cbs xcbs d) (field_at fs i)
              (data_addr fs src i)) [0..<length fs])"

section \<open>The field encoders refine their bytes\<close>

lemma length_delimited:
  "delimited bs = Some cs \<Longrightarrow> length bs < 18446744073709551616 \<and>
     cs = varint_bytes (of_nat (length bs)) @ bs"
  by (simp add: delimited_def split: if_splits)

lemma of_nat_unat_ucast: "of_nat (unat (w :: u32)) = (ucast w :: u64)"
  by (simp add: unsigned_ucast_eq)

lemma unat_lt_32_64: "unat (w :: u32) < 18446744073709551616"
  using unat_lt_32 [of w] by simp

context sink
begin

lemma emits_delimited:
  assumes "delimited bs = Some cs" "n = of_nat (length bs)"
  shows "emits cb out (\<lambda>s. Some (pb_encode_string s bs n)) cs"
  using emits_string [OF assms(2)] length_delimited [OF assms(1)] assms(2) by simp

text \<open>Submessages: \<open>enc\<close> emits the message on every stream, so the second pass writes as many
  bytes as the first counted.\<close>

lemma emits_write_submessage:
  assumes enc: "emits cb out (\<lambda>s. enc s fs src) bs" and len: "length bs < 18446744073709551616"
  shows "emits cb out (\<lambda>s. write_submessage enc (of_nat (length bs)) s fs src) bs"
  unfolding emits_def
proof (intro conjI allI impI)
  fix s :: "'s pb_ostream"
  assume "os_callback s = None"
  then show "write_submessage enc (of_nat (length bs)) s fs src =
      Some (True, advance s (os_state s) (length bs))"
    by (simp add: write_submessage_def pb_write_def advance_def)
next
  fix s :: "'s pb_ostream"
  assume s: "os_callback s = Some cb" "os_errmsg s = None"
    and room: "unat (bytes_written s) + length bs \<le> unat (max_size s)"
  let ?sub = "\<lparr>os_callback = os_callback s, os_state = os_state s,
    max_size = of_nat (length bs) :: u64, bytes_written = 0, os_errmsg = None\<rparr>"
  have "\<not> bytes_written s + of_nat (length bs) > max_size s"
    using room unat_bytes_written [OF room] by (simp add: word_less_nat_alt)
  moreover obtain st where "enc ?sub fs src = Some (True, advance ?sub st (length bs))"
    "out st = out (os_state s) @ bs"
    using emits_fits [OF enc, of ?sub] s len by (auto simp: unat_of_nat_64)
  ultimately show "\<exists>st. write_submessage enc (of_nat (length bs)) s fs src =
      Some (True, advance s st (length bs)) \<and> out st = out (os_state s) @ bs"
    using s by (intro exI [of _ st]) (simp add: write_submessage_def advance_def Let_def)
next
  fix s :: "'s pb_ostream"
  assume s: "os_callback s = Some cb" "os_errmsg s = None"
    and full: "unat (max_size s) < unat (bytes_written s) + length bs"
      "unat (bytes_written s) + length bs < 18446744073709551616"
  have "bytes_written s + of_nat (length bs) > max_size s"
    using full by (simp add: word_less_nat_alt unat_add_64)
  then show "\<exists>s'. write_submessage enc (of_nat (length bs)) s fs src = Some (False, s') \<and>
      os_errmsg s' = Some ''stream full''"
    using s by (simp add: write_submessage_def os_error_def)
qed

lemma emits_submessage:
  assumes enc: "emits cb out (\<lambda>s. enc s fs src) bs" and "delimited bs = Some cs"
  shows "emits cb out (\<lambda>s. pb_encode_submessage enc s fs src) cs"
proof -
  have len: "length bs < 18446744073709551616"
    and cs: "cs = varint_bytes (of_nat (length bs)) @ bs"
    using length_delimited [OF assms(2)] by simp_all
  have "pb_encode_submessage enc s fs src =
      and_then_opt (Some (pb_encode_varint s (of_nat (length bs))))
        (\<lambda>s. write_submessage enc (of_nat (length bs)) s fs src)" for s
    using emits_sizing [OF enc, of "PB_OSTREAM_SIZING (os_state s)"]
    by (simp add: pb_encode_submessage_def PB_OSTREAM_SIZING_def)
  then show ?thesis
    unfolding cs
    by (rule emits_cong, intro emits_and_then_opt emits_varint emits_write_submessage)
      (use enc len in simp_all)
qed

text \<open>\<open>enc\<close> emits \<open>msg\<close>: the hypothesis on the level below.\<close>

definition emits_msg :: "'s msg_encoder \<Rightarrow> msg_fun \<Rightarrow> bool" where
  "emits_msg enc msg \<longleftrightarrow>
     (\<forall>fs src bs. msg fs src = Some bs \<longrightarrow> emits cb out (\<lambda>s. enc s fs src) bs)"

lemma emits_bytes:
  assumes v: "value_bytes descs m msg f p = Some bs" and lt: "PB_LTYPE (ftype f) = PB_LTYPE_BYTES"
  shows "emits cb out (\<lambda>s. pb_enc_bytes m s f p) bs"
proof -
  let ?n = "bytes_size m p"
  have "unat (ucast ?n + 4 :: u64) = unat ?n + 4"
    using unat_lt_32 [of ?n] unat_add_64 [of "ucast ?n" 4] by simp
  then have alloc: "\<not> PB_BYTES_ARRAY_T_ALLOCSIZE (ucast ?n) < ucast ?n"
    "PB_BYTES_ARRAY_T_ALLOCSIZE (ucast ?n) > ucast (data_size f) \<longleftrightarrow>
       unat ?n + 4 > unat (data_size f)"
    by (simp_all add: PB_BYTES_ARRAY_T_ALLOCSIZE_def word_less_nat_alt)
  show ?thesis
  proof (cases "p = 0")
    case True
    then show ?thesis
      using v lt emits_delimited [of "[]" bs 0] by (simp add: value_bytes_def pb_consts pb_enc_bytes_def)
  next
    case False
    then have "\<not> (PB_ATYPE (ftype f) = PB_ATYPE_STATIC \<and> unat ?n + 4 > unat (data_size f))"
      and "delimited (load m (bytes_bytes p) (unat ?n)) = Some bs"
      using v lt by (auto simp: value_bytes_def pb_consts split: if_splits)
    moreover from this have "pb_enc_bytes m s f p =
        Some (pb_encode_string s (load m (bytes_bytes p) (unat ?n)) (ucast ?n))" for s :: "'s pb_ostream"
      using False alloc by (auto simp: pb_enc_bytes_def Let_def)
    ultimately show ?thesis
      by (simp add: emits_delimited of_nat_unat_ucast)
  qed
qed

lemma emits_value:
  assumes msg: "emits_msg enc msg"
    and v: "value_bytes (enc_descs env) m msg f p = Some bs"
    and func: "encoder_of env m enc f = Some func"
  shows "emits cb out (\<lambda>s. func s f p) bs"
proof -
  note unf = value_bytes_def encoder_of_def PB_ENCODERS_def pb_consts Let_def
  consider "PB_LTYPE (ftype f) = PB_LTYPE_BOOL" | "PB_LTYPE (ftype f) = PB_LTYPE_VARINT"
    | "PB_LTYPE (ftype f) = PB_LTYPE_UVARINT" | "PB_LTYPE (ftype f) = PB_LTYPE_SVARINT"
    | "PB_LTYPE (ftype f) = PB_LTYPE_FIXED32" | "PB_LTYPE (ftype f) = PB_LTYPE_FIXED64"
    | "PB_LTYPE (ftype f) = PB_LTYPE_BYTES" | "PB_LTYPE (ftype f) = PB_LTYPE_STRING"
    | "PB_LTYPE (ftype f) = PB_LTYPE_SUBMESSAGE"
    | "PB_LTYPE (ftype f) = PB_LTYPE_FIXED_LENGTH_BYTES"
    using v by (auto simp: value_bytes_def Let_def split: if_splits)
  then show ?thesis
  proof cases
    case 1
    then show ?thesis
      using v func by (auto simp: unf pb_enc_bool_def intro: emits_varint)
  next
    case 2
    then show ?thesis
      using v func by (auto simp: unf pb_enc_varint_def intro: emits_varint)
  next
    case 3
    then show ?thesis
      using v func by (auto simp: unf pb_enc_uvarint_def intro: emits_varint)
  next
    case 4
    then show ?thesis
      using v func by (auto simp: unf pb_enc_svarint_def intro: emits_svarint)
  next
    case 5
    then show ?thesis
      using v func emits_fixed32 [of m p] by (auto simp: unf pb_enc_fixed32_def le_bytes_ld32)
  next
    case 6
    then show ?thesis
      using v func emits_fixed64 [of m p] by (auto simp: unf pb_enc_fixed64_def le_bytes_ld64)
  next
    case 7
    then have "func = pb_enc_bytes m"
      using func by (simp add: unf)
    then show ?thesis
      using emits_bytes [OF v 7] by simp
  next
    case 8
    then show ?thesis
      using v func by (auto simp: unf pb_enc_string_def intro!: emits_delimited)
  next
    case 9
    then have "func = pb_enc_submessage env enc" "ptr f \<noteq> 0"
      using v func by (auto simp: unf split: if_splits)
    moreover from this obtain b where "msg (enc_descs env (ptr f)) p = Some b"
      "delimited b = Some bs"
      using v 9 by (auto simp: unf bind_eq_Some_conv)
    ultimately show ?thesis
      using msg by (auto simp: pb_enc_submessage_def emits_msg_def intro: emits_submessage)
  next
    case 10
    then show ?thesis
      using v func
      by (auto simp: unf pb_enc_fixed_length_bytes_def of_nat_unat_ucast intro!: emits_delimited)
  qed
qed

lemma emits_tagged:
  assumes "emits cb out (\<lambda>s. func s f p) v" and "field_tag_bytes f = Some t"
  shows "emits cb out (\<lambda>s. encode_tagged func s f p) (t @ v)"
  unfolding encode_tagged_def using assms
  by (auto simp: field_tag_bytes_def tag_bytes_def intro!: emits_and_then_opt emits_tag_for_field)

lemma emits_items:
  assumes "\<And>p b. val f p = Some b \<Longrightarrow> emits cb out (\<lambda>s. func s f p) b"
  shows "items_bytes val f p n = Some bs \<Longrightarrow> emits cb out (\<lambda>s. encode_items func s f p n) bs"
proof (induction n arbitrary: p bs)
  case 0
  then show ?case by (simp add: emits_Nil)
next
  case (Suc n)
  then obtain v vs where v: "val f p = Some v"
    and vs: "items_bytes val f (p + uint (data_size f)) n = Some vs" and "bs = v @ vs"
    by (auto simp: bind_eq_Some_conv)
  then show ?case
    using emits_and_then_opt [OF assms [OF v] Suc.IH [OF vs]] by simp
qed

lemma items_bytes_length:
  assumes "\<And>p b. val f p = Some b \<Longrightarrow> length b = k"
  shows "items_bytes val f p n = Some bs \<Longrightarrow> length bs = k * n"
  by (induction n arbitrary: p bs) (auto simp: bind_eq_Some_conv assms)

text \<open>The size of a packed array: by its item size, or by a sizing pass over the items.\<close>

lemma packed_size:
  assumes "PB_LTYPE (ftype f) = PB_LTYPE_FIXED32 \<or> PB_LTYPE (ftype f) = PB_LTYPE_FIXED64"
    and "items_bytes (value_bytes descs m msg) f p (unat count) = Some bs"
  shows "(if PB_LTYPE (ftype f) = PB_LTYPE_FIXED32 then 4 * ucast count else 8 * ucast count) =
    (of_nat (length bs) :: u64)"
proof -
  have "length bs = (if PB_LTYPE (ftype f) = PB_LTYPE_FIXED32 then 4 else 8) * unat count"
    using assms(1)
    by (intro items_bytes_length [OF _ assms(2)])
      (auto simp: value_bytes_def pb_consts split: if_splits)
  then show ?thesis
    by (simp add: of_nat_unat_ucast)
qed

lemma emits_array:
  assumes msg: "emits_msg enc msg" and func: "encoder_of env m enc f = Some func"
    and bs: "array_bytes m (value_bytes (enc_descs env) m msg) f p count = Some bs"
  shows "emits cb out (\<lambda>s. encode_array m func s f p count) bs"
proof -
  let ?val = "value_bytes (enc_descs env) m msg"
  note val = emits_value [OF msg _ func]
  consider "count = 0" "bs = []"
    | (packed) vs b where "count \<noteq> 0"
      "\<not> (PB_ATYPE (ftype f) \<noteq> PB_ATYPE_POINTER \<and> count > array_size f)"
      "PB_LTYPE (ftype f) \<le> PB_LTYPE_LAST_PACKABLE"
      "items_bytes ?val f p (unat count) = Some vs" "delimited vs = Some b"
      "bs = tag_bytes PB_WT_STRING (tag f) @ b"
    | (single) "count \<noteq> 0"
      "\<not> (PB_ATYPE (ftype f) \<noteq> PB_ATYPE_POINTER \<and> count > array_size f)"
      "\<not> PB_LTYPE (ftype f) \<le> PB_LTYPE_LAST_PACKABLE"
      "items_bytes (\<lambda>f p. tagged_bytes ?val f (item_addr m f p)) f p (unat count) = Some bs"
    using bs by (auto simp: array_bytes_def bind_eq_Some_conv split: if_splits)
  then show ?thesis
  proof cases
    case 1
    then show ?thesis by (simp add: encode_array_def emits_Nil)
  next
    case packed
    have items: "emits cb out (\<lambda>s. encode_items func s f p (unat count)) vs"
      by (rule emits_items [of ?val, OF _ packed(4)]) (rule val)
    have size: "(if PB_LTYPE (ftype f) = PB_LTYPE_FIXED32 then Some (True, 4 * ucast count)
        else if PB_LTYPE (ftype f) = PB_LTYPE_FIXED64 then Some (True, 8 * ucast count)
        else map_option (\<lambda>(ok, sz). (ok, bytes_written sz))
          (encode_items func (PB_OSTREAM_SIZING st) f p (unat count))) =
        Some (True, of_nat (length vs))" for st
      using packed_size [OF _ packed(4)]
        emits_sizing [OF items, of "PB_OSTREAM_SIZING st"]
      by (auto simp: PB_OSTREAM_SIZING_def split: if_splits)
    have "encode_array m func s f p count =
        and_then_opt (Some (pb_encode_tag s PB_WT_STRING (tag f))) (\<lambda>s.
          and_then_opt (Some (pb_encode_varint s (of_nat (length vs)))) (\<lambda>s.
            if os_callback s = None then Some (pb_write s [] (of_nat (length vs)))
            else encode_items func s f p (unat count)))" for s
      using packed(1-3) by (simp only: encode_array_def size if_False if_True) simp
    moreover have "emits cb out (\<lambda>s. if os_callback s = None
        then Some (pb_write s [] (of_nat (length vs)))
        else encode_items func s f p (unat count)) vs"
      using items unfolding emits_def by (auto simp: pb_write_def advance_def)
    ultimately show ?thesis
      using length_delimited [OF packed(5)] unfolding packed(6) tag_bytes_def
      by (auto intro!: emits_and_then_opt emits_varint emits_tag)
  next
    case single
    have "emits cb out (\<lambda>s. encode_unpacked_item m func s f q) b"
      if item: "tagged_bytes ?val f (item_addr m f q) = Some b" for q b
    proof -
      obtain t v where tv: "field_tag_bytes f = Some t" "?val f (item_addr m f q) = Some v"
        "b = t @ v"
        using item by (auto simp: tagged_bytes_def bind_eq_Some_conv)
      have "encode_unpacked_item m func s f q = encode_tagged func s f (item_addr m f q)" for s
        unfolding encode_unpacked_item_def encode_tagged_def item_addr_def
        by (rule arg_cong [where f = "and_then_opt _"]) auto
      then show ?thesis
        using emits_tagged [of func f "item_addr m f q" v t] val [OF tv(2)] tv(1,3) by simp
    qed
    then have "emits cb out (\<lambda>s. encode_items (encode_unpacked_item m func) s f p (unat count)) bs"
      using emits_items [of "\<lambda>f p. tagged_bytes ?val f (item_addr m f p)" f
        "encode_unpacked_item m func" p "unat count" bs] single(4) by blast
    moreover have "encode_array m func s f p count =
        encode_items (encode_unpacked_item m func) s f p (unat count)" for s
      by (simp only: encode_array_def if_not_P [OF single(1)] if_not_P [OF single(2)]
          if_not_P [OF single(3)])
    ultimately show ?thesis by simp
  qed
qed

text \<open>Fields. A callback writes what \<open>cbs\<close> says.\<close>

definition callbacks_emit ::
  "'s enc_env \<Rightarrow> memory \<Rightarrow> (addr \<Rightarrow> pb_field \<Rightarrow> addr \<Rightarrow> u8 list option) \<Rightarrow>
     (addr \<Rightarrow> addr \<Rightarrow> u8 list option) \<Rightarrow> bool" where
  "callbacks_emit env m cbs xcbs \<longleftrightarrow>
     (\<forall>fn f arg bs. cbs fn f arg = Some bs \<longrightarrow>
        emits cb out (\<lambda>s. Some (call_encode env fn m s f arg)) bs) \<and>
     (\<forall>fn ext bs. xcbs fn ext = Some bs \<longrightarrow>
        emits cb out (\<lambda>s. Some (call_ext_encode env fn m s ext)) bs)"

lemma encoder_of_defined:
  "PB_LTYPE (ftype f) \<le> PB_LTYPE_FIXED_LENGTH_BYTES \<Longrightarrow> \<exists>func. encoder_of env m enc f = Some func"
  by (simp add: encoder_of_def PB_ENCODERS_def Let_def pb_consts word_le_nat_alt)

lemma emits_basic_field:
  assumes msg: "emits_msg enc msg" and lt: "PB_LTYPE (ftype f) \<le> PB_LTYPE_FIXED_LENGTH_BYTES"
    and bs: "basic_field_bytes env m d msg f pd0 = Some bs"
  shows "emits cb out (\<lambda>s. encode_basic_field env m d enc s f pd0) bs"
proof -
  obtain func where func: "encoder_of env m enc f = Some func"
    using encoder_of_defined [OF lt] by blast
  obtain has0 where has0: "implicit_has env m d f pd0 = Some has0"
    using bs by (auto simp: basic_field_bytes_def bind_eq_Some_conv)
  have tagged: "emits cb out (\<lambda>s. encode_tagged func s f p) b"
    if "tagged_bytes (value_bytes (enc_descs env) m msg) f p = Some b" for p b
    using that emits_tagged emits_value [OF msg _ func]
    by (auto simp: tagged_bytes_def bind_eq_Some_conv)
  show ?thesis
    using bs tagged emits_array [OF msg func]
    by (auto simp: basic_field_bytes_def encode_basic_field_def func has0 Let_def emits_Nil
        split: if_splits)
qed

lemma emits_callback_field:
  assumes "emits cb out (\<lambda>s. Some (call_encode env (callback_funcs m pd) m s f
    (callback_arg_at pd))) bs" "callback_funcs m pd \<noteq> 0"
  shows "emits cb out (\<lambda>s. encode_callback_field env m s f pd) bs"
proof -
  let ?call = "\<lambda>s. call_encode env (callback_funcs m pd) m s f (callback_arg_at pd)"
  have "encode_callback_field env m s f pd =
      Some (if fst (?call s) then ?call s else os_error (snd (?call s)) ''callback error'')" for s
    using assms(2) by (cases "?call s") (auto simp: encode_callback_field_def split: bool.splits)
  then show ?thesis
    using assms(1) unfolding emits_def by (fastforce simp: os_error_def)
qed

lemma emits_field:
  assumes "emits_msg enc msg" "callbacks_emit env m cbs xcbs"
    and "field_bytes env m cbs d msg f pd = Some bs"
  shows "emits cb out (\<lambda>s. encode_field env m d enc s f pd) bs"
proof (cases "PB_ATYPE (ftype f) = PB_ATYPE_STATIC \<or> PB_ATYPE (ftype f) = PB_ATYPE_POINTER")
  case True
  then show ?thesis
    using assms(3) emits_basic_field [OF assms(1)]
    by (auto simp: field_bytes_def encode_field_def split: if_splits)
next
  case False
  then have a: "PB_ATYPE (ftype f) = PB_ATYPE_CALLBACK"
    using assms(3) by (auto simp: field_bytes_def split: if_splits)
  then have enc: "encode_field env m d enc s f pd = encode_callback_field env m s f pd"
    for s :: "'s pb_ostream"
    using False by (simp add: encode_field_def)
  show ?thesis
  proof (cases "callback_funcs m pd = 0")
    case True
    then show ?thesis
      using assms(3) False a by (simp add: enc field_bytes_def encode_callback_field_def emits_Nil)
  next
    case nonnull: False
    then have "cbs (callback_funcs m pd) f (callback_arg_at pd) = Some bs"
      using assms(3) False a by (simp add: field_bytes_def)
    then show ?thesis
      using assms(2) nonnull unfolding enc
      by (intro emits_callback_field) (simp_all add: callbacks_emit_def)
  qed
qed

lemma emits_extensions:
  assumes "emits_msg enc msg" "callbacks_emit env m cbs xcbs"
  shows "extension_bytes env m cbs xcbs d msg k ext = Some bs \<Longrightarrow>
    emits cb out (\<lambda>s. encode_extensions env m d enc k s ext) bs"
proof (induction k arbitrary: ext bs)
  case 0
  then show ?case
    by (auto simp: extension_bytes.simps encode_extensions.simps emits_Nil split: if_splits)
next
  case (Suc k)
  show ?case
  proof (cases "ext = 0")
    case True
    then show ?thesis
      using Suc.prems by (simp add: extension_bytes.simps encode_extensions.simps emits_Nil)
  next
    case False
    let ?t = "ext_type m ext"
    let ?f = "field_at (enc_descs env (ext_type_arg m ?t)) 0"
    let ?p = "if PB_ATYPE (ftype ?f) = PB_ATYPE_POINTER then ext_dest_at ext else ext_dest m ext"
    obtain b bs' where b: "(if ext_type_encode m ?t \<noteq> 0 then xcbs (ext_type_encode m ?t) ext
        else field_bytes env m cbs d msg ?f ?p) = Some b"
      and bs': "extension_bytes env m cbs xcbs d msg k (ext_next m ext) = Some bs'"
      and "bs = b @ bs'"
      using Suc.prems False
      by (auto simp: extension_bytes.simps [of _ _ _ _ _ _ "Suc k"] Let_def bind_eq_Some_conv)
    have "emits cb out (\<lambda>s. let e = ext_type_encode m ?t in
        if e \<noteq> 0 then Some (call_ext_encode env e m s ext)
        else default_extension_encoder env m d enc s ext) b"
    proof (cases "ext_type_encode m ?t = 0")
      case True
      then have "emits cb out (\<lambda>s. encode_field env m d enc s ?f ?p) b"
        using b by (intro emits_field [OF assms]) simp
      then show ?thesis
        using True by (simp add: default_extension_encoder_def Let_def split: if_splits)
    next
      case False
      then show ?thesis
        using b assms(2) by (simp add: callbacks_emit_def)
    qed
    from emits_and_then_opt [OF this Suc.IH [OF bs']] show ?thesis
      using False \<open>bs = b @ bs'\<close> by (simp add: encode_extensions.simps [of _ _ _ _ "Suc k"])
  qed
qed

text \<open>Messages.\<close>

lemma emits_run_all:
  assumes "\<And>i b. i \<in> set is \<Longrightarrow> g i = Some b \<Longrightarrow> emits cb out (body (h i)) b"
  shows "all_bytes g is = Some bs \<Longrightarrow> emits cb out (run_all body (map h is)) bs"
  using assms
proof (induction "is" arbitrary: bs)
  case Nil
  then show ?case by (auto intro: emits_cong [OF _ emits_Nil])
next
  case (Cons i "is")
  then obtain b bs' where b: "g i = Some b" and bs': "all_bytes g is = Some bs'"
    and bs: "bs = b @ bs'"
    by (auto simp: bind_eq_Some_conv)
  have "emits cb out (body (h i)) b"
    using Cons.prems(2) b by simp
  moreover have "emits cb out (run_all body (map h is)) bs'"
    using Cons.IH [OF bs'] Cons.prems(2) by simp
  ultimately have "emits cb out
      (\<lambda>s. and_then_opt (body (h i) s) (run_all body (map h is))) (b @ bs')"
    by (rule emits_and_then_opt)
  then show ?case
    unfolding bs by (auto intro: emits_cong)
qed

lemma pb_encode_emits:
  assumes cbs: "callbacks_emit env m cbs xcbs"
  shows "emits_msg (pb_encode env m d) (msg_bytes env m cbs xcbs d)"
proof (induction d)
  case 0
  show ?case by (simp add: emits_msg_def)
next
  case (Suc d)
  note IH = Suc.IH
  show ?case
    unfolding emits_msg_def
  proof (intro allI impI)
    fix fs src bs
    assume bs: "msg_bytes env m cbs xcbs (Suc d) fs src = Some bs"
    then have wf: "fields_wf fs"
      by (simp split: if_splits)
    let ?body = "encode_any_field env m d (pb_encode env m d)"
    show "emits cb out (\<lambda>s. pb_encode env m (Suc d) s fs src) bs"
    proof (cases "fs = []")
      case True
      then show ?thesis
        using bs by (simp add: pb_field_iter_begin_eq field_at_def emits_Nil split: if_splits)
    next
      case False
      then have "pb_encode env m (Suc d) s fs src =
          run_all ?body (map (iter_at fs src) [0..<length fs]) s" for s :: "'s pb_ostream"
        using wf by (simp add: pb_field_iter_begin_eq field_at_tag iter_do_from)
      moreover have "emits cb out (run_all ?body (map (iter_at fs src) [0..<length fs])) bs"
        using bs wf
        by (intro emits_run_all [where g = "\<lambda>i.
              if PB_LTYPE (ftype (field_at fs i)) = PB_LTYPE_EXTENSION
              then extension_bytes env m cbs xcbs d (msg_bytes env m cbs xcbs d) d
                     (ld_ptr m (data_addr fs src i))
              else field_bytes env m cbs d (msg_bytes env m cbs xcbs d) (field_at fs i)
                     (data_addr fs src i)"])
          (auto simp: encode_any_field_def [abs_def] encode_extension_field_def
            intro: emits_extensions [OF IH cbs] emits_field [OF IH cbs] split: if_splits)
      ultimately show ?thesis
        by (auto intro: emits_cong)
    qed
  qed
qed

end

end
