(* ===== verification/Pb_Encode_Theorems.thy ===== *)
theory Pb_Encode_Theorems
  imports Pb_Encode_Spec
begin

text \<open>
  The properties of the encoder on the streams the library offers: a buffer of fixed size and the
  sizing stream. The bytes are those of \<open>msg_bytes\<close>, which reads the message from memory without
  a stream; user callbacks are any functions that write what \<open>cbs\<close> and \<open>xcbs\<close> say. The witnesses
  encode one message with an optional scalar, a packed array and a callback field.
\<close>

definition demo_fields :: "pb_field list" where
  "demo_fields =
     [\<lparr>tag = 1, ftype = 0x02, data_offset = 0, size_offset = 0, data_size = 4, array_size = 0, ptr = 0\<rparr>,
      \<lparr>tag = 2, ftype = 0x22, data_offset = 4, size_offset = -4, data_size = 4, array_size = 3, ptr = 0\<rparr>,
      \<lparr>tag = 3, ftype = 0x42, data_offset = 0, size_offset = 0, data_size = 16, array_size = 0, ptr = 0\<rparr>]"

definition demo_mem :: memory where
  "demo_mem a = (if a = 1000 then 0x96 else if a = 1004 then 1 else if a = 1008 then 0x2C
     else if a = 1009 then 1 else if a = 1020 then 0x40 else 0)"

definition demo_enc :: "u8 list enc_env" where
  "demo_enc = \<lparr>enc_descs = (\<lambda>_. []), call_encode = (\<lambda>_ _ s _ _. pb_write s [0x18, 0x07] 2),
     call_ext_encode = (\<lambda>_ _ s _. (True, s))\<rparr>"

definition demo_callback :: "addr \<Rightarrow> pb_field \<Rightarrow> addr \<Rightarrow> u8 list option" where
  "demo_callback fn f arg = Some [0x18, 0x07]"

definition demo_msg :: "u8 list" where
  "demo_msg = [0x08, 0x96, 0x01, 0x12, 0x02, 0xAC, 0x02, 0x18, 0x07]"

lemma length_demo: "length demo_msg = 9"
  by (simp add: demo_msg_def)

lemma demo_callbacks:
  "demo_callback fn f arg = Some b \<Longrightarrow>
     emits buf_write (\<lambda>st. st) (\<lambda>s. Some (call_encode demo_enc fn m s f arg)) b"
  using buf.emits_write [of "[0x18, 0x07]"] by (auto simp: demo_callback_def demo_enc_def)

lemma demo_bytes:
  "msg_bytes demo_enc demo_mem demo_callback (\<lambda>_ _. None) 1 demo_fields 1000 =
     Some demo_msg"
  by (simp add: demo_fields_def demo_enc_def fields_wf_def field_at_def field_bytes_def
      basic_field_bytes_def PB_ATYPE_def PB_HTYPE_def PB_LTYPE_def pb_consts implicit_has_def
      tagged_bytes_def field_tag_bytes_def wire_type_of_ltype_def tag_bytes_def value_bytes_def
      read_unsigned_def ld32_def ld64_def ld_ptr_def load_def demo_mem_def upt_rec
      varint_bytes.simps array_bytes_def delimited_def in_union_def member_size_def Let_def
      callback_funcs_def callback_arg_at_def demo_callback_def demo_msg_def)

section \<open>Writing to a buffer\<close>

lemma encode_emits:
  assumes "msg_bytes env m cbs xcbs d fs src = Some bs"
    and "\<And>fn f arg b. cbs fn f arg = Some b \<Longrightarrow>
      emits buf_write (\<lambda>st. st) (\<lambda>s. Some (call_encode env fn m s f arg)) b"
    and "\<And>fn ext b. xcbs fn ext = Some b \<Longrightarrow>
      emits buf_write (\<lambda>st. st) (\<lambda>s. Some (call_ext_encode env fn m s ext)) b"
  shows "emits buf_write (\<lambda>st. st) (\<lambda>s. pb_encode env m d s fs src) bs"
proof -
  have "buf.callbacks_emit env m cbs xcbs"
    using assms(2,3) by (simp add: buf.callbacks_emit_def)
  from buf.pb_encode_emits [OF this, of d] show ?thesis
    using assms(1) by (simp add: buf.emits_msg_def)
qed

text \<open>C2. Encoding a message into a buffer it fits in returns true and leaves exactly the bytes of
  the message in the buffer, fields in descriptor order, submessages and arrays length-delimited,
  whatever the callbacks are; the count of written bytes is their number.\<close>

theorem pb_encode_to_buffer:
  assumes "msg_bytes env m cbs xcbs d fs src = Some bs"
    and "\<And>fn f arg b. cbs fn f arg = Some b \<Longrightarrow>
      emits buf_write (\<lambda>st. st) (\<lambda>s. Some (call_encode env fn m s f arg)) b"
    and "\<And>fn ext b. xcbs fn ext = Some b \<Longrightarrow>
      emits buf_write (\<lambda>st. st) (\<lambda>s. Some (call_ext_encode env fn m s ext)) b"
    and "length bs \<le> unat bufsize"
  shows "\<exists>s. pb_encode env m d (pb_ostream_from_buffer bufsize) fs src = Some (True, s) \<and>
    os_state s = bs \<and> bytes_written s = of_nat (length bs) \<and> os_errmsg s = None"
proof -
  note e = encode_emits [OF assms(1-3)]
  from emits_fits [OF e, of "pb_ostream_from_buffer bufsize"] assms(4)
  show ?thesis
    by (auto simp: pb_ostream_from_buffer_def advance_def)
qed

theorem pb_encode_to_buffer_witness:
  "\<exists>s. pb_encode demo_enc demo_mem 1 (pb_ostream_from_buffer 9) demo_fields 1000 = Some (True, s) \<and>
    os_state s = demo_msg \<and> bytes_written s = 9 \<and>
    os_errmsg s = None"
  using pb_encode_to_buffer [OF demo_bytes demo_callbacks, of 9]
  by (simp del: pb_encode.simps add: length_demo)

text \<open>C4. A message that does not fit in the buffer makes the encoder return false with the error
  \<open>stream full\<close>: it never reports success for a truncated message.\<close>

theorem pb_encode_buffer_full:
  assumes "msg_bytes env m cbs xcbs d fs src = Some bs"
    and "\<And>fn f arg b. cbs fn f arg = Some b \<Longrightarrow>
      emits buf_write (\<lambda>st. st) (\<lambda>s. Some (call_encode env fn m s f arg)) b"
    and "\<And>fn ext b. xcbs fn ext = Some b \<Longrightarrow>
      emits buf_write (\<lambda>st. st) (\<lambda>s. Some (call_ext_encode env fn m s ext)) b"
    and "unat bufsize < length bs" "length bs < 2 ^ 64"
  shows "\<exists>s. pb_encode env m d (pb_ostream_from_buffer bufsize) fs src = Some (False, s) \<and>
    PB_GET_ERROR (os_errmsg s) = ''stream full''"
proof -
  note e = encode_emits [OF assms(1-3)]
  from emits_full [OF e, of "pb_ostream_from_buffer bufsize"] assms(4,5)
  show ?thesis
    by (auto simp: pb_ostream_from_buffer_def PB_GET_ERROR_def)
qed

theorem pb_encode_buffer_full_witness:
  "\<exists>s. pb_encode demo_enc demo_mem 1 (pb_ostream_from_buffer 8) demo_fields 1000 = Some (False, s) \<and>
    PB_GET_ERROR (os_errmsg s) = ''stream full''"
  using pb_encode_buffer_full [OF demo_bytes demo_callbacks, of 8]
  by (simp del: pb_encode.simps add: length_demo)

section \<open>The sizing pass\<close>

text \<open>C3. The size that \<open>pb_get_encoded_size\<close> computes is the number of bytes the encoder writes,
  so a buffer of that size is enough.\<close>

theorem pb_get_encoded_size_exact:
  assumes "msg_bytes env m cbs xcbs d fs src = Some bs"
    and "\<And>fn f arg b. cbs fn f arg = Some b \<Longrightarrow>
      emits buf_write (\<lambda>st. st) (\<lambda>s. Some (call_encode env fn m s f arg)) b"
    and "\<And>fn ext b. xcbs fn ext = Some b \<Longrightarrow>
      emits buf_write (\<lambda>st. st) (\<lambda>s. Some (call_ext_encode env fn m s ext)) b"
    and "length bs < 2 ^ 64"
  shows "\<exists>n s. pb_get_encoded_size env m d st n0 fs src = Some (True, n) \<and> unat n = length bs \<and>
    pb_encode env m d (pb_ostream_from_buffer n) fs src = Some (True, s) \<and> os_state s = bs"
proof -
  note e = encode_emits [OF assms(1-3)]
  have len: "unat (of_nat (length bs) :: u64) = length bs"
    using assms(4) by (simp add: unat_of_nat_64)
  have "pb_get_encoded_size env m d st n0 fs src = Some (True, of_nat (length bs))"
    using emits_sizing [OF e, of "PB_OSTREAM_SIZING st"]
    by (simp add: pb_get_encoded_size_def PB_OSTREAM_SIZING_def advance_def)
  moreover obtain s where "pb_encode env m d (pb_ostream_from_buffer (of_nat (length bs))) fs src =
      Some (True, s)" "os_state s = bs"
    using emits_fits [OF e, of "pb_ostream_from_buffer (of_nat (length bs))"] len
    by (auto simp: pb_ostream_from_buffer_def advance_def)
  ultimately show ?thesis
    using len by blast
qed

theorem pb_get_encoded_size_exact_witness:
  "\<exists>n s. pb_get_encoded_size demo_enc demo_mem 1 [] 0 demo_fields 1000 = Some (True, n) \<and>
    unat n = 9 \<and>
    pb_encode demo_enc demo_mem 1 (pb_ostream_from_buffer n) demo_fields 1000 = Some (True, s) \<and>
    os_state s = demo_msg"
  using pb_get_encoded_size_exact [OF demo_bytes demo_callbacks, of "[]" 0]
  by (simp del: pb_encode.simps add: length_demo)

text \<open>The delimited format is the message behind its length as a varint, and the submessages'
  second pass writes as many bytes as the first counted.\<close>

theorem pb_encode_delimited_to_buffer:
  assumes "msg_bytes env m cbs xcbs d fs src = Some bs"
    and "\<And>fn f arg b. cbs fn f arg = Some b \<Longrightarrow>
      emits buf_write (\<lambda>st. st) (\<lambda>s. Some (call_encode env fn m s f arg)) b"
    and "\<And>fn ext b. xcbs fn ext = Some b \<Longrightarrow>
      emits buf_write (\<lambda>st. st) (\<lambda>s. Some (call_ext_encode env fn m s ext)) b"
    and "length (varint_bytes (of_nat (length bs)) @ bs) \<le> unat bufsize"
  shows "\<exists>s. pb_encode_delimited env m d (pb_ostream_from_buffer bufsize) fs src = Some (True, s) \<and>
    os_state s = varint_bytes (of_nat (length bs)) @ bs"
proof -
  note e = encode_emits [OF assms(1-3)]
  have "length bs < 18446744073709551616"
    using assms(4) unat_lt_64 [of bufsize] by simp
  then have "delimited bs = Some (varint_bytes (of_nat (length bs)) @ bs)"
    by (simp add: delimited_def)
  from emits_fits [OF buf.emits_submessage [where enc = "pb_encode env m d", OF e this], of "pb_ostream_from_buffer bufsize"]
    assms(4)
  show ?thesis
    by (auto simp: pb_encode_delimited_def pb_ostream_from_buffer_def advance_def)
qed

theorem pb_encode_delimited_to_buffer_witness:
  "\<exists>s. pb_encode_delimited demo_enc demo_mem 1 (pb_ostream_from_buffer 10) demo_fields 1000 =
      Some (True, s) \<and>
    os_state s = 0x09 # demo_msg"
  using pb_encode_delimited_to_buffer [OF demo_bytes demo_callbacks, of 10]
  by (simp del: pb_encode.simps add: length_demo varint_bytes.simps)

end
