(* ===== verification/Pb_Istream.thy ===== *)
theory Pb_Istream
  imports Pb_Types
begin

text \<open>
  The input streams of \<open>pb_decode.c\<close> and the decoders of single wire values: \<open>buf_read\<close>,
  \<open>pb_read\<close>, \<open>pb_readbyte\<close>, \<open>pb_istream_from_buffer\<close>, the varint decoders, \<open>pb_decode_tag\<close>,
  \<open>pb_skip_field\<close>, \<open>read_raw_value\<close>, and substreams. All of these loops end because each round
  reads a byte, so the functions are total.
\<close>

section \<open>Streams\<close>

text \<open>The state of a stream is the input from its pointer on, for a buffer, or a state of the
  user's. The callback is compared with \<open>buf_read\<close> in the code, so it is a datatype. A user
  callback gets the number of bytes and returns its result, the bytes it stored and its state.\<close>

datatype 's istate = Input "u8 list" | User_state 's

datatype 's icallback = Buf_read | User_read "'s \<Rightarrow> nat \<Rightarrow> bool \<times> u8 list \<times> 's"

record 's pb_istream =
  is_callback :: "'s icallback"
  is_state :: "'s istate"
  bytes_left :: u64
  is_errmsg :: "string option"

definition is_error :: "'s pb_istream \<Rightarrow> string \<Rightarrow> 's pb_istream" where
  "is_error s msg = s\<lparr>is_errmsg := PB_SET_ERROR (is_errmsg s) msg\<rparr>"

text \<open>\<open>buf_read\<close>. Reading past the end of the caller's array is undefined in C; here it gives what
  is left. The \<open>bytes_left\<close> of a stream made from a buffer excludes it.\<close>

definition buf_read :: "u8 list \<Rightarrow> nat \<Rightarrow> bool \<times> u8 list \<times> u8 list" where
  "buf_read input count = (True, take count input, drop count input)"

definition call_read :: "'s icallback \<Rightarrow> 's istate \<Rightarrow> nat \<Rightarrow> bool \<times> u8 list \<times> 's istate" where
  "call_read cb st count =
     (case (cb, st) of
        (Buf_read, Input input) \<Rightarrow>
          (case buf_read input count of (ok, bs, input') \<Rightarrow> (ok, bs, Input input'))
      | (User_read f, User_state u) \<Rightarrow>
          (case f u count of (ok, bs, u') \<Rightarrow> (ok, bs, User_state u'))
      | _ \<Rightarrow> (False, [], st))"

definition pb_istream_from_buffer :: "u8 list \<Rightarrow> u64 \<Rightarrow> 's pb_istream" where
  "pb_istream_from_buffer buf bufsize = \<lparr>is_callback = Buf_read, is_state = Input buf,
     bytes_left = bufsize, is_errmsg = None\<rparr>"

text \<open>The results carry the bytes the callback stored in the caller's buffer, also on failure.\<close>

definition read_some :: "'s pb_istream \<Rightarrow> u64 \<Rightarrow> bool \<times> u8 list \<times> 's pb_istream" where
  "read_some s count =
     (if bytes_left s < count then (False, [], is_error s ''end-of-stream'')
      else case call_read (is_callback s) (is_state s) (unat count) of
        (False, bs, st) \<Rightarrow> (False, bs, is_error (s\<lparr>is_state := st\<rparr>) ''io error'')
      | (True, bs, st) \<Rightarrow> (True, bs, s\<lparr>is_state := st, bytes_left := bytes_left s - count\<rparr>))"

text \<open>\<open>pb_read\<close> into a buffer.\<close>

definition pb_read :: "'s pb_istream \<Rightarrow> u64 \<Rightarrow> bool \<times> u8 list \<times> 's pb_istream" where
  "pb_read s count = (if count = 0 then (True, [], s) else read_some s count)"

text \<open>\<open>pb_read\<close> with a NULL buffer: from a user stream, 16 bytes at a time.\<close>

function skip_chunks :: "'s pb_istream \<Rightarrow> u64 \<Rightarrow> bool \<times> 's pb_istream" where
  "skip_chunks s count =
     (if count > 16 then
        (case pb_read s 16 of
           (False, _, s) \<Rightarrow> (False, s)
         | (True, _, s) \<Rightarrow> skip_chunks s (count - 16))
      else (case pb_read s count of (ok, _, s) \<Rightarrow> (ok, s)))"
  by pat_completeness auto
termination
proof (relation "measure (\<lambda>(s, count). unat count)", goal_cases)
  case 1
  show ?case by simp
next
  case (2 s count)
  then show ?case
    by (simp add: unat_sub word_less_nat_alt word_le_nat_alt)
qed

declare skip_chunks.simps [simp del]

definition pb_read_null :: "'s pb_istream \<Rightarrow> u64 \<Rightarrow> bool \<times> 's pb_istream" where
  "pb_read_null s count =
     (if count = 0 then (True, s)
      else if is_callback s \<noteq> Buf_read then skip_chunks s count
      else case read_some s count of (ok, _, s) \<Rightarrow> (ok, s))"

text \<open>A byte. \<open>hd\<close> is only read when the callback stored one; a user callback that claims success
  and stores nothing leaves the caller's \<open>byte\<close> as it was, here 0.\<close>

definition the_byte :: "u8 list \<Rightarrow> u8" where
  "the_byte bs = (case bs of [] \<Rightarrow> 0 | b # _ \<Rightarrow> b)"

definition pb_readbyte :: "'s pb_istream \<Rightarrow> bool \<times> u8 \<times> 's pb_istream" where
  "pb_readbyte s =
     (if bytes_left s = 0 then (False, 0, is_error s ''end-of-stream'')
      else case call_read (is_callback s) (is_state s) 1 of
        (False, bs, st) \<Rightarrow> (False, the_byte bs, is_error (s\<lparr>is_state := st\<rparr>) ''io error'')
      | (True, bs, st) \<Rightarrow>
          (True, the_byte bs, s\<lparr>is_state := st, bytes_left := bytes_left s - 1\<rparr>))"

lemma bytes_left_is_error [simp]: "bytes_left (is_error s e) = bytes_left s"
  by (simp add: is_error_def)

lemma pb_readbyte_less:
  "pb_readbyte s = (True, b, s') \<Longrightarrow> unat (bytes_left s') < unat (bytes_left s)"
  by (auto simp: pb_readbyte_def unat_minus_one unat_gt_0 split: if_splits prod.splits bool.splits)

lemma pb_read_less:
  "pb_read s n = (True, bs, s') \<Longrightarrow> unat (bytes_left s') + unat n = unat (bytes_left s)"
  by (auto simp: pb_read_def read_some_def unat_sub word_le_nat_alt not_less
      split: if_splits prod.splits bool.splits)

section \<open>Varints\<close>

text \<open>The loop of \<open>pb_decode_varint32_eof\<close> after the first byte. \<open>bitpos\<close> is a \<open>uint_fast8_t\<close>, one
  byte wide here. The result is the \<open>bitpos\<close> at the end, the last byte and the value.\<close>

function varint32_loop ::
  "'s pb_istream \<Rightarrow> u8 \<Rightarrow> u32 \<Rightarrow> bool \<times> u8 \<times> u8 \<times> u32 \<times> 's pb_istream" where
  "varint32_loop s bitpos result =
     (case pb_readbyte s of
        (False, b, s) \<Rightarrow> (False, bitpos, b, result, s)
      | (True, b, s) \<Rightarrow>
          (let sign_extension = (if bitpos < 63 then 0xFF else 0x01 :: u8) in
           if bitpos \<ge> 32 \<and> b AND 0x7F \<noteq> 0 \<and>
              (drop_bit 31 result = 0 \<or> b \<noteq> sign_extension)
           then (False, bitpos, b, result, is_error s ''varint overflow'')
           else
             let result = (if bitpos \<ge> 32 then result
                           else result OR push_bit (unat bitpos) (ucast (b AND 0x7F)))
             in if b AND 0x80 \<noteq> 0 then varint32_loop s (bitpos + 7) result
                else (True, bitpos + 7, b, result, s)))"
  by pat_completeness auto
termination
  by (relation "measure (\<lambda>(s, bitpos, result). unat (bytes_left s))")
    (auto dest: pb_readbyte_less [OF sym])

declare varint32_loop.simps [simp del]

text \<open>Returns the result, whether \<open>*eof\<close> was set, and \<open>*dest\<close>.\<close>

definition pb_decode_varint32_eof :: "'s pb_istream \<Rightarrow> bool \<times> bool \<times> u32 \<times> 's pb_istream" where
  "pb_decode_varint32_eof s =
     (case pb_readbyte s of
        (False, b, s) \<Rightarrow> (False, bytes_left s = 0, 0, s)
      | (True, b, s) \<Rightarrow>
          if b AND 0x80 = 0 then (True, False, ucast b, s)
          else case varint32_loop s 7 (ucast (b AND 0x7F)) of
            (False, bitpos, b, result, s) \<Rightarrow> (False, False, 0, s)
          | (True, bitpos, b, result, s) \<Rightarrow>
              if bitpos = 35 \<and> b AND 0x70 \<noteq> 0
              then (False, False, 0, is_error s ''varint overflow'')
              else (True, False, result, s))"

definition pb_decode_varint32 :: "'s pb_istream \<Rightarrow> bool \<times> u32 \<times> 's pb_istream" where
  "pb_decode_varint32 s =
     (case pb_decode_varint32_eof s of (ok, eof, v, s) \<Rightarrow> (ok, v, s))"

function varint_loop64 :: "'s pb_istream \<Rightarrow> u8 \<Rightarrow> u64 \<Rightarrow> bool \<times> u64 \<times> 's pb_istream" where
  "varint_loop64 s bitpos result =
     (if bitpos \<ge> 64 then (False, 0, is_error s ''varint overflow'')
      else case pb_readbyte s of
        (False, b, s) \<Rightarrow> (False, 0, s)
      | (True, b, s) \<Rightarrow>
          let result = result OR push_bit (unat bitpos) (ucast (b AND 0x7F)) in
          if b AND 0x80 \<noteq> 0 then varint_loop64 s (bitpos + 7) result
          else (True, result, s))"
  by pat_completeness auto
termination
  by (relation "measure (\<lambda>(s, bitpos, result). unat (bytes_left s))")
    (auto dest: pb_readbyte_less [OF sym])

declare varint_loop64.simps [simp del]

definition pb_decode_varint :: "'s pb_istream \<Rightarrow> bool \<times> u64 \<times> 's pb_istream" where
  "pb_decode_varint s = varint_loop64 s 0 0"

definition unzigzag :: "u64 \<Rightarrow> u64" where
  "unzigzag v = (if v AND 1 \<noteq> 0 then NOT (drop_bit 1 v) else drop_bit 1 v)"

definition pb_decode_svarint :: "'s pb_istream \<Rightarrow> bool \<times> u64 \<times> 's pb_istream" where
  "pb_decode_svarint s = (case pb_decode_varint s of (ok, v, s) \<Rightarrow> (ok, unzigzag v, s))"

section \<open>Tags and skipping\<close>

text \<open>Returns the result, \<open>*wire_type\<close>, \<open>*tag\<close>, \<open>*eof\<close>.\<close>

definition pb_decode_tag ::
  "'s pb_istream \<Rightarrow> bool \<times> pb_wire_type \<times> u32 \<times> bool \<times> 's pb_istream" where
  "pb_decode_tag s =
     (case pb_decode_varint32_eof s of
        (False, eof, _, s) \<Rightarrow> (False, 0, 0, eof, s)
      | (True, _, temp, s) \<Rightarrow>
          if temp = 0 then (False, 0, 0, True, s)
          else (True, temp AND 7, drop_bit 3 temp, False, s))"

function pb_skip_varint :: "'s pb_istream \<Rightarrow> bool \<times> 's pb_istream" where
  "pb_skip_varint s =
     (case pb_read s 1 of
        (False, _, s) \<Rightarrow> (False, s)
      | (True, bs, s) \<Rightarrow> if the_byte bs AND 0x80 \<noteq> 0 then pb_skip_varint s else (True, s))"
  by pat_completeness auto
termination
  by (relation "measure (\<lambda>s. unat (bytes_left s))") (auto dest!: pb_read_less [OF sym])

declare pb_skip_varint.simps [simp del]

definition pb_skip_string :: "'s pb_istream \<Rightarrow> bool \<times> 's pb_istream" where
  "pb_skip_string s =
     (case pb_decode_varint32 s of
        (False, _, s) \<Rightarrow> (False, s)
      | (True, n, s) \<Rightarrow> pb_read_null s (ucast n))"

definition pb_skip_field :: "'s pb_istream \<Rightarrow> pb_wire_type \<Rightarrow> bool \<times> 's pb_istream" where
  "pb_skip_field s wt =
     (if wt = PB_WT_VARINT then pb_skip_varint s
      else if wt = PB_WT_64BIT then pb_read_null s 8
      else if wt = PB_WT_STRING then pb_skip_string s
      else if wt = PB_WT_32BIT then pb_read_null s 4
      else (False, is_error s ''invalid wire_type''))"

text \<open>The varint case of \<open>read_raw_value\<close>: \<open>k\<close> bytes are in the buffer, which has \<open>max_n\<close>.\<close>

function raw_varint :: "'s pb_istream \<Rightarrow> nat \<Rightarrow> u8 list \<Rightarrow> bool \<times> u8 list \<times> 's pb_istream" where
  "raw_varint s max_n buf =
     (if length buf + 1 > max_n then (False, buf, s)
      else case pb_read s 1 of
        (False, _, s) \<Rightarrow> (False, buf, s)
      | (True, bs, s) \<Rightarrow>
          let buf = buf @ [the_byte bs] in
          if the_byte bs AND 0x80 \<noteq> 0 then raw_varint s max_n buf else (True, buf, s))"
  by pat_completeness auto
termination
  by (relation "measure (\<lambda>(s, max_n, buf). unat (bytes_left s))") (auto dest!: pb_read_less [OF sym])

declare raw_varint.simps [simp del]

text \<open>Returns the result and the bytes put in the buffer, whose number is \<open>*size\<close> on success.\<close>

definition read_raw_value ::
  "'s pb_istream \<Rightarrow> pb_wire_type \<Rightarrow> nat \<Rightarrow> bool \<times> u8 list \<times> 's pb_istream" where
  "read_raw_value s wt max_n =
     (if wt = PB_WT_VARINT then raw_varint s max_n []
      else if wt = PB_WT_64BIT then pb_read s 8
      else if wt = PB_WT_32BIT then pb_read s 4
      else (False, [], is_error s ''invalid wire_type''))"

section \<open>Substreams\<close>

text \<open>Returns the result, the substream and the parent.\<close>

definition pb_make_string_substream ::
  "'s pb_istream \<Rightarrow> bool \<times> 's pb_istream \<times> 's pb_istream" where
  "pb_make_string_substream s =
     (case pb_decode_varint32 s of
        (False, _, s) \<Rightarrow> (False, s, s)
      | (True, n, s) \<Rightarrow>
          if bytes_left s < ucast n then (False, s, is_error s ''parent stream too short'')
          else (True, s\<lparr>bytes_left := ucast n\<rparr>, s\<lparr>bytes_left := bytes_left s - ucast n\<rparr>))"

definition pb_close_string_substream ::
  "'s pb_istream \<Rightarrow> 's pb_istream \<Rightarrow> bool \<times> 's pb_istream" where
  "pb_close_string_substream s sub =
     (if bytes_left sub \<noteq> 0 then
        (case pb_read_null sub (bytes_left sub) of
           (False, sub) \<Rightarrow> (False, s)
         | (True, sub) \<Rightarrow> (True, s\<lparr>is_state := is_state sub, is_errmsg := is_errmsg sub\<rparr>))
      else (True, s\<lparr>is_state := is_state sub, is_errmsg := is_errmsg sub\<rparr>))"

section \<open>Values of fixed width\<close>

text \<open>The value stored at \<open>dest\<close>. A callback that claims success has filled the buffer.\<close>

definition pb_decode_fixed32 :: "'s pb_istream \<Rightarrow> bool \<times> u32 \<times> 's pb_istream" where
  "pb_decode_fixed32 s =
     (case pb_read s 4 of
        (False, _, s) \<Rightarrow> (False, 0, s)
      | (True, bytes, s) \<Rightarrow>
          (True, push_bit 0 (ucast (bytes ! 0)) OR push_bit 8 (ucast (bytes ! 1)) OR
             push_bit 16 (ucast (bytes ! 2)) OR push_bit 24 (ucast (bytes ! 3)), s))"

definition pb_decode_fixed64 :: "'s pb_istream \<Rightarrow> bool \<times> u64 \<times> 's pb_istream" where
  "pb_decode_fixed64 s =
     (case pb_read s 8 of
        (False, _, s) \<Rightarrow> (False, 0, s)
      | (True, bytes, s) \<Rightarrow>
          (True, push_bit 0 (ucast (bytes ! 0)) OR push_bit 8 (ucast (bytes ! 1)) OR
             push_bit 16 (ucast (bytes ! 2)) OR push_bit 24 (ucast (bytes ! 3)) OR
             push_bit 32 (ucast (bytes ! 4)) OR push_bit 40 (ucast (bytes ! 5)) OR
             push_bit 48 (ucast (bytes ! 6)) OR push_bit 56 (ucast (bytes ! 7)), s))"

end
