(* ===== verification/Pb_Release.thy ===== *)
theory Pb_Release
  imports Pb_Common Pb_Istream
begin

text \<open>
  The parts of \<open>pb_decode.c\<close> that walk over a message in memory without reading input: setting
  the default values and releasing allocated fields; and the machine state of the decoder.

  The state is byte memory and the allocator's (\<open>mach\<close>), with the stream beside it while
  decoding. \<open>pb_realloc\<close> and \<open>pb_free\<close> are the C library's, user callbacks are the user's: they are
  arguments, with the descriptor arrays and the address that the local variable
  \<open>fixed_count_size\<close> has at each depth of recursion (its address is taken). Recursion through
  submessages is bounded by a fuel \<open>d\<close>; loops that follow a linked list are partial functions.
  \<open>None\<close> is running out of fuel or a loop that does not end.
\<close>

record 'h mach =
  mem :: memory
  heap :: 'h

type_synonym ('s, 'h) dstate = "'s pb_istream \<times> 'h mach"

type_synonym ('s, 'h) dresult = "(bool \<times> ('s, 'h) dstate) option"

record ('s, 'h) dec_env =
  dec_descs :: "addr \<Rightarrow> pb_field list"
  call_decode :: "addr \<Rightarrow> pb_field \<Rightarrow> addr \<Rightarrow> ('s, 'h) dstate \<Rightarrow> bool \<times> ('s, 'h) dstate"
  call_ext_decode ::
    "addr \<Rightarrow> addr \<Rightarrow> u32 \<Rightarrow> pb_wire_type \<Rightarrow> ('s, 'h) dstate \<Rightarrow> bool \<times> ('s, 'h) dstate"
  pb_realloc :: "addr \<Rightarrow> u64 \<Rightarrow> 'h mach \<Rightarrow> addr \<times> 'h mach"
  pb_free :: "addr \<Rightarrow> 'h mach \<Rightarrow> 'h mach"
  frame :: "nat \<Rightarrow> addr"

type_synonym ('s, 'h) decoder = "pb_field \<Rightarrow> addr \<Rightarrow> ('s, 'h) dstate \<Rightarrow> ('s, 'h) dresult"

type_synonym ('s, 'h) msg_decoder =
  "pb_field list \<Rightarrow> addr \<Rightarrow> ('s, 'h) dstate \<Rightarrow> ('s, 'h) dresult"

definition d_error :: "('s, 'h) dstate \<Rightarrow> string \<Rightarrow> bool \<times> ('s, 'h) dstate" where
  "d_error st msg = (False, is_error (fst st) msg, snd st)"

text \<open>Run a read on the stream, store what it produced with \<open>put\<close>.\<close>

definition on_value :: "bool \<times> 'v \<times> 's pb_istream \<Rightarrow> 'h mach \<Rightarrow>
    ('v \<Rightarrow> ('s, 'h) dstate \<Rightarrow> ('s, 'h) dresult) \<Rightarrow> ('s, 'h) dresult" where
  "on_value r w k = (case r of
       (False, _, s) \<Rightarrow> Some (False, s, w)
     | (True, v, s) \<Rightarrow> k v (s, w))"

definition poke :: "(memory \<Rightarrow> memory) \<Rightarrow> ('s, 'h) dstate \<Rightarrow> ('s, 'h) dstate" where
  "poke g st = (fst st, mem_update g (snd st))"

definition read_into :: "addr \<Rightarrow> u64 \<Rightarrow> ('s, 'h) dstate \<Rightarrow> bool \<times> ('s, 'h) dstate" where
  "read_into p n st = (case pb_read (fst st) n of
     (ok, bs, s) \<Rightarrow> (ok, s, mem_update (\<lambda>m. store m p bs) (snd st)))"

definition memset :: "memory \<Rightarrow> addr \<Rightarrow> u8 \<Rightarrow> nat \<Rightarrow> memory" where
  "memset m p v n = store m p (replicate n v)"

definition memcpy :: "memory \<Rightarrow> addr \<Rightarrow> addr \<Rightarrow> nat \<Rightarrow> memory" where
  "memcpy m p q n = store m p (load m q n)"

section \<open>Extensions as iterators\<close>

definition iter_from_extension :: "('s, 'h) dec_env \<Rightarrow> memory \<Rightarrow> addr \<Rightarrow> pb_field_iter" where
  "iter_from_extension env m ext =
     (let fs = dec_descs env (ext_type_arg m (ext_type m ext));
          it = snd (pb_field_iter_begin fs (ext_dest m ext))
      in it\<lparr>pData := (if PB_ATYPE (ftype (field_at fs 0)) = PB_ATYPE_POINTER
                      then ext_dest_at ext else ext_dest m ext),
            pSize := ext_found_at ext\<rparr>)"

text \<open>The loops over the list of extensions; \<open>ext->next\<close> is read after the body has run.\<close>

partial_function (option) ext_loop ::
  "(addr \<Rightarrow> 'w \<Rightarrow> 'w option) \<Rightarrow> ('w \<Rightarrow> memory) \<Rightarrow> addr \<Rightarrow> 'w \<Rightarrow> 'w option" where
  "ext_loop body get ext w =
     (if ext = 0 then Some w
      else Option.bind (body ext w) (\<lambda>w. ext_loop body get (ext_next (get w) ext) w))"

section \<open>Default values\<close>

definition message_defaults :: "(pb_field_iter \<Rightarrow> memory \<Rightarrow> memory option) \<Rightarrow>
    pb_field list \<Rightarrow> addr \<Rightarrow> memory \<Rightarrow> memory option" where
  "message_defaults fd fs dest m =
     (case pb_field_iter_begin fs dest of
        (False, _) \<Rightarrow> Some m
      | (True, it) \<Rightarrow>
          map_option snd (iter_do (\<lambda>it m. map_option (Pair True) (fd it m)) it m))"

definition field_default :: "('s, 'h) dec_env \<Rightarrow> (pb_field_iter \<Rightarrow> memory \<Rightarrow> memory option) \<Rightarrow>
    pb_field_iter \<Rightarrow> memory \<Rightarrow> memory option" where
  "field_default env fd it m =
     (let f = pos_field it; t = ftype f in
      if PB_LTYPE t = PB_LTYPE_EXTENSION then
        ext_loop (\<lambda>ext m.
            let m = st8 m (ext_found_at ext) 0 in fd (iter_from_extension env m ext) m)
          id (ld_ptr m (pData it)) m
      else if PB_ATYPE t = PB_ATYPE_STATIC then
        (if PB_HTYPE t = PB_HTYPE_REPEATED \<or> PB_HTYPE t = PB_HTYPE_ONEOF
         then Some (st32 m (pSize it) 0)
         else
           let m = (if PB_HTYPE t = PB_HTYPE_OPTIONAL \<and> pSize it \<noteq> pData it
                    then st8 m (pSize it) 0 else m)
           in if PB_LTYPE t = PB_LTYPE_SUBMESSAGE
              then message_defaults fd (dec_descs env (ptr f)) (pData it) m
              else if ptr f \<noteq> 0 then Some (memcpy m (pData it) (ptr f) (unat (data_size f)))
              else Some (memset m (pData it) 0 (unat (data_size f))))
      else if PB_ATYPE t = PB_ATYPE_POINTER then
        (let m = st_ptr m (pData it) 0 in
         Some (if PB_HTYPE t = PB_HTYPE_REPEATED \<or> PB_HTYPE t = PB_HTYPE_ONEOF
               then st32 m (pSize it) 0 else m))
      else Some m)"

fun pb_field_set_to_default ::
  "('s, 'h) dec_env \<Rightarrow> nat \<Rightarrow> pb_field_iter \<Rightarrow> memory \<Rightarrow> memory option" where
  "pb_field_set_to_default env 0 it m = None"
| "pb_field_set_to_default env (Suc d) it m =
     field_default env (pb_field_set_to_default env d) it m"

definition pb_message_set_to_defaults ::
  "('s, 'h) dec_env \<Rightarrow> nat \<Rightarrow> pb_field list \<Rightarrow> addr \<Rightarrow> memory \<Rightarrow> memory option" where
  "pb_message_set_to_defaults env d = message_defaults (pb_field_set_to_default env d)"

section \<open>Releasing\<close>

definition release_message :: "(pb_field_iter \<Rightarrow> 'h mach \<Rightarrow> 'h mach option) \<Rightarrow>
    pb_field list \<Rightarrow> addr \<Rightarrow> 'h mach \<Rightarrow> 'h mach option" where
  "release_message rel fs dest w =
     (if dest = 0 then Some w
      else case pb_field_iter_begin fs dest of
        (False, _) \<Rightarrow> Some w
      | (True, it) \<Rightarrow>
          map_option snd (iter_do (\<lambda>it w. map_option (Pair True) (rel it w)) it w))"

fun release_items :: "(addr \<Rightarrow> 'h mach \<Rightarrow> 'h mach option) \<Rightarrow> pb_size \<Rightarrow> nat \<Rightarrow> addr \<Rightarrow>
    'h mach \<Rightarrow> 'h mach option" where
  "release_items rel n 0 p w = Some w"
| "release_items rel n (Suc k) p w =
     Option.bind (rel p w) (\<lambda>w. release_items rel n k (p + uint n) w)"

text \<open>\<open>while (count--) { pb_free( *pItem); *pItem++ = NULL; }\<close>\<close>

fun free_items :: "('s, 'h) dec_env \<Rightarrow> nat \<Rightarrow> addr \<Rightarrow> 'h mach \<Rightarrow> 'h mach" where
  "free_items env 0 p w = w"
| "free_items env (Suc k) p w =
     free_items env k (p + int sizeof_ptr)
       (mem_update (\<lambda>m. st_ptr m p 0) (pb_free env (ld_ptr (mem w) p) w))"

definition submsg_count :: "pb_field_iter \<Rightarrow> memory \<Rightarrow> pb_size" where
  "submsg_count it m =
     (let f = pos_field it; t = ftype f in
      if PB_HTYPE t = PB_HTYPE_REPEATED then
        (let count = (if PB_ATYPE t = PB_ATYPE_STATIC \<and> pSize it = pData it
                      then array_size f else ld32 m (pSize it))
         in if PB_ATYPE t = PB_ATYPE_STATIC \<and> count > array_size f then array_size f else count)
      else 1)"

definition release_contents :: "('s, 'h) dec_env \<Rightarrow> (pb_field_iter \<Rightarrow> 'h mach \<Rightarrow> 'h mach option) \<Rightarrow>
    pb_field_iter \<Rightarrow> 'h mach \<Rightarrow> 'h mach option" where
  "release_contents env rel it w =
     (let f = pos_field it; t = ftype f in
      if PB_LTYPE t = PB_LTYPE_EXTENSION then
        ext_loop (\<lambda>ext w. rel (iter_from_extension env (mem w) ext) w) mem
          (ld_ptr (mem w) (pData it)) w
      else if PB_LTYPE t = PB_LTYPE_SUBMESSAGE \<and> PB_ATYPE t \<noteq> PB_ATYPE_CALLBACK then
        (let pItem = (if PB_ATYPE t = PB_ATYPE_POINTER then ld_ptr (mem w) (pData it)
                      else pData it)
         in if pItem \<noteq> 0
            then release_items (release_message rel (dec_descs env (ptr f))) (data_size f)
                   (unat (submsg_count it (mem w))) pItem w
            else Some w)
      else Some w)"

definition release_pointers :: "('s, 'h) dec_env \<Rightarrow> pb_field_iter \<Rightarrow> 'h mach \<Rightarrow> 'h mach" where
  "release_pointers env it w =
     (let t = ftype (pos_field it) in
      if PB_ATYPE t = PB_ATYPE_POINTER then
        (let w = (if PB_HTYPE t = PB_HTYPE_REPEATED \<and>
                     (PB_LTYPE t = PB_LTYPE_STRING \<or> PB_LTYPE t = PB_LTYPE_BYTES)
                  then free_items env (unat (ld32 (mem w) (pSize it)))
                         (ld_ptr (mem w) (pData it)) w
                  else w);
             w = (if PB_HTYPE t = PB_HTYPE_REPEATED
                  then mem_update (\<lambda>m. st32 m (pSize it) 0) w else w)
         in mem_update (\<lambda>m. st_ptr m (pData it) 0) (pb_free env (ld_ptr (mem w) (pData it)) w))
      else w)"

definition release_single :: "('s, 'h) dec_env \<Rightarrow> (pb_field_iter \<Rightarrow> 'h mach \<Rightarrow> 'h mach option) \<Rightarrow>
    pb_field_iter \<Rightarrow> 'h mach \<Rightarrow> 'h mach option" where
  "release_single env rel it w =
     (if PB_HTYPE (ftype (pos_field it)) = PB_HTYPE_ONEOF \<and>
         ld32 (mem w) (pSize it) \<noteq> tag (pos_field it)
      then Some w
      else map_option (release_pointers env it) (release_contents env rel it w))"

fun pb_release_single_field ::
  "('s, 'h) dec_env \<Rightarrow> nat \<Rightarrow> pb_field_iter \<Rightarrow> 'h mach \<Rightarrow> 'h mach option" where
  "pb_release_single_field env 0 it w = None"
| "pb_release_single_field env (Suc d) it w =
     release_single env (pb_release_single_field env d) it w"

definition pb_release ::
  "('s, 'h) dec_env \<Rightarrow> nat \<Rightarrow> pb_field list \<Rightarrow> addr \<Rightarrow> 'h mach \<Rightarrow> 'h mach option" where
  "pb_release env d = release_message (pb_release_single_field env d)"

end
