(* ===== verification/Pb_Decode.thy ===== *)
theory Pb_Decode
  imports Pb_Release
begin

text \<open>
  The message decoder of \<open>pb_decode.c\<close>: the field decoders and their table, static, pointer and
  callback fields, extensions, the message loop and the entry points. As in the encoder, each
  function takes the message decoders of one level below as arguments, and \<open>pb_decode_noinit\<close>
  closes the knot with the fuel \<open>d\<close>. Loops that call field decoders through a pointer, or the
  user's, are partial functions. \<open>None\<close> is running out of fuel, a loop that does not end, or a call
  through a table entry that is NULL or outside the table.
\<close>

lemma and_then_opt_mono [partial_function_mono]:
  assumes "mono_option B" "\<And>y. mono_option (\<lambda>f. C y f)"
  shows "mono_option (\<lambda>f. and_then_opt (B f) (\<lambda>y. C y f))"
proof -
  have eq: "and_then_opt r k = Option.bind r (\<lambda>p. if fst p then k (snd p) else Some (False, snd p))"
    for r :: "(bool \<times> 's) option" and k
    by (auto simp: and_then_opt_def split: option.splits)
  have *: "mono_option (\<lambda>f. if fst p then C (snd p) f else Some (False, snd p))" for p
    using assms(2) [of "snd p"] by (cases "fst p") (simp_all add: option.const_mono)
  show ?thesis
    unfolding eq by (rule bind_mono [OF assms(1) *])
qed

section \<open>Allocation\<close>

text \<open>The multiplication is only checked when one of the factors has a bit in the upper half.\<close>

definition allocate_field ::
  "('s, 'h) dec_env \<Rightarrow> addr \<Rightarrow> u64 \<Rightarrow> u64 \<Rightarrow> ('s, 'h) dstate \<Rightarrow> bool \<times> ('s, 'h) dstate" where
  "allocate_field env p dsize asize st =
     (let old = ld_ptr (mem (snd st)) p; check_limit = push_bit 32 1 :: u64 in
      if dsize = 0 \<or> asize = 0 then d_error st ''invalid size''
      else if (dsize \<ge> check_limit \<or> asize \<ge> check_limit) \<and> (- 1) div asize < dsize
      then d_error st ''size too large''
      else case pb_realloc env old (asize * dsize) (snd st) of (new, w) \<Rightarrow>
        if new = 0 then d_error (fst st, w) ''realloc failed''
        else (True, poke (\<lambda>m. st_ptr m p new) (fst st, w)))"

section \<open>Field decoders\<close>

definition pb_dec_bool :: "('s, 'h) decoder" where
  "pb_dec_bool f dest st = on_value (pb_decode_varint32 (fst st)) (snd st) (\<lambda>v st.
     Some (True, poke (\<lambda>m. st8 m dest (if v \<noteq> 0 then 1 else 0)) st))"

text \<open>\<open>pb_decode_bool\<close> is the public entry to the same function, which ignores the descriptor.\<close>

definition pb_decode_bool :: "addr \<Rightarrow> ('s, 'h) dstate \<Rightarrow> ('s, 'h) dresult" where
  "pb_decode_bool dest st = pb_dec_bool PB_LAST_FIELD dest st"

text \<open>The cast and store of a 64-bit value by \<open>data_size\<close>: the store, and the value read back
  (\<open>clamped\<close>), sign-extended or not.\<close>

definition clamp_signed :: "pb_size \<Rightarrow> addr \<Rightarrow> u64 \<Rightarrow> ((memory \<Rightarrow> memory) \<times> u64) option" where
  "clamp_signed n dest v =
     (if n = 8 then Some (\<lambda>m. st64 m dest v, v)
      else if n = 4 then Some (\<lambda>m. st32 m dest (ucast v), scast (ucast v :: u32))
      else if n = 2 then Some (\<lambda>m. st16 m dest (ucast v), scast (ucast v :: u16))
      else if n = 1 then Some (\<lambda>m. st8 m dest (ucast v), scast (ucast v :: u8))
      else None)"

definition clamp_unsigned :: "pb_size \<Rightarrow> addr \<Rightarrow> u64 \<Rightarrow> ((memory \<Rightarrow> memory) \<times> u64) option" where
  "clamp_unsigned n dest v =
     (if n = 8 then Some (\<lambda>m. st64 m dest v, v)
      else if n = 4 then Some (\<lambda>m. st32 m dest (ucast v), ucast (ucast v :: u32))
      else if n = 2 then Some (\<lambda>m. st16 m dest (ucast v), ucast (ucast v :: u16))
      else if n = 1 then Some (\<lambda>m. st8 m dest (ucast v), ucast (ucast v :: u8))
      else None)"

definition store_clamped ::
  "((memory \<Rightarrow> memory) \<times> u64) option \<Rightarrow> u64 \<Rightarrow> ('s, 'h) dstate \<Rightarrow> bool \<times> ('s, 'h) dstate" where
  "store_clamped r v st = (case r of
       None \<Rightarrow> d_error st ''invalid data_size''
     | Some (g, clamped) \<Rightarrow>
         if clamped \<noteq> v then d_error (poke g st) ''integer too large'' else (True, poke g st))"

definition pb_dec_varint :: "('s, 'h) decoder" where
  "pb_dec_varint f dest st = on_value (pb_decode_varint (fst st)) (snd st) (\<lambda>v st.
     let sv = (if data_size f = 8 then v else scast (ucast v :: u32)) in
     Some (store_clamped (clamp_signed (data_size f) dest sv) sv st))"

definition pb_dec_uvarint :: "('s, 'h) decoder" where
  "pb_dec_uvarint f dest st = on_value (pb_decode_varint (fst st)) (snd st) (\<lambda>v st.
     Some (store_clamped (clamp_unsigned (data_size f) dest v) v st))"

definition pb_dec_svarint :: "('s, 'h) decoder" where
  "pb_dec_svarint f dest st = on_value (pb_decode_svarint (fst st)) (snd st) (\<lambda>v st.
     Some (store_clamped (clamp_signed (data_size f) dest v) v st))"

definition pb_dec_fixed32 :: "('s, 'h) decoder" where
  "pb_dec_fixed32 f dest st = on_value (pb_decode_fixed32 (fst st)) (snd st) (\<lambda>v st.
     Some (True, poke (\<lambda>m. st32 m dest v) st))"

definition pb_dec_fixed64 :: "('s, 'h) decoder" where
  "pb_dec_fixed64 f dest st = on_value (pb_decode_fixed64 (fst st)) (snd st) (\<lambda>v st.
     Some (True, poke (\<lambda>m. st64 m dest v) st))"

definition pb_dec_bytes :: "('s, 'h) dec_env \<Rightarrow> ('s, 'h) decoder" where
  "pb_dec_bytes env f dest st = on_value (pb_decode_varint32 (fst st)) (snd st) (\<lambda>n st.
     let alloc_size = PB_BYTES_ARRAY_T_ALLOCSIZE (ucast n);
         fill = (\<lambda>bdest st. Some (read_into (bytes_bytes bdest) (ucast n)
                                    (poke (\<lambda>m. st32 m bdest n) st)))
     in if n > PB_SIZE_MAX then Some (d_error st ''bytes overflow'')
        else if ucast n > alloc_size then Some (d_error st ''size too large'')
        else if PB_ATYPE (ftype f) = PB_ATYPE_POINTER then
          (if bytes_left (fst st) < ucast n then Some (d_error st ''end-of-stream'')
           else and_then_opt (Some (allocate_field env dest alloc_size 1 st)) (\<lambda>st.
             fill (ld_ptr (mem (snd st)) dest) st))
        else if alloc_size > ucast (data_size f) then Some (d_error st ''bytes overflow'')
        else fill dest st)"

text \<open>\<open>alloc_size = size + 1\<close> is computed in 32 bits.\<close>

definition pb_dec_string :: "('s, 'h) dec_env \<Rightarrow> ('s, 'h) decoder" where
  "pb_dec_string env f dest st = on_value (pb_decode_varint32 (fst st)) (snd st) (\<lambda>n st.
     let alloc_size = ucast (n + 1) :: u64;
         fill = (\<lambda>dest st. case read_into dest (ucast n) st of
                   (status, st) \<Rightarrow> Some (status, poke (\<lambda>m. st8 m (dest + uint n) 0) st))
     in if alloc_size < ucast n then Some (d_error st ''size too large'')
        else if PB_ATYPE (ftype f) = PB_ATYPE_POINTER then
          (if bytes_left (fst st) < ucast n then Some (d_error st ''end-of-stream'')
           else and_then_opt (Some (allocate_field env dest alloc_size 1 st)) (\<lambda>st.
             fill (ld_ptr (mem (snd st)) dest) st))
        else if alloc_size > ucast (data_size f) then Some (d_error st ''string overflow'')
        else fill dest st)"

text \<open>Run \<open>k\<close> on the substream of the length that comes next, then close it. \<open>pb_dec_submessage\<close>,
  \<open>pb_decode_delimited\<close> and \<open>pb_decode_delimited_noinit\<close> have this shape.\<close>

definition close_substream ::
  "'s pb_istream \<Rightarrow> bool \<times> ('s, 'h) dstate \<Rightarrow> bool \<times> ('s, 'h) dstate" where
  "close_substream s r = (case r of (status, sub, w) \<Rightarrow>
     (case pb_close_string_substream s sub of
        (False, s) \<Rightarrow> (False, s, w)
      | (True, s) \<Rightarrow> (status, s, w)))"

definition in_substream :: "(('s, 'h) dstate \<Rightarrow> ('s, 'h) dresult) \<Rightarrow>
    ('s, 'h) dstate \<Rightarrow> ('s, 'h) dresult" where
  "in_substream k st = (case pb_make_string_substream (fst st) of
       (False, _, s) \<Rightarrow> Some (False, s, snd st)
     | (True, sub, s) \<Rightarrow> map_option (close_substream s) (k (sub, snd st)))"

definition pb_dec_submessage :: "('s, 'h) dec_env \<Rightarrow> ('s, 'h) msg_decoder \<Rightarrow>
    ('s, 'h) msg_decoder \<Rightarrow> ('s, 'h) decoder" where
  "pb_dec_submessage env dec dec_noinit f dest st =
     (if ptr f = 0 then
        (case pb_make_string_substream (fst st) of
           (False, _, s) \<Rightarrow> Some (False, s, snd st)
         | (True, _, s) \<Rightarrow> Some (d_error (s, snd st) ''invalid field descriptor''))
      else in_substream (\<lambda>st.
             if PB_HTYPE (ftype f) = PB_HTYPE_REPEATED
             then dec (dec_descs env (ptr f)) dest st
             else dec_noinit (dec_descs env (ptr f)) dest st) st)"

definition pb_dec_fixed_length_bytes :: "('s, 'h) decoder" where
  "pb_dec_fixed_length_bytes f dest st = on_value (pb_decode_varint32 (fst st)) (snd st) (\<lambda>n st.
     Some (if n > PB_SIZE_MAX then d_error st ''bytes overflow''
       else if n = 0 then (True, poke (\<lambda>m. memset m dest 0 (unat (data_size f))) st)
       else if n \<noteq> data_size f then d_error st ''incorrect fixed length bytes size''
       else read_into dest (ucast (data_size f)) st))"

definition PB_DECODERS :: "('s, 'h) dec_env \<Rightarrow> ('s, 'h) msg_decoder \<Rightarrow> ('s, 'h) msg_decoder \<Rightarrow>
    ('s, 'h) decoder option list" where
  "PB_DECODERS env dec dec_noinit =
     [Some pb_dec_bool, Some pb_dec_varint, Some pb_dec_uvarint, Some pb_dec_svarint,
      Some pb_dec_fixed32, Some pb_dec_fixed64, Some (pb_dec_bytes env),
      Some (pb_dec_string env), Some (pb_dec_submessage env dec dec_noinit), None,
      Some pb_dec_fixed_length_bytes]"

definition decoder_of :: "('s, 'h) dec_env \<Rightarrow> ('s, 'h) msg_decoder \<Rightarrow> ('s, 'h) msg_decoder \<Rightarrow>
    pb_field \<Rightarrow> ('s, 'h) decoder option" where
  "decoder_of env dec dec_noinit f =
     (let i = unat (PB_LTYPE (ftype f)) in
      if i < length (PB_DECODERS env dec dec_noinit)
      then Some (case PB_DECODERS env dec dec_noinit ! i of
             Some func \<Rightarrow> func | None \<Rightarrow> (\<lambda>f p st. None))
      else None)"

section \<open>Static fields\<close>

text \<open>The loop over a packed array: it runs on the substream, as long as there is input and room in
  the array. The count is in memory.\<close>

partial_function (option) packed_static ::
  "('s, 'h) decoder \<Rightarrow> pb_field_iter \<Rightarrow> ('s, 'h) dstate \<Rightarrow> ('s, 'h) dresult" where
  "packed_static func it st =
     (let f = pos_field it; n = ld32 (mem (snd st)) (pSize it) in
      if 0 < bytes_left (fst st) \<and> n < array_size f then
        and_then_opt (func f (pData it + uint (data_size f * n)) st) (\<lambda>st.
          packed_static func it (poke (\<lambda>m. st32 m (pSize it) (ld32 m (pSize it) + 1)) st))
      else Some (True, st))"

definition decode_packed_static ::
  "('s, 'h) decoder \<Rightarrow> pb_field_iter \<Rightarrow> ('s, 'h) dstate \<Rightarrow> ('s, 'h) dresult" where
  "decode_packed_static func it st = (case pb_make_string_substream (fst st) of
       (False, _, s) \<Rightarrow> Some (False, s, snd st)
     | (True, sub, s) \<Rightarrow> map_option (\<lambda>(status, sub, w).
           if bytes_left sub \<noteq> 0 then d_error (s, w) ''array overflow''
           else close_substream s (status, sub, w)) (packed_static func it (sub, snd st)))"

definition decode_static_field :: "('s, 'h) dec_env \<Rightarrow> nat \<Rightarrow> ('s, 'h) decoder \<Rightarrow>
    pb_wire_type \<Rightarrow> pb_field_iter \<Rightarrow> ('s, 'h) dstate \<Rightarrow> ('s, 'h) dresult" where
  "decode_static_field env d func wt it st =
     (let f = pos_field it; t = ftype f in
      if PB_HTYPE t = PB_HTYPE_REQUIRED then func f (pData it) st
      else if PB_HTYPE t = PB_HTYPE_OPTIONAL then
        func f (pData it) (if pSize it \<noteq> pData it then poke (\<lambda>m. st8 m (pSize it) 1) st else st)
      else if PB_HTYPE t = PB_HTYPE_REPEATED then
        (if wt = PB_WT_STRING \<and> PB_LTYPE t \<le> PB_LTYPE_LAST_PACKABLE
         then decode_packed_static func it st
         else
           let n = ld32 (mem (snd st)) (pSize it);
               st = poke (\<lambda>m. st32 m (pSize it) (n + 1)) st
           in if n \<ge> array_size f then Some (d_error st ''array overflow'')
              else func f (pData it + uint (data_size f * n)) st)
      else
        do {
          m \<leftarrow> (if PB_LTYPE t = PB_LTYPE_SUBMESSAGE \<and> ld32 (mem (snd st)) (pSize it) \<noteq> tag f
               then pb_message_set_to_defaults env d (dec_descs env (ptr f)) (pData it)
                      (memset (mem (snd st)) (pData it) 0 (unat (data_size f)))
               else Some (mem (snd st)));
          func f (pData it) (poke (\<lambda>_. st32 m (pSize it) (tag f)) st)
        })"

section \<open>Pointer fields\<close>

definition initialize_pointer_field ::
  "('s, 'h) dec_env \<Rightarrow> nat \<Rightarrow> addr \<Rightarrow> pb_field \<Rightarrow> ('s, 'h) dstate \<Rightarrow> ('s, 'h) dstate option" where
  "initialize_pointer_field env d p f st =
     (let t = ftype f; m = mem (snd st) in
      map_option (\<lambda>m. poke (\<lambda>_. m) st)
       (if PB_LTYPE t = PB_LTYPE_STRING \<or> PB_LTYPE t = PB_LTYPE_BYTES then Some (st_ptr m p 0)
        else if PB_LTYPE t = PB_LTYPE_SUBMESSAGE
        then pb_message_set_to_defaults env d (dec_descs env (ptr f)) p
               (memset m p 0 (unat (data_size f)))
        else Some m))"

text \<open>The number of entries to have room for when the next one is number \<open>n\<close>.\<close>

definition grow_array :: "u64 \<Rightarrow> pb_size \<Rightarrow> u64 \<Rightarrow> u64" where
  "grow_array left dsize allocated =
     (let remain = (left - 1) div ucast dsize + 1 in
      if remain < ucast PB_SIZE_MAX - allocated then allocated + remain else allocated + 1)"

text \<open>The loop over a packed array in allocated memory. The last component of the result says that
  the error message of the parent stream was set. Division by a zero \<open>data_size\<close> is undefined.\<close>

partial_function (option) packed_pointer :: "('s, 'h) dec_env \<Rightarrow> nat \<Rightarrow> ('s, 'h) decoder \<Rightarrow>
    pb_field_iter \<Rightarrow> u64 \<Rightarrow> ('s, 'h) dstate \<Rightarrow> (bool \<times> ('s, 'h) dstate \<times> bool) option" where
  "packed_pointer env d func it allocated st =
     (let f = pos_field it; n = ld32 (mem (snd st)) (pSize it);
          more_room = ucast n + 1 > allocated;
          allocated' = (if more_room then grow_array (bytes_left (fst st)) (data_size f) allocated
                        else allocated)
      in
      if bytes_left (fst st) = 0 then Some (True, st, False)
      else if n = PB_SIZE_MAX then Some (False, st, True)
      else if more_room \<and> data_size f = 0 then None
      else
        let r = (if more_room
                 then allocate_field env (pData it) (ucast (data_size f)) allocated' st
                 else (True, st));
            st = snd r;
            pItem = ld_ptr (mem (snd st)) (pData it) +
                      uint (data_size f * ld32 (mem (snd st)) (pSize it))
        in
        if \<not> fst r then Some (False, st, False)
        else
          Option.bind (initialize_pointer_field env d pItem f st) (\<lambda>st.
          Option.bind (func f pItem st) (\<lambda>r.
            if \<not> fst r then Some (False, snd r, False)
            else packed_pointer env d func it allocated'
                   (poke (\<lambda>m. st32 m (pSize it) (ld32 m (pSize it) + 1)) (snd r)))))"

definition decode_packed_pointer :: "('s, 'h) dec_env \<Rightarrow> nat \<Rightarrow> ('s, 'h) decoder \<Rightarrow>
    pb_field_iter \<Rightarrow> ('s, 'h) dstate \<Rightarrow> ('s, 'h) dresult" where
  "decode_packed_pointer env d func it st = (case pb_make_string_substream (fst st) of
       (False, _, s) \<Rightarrow> Some (False, s, snd st)
     | (True, sub, s) \<Rightarrow> map_option (\<lambda>(status, (sub, w), too_many).
           close_substream
             (if too_many then s\<lparr>is_errmsg := Some ''too many array entries''\<rparr> else s)
             (status, sub, w))
         (packed_pointer env d func it (ucast (ld32 (mem (snd st)) (pSize it))) (sub, snd st)))"

definition decode_pointer_single :: "('s, 'h) dec_env \<Rightarrow> nat \<Rightarrow> ('s, 'h) decoder \<Rightarrow>
    pb_field_iter \<Rightarrow> ('s, 'h) dstate \<Rightarrow> ('s, 'h) dresult" where
  "decode_pointer_single env d func it st =
     (let f = pos_field it; t = ftype f in
      do {
        w \<leftarrow> (if PB_LTYPE t = PB_LTYPE_SUBMESSAGE \<and> ld_ptr (mem (snd st)) (pData it) \<noteq> 0
             then pb_release_single_field env d it (snd st) else Some (snd st));
        let st = (fst st, w);
        let st = (if PB_HTYPE t = PB_HTYPE_ONEOF
                  then poke (\<lambda>m. st32 m (pSize it) (tag f)) st else st);
        if PB_LTYPE t = PB_LTYPE_STRING \<or> PB_LTYPE t = PB_LTYPE_BYTES
        then func f (pData it) st
        else and_then_opt (Some (allocate_field env (pData it) (ucast (data_size f)) 1 st)) (\<lambda>st.
          do {
            st \<leftarrow> initialize_pointer_field env d (ld_ptr (mem (snd st)) (pData it)) f st;
            func f (ld_ptr (mem (snd st)) (pData it)) st
          })
      })"

definition decode_pointer_item :: "('s, 'h) dec_env \<Rightarrow> nat \<Rightarrow> ('s, 'h) decoder \<Rightarrow>
    pb_field_iter \<Rightarrow> ('s, 'h) dstate \<Rightarrow> ('s, 'h) dresult" where
  "decode_pointer_item env d func it st =
     (let f = pos_field it; n = ld32 (mem (snd st)) (pSize it) in
      if n = PB_SIZE_MAX then Some (d_error st ''too many array entries'')
      else and_then_opt
        (Some (allocate_field env (pData it) (ucast (data_size f)) (ucast (n + 1)) st)) (\<lambda>st.
        do {
          let n = ld32 (mem (snd st)) (pSize it);
          let pItem = ld_ptr (mem (snd st)) (pData it) + uint (data_size f * n);
          st \<leftarrow> initialize_pointer_field env d pItem f (poke (\<lambda>m. st32 m (pSize it) (n + 1)) st);
          func f pItem st
        }))"

definition decode_pointer_field :: "('s, 'h) dec_env \<Rightarrow> nat \<Rightarrow> ('s, 'h) decoder \<Rightarrow>
    pb_wire_type \<Rightarrow> pb_field_iter \<Rightarrow> ('s, 'h) dstate \<Rightarrow> ('s, 'h) dresult" where
  "decode_pointer_field env d func wt it st =
     (let t = ftype (pos_field it) in
      if PB_HTYPE t \<noteq> PB_HTYPE_REPEATED then decode_pointer_single env d func it st
      else if wt = PB_WT_STRING \<and> PB_LTYPE t \<le> PB_LTYPE_LAST_PACKABLE
      then decode_packed_pointer env d func it st
      else decode_pointer_item env d func it st)"

section \<open>Callback fields\<close>

text \<open>\<open>do { if (!decode(&substream, ...)) error; } while (substream.bytes_left)\<close>. The function
  pointer is read again in each round.\<close>

partial_function (option) callback_loop :: "('s, 'h) dec_env \<Rightarrow> pb_field_iter \<Rightarrow>
    ('s, 'h) dstate \<Rightarrow> ('s, 'h) dresult" where
  "callback_loop env it st =
     (let r = call_decode env (callback_funcs (mem (snd st)) (pData it)) (pos_field it)
                (callback_arg_at (pData it)) st
      in if \<not> fst r then Some r
         else if bytes_left (fst (snd r)) = 0 then Some r
         else callback_loop env it (snd r))"

definition decode_callback_field :: "('s, 'h) dec_env \<Rightarrow> pb_wire_type \<Rightarrow> pb_field_iter \<Rightarrow>
    ('s, 'h) dstate \<Rightarrow> ('s, 'h) dresult" where
  "decode_callback_field env wt it st =
     (let s = fst st; w = snd st in
      if pData it = 0 \<or> callback_funcs (mem w) (pData it) = 0 then
        (case pb_skip_field s wt of (ok, s) \<Rightarrow> Some (ok, s, w))
      else if wt = PB_WT_STRING then
        (case pb_make_string_substream s of
           (False, _, s) \<Rightarrow> Some (False, s, w)
         | (True, sub, s) \<Rightarrow> map_option (\<lambda>(ok, sub, w).
               if ok then close_substream s (True, sub, w) else d_error (s, w) ''callback failed'')
             (callback_loop env it (sub, w)))
      else
        (case read_raw_value s wt 10 of
           (False, _, s) \<Rightarrow> Some (False, s, w)
         | (True, buffer, s) \<Rightarrow>
             (case call_decode env (callback_funcs (mem w) (pData it)) (pos_field it)
                     (callback_arg_at (pData it))
                     (pb_istream_from_buffer buffer (of_nat (length buffer)), w) of
                (ok, _, w) \<Rightarrow> Some (ok, s, w))))"

section \<open>Any field\<close>

text \<open>The iterator is the caller's: it is returned as the search for the old member leaves it.\<close>

definition pb_release_union_field :: "('s, 'h) dec_env \<Rightarrow> nat \<Rightarrow> pb_field_iter \<Rightarrow>
    ('s, 'h) dstate \<Rightarrow> (bool \<times> pb_field_iter \<times> ('s, 'h) dstate) option" where
  "pb_release_union_field env d it st =
     (let old_tag = ld32 (mem (snd st)) (pSize it); new_tag = tag (pos_field it);
          fail = (\<lambda>it st msg. Some (False, it, snd (d_error st msg)))
      in
      if old_tag = 0 \<or> old_tag = new_tag then Some (True, it, st)
      else
        do {
          (found, it) \<leftarrow> pb_field_iter_find it old_tag;
          if \<not> found then fail it st ''invalid union tag''
          else
            do {
              w \<leftarrow> pb_release_single_field env d it (snd st);
              (found, it) \<leftarrow> pb_field_iter_find it new_tag;
              if \<not> found then fail it (fst st, w) ''iterator error''
              else if PB_ATYPE (ftype (pos_field it)) = PB_ATYPE_POINTER
              then Some (True, it, poke (\<lambda>m. st_ptr m (pData it) 0) (fst st, w))
              else Some (True, it, fst st, w)
            }
        })"

definition decode_field :: "('s, 'h) dec_env \<Rightarrow> nat \<Rightarrow> ('s, 'h) msg_decoder \<Rightarrow>
    ('s, 'h) msg_decoder \<Rightarrow> pb_wire_type \<Rightarrow> pb_field_iter \<Rightarrow> ('s, 'h) dstate \<Rightarrow>
    (bool \<times> pb_field_iter \<times> ('s, 'h) dstate) option" where
  "decode_field env d dec dec_noinit wt it st =
     do {
       (ok, it, st) \<leftarrow> (if PB_HTYPE (ftype (pos_field it)) = PB_HTYPE_ONEOF
                       then pb_release_union_field env d it st else Some (True, it, st));
       let t = ftype (pos_field it);
       if \<not> ok then Some (False, it, st)
       else map_option (\<lambda>(ok, st). (ok, it, st))
         (if PB_ATYPE t = PB_ATYPE_STATIC then
            do { func \<leftarrow> decoder_of env dec dec_noinit (pos_field it);
                 decode_static_field env d func wt it st }
          else if PB_ATYPE t = PB_ATYPE_POINTER then
            do { func \<leftarrow> decoder_of env dec dec_noinit (pos_field it);
                 decode_pointer_field env d func wt it st }
          else if PB_ATYPE t = PB_ATYPE_CALLBACK then decode_callback_field env wt it st
          else Some (d_error st ''invalid field type''))
     }"

section \<open>Extensions\<close>

definition default_extension_decoder :: "('s, 'h) dec_env \<Rightarrow> nat \<Rightarrow> ('s, 'h) msg_decoder \<Rightarrow>
    ('s, 'h) msg_decoder \<Rightarrow> addr \<Rightarrow> u32 \<Rightarrow> pb_wire_type \<Rightarrow> ('s, 'h) dstate \<Rightarrow> ('s, 'h) dresult" where
  "default_extension_decoder env d dec dec_noinit ext t wt st =
     (let m = mem (snd st) in
      if tag (field_at (dec_descs env (ext_type_arg m (ext_type m ext))) 0) \<noteq> t
      then Some (True, st)
      else map_option (\<lambda>(ok, it, st). (ok, st))
        (decode_field env d dec dec_noinit wt (iter_from_extension env m ext)
          (poke (\<lambda>m. st8 m (ext_found_at ext) 1) st)))"

partial_function (option) decode_extensions :: "('s, 'h) dec_env \<Rightarrow>
    (addr \<Rightarrow> ('s, 'h) dstate \<Rightarrow> ('s, 'h) dresult) \<Rightarrow> u64 \<Rightarrow> addr \<Rightarrow> ('s, 'h) dstate \<Rightarrow>
    ('s, 'h) dresult" where
  "decode_extensions env one pos0 ext st =
     (if ext \<noteq> 0 \<and> pos0 = bytes_left (fst st)
      then and_then_opt (one ext st) (\<lambda>st.
        decode_extensions env one pos0 (ext_next (mem (snd st)) ext) st)
      else Some (True, st))"

definition decode_extension :: "('s, 'h) dec_env \<Rightarrow> nat \<Rightarrow> ('s, 'h) msg_decoder \<Rightarrow>
    ('s, 'h) msg_decoder \<Rightarrow> u32 \<Rightarrow> pb_wire_type \<Rightarrow> pb_field_iter \<Rightarrow> ('s, 'h) dstate \<Rightarrow>
    ('s, 'h) dresult" where
  "decode_extension env d dec dec_noinit t wt it st =
     decode_extensions env
       (\<lambda>ext st.
          let fn = ext_type_decode (mem (snd st)) (ext_type (mem (snd st)) ext) in
          if fn \<noteq> 0 then Some (call_ext_decode env fn ext t wt st)
          else default_extension_decoder env d dec dec_noinit ext t wt st)
       (bytes_left (fst st)) (ld_ptr (mem (snd st)) (pData it)) st"

definition find_extension_field :: "pb_field_iter \<Rightarrow> (bool \<times> pb_field_iter) option" where
  "find_extension_field it =
     iter_search (\<lambda>f. PB_LTYPE (ftype f) = PB_LTYPE_EXTENSION) (pos it) it"

section \<open>The message loop\<close>

text \<open>The local variables of \<open>pb_decode_noinit\<close>; \<open>fixed_count_field\<close> is an index into the
  descriptor array, \<open>fixed_count_size\<close> is in memory at \<open>frame\<close>.\<close>

record dec_locals =
  iter :: pb_field_iter
  fields_seen :: "u32 list"
  extension_range_start :: u32
  fixed_count_field :: "nat option"

text \<open>How a round of the loop ends: with the next round, with \<open>break\<close> or with \<open>return false\<close>.\<close>

datatype round_end = Continue | Break | Fail

type_synonym ('s, 'h) round_result = "(round_end \<times> dec_locals \<times> ('s, 'h) dstate) option"

text \<open>The part for a tag that is not in the descriptors.\<close>

definition skip_unknown :: "pb_wire_type \<Rightarrow> dec_locals \<Rightarrow> ('s, 'h) dstate \<Rightarrow>
    ('s, 'h) round_result" where
  "skip_unknown wt ls st = (case pb_skip_field (fst st) wt of
       (ok, s) \<Rightarrow> Some (if ok then Continue else Fail, ls, s, snd st))"

definition decode_unknown :: "('s, 'h) dec_env \<Rightarrow> nat \<Rightarrow> ('s, 'h) msg_decoder \<Rightarrow>
    ('s, 'h) msg_decoder \<Rightarrow> u32 \<Rightarrow> pb_wire_type \<Rightarrow> dec_locals \<Rightarrow> ('s, 'h) dstate \<Rightarrow>
    ('s, 'h) round_result" where
  "decode_unknown env d dec dec_noinit t wt ls st =
     (if t \<ge> extension_range_start ls then
        do {
          (found, it) \<leftarrow> find_extension_field (iter ls);
          let ls = ls\<lparr>iter := it, extension_range_start :=
                        (if found then tag (pos_field it) else 0xFFFFFFFF)\<rparr>;
          if t \<ge> extension_range_start ls then
            do {
              (ok, st') \<leftarrow> decode_extension env d dec dec_noinit t wt it st;
              if \<not> ok then Some (Fail, ls, st')
              else if bytes_left (fst st) \<noteq> bytes_left (fst st') then Some (Continue, ls, st')
              else skip_unknown wt ls st'
            }
          else skip_unknown wt ls st
        }
      else skip_unknown wt ls st)"

text \<open>The bookkeeping for a repeated field without a counter of its own.\<close>

definition wrong_count :: "('s, 'h) dec_env \<Rightarrow> nat \<Rightarrow> dec_locals \<Rightarrow> memory \<Rightarrow> bool" where
  "wrong_count env d ls m = (case fixed_count_field ls of
       None \<Rightarrow> False
     | Some i \<Rightarrow> ld32 m (frame env d) \<noteq> array_size (field_at (start (iter ls)) i))"

definition track_fixed_count :: "('s, 'h) dec_env \<Rightarrow> nat \<Rightarrow> dec_locals \<Rightarrow> ('s, 'h) dstate \<Rightarrow>
    bool \<times> dec_locals \<times> ('s, 'h) dstate" where
  "track_fixed_count env d ls st =
     (let it = iter ls in
      if PB_HTYPE (ftype (pos_field it)) = PB_HTYPE_REPEATED \<and> pSize it = pData it then
        (if fixed_count_field ls \<noteq> Some (pos it) \<and> wrong_count env d ls (mem (snd st))
         then (False, ls, snd (d_error st ''wrong size for fixed count field''))
         else (True, ls\<lparr>fixed_count_field := Some (pos it), iter := it\<lparr>pSize := frame env d\<rparr>\<rparr>,
               if fixed_count_field ls \<noteq> Some (pos it)
               then poke (\<lambda>m. st32 m (frame env d) 0) st else st))
      else (True, ls, st))"

definition mark_required :: "dec_locals \<Rightarrow> dec_locals" where
  "mark_required ls =
     (let i = required_field_index (iter ls) in
      if PB_HTYPE (ftype (pos_field (iter ls))) = PB_HTYPE_REQUIRED \<and> i < PB_MAX_REQUIRED_FIELDS
      then ls\<lparr>fields_seen := (fields_seen ls)[i div 32 :=
                fields_seen ls ! (i div 32) OR push_bit (i mod 32) 1]\<rparr>
      else ls)"

definition decode_known :: "('s, 'h) dec_env \<Rightarrow> nat \<Rightarrow> ('s, 'h) msg_decoder \<Rightarrow>
    ('s, 'h) msg_decoder \<Rightarrow> pb_wire_type \<Rightarrow> dec_locals \<Rightarrow> ('s, 'h) dstate \<Rightarrow>
    ('s, 'h) round_result" where
  "decode_known env d dec dec_noinit wt ls st =
     (case track_fixed_count env d ls st of
        (False, ls, st) \<Rightarrow> Some (Fail, ls, st)
      | (True, ls, st) \<Rightarrow>
          let ls = mark_required ls in
          map_option (\<lambda>(ok, it, st). (if ok then Continue else Fail, ls\<lparr>iter := it\<rparr>, st))
            (decode_field env d dec dec_noinit wt (iter ls) st))"

text \<open>One round, after \<open>while (stream->bytes_left)\<close>.\<close>

definition decode_round :: "('s, 'h) dec_env \<Rightarrow> nat \<Rightarrow> ('s, 'h) msg_decoder \<Rightarrow>
    ('s, 'h) msg_decoder \<Rightarrow> dec_locals \<Rightarrow> ('s, 'h) dstate \<Rightarrow> ('s, 'h) round_result" where
  "decode_round env d dec dec_noinit ls st =
     (case pb_decode_tag (fst st) of
        (False, _, _, eof, s) \<Rightarrow> Some (if eof then Break else Fail, ls, s, snd st)
      | (True, wt, t, _, s) \<Rightarrow>
          do {
            (found, it) \<leftarrow> pb_field_iter_find (iter ls) t;
            let ls = ls\<lparr>iter := it\<rparr>;
            if found then decode_known env d dec dec_noinit wt ls (s, snd st)
            else decode_unknown env d dec dec_noinit t wt ls (s, snd st)
          })"

partial_function (option) decode_loop ::
  "(dec_locals \<Rightarrow> ('s, 'h) dstate \<Rightarrow> ('s, 'h) round_result) \<Rightarrow> dec_locals \<Rightarrow> ('s, 'h) dstate \<Rightarrow>
     (bool \<times> dec_locals \<times> ('s, 'h) dstate) option" where
  "decode_loop rnd ls st =
     (if bytes_left (fst st) = 0 then Some (True, ls, st)
      else Option.bind (rnd ls st) (\<lambda>r.
        if fst r = Continue then decode_loop rnd (fst (snd r)) (snd (snd r))
        else Some (fst r = Break, snd r)))"

text \<open>The number of required fields: step to the end of the array, which leaves the iterator at
  its beginning.\<close>

function seek_end :: "pb_field_iter \<Rightarrow> nat \<times> pb_type \<times> pb_field_iter" where
  "seek_end it =
     (case pb_field_iter_next it of (again, it') \<Rightarrow>
        if again then seek_end it'
        else (required_field_index it, ftype (pos_field it), it'))"
  by pat_completeness auto
termination
  by (relation "measure (\<lambda>it. length (start it) - pos it)")
    (auto dest!: pb_field_iter_next_True [OF sym])

declare seek_end.simps [simp del]

definition req_field_count :: "pb_field_iter \<Rightarrow> nat" where
  "req_field_count it =
     (case seek_end it of (n, last_type, it) \<Rightarrow>
        min PB_MAX_REQUIRED_FIELDS
          (if PB_HTYPE last_type = PB_HTYPE_REQUIRED \<and> tag (pos_field it) \<noteq> 0 then n + 1 else n))"

text \<open>The comparison of the bit set with the number of required fields, by words.\<close>

definition all_seen :: "u32 list \<Rightarrow> nat \<Rightarrow> bool" where
  "all_seen seen n \<longleftrightarrow>
     list_all (\<lambda>i. seen ! i = - 1) [0..<n div 32] \<and>
     (n mod 32 \<noteq> 0 \<longrightarrow> seen ! (n div 32) = drop_bit (32 - n mod 32) (- 1))"

definition decode_end :: "('s, 'h) dec_env \<Rightarrow> nat \<Rightarrow> dec_locals \<Rightarrow> ('s, 'h) dstate \<Rightarrow>
    bool \<times> ('s, 'h) dstate" where
  "decode_end env d ls st =
     (if wrong_count env d ls (mem (snd st))
      then d_error st ''wrong size for fixed count field''
      else if \<not> all_seen (fields_seen ls) (req_field_count (iter ls))
      then d_error st ''missing required field''
      else (True, st))"

definition decode_start :: "('s, 'h) dec_env \<Rightarrow> pb_field list \<Rightarrow> addr \<Rightarrow> dec_locals" where
  "decode_start env fs dest = \<lparr>iter = snd (pb_field_iter_begin fs dest), fields_seen = [0, 0],
     extension_range_start = 0, fixed_count_field = None\<rparr>"

definition decode_message :: "('s, 'h) dec_env \<Rightarrow> nat \<Rightarrow> ('s, 'h) msg_decoder \<Rightarrow>
    ('s, 'h) msg_decoder \<Rightarrow> ('s, 'h) msg_decoder" where
  "decode_message env d dec dec_noinit fs dest st =
     do {
       (ok, ls, st) \<leftarrow> decode_loop (decode_round env d dec dec_noinit) (decode_start env fs dest)
                        (poke (\<lambda>m. st32 m (frame env d) 0) st);
       if ok then Some (decode_end env d ls st) else Some (False, st)
     }"

text \<open>\<open>pb_decode\<close> in terms of \<open>pb_decode_noinit\<close>: defaults before, release after a failure.\<close>

definition decode_init :: "('s, 'h) dec_env \<Rightarrow> nat \<Rightarrow> ('s, 'h) msg_decoder \<Rightarrow>
    ('s, 'h) msg_decoder" where
  "decode_init env d dec_noinit fs dest st =
     do {
       m \<leftarrow> pb_message_set_to_defaults env d fs dest (mem (snd st));
       (status, st) \<leftarrow> dec_noinit fs dest (poke (\<lambda>_. m) st);
       if status then Some (True, st)
       else map_option (\<lambda>w. (False, fst st, w)) (pb_release env d fs dest (snd st))
     }"

fun pb_decode_noinit :: "('s, 'h) dec_env \<Rightarrow> nat \<Rightarrow> ('s, 'h) msg_decoder" where
  "pb_decode_noinit env 0 fs dest st = None"
| "pb_decode_noinit env (Suc d) fs dest st =
     decode_message env d (decode_init env d (pb_decode_noinit env d)) (pb_decode_noinit env d)
       fs dest st"

section \<open>Entry points\<close>

definition pb_decode :: "('s, 'h) dec_env \<Rightarrow> nat \<Rightarrow> ('s, 'h) msg_decoder" where
  "pb_decode env d = decode_init env d (pb_decode_noinit env d)"

definition pb_decode_delimited_noinit :: "('s, 'h) dec_env \<Rightarrow> nat \<Rightarrow> ('s, 'h) msg_decoder" where
  "pb_decode_delimited_noinit env d fs dest = in_substream (pb_decode_noinit env d fs dest)"

definition pb_decode_delimited :: "('s, 'h) dec_env \<Rightarrow> nat \<Rightarrow> ('s, 'h) msg_decoder" where
  "pb_decode_delimited env d fs dest = in_substream (pb_decode env d fs dest)"

definition pb_decode_nullterminated :: "('s, 'h) dec_env \<Rightarrow> nat \<Rightarrow> ('s, 'h) msg_decoder" where
  "pb_decode_nullterminated env d = pb_decode env d"

end
