(* ===== verification/Pb_Decode_Safe.thy ===== *)
theory Pb_Decode_Safe
  imports Pb_Decode
begin

text \<open>
  Memory safety and termination of the decoder, for messages without pointers, callbacks and
  extensions: on every input, from a buffer or from a user stream that respects the size of the
  buffer it is given, \<open>pb_decode\<close> returns, and the memory it has written lies inside the message
  structure or is the local variable \<open>fixed_count_size\<close> of one of its frames.
\<close>

section \<open>Streams move forward\<close>

definition honest :: "'s pb_istream \<Rightarrow> bool" where
  "honest s \<longleftrightarrow> (\<forall>st n. length (fst (snd (call_read (is_callback s) st n))) \<le> n)"

definition follows :: "'s pb_istream \<Rightarrow> 's pb_istream \<Rightarrow> bool" where
  "follows s s' \<longleftrightarrow> is_callback s' = is_callback s \<and> unat (bytes_left s') \<le> unat (bytes_left s)"

lemma follows_refl [simp, intro]: "follows s s"
  by (simp add: follows_def)

lemma follows_trans [trans]: "follows s s' \<Longrightarrow> follows s' s'' \<Longrightarrow> follows s s''"
  by (simp add: follows_def)

lemma follows_honest: "follows s s' \<Longrightarrow> honest s \<Longrightarrow> honest s'"
  by (simp add: follows_def honest_def)

lemma follows_is_error [simp]: "follows s (is_error s' e) \<longleftrightarrow> follows s s'"
  by (simp add: follows_def is_error_def)

lemma honest_is_error [simp]: "honest (is_error s e) = honest s"
  by (simp add: honest_def is_error_def)

named_theorems forward \<open>stream functions only move forward\<close>

lemma readbyte_forward [forward]: "pb_readbyte s = (ok, b, s') \<Longrightarrow> follows s s'"
  by (auto simp: pb_readbyte_def follows_def is_error_def word_le_nat_alt unat_minus_one unat_gt_0
      split: if_splits prod.splits bool.splits)

lemma read_forward [forward]: "pb_read s n = (ok, bs, s') \<Longrightarrow> follows s s'"
  by (auto simp: pb_read_def read_some_def follows_def is_error_def unat_sub word_le_nat_alt not_less
      split: if_splits prod.splits bool.splits)

lemma read_length: "pb_read s n = (ok, bs, s') \<Longrightarrow> honest s \<Longrightarrow> length bs \<le> unat n"
  by (auto simp: pb_read_def read_some_def honest_def split: if_splits prod.splits bool.splits)
    (metis fst_conv snd_conv)+

lemma skip_chunks_forward: "skip_chunks s n = (ok, s') \<Longrightarrow> follows s s'"
proof (induction s n rule: skip_chunks.induct)
  case (1 s n)
  obtain ok1 bs1 s1 where r: "pb_read s 16 = (ok1, bs1, s1)"
    by (cases "pb_read s 16") auto
  have IH: "16 < n \<Longrightarrow> ok1 \<Longrightarrow> skip_chunks s1 (n - 16) = (ok, s') \<Longrightarrow> follows s1 s'"
    using "1.IH" r by (metis (full_types))
  show ?case
    using "1.prems" IH read_forward [OF r]
    by (subst (asm) skip_chunks.simps)
      (auto simp: r split: if_splits prod.splits bool.splits dest: read_forward intro: follows_trans)
qed

lemma read_null_forward [forward]: "pb_read_null s n = (ok, s') \<Longrightarrow> follows s s'"
  using read_forward [of s n]
  by (auto simp: pb_read_null_def pb_read_def split: if_splits prod.splits dest: skip_chunks_forward)

lemma varint32_loop_forward:
  "varint32_loop s bp r = (ok, bp', b, r', s') \<Longrightarrow> follows s s'"
proof (induction s bp r arbitrary: ok bp' b r' s' rule: varint32_loop.induct)
  case (1 s bp r)
  obtain ok1 b1 s1 where 1: "pb_readbyte s = (ok1, b1, s1)"
    by (cases "pb_readbyte s") auto
  note f = readbyte_forward [OF 1]
  show ?case
    using "1.prems" "1.IH" f
    by (subst (asm) varint32_loop.simps)
      (auto simp: 1 Let_def split: bool.splits if_splits intro: follows_trans)
qed

lemma varint32_eof_forward [forward]:
  assumes "pb_decode_varint32_eof s = (ok, eof, v, s')"
  shows "follows s s'" "ok \<Longrightarrow> unat (bytes_left s') < unat (bytes_left s)"
proof -
  obtain ok1 b1 s1 where 1: "pb_readbyte s = (ok1, b1, s1)"
    by (cases "pb_readbyte s") auto
  obtain ok2 bp2 b2 r2 s2 where 2: "varint32_loop s1 7 (ucast (b1 AND 0x7F)) = (ok2, bp2, b2, r2, s2)"
    by (metis prod_cases5)
  note f = readbyte_forward [OF 1] varint32_loop_forward [OF 2]
  show "follows s s'"
    using assms f
    by (auto simp: pb_decode_varint32_eof_def 1 2 split: bool.splits if_splits intro: follows_trans)
  show "unat (bytes_left s') < unat (bytes_left s)" if ok
    using assms f(2) that pb_readbyte_less [of s b1 s1]
    by (auto simp: pb_decode_varint32_eof_def 1 2 follows_def split: bool.splits if_splits)
qed

lemma varint32_forward [forward]:
  assumes "pb_decode_varint32 s = (ok, v, s')"
  shows "follows s s'" "ok \<Longrightarrow> unat (bytes_left s') < unat (bytes_left s)"
  using assms varint32_eof_forward [of s]
  by (auto simp: pb_decode_varint32_def split: prod.splits)

lemma varint_loop64_forward:
  "varint_loop64 s bp r = (ok, v, s') \<Longrightarrow>
     follows s s' \<and> (ok \<longrightarrow> unat (bytes_left s') < unat (bytes_left s))"
proof (induction s bp r arbitrary: ok v s' rule: varint_loop64.induct)
  case (1 s bp r)
  obtain ok1 b1 s1 where 1: "pb_readbyte s = (ok1, b1, s1)"
    by (cases "pb_readbyte s") auto
  note f = readbyte_forward [OF 1] pb_readbyte_less [of s b1 s1]
  have IH: "\<not> 64 \<le> bp \<Longrightarrow> ok1 \<Longrightarrow> b1 AND 0x80 \<noteq> 0 \<Longrightarrow>
      varint_loop64 s1 (bp + 7) (r OR push_bit (unat bp) (ucast (b1 AND 0x7F))) = (ok, v, s') \<Longrightarrow>
      follows s1 s' \<and> (ok \<longrightarrow> unat (bytes_left s') < unat (bytes_left s1))"
    using "1.IH" 1 by (metis (full_types))
  show ?case
    using "1.prems" IH f
    by (subst (asm) varint_loop64.simps)
      (auto simp: 1 Let_def split: bool.splits if_splits intro: follows_trans less_trans)
qed

lemma varint_forward [forward]:
  assumes "pb_decode_varint s = (ok, v, s')"
  shows "follows s s'" "ok \<Longrightarrow> unat (bytes_left s') < unat (bytes_left s)"
  using assms varint_loop64_forward unfolding pb_decode_varint_def by blast+

lemma svarint_forward [forward]:
  assumes "pb_decode_svarint s = (ok, v, s')"
  shows "follows s s'" "ok \<Longrightarrow> unat (bytes_left s') < unat (bytes_left s)"
  using assms varint_forward [of s] by (auto simp: pb_decode_svarint_def split: prod.splits)

lemma fixed32_forward [forward]:
  assumes "pb_decode_fixed32 s = (ok, v, s')"
  shows "follows s s'" "ok \<Longrightarrow> unat (bytes_left s') < unat (bytes_left s)"
  using assms read_forward [of s 4] pb_read_less [of s 4]
  by (auto simp: pb_decode_fixed32_def split: prod.splits bool.splits)

lemma fixed64_forward [forward]:
  assumes "pb_decode_fixed64 s = (ok, v, s')"
  shows "follows s s'" "ok \<Longrightarrow> unat (bytes_left s') < unat (bytes_left s)"
  using assms read_forward [of s 8] pb_read_less [of s 8]
  by (auto simp: pb_decode_fixed64_def split: prod.splits bool.splits)

lemma tag_forward [forward]:
  assumes "pb_decode_tag s = (ok, wt, t, eof, s')"
  shows "follows s s'" "ok \<Longrightarrow> unat (bytes_left s') < unat (bytes_left s)"
  using assms varint32_eof_forward [of s]
  by (auto simp: pb_decode_tag_def split: prod.splits bool.splits if_splits)

lemma skip_varint_forward [forward]: "pb_skip_varint s = (ok, s') \<Longrightarrow> follows s s'"
proof (induction s arbitrary: ok s' rule: pb_skip_varint.induct)
  case (1 s)
  obtain ok1 bs1 s1 where 1: "pb_read s 1 = (ok1, bs1, s1)"
    by (cases "pb_read s 1") auto
  have IH: "ok1 \<Longrightarrow> the_byte bs1 AND 0x80 \<noteq> 0 \<Longrightarrow> pb_skip_varint s1 = (ok, s') \<Longrightarrow> follows s1 s'"
    using "1.IH" 1 by (metis (full_types))
  show ?case
    using "1.prems" IH read_forward [OF 1]
    by (subst (asm) pb_skip_varint.simps)
      (auto simp: 1 split: bool.splits if_splits intro: follows_trans)
qed

lemma skip_field_forward [forward]: "pb_skip_field s wt = (ok, s') \<Longrightarrow> follows s s'"
  by (auto simp: pb_skip_field_def pb_skip_string_def
      split: if_splits prod.splits bool.splits dest: forward(1,2) intro: forward follows_trans)

lemma make_substream_forward [forward]:
  assumes "pb_make_string_substream s = (ok, sub, s')"
  shows "follows s s'" "ok \<Longrightarrow> follows s sub"
    "ok \<Longrightarrow> unat (bytes_left s') < unat (bytes_left s)"
proof -
  obtain ok1 n s1 where 1: "pb_decode_varint32 s = (ok1, n, s1)"
    by (cases "pb_decode_varint32 s") auto
  note f = varint32_forward [OF 1]
  have sub: "unat (bytes_left s1 - ucast n) \<le> unat (bytes_left s1)" "unat n \<le> unat (bytes_left s1)"
    if "\<not> bytes_left s1 < ucast n"
    using that by (simp_all add: unat_sub word_le_nat_alt not_less)
  show "follows s s'" "ok \<Longrightarrow> follows s sub"
    "ok \<Longrightarrow> unat (bytes_left s') < unat (bytes_left s)"
    using assms f sub
    by (auto simp: pb_make_string_substream_def 1 follows_def is_error_def split: bool.splits if_splits
        dest!: sub)
qed

lemma close_substream_forward [forward]: "pb_close_string_substream s sub = (ok, s') \<Longrightarrow> follows s s'"
  by (auto simp: pb_close_string_substream_def follows_def split: if_splits prod.splits bool.splits)

section \<open>Writes inside a region\<close>

definition region :: "addr \<Rightarrow> int \<Rightarrow> addr set" where
  "region lo n = {lo..<lo + n}"

definition writes_in :: "addr set \<Rightarrow> memory \<Rightarrow> memory \<Rightarrow> bool" where
  "writes_in A m m' \<longleftrightarrow> (\<forall>a. a \<notin> A \<longrightarrow> m' a = m a)"

lemma writes_in_refl [simp, intro]: "writes_in A m m"
  by (simp add: writes_in_def)

lemma writes_in_trans: "writes_in A m m' \<Longrightarrow> writes_in A m' m'' \<Longrightarrow> writes_in A m m''"
  by (simp add: writes_in_def)

lemma writes_in_mono: "writes_in A m m' \<Longrightarrow> A \<subseteq> B \<Longrightarrow> writes_in B m m'"
  by (auto simp: writes_in_def)

lemma only_writes_in: "only_writes lo n m m' \<Longrightarrow> region lo (int n) \<subseteq> A \<Longrightarrow> writes_in A m m'"
  unfolding only_writes_def writes_in_def region_def
  by (metis atLeastLessThan_iff not_le subsetD)

lemma region_mono: "lo \<le> p \<Longrightarrow> p + k \<le> lo + n \<Longrightarrow> region p k \<subseteq> region lo n"
  by (auto simp: region_def)

lemma region_prefix: "k \<le> n \<Longrightarrow> region lo k \<subseteq> region lo n"
  by (auto simp: region_def)

lemma region_sub:
  "region lo n \<subseteq> A \<Longrightarrow> lo \<le> p \<Longrightarrow> p + k \<le> lo + n \<Longrightarrow> region p k \<subseteq> A"
  using region_mono [of lo p k n] by blast

lemma writes_in_store: "region p (int (length bs)) \<subseteq> A \<Longrightarrow> writes_in A m (store m p bs)"
  by (rule only_writes_in [OF only_writes_store [of p p bs "length bs"]]) auto

lemma writes_in_memset: "region p (int n) \<subseteq> A \<Longrightarrow> writes_in A m (memset m p v n)"
  unfolding memset_def by (rule writes_in_store) simp

lemma writes_in_memcpy: "region p (int n) \<subseteq> A \<Longrightarrow> writes_in A m (memcpy m p q n)"
  unfolding memcpy_def by (rule writes_in_store) simp

lemma writes_in_st8: "region p 1 \<subseteq> A \<Longrightarrow> writes_in A m (st8 m p v)"
  by (rule only_writes_in [OF c8.st_only]) simp

lemma writes_in_st16: "region p 2 \<subseteq> A \<Longrightarrow> writes_in A m (st16 m p x)"
  by (rule only_writes_in [OF c16.st_only]) simp

lemma writes_in_st32: "region p 4 \<subseteq> A \<Longrightarrow> writes_in A m (st32 m p y)"
  by (rule only_writes_in [OF c32.st_only]) simp

lemma writes_in_st64: "region p 8 \<subseteq> A \<Longrightarrow> writes_in A m (st64 m p z)"
  by (rule only_writes_in [OF c64.st_only]) simp

lemmas writes_in_st = writes_in_st8 writes_in_st16 writes_in_st32 writes_in_st64
  writes_in_memset writes_in_memcpy

section \<open>Safe decoders\<close>

definition within :: "addr set \<Rightarrow> ('s, 'h) dstate \<Rightarrow> ('s, 'h) dstate \<Rightarrow> bool" where
  "within A st st' \<longleftrightarrow> follows (fst st) (fst st') \<and>
     writes_in A (mem (snd st)) (mem (snd st')) \<and> heap (snd st') = heap (snd st)"

definition safe :: "addr set \<Rightarrow> (('s, 'h) dstate \<Rightarrow> ('s, 'h) dresult) \<Rightarrow> bool" where
  "safe A f \<longleftrightarrow>
     (\<forall>st. honest (fst st) \<longrightarrow> (\<exists>ok st'. f st = Some (ok, st') \<and> within A st st'))"

definition eats :: "(('s, 'h) dstate \<Rightarrow> ('s, 'h) dresult) \<Rightarrow> bool" where
  "eats f \<longleftrightarrow> (\<forall>st st'. f st = Some (True, st') \<longrightarrow>
     unat (bytes_left (fst st')) < unat (bytes_left (fst st)))"

lemma within_refl [simp, intro]: "within A st st"
  by (simp add: within_def)

lemma within_trans: "within A st st' \<Longrightarrow> within A st' st'' \<Longrightarrow> within A st st''"
  by (auto simp: within_def intro: follows_trans writes_in_trans)

lemma within_mono: "within A st st' \<Longrightarrow> A \<subseteq> B \<Longrightarrow> within B st st'"
  by (auto simp: within_def intro: writes_in_mono)

lemma within_honest: "within A st st' \<Longrightarrow> honest (fst st) \<Longrightarrow> honest (fst st')"
  by (auto simp: within_def intro: follows_honest)

lemma within_poke: "(\<And>m. writes_in A m (g m)) \<Longrightarrow> within A st (poke g st)"
  by (simp add: within_def poke_def)

lemma within_error: "within A st (snd (d_error st e))"
  by (simp add: within_def d_error_def)

lemma within_stream: "follows s s' \<Longrightarrow> within A (s, w) (s', w)"
  by (simp add: within_def)

lemma safeD:
  assumes "safe A f" "honest (fst st)"
  obtains ok st' where "f st = Some (ok, st')" "within A st st'" "honest (fst st')"
  using assms within_honest unfolding safe_def by blast

lemma safe_mono: "safe A f \<Longrightarrow> A \<subseteq> B \<Longrightarrow> safe B f"
  unfolding safe_def by (blast intro: within_mono)

lemma safe_Some: "(\<And>st. within A st (st' st)) \<Longrightarrow> safe A (\<lambda>st. Some (ok st, st' st))"
  by (auto simp: safe_def)

lemma safe_error: "safe A (\<lambda>st. Some (d_error st (e st)))"
  using within_error unfolding safe_def d_error_def by force

lemma safe_if: "safe A f \<Longrightarrow> safe A g \<Longrightarrow> safe A (\<lambda>st. if c st then f st else g st)"
  by (simp add: safe_def)

lemma safe_poke:
  assumes "safe A f" "\<And>st m. writes_in A m (g st m)"
  shows "safe A (\<lambda>st. f (poke (g st) st))"
  unfolding safe_def
proof (intro allI impI)
  fix st :: "('a, 'b) dstate"
  assume "honest (fst st)"
  then have "honest (fst (poke (g st) st))"
    by (simp add: poke_def)
  from safeD [OF assms(1) this] show "\<exists>ok st'. f (poke (g st) st) = Some (ok, st') \<and> within A st st'"
    by (metis within_trans within_poke assms(2))
qed

lemma safe_and_then_opt:
  assumes "safe A f" "safe A g"
  shows "safe A (\<lambda>st. and_then_opt (f st) g)"
  unfolding safe_def
proof (intro allI impI)
  fix st :: "('a, 'b) dstate"
  assume "honest (fst st)"
  from safeD [OF assms(1) this] obtain ok st' where 1: "f st = Some (ok, st')" "within A st st'"
    "honest (fst st')" by blast
  from safeD [OF assms(2) 1(3)] obtain ok' st'' where "g st' = Some (ok', st'')" "within A st' st''"
    by blast
  with 1 show "\<exists>ok st'. and_then_opt (f st) g = Some (ok, st') \<and> within A st st'"
    by (cases ok) (auto intro: within_trans)
qed

lemma safe_on_value:
  assumes "\<And>s ok v s'. rd s = (ok, v, s') \<Longrightarrow> follows s s'" "\<And>v. safe A (k v)"
  shows "safe A (\<lambda>st. on_value (rd (fst st)) (snd st) k)"
  unfolding safe_def
proof (intro allI impI)
  fix st :: "('a, 'c) dstate"
  assume h: "honest (fst st)"
  obtain ok v s' where r: "rd (fst st) = (ok, v, s')"
    by (cases "rd (fst st)") auto
  have w: "within A st (s', snd st)"
    using within_stream [OF assms(1) [OF r], of A "snd st"] by simp
  have "honest (fst (s', snd st))"
    by (rule within_honest [OF w h])
  from safeD [OF assms(2) [of v] this] obtain ok' st' where
    "k v (s', snd st) = Some (ok', st')" "within A (s', snd st) st'"
    by blast
  then show "\<exists>ok st'. on_value (rd (fst st)) (snd st) k = Some (ok, st') \<and> within A st st'"
    using w by (cases ok) (auto simp: on_value_def r intro: within_trans)
qed

lemma eats_on_value:
  assumes "\<And>s v s'. rd s = (True, v, s') \<Longrightarrow> unat (bytes_left s') < unat (bytes_left s)"
    and "\<And>v st ok st'. k v st = Some (ok, st') \<Longrightarrow>
      unat (bytes_left (fst st')) \<le> unat (bytes_left (fst st))"
  shows "eats (\<lambda>st. on_value (rd (fst st)) (snd st) k)"
  unfolding eats_def
proof (intro allI impI)
  fix st st' :: "('a, 'c) dstate"
  assume *: "on_value (rd (fst st)) (snd st) k = Some (True, st')"
  then obtain v s' where "rd (fst st) = (True, v, s')" "k v (s', snd st) = Some (True, st')"
    by (auto simp: on_value_def split: prod.splits bool.splits)
  from assms(1) [OF this(1)] assms(2) [OF this(2)]
  show "unat (bytes_left (fst st')) < unat (bytes_left (fst st))"
    by simp
qed

section \<open>The field decoders\<close>

lemma within_read_into:
  assumes "honest (fst st)" "region p (uint n) \<subseteq> A"
  shows "\<exists>ok st'. read_into p n st = (ok, st') \<and> within A st st'"
proof -
  obtain ok bs s' where r: "pb_read (fst st) n = (ok, bs, s')"
    by (cases "pb_read (fst st) n") auto
  have "int (length bs) \<le> uint n"
    using read_length [OF r assms(1)] by (simp only: uint_nat of_nat_le_iff)
  then have "region p (int (length bs)) \<subseteq> A"
    using assms(2) region_prefix by blast
  then show ?thesis
    using read_forward [OF r]
    by (simp add: read_into_def r within_def writes_in_store)
qed

lemma safe_read_into:
  "region p (uint n) \<subseteq> A \<Longrightarrow> safe A (\<lambda>st. Some (read_into p n st))"
  unfolding safe_def by (metis within_read_into)

lemma safe_store_clamped:
  "(\<And>g c m. r = Some (g, c) \<Longrightarrow> writes_in A m (g m)) \<Longrightarrow>
     safe A (\<lambda>st. Some (store_clamped r v st))"
  unfolding safe_def store_clamped_def
  by (cases r) (auto simp: split_def d_error_def within_def poke_def)

lemma clamp_writes:
  "clamp_signed n dest v = Some (g, c) \<Longrightarrow> region dest (uint n) \<subseteq> A \<Longrightarrow> writes_in A m (g m)"
  "clamp_unsigned n dest v = Some (g, c) \<Longrightarrow> region dest (uint n) \<subseteq> A \<Longrightarrow> writes_in A m (g m)"
  by (auto simp: clamp_signed_def clamp_unsigned_def split: if_splits intro!: writes_in_st)

text \<open>What a decoder may write at \<open>dest\<close>.\<close>

definition ltype_width :: "pb_field \<Rightarrow> int" where
  "ltype_width f =
     (if PB_LTYPE (ftype f) = PB_LTYPE_BOOL then 1
      else if PB_LTYPE (ftype f) = PB_LTYPE_FIXED32 then 4
      else if PB_LTYPE (ftype f) = PB_LTYPE_FIXED64 then 8
      else uint (data_size f))"

lemma safe_dec_bool: "region dest 1 \<subseteq> A \<Longrightarrow> safe A (pb_dec_bool f dest)"
  unfolding pb_dec_bool_def [abs_def]
  by (intro safe_on_value safe_Some within_poke writes_in_st8) (auto dest: varint32_forward)

lemma safe_dec_varint: "region dest (uint (data_size f)) \<subseteq> A \<Longrightarrow> safe A (pb_dec_varint f dest)"
  unfolding pb_dec_varint_def [abs_def] Let_def
  by (intro safe_on_value safe_store_clamped) (auto dest: varint_forward intro: clamp_writes)

lemma safe_dec_uvarint: "region dest (uint (data_size f)) \<subseteq> A \<Longrightarrow> safe A (pb_dec_uvarint f dest)"
  unfolding pb_dec_uvarint_def [abs_def] Let_def
  by (intro safe_on_value safe_store_clamped) (auto dest: varint_forward intro: clamp_writes)

lemma safe_dec_svarint: "region dest (uint (data_size f)) \<subseteq> A \<Longrightarrow> safe A (pb_dec_svarint f dest)"
  unfolding pb_dec_svarint_def [abs_def] Let_def
  by (intro safe_on_value safe_store_clamped) (auto dest: svarint_forward intro: clamp_writes)

lemma safe_dec_fixed32: "region dest 4 \<subseteq> A \<Longrightarrow> safe A (pb_dec_fixed32 f dest)"
  unfolding pb_dec_fixed32_def [abs_def]
  by (intro safe_on_value safe_Some within_poke writes_in_st32) (auto dest: fixed32_forward)

lemma safe_dec_fixed64: "region dest 8 \<subseteq> A \<Longrightarrow> safe A (pb_dec_fixed64 f dest)"
  unfolding pb_dec_fixed64_def [abs_def]
  by (intro safe_on_value safe_Some within_poke writes_in_st64) (auto dest: fixed64_forward)

lemma safe_dec_fixed_length_bytes:
  "region dest (uint (data_size f)) \<subseteq> A \<Longrightarrow> safe A (pb_dec_fixed_length_bytes f dest)"
  unfolding pb_dec_fixed_length_bytes_def [abs_def] if_distrib [of Some]
  by (intro safe_on_value safe_if safe_error safe_Some within_poke writes_in_memset safe_read_into)
    (auto dest: varint32_forward)

lemma u32_alloc:
  "uint (PB_BYTES_ARRAY_T_ALLOCSIZE (ucast (n :: u32))) = uint n + 4"
proof -
  have "uint n + 4 < 2 ^ 64"
    using uint_lt2p [of n] by simp
  then show ?thesis
    by (simp add: PB_BYTES_ARRAY_T_ALLOCSIZE_def uint_word_ariths)
qed

lemma safe_dec_bytes:
  assumes A: "region dest (uint (data_size f)) \<subseteq> A" and static: "PB_ATYPE (ftype f) \<noteq> PB_ATYPE_POINTER"
  shows "safe A (pb_dec_bytes env f dest)"
proof -
  have fill: "safe A (\<lambda>st. Some (read_into (bytes_bytes dest) (ucast n)
      (poke (\<lambda>m. st32 m dest n) st)))"
    if "\<not> ucast (data_size f) < PB_BYTES_ARRAY_T_ALLOCSIZE (ucast n)" for n
  proof -
    have "uint n + 4 \<le> uint (data_size f)"
      using that by (simp add: word_less_alt u32_alloc not_less)
    then have "region dest 4 \<subseteq> A" "region (dest + 4) (uint n) \<subseteq> A"
      using uint_ge_0 [of n] unfolding uint_ucast_32_64
      by - (rule region_sub [OF A]; linarith)+
    then show ?thesis
      by (intro safe_poke [where f = "\<lambda>st. Some (read_into _ _ st)"] safe_read_into writes_in_st32)
        (simp_all add: bytes_bytes_def)
  qed
  have "safe A (\<lambda>st. let alloc_size = PB_BYTES_ARRAY_T_ALLOCSIZE (ucast n) in
      if n > PB_SIZE_MAX then Some (d_error st ''bytes overflow'')
      else if ucast n > alloc_size then Some (d_error st ''size too large'')
      else if alloc_size > ucast (data_size f) then Some (d_error st ''bytes overflow'')
      else Some (read_into (bytes_bytes dest) (ucast n) (poke (\<lambda>m. st32 m dest n) st)))" for n
    unfolding Let_def
    by (cases "PB_BYTES_ARRAY_T_ALLOCSIZE (ucast n) > ucast (data_size f)")
      (simp_all add: safe_if safe_error fill)
  then show ?thesis
    unfolding pb_dec_bytes_def [abs_def] if_not_P [OF static] Let_def
    by (intro safe_on_value) (auto dest: varint32_forward)
qed

lemma safe_dec_string:
  assumes A: "region dest (uint (data_size f)) \<subseteq> A" and static: "PB_ATYPE (ftype f) \<noteq> PB_ATYPE_POINTER"
  shows "safe A (pb_dec_string (env :: ('s, 'h) dec_env) f dest)"
proof -
  have fill: "safe A (\<lambda>st :: ('s, 'h) dstate. case read_into dest (ucast n) st of
      (status, st) \<Rightarrow> Some (status, poke (\<lambda>m. st8 m (dest + uint n) 0) st))"
    if small: "\<not> ucast (n + 1) < (ucast n :: u64)" "\<not> ucast (data_size f) < (ucast (n + 1) :: u64)"
    for n :: u32
  proof -
    have "uint (n + 1) = uint n + 1"
      using small(1) uint_plus_if' [of n 1] by (auto simp: word_less_alt split: if_splits)
    then have "uint n + 1 \<le> uint (data_size f)"
      using small(2) by (simp add: word_less_alt)
    then have r: "region dest (uint (ucast n :: u64)) \<subseteq> A" "region (dest + uint n) 1 \<subseteq> A"
      using uint_ge_0 [of n] unfolding uint_ucast_32_64
      by - (rule region_sub [OF A]; linarith)+
    show ?thesis
      unfolding safe_def
    proof (intro allI impI)
      fix st :: "('s, 'h) dstate"
      assume "honest (fst st)"
      from within_read_into [OF this r(1)] obtain ok st' where
        1: "read_into dest (ucast n) st = (ok, st')" "within A st st'"
        by blast
      then show "\<exists>ok st'. (case read_into dest (ucast n) st of
          (status, st) \<Rightarrow> Some (status, poke (\<lambda>m. st8 m (dest + uint n) 0) st)) = Some (ok, st') \<and>
          within A st st'"
        using within_trans [OF 1(2) within_poke [OF writes_in_st8 [OF r(2)]]] by auto
    qed
  qed
  have "safe A (\<lambda>st :: ('s, 'h) dstate. if (ucast (n + 1) :: u64) < ucast n
      then Some (d_error st ''size too large'')
      else if (ucast (n + 1) :: u64) > ucast (data_size f)
      then Some (d_error st ''string overflow'')
      else case read_into dest (ucast n) st of
        (status, st) \<Rightarrow> Some (status, poke (\<lambda>m. st8 m (dest + uint n) 0) st))" for n :: u32
    by (cases "(ucast (n + 1) :: u64) < ucast n";
        cases "(ucast (n + 1) :: u64) > ucast (data_size f)")
      (simp_all add: safe_error fill)
  then show ?thesis
    unfolding pb_dec_string_def [abs_def] if_not_P [OF static] Let_def
    by (intro safe_on_value) (auto dest: varint32_forward)
qed

lemma safe_in_substream:
  assumes "safe A k"
  shows "safe A (in_substream k)"
  unfolding safe_def
proof (intro allI impI)
  fix st :: "('a, 'b) dstate"
  assume h: "honest (fst st)"
  obtain ok sub s1 where 1: "pb_make_string_substream (fst st) = (ok, sub, s1)"
    by (cases "pb_make_string_substream (fst st)") auto
  note f = make_substream_forward [OF 1]
  show "\<exists>ok st'. in_substream k st = Some (ok, st') \<and> within A st st'"
  proof (cases ok)
    case False
    then show ?thesis
      using f(1) within_stream [of "fst st" s1 A "snd st"] by (auto simp: in_substream_def 1)
  next
    case True
    have "honest sub"
      using follows_honest [OF f(2) [OF True] h] .
    then obtain status sub' w' where 2: "k (sub, snd st) = Some (status, sub', w')"
      "within A (sub, snd st) (sub', w')"
      using safeD [OF assms, of "(sub, snd st)"] by (metis fst_conv prod.collapse)
    obtain ok3 s3 where 3: "pb_close_string_substream s1 sub' = (ok3, s3)"
      by (cases "pb_close_string_substream s1 sub'") auto
    have "follows (fst st) s3"
      using follows_trans [OF f(1) close_substream_forward [OF 3]] .
    then have "within A st (s3, w')"
      using 2(2) by (simp add: within_def)
    then show ?thesis
      using True by (cases ok3) (auto simp: in_substream_def 1 2(1) close_substream_def 3)
  qed
qed

lemma eats_in_substream: "eats (in_substream k)"
  unfolding eats_def
proof (intro allI impI)
  fix st st' :: "('a, 'b) dstate"
  assume *: "in_substream k st = Some (True, st')"
  obtain ok sub s1 where 1: "pb_make_string_substream (fst st) = (ok, sub, s1)"
    by (cases "pb_make_string_substream (fst st)") auto
  with * obtain status sub' w' where 2: "ok" "k (sub, snd st) = Some (status, sub', w')"
    "close_substream s1 (status, sub', w') = (True, st')"
    by (auto simp: in_substream_def split: bool.splits)
  obtain ok3 s3 where 3: "pb_close_string_substream s1 sub' = (ok3, s3)"
    by (cases "pb_close_string_substream s1 sub'") auto
  have "fst st' = s3"
    using 2(3) 3 by (auto simp: close_substream_def split: bool.splits)
  then show "unat (bytes_left (fst st')) < unat (bytes_left (fst st))"
    using make_substream_forward(3) [OF 1 2(1)] close_substream_forward [OF 3]
    by (simp add: follows_def)
qed

lemma safe_dec_submessage:
  assumes "ptr f \<noteq> 0 \<Longrightarrow> PB_HTYPE (ftype f) = PB_HTYPE_REPEATED \<Longrightarrow>
      safe A (dec (dec_descs env (ptr f)) dest)"
    and "ptr f \<noteq> 0 \<Longrightarrow> PB_HTYPE (ftype f) \<noteq> PB_HTYPE_REPEATED \<Longrightarrow>
      safe A (dec_noinit (dec_descs env (ptr f)) dest)"
  shows "safe A (pb_dec_submessage env dec dec_noinit f dest)"
proof (cases "ptr f = 0")
  case False
  then show ?thesis
    unfolding pb_dec_submessage_def [abs_def] if_not_P [OF False]
    using assms by (intro safe_in_substream) (cases "PB_HTYPE (ftype f) = PB_HTYPE_REPEATED", simp_all)
next
  case True
  have "\<exists>ok st'. (case pb_make_string_substream (fst st) of
      (False, _, s) \<Rightarrow> Some (False, s, snd st)
    | (True, _, s) \<Rightarrow> Some (d_error (s, snd st) ''invalid field descriptor'')) = Some (ok, st') \<and>
      within A st st'" for st :: "('a, 'b) dstate"
    using make_substream_forward(1) [of "fst st"]
    by (auto simp: d_error_def within_def split: prod.splits bool.splits)
  then show ?thesis
    unfolding pb_dec_submessage_def [abs_def] if_P [OF True] safe_def by blast
qed

section \<open>Messages in their structure\<close>

text \<open>The fields are static, and each with its size or presence cell lies within the \<open>n\<close> bytes of
  the structure, submessages recursively; \<open>k\<close> bounds their nesting. An empty descriptor array is
  read at its terminator.\<close>

definition static_field :: "pb_field \<Rightarrow> bool" where
  "static_field f \<longleftrightarrow> PB_ATYPE (ftype f) = PB_ATYPE_STATIC \<and>
     PB_LTYPE (ftype f) \<le> PB_LTYPE_FIXED_LENGTH_BYTES \<and> PB_LTYPE (ftype f) \<noteq> PB_LTYPE_EXTENSION"

definition value_fits :: "pb_field \<Rightarrow> int \<Rightarrow> int \<Rightarrow> bool" where
  "value_fits f off n \<longleftrightarrow> 0 \<le> off \<and>
     (if PB_HTYPE (ftype f) = PB_HTYPE_REPEATED
      then ltype_width f \<le> uint (data_size f) \<and>
        uint (data_size f) * uint (array_size f) < 4294967296 \<and>
        off + uint (data_size f) * uint (array_size f) \<le> n
      else off + ltype_width f \<le> n \<and> off + uint (data_size f) \<le> n)"

definition cell_fits :: "pb_field \<Rightarrow> int \<Rightarrow> int \<Rightarrow> int \<Rightarrow> bool" where
  "cell_fits f off soff n \<longleftrightarrow>
     (PB_HTYPE (ftype f) = PB_HTYPE_OPTIONAL \<longrightarrow> soff \<noteq> off \<longrightarrow> 0 \<le> soff \<and> soff + 1 \<le> n) \<and>
     (PB_HTYPE (ftype f) = PB_HTYPE_REPEATED \<or> PB_HTYPE (ftype f) = PB_HTYPE_ONEOF \<longrightarrow>
        0 \<le> soff \<and> soff + 4 \<le> n)"

definition fields_fit :: "(pb_field list \<Rightarrow> int \<Rightarrow> bool) \<Rightarrow> (addr \<Rightarrow> pb_field list) \<Rightarrow>
    pb_field list \<Rightarrow> int \<Rightarrow> bool" where
  "fields_fit sub descs fs n \<longleftrightarrow> fields_wf fs \<and>
     list_all (\<lambda>i. let f = field_at fs i in
         static_field f \<and> value_fits f (data_addr fs 0 i) n \<and>
         cell_fits f (data_addr fs 0 i) (size_addr fs 0 i) n \<and>
         (PB_LTYPE (ftype f) = PB_LTYPE_SUBMESSAGE \<longrightarrow> sub (descs (ptr f)) (uint (data_size f))))
       [0..<max 1 (length fs)]"

fun static_msg :: "(addr \<Rightarrow> pb_field list) \<Rightarrow> nat \<Rightarrow> pb_field list \<Rightarrow> int \<Rightarrow> bool" where
  "static_msg descs 0 fs n = False"
| "static_msg descs (Suc k) fs n = fields_fit (static_msg descs k) descs fs n"

lemma data_addr_shift: "data_addr fs dest i = dest + data_addr fs 0 i"
  by (induction i) simp_all

lemma size_addr_shift: "size_addr fs dest i = dest + size_addr fs 0 i"
  by (induction i) (simp_all add: data_addr_shift [of fs dest])

lemma static_msg_field:
  assumes "static_msg descs (Suc k) fs n" "i < max 1 (length fs)"
  shows "static_field (field_at fs i)" "value_fits (field_at fs i) (data_addr fs 0 i) n"
    "cell_fits (field_at fs i) (data_addr fs 0 i) (size_addr fs 0 i) n"
    "PB_LTYPE (ftype (field_at fs i)) = PB_LTYPE_SUBMESSAGE \<Longrightarrow>
      static_msg descs k (descs (ptr (field_at fs i))) (uint (data_size (field_at fs i)))"
  using assms by (auto simp: fields_fit_def list_all_iff Let_def simp del: max_less_iff_conj
      less_max_iff_disj)

lemma static_msg_wf: "static_msg descs k fs n \<Longrightarrow> fields_wf fs"
  by (cases k) (simp_all add: fields_fit_def)

lemma ltype_cases:
  assumes "static_field f"
  shows "PB_LTYPE (ftype f) \<in> {0, 1, 2, 3, 4, 5, 6, 7, 8, 10}"
proof -
  let ?t = "PB_LTYPE (ftype f)"
  have "unat ?t \<le> 10" "unat ?t \<noteq> 9"
    using assms by (auto simp: static_field_def pb_consts word_le_nat_alt word_unat_eq_iff)
  moreover have "i \<in> {0, 1, 2, 3, 4, 5, 6, 7, 8, 10}" if "i \<le> 10" "i \<noteq> 9" for i :: nat
    using that by (simp add: eval_nat_numeral le_Suc_eq)
  ultimately have "unat ?t \<in> {0, 1, 2, 3, 4, 5, 6, 7, 8, 10}"
    by blast
  then show ?thesis
    by (simp add: word_unat_eq_iff)
qed

lemma safe_decoder:
  assumes f: "static_field f" and func: "decoder_of env dec dec_noinit f = Some func"
    and A: "region dest (ltype_width f) \<subseteq> A" "region dest (uint (data_size f)) \<subseteq> A"
    and sub: "PB_LTYPE (ftype f) = PB_LTYPE_SUBMESSAGE \<Longrightarrow> ptr f \<noteq> 0 \<Longrightarrow>
      safe A (dec (dec_descs env (ptr f)) dest) \<and> safe A (dec_noinit (dec_descs env (ptr f)) dest)"
  shows "safe A (func f dest)"
proof -
  have static: "PB_ATYPE (ftype f) \<noteq> PB_ATYPE_POINTER"
    using f by (simp add: static_field_def pb_consts)
  note unf = decoder_of_def PB_DECODERS_def Let_def ltype_width_def pb_consts
  show ?thesis
    using ltype_cases [OF f] func A sub
    by (auto simp: unf safe_dec_bool safe_dec_varint safe_dec_uvarint safe_dec_svarint
        safe_dec_fixed32 safe_dec_fixed64 safe_dec_fixed_length_bytes
        safe_dec_bytes [OF _ static] safe_dec_string [OF _ static] safe_dec_submessage)
qed

section \<open>Defaults and releasing\<close>

lemma run_all_Some:
  assumes "\<And>i s. i \<in> set is \<Longrightarrow> \<exists>s'. body i s = Some (True, s') \<and> R s s'"
    and "\<And>s. R s s" "\<And>s s' s''. R s s' \<Longrightarrow> R s' s'' \<Longrightarrow> R s s''"
  shows "\<exists>s'. run_all body is s = Some (True, s') \<and> R s s'"
  using assms(1)
proof (induction "is" arbitrary: s)
  case Nil
  then show ?case by (simp add: assms(2))
next
  case (Cons i "is")
  obtain s1 where 1: "body i s = Some (True, s1)" "R s s1"
    using Cons.prems [of i s] by auto
  have "\<exists>s'. run_all body is s1 = Some (True, s') \<and> R s1 s'"
    by (rule Cons.IH) (use Cons.prems in auto)
  then show ?case
    using 1 assms(3) by auto
qed

lemma iter_do_Some:
  assumes "fields_wf fs" "fs \<noteq> []"
    and "\<And>i s. i < length fs \<Longrightarrow> \<exists>s'. body (iter_at fs dest i) s = Some (True, s') \<and> R s s'"
    and "\<And>s. R s s" "\<And>s s' s''. R s s' \<Longrightarrow> R s' s'' \<Longrightarrow> R s s''"
  shows "\<exists>s'. iter_do body (iter_at fs dest 0) s = Some (True, s') \<and> R s s'"
  using assms
  by (subst iter_do_from) (auto intro!: run_all_Some)

lemma defaults_safe:
  "static_msg (dec_descs env) k fs n \<Longrightarrow> k \<le> d \<Longrightarrow> region dest n \<subseteq> A \<Longrightarrow>
     \<exists>m'. pb_message_set_to_defaults env d fs dest m = Some m' \<and> writes_in A m m'"
proof (induction k arbitrary: d fs n dest m)
  case 0
  then show ?case by simp
next
  case (Suc k)
  obtain d' where d: "d = Suc d'" "k \<le> d'"
    using Suc.prems(2) by (cases d) auto
  note wf = static_msg_wf [OF Suc.prems(1)]
  show ?case
  proof (cases "fs = []")
    case True
    then show ?thesis
      by (auto simp: pb_message_set_to_defaults_def message_defaults_def pb_field_iter_begin_eq
          field_at_def)
  next
    case False
    have field: "\<exists>m'. field_default env (pb_field_set_to_default env d') (iter_at fs dest i) m =
        Some m' \<and> writes_in A m m'" if i: "i < length fs" for i m
    proof -
      have i': "i < max 1 (length fs)"
        using i by simp
      note fit = static_msg_field [OF Suc.prems(1) i']
      let ?f = "field_at fs i" and ?p = "data_addr fs dest i" and ?q = "size_addr fs dest i"
      have p: "?p = dest + data_addr fs 0 i" "?q = dest + size_addr fs 0 i"
        by (rule data_addr_shift, rule size_addr_shift)
      have data: "region ?p (uint (data_size ?f)) \<subseteq> A"
        if "PB_HTYPE (ftype ?f) \<noteq> PB_HTYPE_REPEATED"
        using that fit(2) p(1) by (intro region_sub [OF Suc.prems(3)]) (simp_all add: value_fits_def)
      have cell4: "region ?q 4 \<subseteq> A"
        if "PB_HTYPE (ftype ?f) = PB_HTYPE_REPEATED \<or> PB_HTYPE (ftype ?f) = PB_HTYPE_ONEOF"
        using that fit(3) p(2) by (intro region_sub [OF Suc.prems(3)]) (auto simp: cell_fits_def)
      have cell1: "region ?q 1 \<subseteq> A"
        if "PB_HTYPE (ftype ?f) = PB_HTYPE_OPTIONAL" "?q \<noteq> ?p"
        using that fit(3) p by (intro region_sub [OF Suc.prems(3)]) (auto simp: cell_fits_def)
      have st: "PB_ATYPE (ftype ?f) = PB_ATYPE_STATIC" "PB_LTYPE (ftype ?f) \<noteq> PB_LTYPE_EXTENSION"
        using fit(1) by (simp_all add: static_field_def)
      show ?thesis
      proof (cases "PB_HTYPE (ftype ?f) = PB_HTYPE_REPEATED \<or> PB_HTYPE (ftype ?f) = PB_HTYPE_ONEOF")
        case True
        then show ?thesis
          using writes_in_st32 [OF cell4 [OF True]] by (simp add: field_default_def Let_def st)
      next
        case plain: False
        define m1 where "m1 = (if PB_HTYPE (ftype ?f) = PB_HTYPE_OPTIONAL \<and> ?q \<noteq> ?p
            then st8 m ?q 0 else m)"
        have m1: "writes_in A m m1"
          using writes_in_st8 [OF cell1] by (simp add: m1_def)
        have eq: "field_default env (pb_field_set_to_default env d') (iter_at fs dest i) m =
            (if PB_LTYPE (ftype ?f) = PB_LTYPE_SUBMESSAGE
             then pb_message_set_to_defaults env d' (dec_descs env (ptr ?f)) ?p m1
             else if ptr ?f \<noteq> 0 then Some (memcpy m1 ?p (ptr ?f) (unat (data_size ?f)))
             else Some (memset m1 ?p 0 (unat (data_size ?f))))"
          using plain
          by (auto simp: field_default_def Let_def st m1_def pb_message_set_to_defaults_def)
        show ?thesis
        proof (cases "PB_LTYPE (ftype ?f) = PB_LTYPE_SUBMESSAGE")
          case True
          have "region ?p (uint (data_size ?f)) \<subseteq> A"
            using data plain by blast
          from Suc.IH [OF fit(4) [OF True] d(2) this] obtain m' where
            "pb_message_set_to_defaults env d' (dec_descs env (ptr ?f)) ?p m1 = Some m'"
            "writes_in A m1 m'" by blast
          then show ?thesis
            using True m1 by (auto simp: eq intro: writes_in_trans)
        next
          case False
          have "region ?p (int (unat (data_size ?f))) \<subseteq> A"
            using data plain by (simp add: uint_nat [symmetric])
          then show ?thesis
            using False writes_in_trans [OF m1 writes_in_memset] writes_in_trans [OF m1 writes_in_memcpy]
            by (simp add: eq)
        qed
      qed
    qed
    have "\<exists>m'. iter_do (\<lambda>it m. map_option (Pair True) (pb_field_set_to_default env d it m))
        (iter_at fs dest 0) m = Some (True, m') \<and> writes_in A m m'"
      by (rule iter_do_Some [OF wf False]) (auto simp: d(1) dest: field intro: writes_in_trans
          dest!: field)
    then show ?thesis
      using False wf
      by (auto simp: pb_message_set_to_defaults_def message_defaults_def pb_field_iter_begin_eq
          field_at_tag)
  qed
qed

text \<open>Releasing a message without pointers does nothing.\<close>

lemma release_items_same:
  "(\<And>p. rel p w = Some w) \<Longrightarrow> release_items rel n k p w = Some w"
  by (induction k arbitrary: p) auto

lemma release_single_same:
  assumes "static_field (pos_field it)"
    and "\<And>p. PB_LTYPE (ftype (pos_field it)) = PB_LTYPE_SUBMESSAGE \<Longrightarrow>
      pb_release env d (dec_descs env (ptr (pos_field it))) p w = Some w"
  shows "pb_release_single_field env (Suc d) it w = Some w"
proof -
  have "PB_ATYPE (ftype (pos_field it)) \<noteq> PB_ATYPE_POINTER"
    using assms(1) by (simp add: static_field_def pb_consts)
  then have "release_pointers env it w = w"
    by (simp add: release_pointers_def Let_def)
  moreover have "release_contents env (pb_release_single_field env d) it w = Some w"
    using assms by (auto simp: release_contents_def Let_def static_field_def pb_release_def
        intro!: release_items_same)
  ultimately show ?thesis
    by (simp add: release_single_def)
qed

lemma release_static:
  "static_msg (dec_descs env) k fs n \<Longrightarrow> k \<le> d \<Longrightarrow> pb_release env d fs dest w = Some w"
proof (induction k arbitrary: d fs n dest)
  case 0
  then show ?case by simp
next
  case (Suc k)
  obtain d' where d: "d = Suc d'" "k \<le> d'"
    using Suc.prems(2) by (cases d) auto
  note wf = static_msg_wf [OF Suc.prems(1)]
  show ?case
  proof (cases "fs = []")
    case True
    then show ?thesis
      by (auto simp: pb_release_def release_message_def pb_field_iter_begin_eq field_at_def)
  next
    case False
    have "pb_release_single_field env d (iter_at fs dest i) w = Some w" if "i < length fs" for i
    proof -
      have i: "i < max 1 (length fs)"
        using that by simp
      note fit = static_msg_field [OF Suc.prems(1) i]
      show ?thesis
        unfolding d(1)
        by (rule release_single_same) (use fit(1) Suc.IH [OF fit(4) d(2)] in auto)
    qed
    then have "run_all (\<lambda>it w. map_option (Pair True) (pb_release_single_field env d it w))
        (map (iter_at fs dest) is) w = Some (True, w)" if "set is \<subseteq> {..<length fs}" for "is"
      using that by (induction "is") auto
    from this [of "[0..<length fs]"]
    have "iter_do (\<lambda>it w. map_option (Pair True) (pb_release_single_field env d it w))
        (iter_at fs dest 0) w = Some (True, w)"
      using False by (simp add: iter_do_from [OF wf] atLeast0LessThan)
    then show ?thesis
      using False wf
      by (auto simp: pb_release_def release_message_def pb_field_iter_begin_eq field_at_tag)
  qed
qed

section \<open>Static fields\<close>

lemma eats_scalar:
  assumes "PB_LTYPE (ftype f) \<le> PB_LTYPE_LAST_PACKABLE" "decoder_of env dec dec_noinit f = Some func"
  shows "eats (func f dest)"
proof -
  have "unat (PB_LTYPE (ftype f)) \<le> 5"
    using assms(1) by (simp add: pb_consts word_le_nat_alt)
  moreover have "i \<in> {0, 1, 2, 3, 4, 5}" if "i \<le> 5" for i :: nat
    using that by (simp add: eval_nat_numeral le_Suc_eq)
  ultimately have "unat (PB_LTYPE (ftype f)) \<in> {0, 1, 2, 3, 4, 5}"
    by blast
  then have "PB_LTYPE (ftype f) \<in> {0, 1, 2, 3, 4, 5}"
    by (simp add: word_unat_eq_iff)
  moreover have "eats (pb_dec_bool f dest)" "eats (pb_dec_varint f dest)" "eats (pb_dec_uvarint f dest)"
    "eats (pb_dec_svarint f dest)" "eats (pb_dec_fixed32 f dest)" "eats (pb_dec_fixed64 f dest)"
    unfolding pb_dec_bool_def [abs_def] pb_dec_varint_def [abs_def] pb_dec_uvarint_def [abs_def]
      pb_dec_svarint_def [abs_def] pb_dec_fixed32_def [abs_def] pb_dec_fixed64_def [abs_def]
    by (rule eats_on_value; auto simp: poke_def store_clamped_def d_error_def Let_def
        split: option.splits prod.splits if_splits
        dest: varint32_forward(2) varint_forward(2) svarint_forward(2) fixed32_forward(2)
          fixed64_forward(2))+
  ultimately show ?thesis
    using assms(2) by (auto simp: decoder_of_def PB_DECODERS_def Let_def)
qed

lemma safe_packed_static:
  assumes item: "\<And>j. j < array_size (pos_field it) \<Longrightarrow>
      safe A (func (pos_field it) (pData it + uint (data_size (pos_field it) * j)))"
    and eats: "\<And>p. eats (func (pos_field it) p)"
    and cell: "region (pSize it) 4 \<subseteq> A"
  shows "safe A (packed_static func it)"
  unfolding safe_def
proof (intro allI impI)
  fix st :: "('a, 'b) dstate"
  assume "honest (fst st)"
  then show "\<exists>ok st'. packed_static func it st = Some (ok, st') \<and> within A st st'"
  proof (induction "unat (bytes_left (fst st))" arbitrary: st rule: less_induct)
    case less
    let ?f = "pos_field it" and ?n = "ld32 (mem (snd st)) (pSize it)"
    show ?case
    proof (cases "0 < bytes_left (fst st) \<and> ?n < array_size ?f")
      case False
      then have "packed_static func it st = Some (True, st)"
        by (subst packed_static.simps) (auto simp: Let_def)
      then show ?thesis by auto
    next
      case True
      then obtain ok st1 where 1: "func ?f (pData it + uint (data_size ?f * ?n)) st = Some (ok, st1)"
        "within A st st1" "honest (fst st1)"
        using safeD [OF item less.prems] by metis
      let ?st2 = "poke (\<lambda>m. st32 m (pSize it) (ld32 m (pSize it) + 1)) st1"
      have 2: "within A st1 ?st2"
        by (intro within_poke writes_in_st32 cell)
      show ?thesis
      proof (cases ok)
        case False
        then show ?thesis
          using True 1 by (subst packed_static.simps) (auto simp: Let_def)
      next
        case ok: True
        have "unat (bytes_left (fst ?st2)) < unat (bytes_left (fst st))"
          using eats [unfolded eats_def, rule_format, OF 1(1) [unfolded eqTrueI [OF ok]]]
          by (simp add: poke_def)
        from less.hyps [OF this within_honest [OF 2 1(3)]] obtain ok' st' where
          "packed_static func it ?st2 = Some (ok', st')" "within A ?st2 st'"
          by blast
        then show ?thesis
          using True ok 1 within_trans [OF within_trans [OF 1(2) 2]]
          by (subst packed_static.simps) (auto simp: Let_def)
      qed
    qed
  qed
qed

lemma safe_packed:
  assumes "safe A (packed_static func it)"
  shows "safe A (decode_packed_static func it)"
  unfolding safe_def
proof (intro allI impI)
  fix st :: "('a, 'b) dstate"
  assume h: "honest (fst st)"
  obtain ok sub s1 where 1: "pb_make_string_substream (fst st) = (ok, sub, s1)"
    by (cases "pb_make_string_substream (fst st)") auto
  note f = make_substream_forward [OF 1]
  show "\<exists>ok st'. decode_packed_static func it st = Some (ok, st') \<and> within A st st'"
  proof (cases ok)
    case False
    then show ?thesis
      using f(1) within_stream [of "fst st" s1 A "snd st"] by (auto simp: decode_packed_static_def 1)
  next
    case True
    have "honest sub"
      using follows_honest [OF f(2) [OF True] h] .
    then obtain status sub' w' where 2: "packed_static func it (sub, snd st) = Some (status, sub', w')"
      "within A (sub, snd st) (sub', w')"
      using safeD [OF assms, of "(sub, snd st)"] by (metis fst_conv prod.collapse)
    obtain ok3 s3 where 3: "pb_close_string_substream s1 sub' = (ok3, s3)"
      by (cases "pb_close_string_substream s1 sub'") auto
    have "follows (fst st) s3"
      using follows_trans [OF f(1) close_substream_forward [OF 3]] .
    then have "within A st (s3, w')" "within A st (s1, w')"
      using 2(2) f(1) by (simp_all add: within_def)
    then show ?thesis
      using True
      by (cases ok3) (auto simp: decode_packed_static_def 1 2(1) close_substream_def 3 d_error_def
          within_def)
  qed
qed

lemma safe_repeated_item:
  fixes func :: "('s, 'h) decoder"
  assumes item: "\<forall>j < array_size f. safe A (func f (pData it + uint (data_size f * j)))"
    and c: "region (pSize it) 4 \<subseteq> A"
  shows "safe A (\<lambda>st. let n = ld32 (mem (snd st)) (pSize it);
      st = poke (\<lambda>m. st32 m (pSize it) (n + 1)) st
    in if n \<ge> array_size f then Some (d_error st ''array overflow'')
       else func f (pData it + uint (data_size f * n)) st)"
  unfolding safe_def
proof (intro allI impI)
  fix st :: "('s, 'h) dstate"
  assume h: "honest (fst st)"
  let ?n = "ld32 (mem (snd st)) (pSize it)"
  let ?st = "poke (\<lambda>m. st32 m (pSize it) (?n + 1)) st"
  have w: "within A st ?st"
    by (intro within_poke writes_in_st32 c)
  show "\<exists>ok st'. (let n = ld32 (mem (snd st)) (pSize it);
          st = poke (\<lambda>m. st32 m (pSize it) (n + 1)) st
        in if n \<ge> array_size f then Some (d_error st ''array overflow'')
           else func f (pData it + uint (data_size f * n)) st) = Some (ok, st') \<and> within A st st'"
  proof (cases "?n < array_size f")
    case True
    then have "safe A (func f (pData it + uint (data_size f * ?n)))"
      using item by blast
    from safeD [OF this within_honest [OF w h]] obtain ok st' where
      "func f (pData it + uint (data_size f * ?n)) ?st = Some (ok, st')" "within A ?st st'"
      by blast
    then show ?thesis
      using True within_trans [OF w, of st'] by (auto simp: Let_def not_le [symmetric])
  next
    case False
    then show ?thesis
      using within_trans [OF w within_error] by (auto simp: Let_def d_error_def)
  qed
qed

lemma safe_oneof:
  fixes it :: pb_field_iter and d :: nat
  defines "f \<equiv> pos_field it"
  assumes oneof: "PB_HTYPE (ftype f) = PB_HTYPE_ONEOF"
    and one: "safe A (func f (pData it))"
    and cell: "region (pSize it) 4 \<subseteq> A" and data: "region (pData it) (uint (data_size f)) \<subseteq> A"
    and def: "\<And>m. PB_LTYPE (ftype f) = PB_LTYPE_SUBMESSAGE \<Longrightarrow>
      \<exists>m'. pb_message_set_to_defaults env d (dec_descs env (ptr f)) (pData it) m = Some m' \<and>
        writes_in A m m'"
  shows "safe A (decode_static_field env d func wt it)"
  unfolding safe_def
proof (intro allI impI)
  fix st :: "('a, 'b) dstate"
  assume h: "honest (fst st)"
  have data': "region (pData it) (int (unat (data_size f))) \<subseteq> A"
    using data by (simp add: uint_nat [symmetric])
  let ?m0 = "mem (snd st)"
  obtain m where m: "(if PB_LTYPE (ftype f) = PB_LTYPE_SUBMESSAGE \<and> ld32 ?m0 (pSize it) \<noteq> tag f
      then pb_message_set_to_defaults env d (dec_descs env (ptr f)) (pData it)
             (memset ?m0 (pData it) 0 (unat (data_size f)))
      else Some ?m0) = Some m" "writes_in A ?m0 m"
  proof (cases "PB_LTYPE (ftype f) = PB_LTYPE_SUBMESSAGE \<and> ld32 ?m0 (pSize it) \<noteq> tag f")
    case True
    then obtain m' where "pb_message_set_to_defaults env d (dec_descs env (ptr f)) (pData it)
        (memset ?m0 (pData it) 0 (unat (data_size f))) = Some m'"
      "writes_in A (memset ?m0 (pData it) 0 (unat (data_size f))) m'"
      using def by blast
    then show ?thesis
      using that [of m'] True writes_in_trans [OF writes_in_memset [OF data']] by simp
  next
    case False
    then show ?thesis
      using that [of ?m0] by auto
  qed
  let ?st = "poke (\<lambda>_. st32 m (pSize it) (tag f)) st"
  have w: "within A st ?st"
    using writes_in_trans [OF m(2) writes_in_st32 [OF cell]] by (simp add: within_def poke_def)
  from safeD [OF one within_honest [OF w h]] obtain ok st' where
    1: "func f (pData it) ?st = Some (ok, st')" "within A ?st st'"
    by blast
  have "decode_static_field env d func wt it st = func f (pData it) ?st"
    unfolding decode_static_field_def Let_def f_def [symmetric] oneof
    by (simp only: htype_distinct if_False m(1)) simp
  then show "\<exists>ok st'. decode_static_field env d func wt it st = Some (ok, st') \<and> within A st st'"
    using 1 within_trans [OF w] by auto
qed

lemma safe_static_field:
  fixes it :: pb_field_iter and d :: nat
  defines "f \<equiv> pos_field it"
  assumes item: "PB_HTYPE (ftype f) = PB_HTYPE_REPEATED \<Longrightarrow>
      \<forall>j < array_size f. safe A (func f (pData it + uint (data_size f * j)))"
    and one: "PB_HTYPE (ftype f) \<noteq> PB_HTYPE_REPEATED \<Longrightarrow> safe A (func f (pData it))"
    and eats: "PB_LTYPE (ftype f) \<le> PB_LTYPE_LAST_PACKABLE \<Longrightarrow> \<forall>p. eats (func f p)"
    and opt: "PB_HTYPE (ftype f) = PB_HTYPE_OPTIONAL \<Longrightarrow> pSize it \<noteq> pData it \<Longrightarrow>
      region (pSize it) 1 \<subseteq> A"
    and cell: "PB_HTYPE (ftype f) = PB_HTYPE_REPEATED \<or> PB_HTYPE (ftype f) = PB_HTYPE_ONEOF \<Longrightarrow>
      region (pSize it) 4 \<subseteq> A"
    and data: "PB_HTYPE (ftype f) = PB_HTYPE_ONEOF \<Longrightarrow> region (pData it) (uint (data_size f)) \<subseteq> A"
    and def: "\<And>m. PB_LTYPE (ftype f) = PB_LTYPE_SUBMESSAGE \<Longrightarrow>
      PB_HTYPE (ftype f) = PB_HTYPE_ONEOF \<Longrightarrow>
      \<exists>m'. pb_message_set_to_defaults env d (dec_descs env (ptr f)) (pData it) m = Some m' \<and>
        writes_in A m m'"
  shows "safe A (decode_static_field env d func wt it)"
proof -
  consider (req) "PB_HTYPE (ftype f) = PB_HTYPE_REQUIRED" | (opt) "PB_HTYPE (ftype f) = PB_HTYPE_OPTIONAL"
    | (rep) "PB_HTYPE (ftype f) = PB_HTYPE_REPEATED" | (oneof) "PB_HTYPE (ftype f) = PB_HTYPE_ONEOF"
    using htype_cases by blast
  then show ?thesis
  proof cases
    case req
    then have "safe A (func f (pData it))"
      by (intro one) simp
    moreover have "decode_static_field env d func wt it = func f (pData it)"
      using req by (simp add: fun_eq_iff decode_static_field_def Let_def f_def)
    ultimately show ?thesis by simp
  next
    case opt
    then have one': "safe A (func f (pData it))"
      by (intro one) simp
    show ?thesis
    proof (cases "pSize it = pData it")
      case True
      then have "decode_static_field env d func wt it = func f (pData it)"
        using opt by (simp add: fun_eq_iff decode_static_field_def Let_def f_def)
      with one' show ?thesis by simp
    next
      case False
      then have "decode_static_field env d func wt it =
          (\<lambda>st. func f (pData it) (poke (\<lambda>m. st8 m (pSize it) 1) st))"
        using opt by (simp add: fun_eq_iff decode_static_field_def Let_def f_def)
      then show ?thesis
        using safe_poke [OF one', of "\<lambda>_ m. st8 m (pSize it) 1"] assms(5) [OF opt False]
        by (simp add: writes_in_st8)
    qed
  next
    case rep
    then have c: "region (pSize it) 4 \<subseteq> A"
      by (intro cell) simp
    show ?thesis
    proof (cases "wt = PB_WT_STRING \<and> PB_LTYPE (ftype f) \<le> PB_LTYPE_LAST_PACKABLE")
      case True
      have "decode_static_field env d func wt it = decode_packed_static func it"
        unfolding fun_eq_iff decode_static_field_def Let_def f_def [symmetric] rep
        using True by simp
      then show ?thesis
        using item [OF rep] eats True c unfolding f_def
        by (auto intro!: safe_packed safe_packed_static)
    next
      case False
      have "decode_static_field env d func wt it = (\<lambda>st. let n = ld32 (mem (snd st)) (pSize it);
          st = poke (\<lambda>m. st32 m (pSize it) (n + 1)) st
        in if n \<ge> array_size f then Some (d_error st ''array overflow'')
           else func f (pData it + uint (data_size f * n)) st)"
        unfolding fun_eq_iff decode_static_field_def Let_def f_def [symmetric] rep if_not_P [OF False]
        by simp
      then show ?thesis
        using safe_repeated_item [where func = func, OF item [OF rep] c] by simp
    qed
  next
    case oneof
    then show ?thesis
      using one cell data def unfolding f_def by (intro safe_oneof) auto
  qed
qed

section \<open>The iterator in the message loop\<close>

text \<open>The iterator stands at a field of the message; the cell of a repeated field may have been
  replaced by the local variable.\<close>

definition at_field :: "('s, 'h) dec_env \<Rightarrow> nat \<Rightarrow> pb_field list \<Rightarrow> addr \<Rightarrow> nat \<Rightarrow> pb_field_iter \<Rightarrow> bool" where
  "at_field env d fs dest i it \<longleftrightarrow> i < max 1 (length fs) \<and>
     (it = iter_at fs dest i \<or>
      it = (iter_at fs dest i)\<lparr>pSize := frame env d\<rparr> \<and>
        PB_HTYPE (ftype (field_at fs i)) = PB_HTYPE_REPEATED)"

lemma at_field_sel:
  assumes "at_field env d fs dest i it"
  shows "pos it = i" "pos_field it = field_at fs i" "pData it = data_addr fs dest i" "start it = fs"
    "i < max 1 (length fs)"
    "pSize it = size_addr fs dest i \<or>
       pSize it = frame env d \<and> PB_HTYPE (ftype (field_at fs i)) = PB_HTYPE_REPEATED"
  using assms by (auto simp: at_field_def pos_field_def)

lemma iter_next_other_cell:
  "tag (pos_field it) \<noteq> 0 \<Longrightarrow> PB_HTYPE (ftype (pos_field it)) \<noteq> PB_HTYPE_ONEOF \<Longrightarrow>
     pb_field_iter_next (it\<lparr>pSize := p\<rparr>) = pb_field_iter_next it"
  by (simp add: pb_field_iter_next_def Let_def pos_field_def)

lemma iter_search_other_cell:
  assumes "\<not> found (pos_field it)" "tag (pos_field it) \<noteq> 0"
    "PB_HTYPE (ftype (pos_field it)) \<noteq> PB_HTYPE_ONEOF"
  shows "iter_search found i (it\<lparr>pSize := p\<rparr>) = iter_search found i it"
  using assms iter_next_other_cell [OF assms(2,3)]
  by (subst (1 2) iter_search.simps) (simp add: pos_field_def)

lemma search_at_field:
  assumes wf: "fields_wf fs" and it: "at_field env d fs dest i it"
  shows "\<exists>b j it'. iter_search found (pos it) it = Some (b, it') \<and> at_field env d fs dest j it' \<and>
    (b \<longrightarrow> found (pos_field it'))"
proof (cases "fs = []")
  case True
  then have "it = iter_at [] dest 0"
    using it by (auto simp: at_field_def field_at_def PB_LAST_FIELD_def PB_HTYPE_def pb_consts)
  then show ?thesis
    using iter_search_empty [of found dest] True
    by (auto simp: at_field_def field_at_def)
next
  case False
  then have i: "i < length fs"
    using at_field_sel(5) [OF it] by (simp add: max_def Suc_le_eq split: if_splits)
  show ?thesis
  proof (cases "found (pos_field it)")
    case True
    then have "iter_search found (pos it) it = Some (True, it)"
      by (simp add: iter_search.simps)
    with True it show ?thesis by blast
  next
    case not_here: False
    have "tag (field_at fs i) \<noteq> 0"
      using wf i by (simp add: field_at_tag)
    then have "iter_search found (pos it) it = iter_search found i (iter_at fs dest i)"
      using it not_here iter_search_other_cell [of found "iter_at fs dest i" i "frame env d"]
        at_field_sel(1,2) [OF it]
      by (auto simp: at_field_def)
    then show ?thesis
      using iter_search_from_start [OF wf i, of found dest] i by (auto simp: at_field_def)
  qed
qed

definition subs_safe :: "addr set \<Rightarrow> ('s, 'h) dec_env \<Rightarrow> nat \<Rightarrow> ('s, 'h) msg_decoder \<Rightarrow>
    ('s, 'h) msg_decoder \<Rightarrow> bool" where
  "subs_safe A env k dec dec_noinit \<longleftrightarrow>
     (\<forall>fs n p. static_msg (dec_descs env) k fs n \<longrightarrow> region p n \<subseteq> A \<longrightarrow>
        safe A (dec fs p) \<and> safe A (dec_noinit fs p))"

lemma item_region:
  assumes fit: "value_fits f off n" and rep: "PB_HTYPE (ftype f) = PB_HTYPE_REPEATED"
    and j: "j < array_size f" and A: "region dest n \<subseteq> A"
  shows "region (dest + off + uint (data_size f * j)) (uint (data_size f)) \<subseteq> A"
    "region (dest + off + uint (data_size f * j)) (ltype_width f) \<subseteq> A"
proof -
  let ?a = "uint (data_size f)" and ?n = "uint (array_size f)" and ?j = "uint j"
  have fits: "0 \<le> off" "ltype_width f \<le> ?a" "?a * ?n < 4294967296" "off + ?a * ?n \<le> n"
    using fit rep by (simp_all add: value_fits_def)
  have j1: "?j + 1 \<le> ?n"
    using j by (simp add: word_less_alt)
  then have le: "?a * (?j + 1) \<le> ?a * ?n"
    by (intro mult_left_mono) simp_all
  moreover have "?a * (?j + 1) = ?a * ?j + ?a" "0 \<le> ?a"
    by (simp_all add: algebra_simps)
  ultimately have "?a * ?j < 4294967296"
    using fits(3) by linarith
  then have "uint (data_size f * j) = ?a * ?j"
    by (simp add: uint_word_ariths)
  moreover have "0 \<le> ?a * ?j"
    by simp
  ultimately have "0 \<le> uint (data_size f * j)" "off + uint (data_size f * j) + ?a \<le> n"
    using fits(4) le by (simp_all add: algebra_simps)
  then show "region (dest + off + uint (data_size f * j)) ?a \<subseteq> A"
    "region (dest + off + uint (data_size f * j)) (ltype_width f) \<subseteq> A"
    using fits(1,2) by (intro region_sub [OF A]; linarith)+
qed

lemma decoder_of_defined:
  "static_field f \<Longrightarrow> \<exists>func. decoder_of env dec dec_noinit f = Some func"
  by (simp add: decoder_of_def PB_DECODERS_def Let_def static_field_def pb_consts word_le_nat_alt)

lemma decode_at_field:
  assumes msg: "static_msg (dec_descs env) (Suc k) fs n" and d: "k \<le> d"
    and A: "region dest n \<subseteq> A" "region (frame env d) 4 \<subseteq> A"
    and subs: "subs_safe A env k dec dec_noinit"
    and it: "at_field env d fs dest i it"
    and func: "decoder_of env dec dec_noinit (pos_field it) = Some func"
  shows "safe A (decode_static_field env d func wt it)"
proof -
  note sel = at_field_sel [OF it]
  note fit = static_msg_field [OF msg sel(5)]
  let ?f = "field_at fs i"
  have p: "pData it = dest + data_addr fs 0 i"
    unfolding sel(3) by (rule data_addr_shift)
  have sub: "safe A (dec (dec_descs env (ptr ?f)) q) \<and> safe A (dec_noinit (dec_descs env (ptr ?f)) q)"
    if "PB_LTYPE (ftype ?f) = PB_LTYPE_SUBMESSAGE" "region q (uint (data_size ?f)) \<subseteq> A" for q
    using subs fit(4) that unfolding subs_safe_def by blast
  have f: "decoder_of env dec dec_noinit ?f = Some func"
    using func sel(2) by simp
  have one: "region (pData it) (ltype_width ?f) \<subseteq> A" "region (pData it) (uint (data_size ?f)) \<subseteq> A"
    if "PB_HTYPE (ftype ?f) \<noteq> PB_HTYPE_REPEATED"
    using that fit(2) p by (intro region_sub [OF A(1)]; simp add: value_fits_def)+
  have cell: "region (pSize it) 4 \<subseteq> A"
    if "PB_HTYPE (ftype ?f) = PB_HTYPE_REPEATED \<or> PB_HTYPE (ftype ?f) = PB_HTYPE_ONEOF"
    using sel(6)
  proof
    assume "pSize it = size_addr fs dest i"
    then show ?thesis
      using that fit(3) size_addr_shift [of fs dest i]
      by (intro region_sub [OF A(1)]) (auto simp: cell_fits_def)
  qed (use A(2) in simp)
  have opt: "region (pSize it) 1 \<subseteq> A"
    if "PB_HTYPE (ftype ?f) = PB_HTYPE_OPTIONAL" "pSize it \<noteq> pData it"
  proof -
    have "pSize it = size_addr fs dest i"
      using sel(6) that(1) by auto
    then show ?thesis
      using that fit(3) size_addr_shift [of fs dest i] p
      by (intro region_sub [OF A(1)]) (auto simp: cell_fits_def)
  qed
  show ?thesis
  proof (rule safe_static_field, unfold sel(2))
    show "\<forall>j<array_size ?f. safe A (func ?f (pData it + uint (data_size ?f * j)))"
      if "PB_HTYPE (ftype ?f) = PB_HTYPE_REPEATED"
      using item_region [OF fit(2) that _ A(1)] p
      by (auto intro!: safe_decoder [OF fit(1) f] sub)
    show "safe A (func ?f (pData it))" if "PB_HTYPE (ftype ?f) \<noteq> PB_HTYPE_REPEATED"
      using one [OF that] by (auto intro!: safe_decoder [OF fit(1) f] sub)
    show "\<forall>p. eats (func ?f p)" if "PB_LTYPE (ftype ?f) \<le> PB_LTYPE_LAST_PACKABLE"
      using eats_scalar [OF that f] by blast
    show "region (pSize it) 1 \<subseteq> A" if "PB_HTYPE (ftype ?f) = PB_HTYPE_OPTIONAL" "pSize it \<noteq> pData it"
      by (rule opt [OF that])
    show "region (pSize it) 4 \<subseteq> A"
      if "PB_HTYPE (ftype ?f) = PB_HTYPE_REPEATED \<or> PB_HTYPE (ftype ?f) = PB_HTYPE_ONEOF"
      by (rule cell [OF that])
    show "region (pData it) (uint (data_size ?f)) \<subseteq> A" if "PB_HTYPE (ftype ?f) = PB_HTYPE_ONEOF"
      using one that by simp
    show "\<exists>m'. pb_message_set_to_defaults env d (dec_descs env (ptr ?f)) (pData it) m = Some m' \<and>
        writes_in A m m'"
      if "PB_LTYPE (ftype ?f) = PB_LTYPE_SUBMESSAGE" "PB_HTYPE (ftype ?f) = PB_HTYPE_ONEOF" for m
      using one that by (intro defaults_safe [OF fit(4) d]) simp_all
  qed
qed

section \<open>One field and one round\<close>

lemma union_field_safe:
  assumes msg: "static_msg (dec_descs env) (Suc k) fs n" and d: "k < d"
    and it: "at_field env d fs dest i it"
  shows "\<exists>ok j it' st'. pb_release_union_field env d it st = Some (ok, it', st') \<and>
    at_field env d fs dest j it' \<and> within A st st'"
proof -
  let ?old = "ld32 (mem (snd st)) (pSize it)"
  note wf = static_msg_wf [OF msg]
  show ?thesis
  proof (cases "?old = 0 \<or> ?old = tag (pos_field it)")
    case True
    then show ?thesis
      using it by (auto simp: pb_release_union_field_def Let_def)
  next
    case False
    obtain b j it1 where 1: "pb_field_iter_find it ?old = Some (b, it1)" "at_field env d fs dest j it1"
      using search_at_field [OF wf it] unfolding pb_field_iter_find_def by blast
    obtain b2 j2 it2 where 2: "pb_field_iter_find it1 (tag (pos_field it)) = Some (b2, it2)"
      "at_field env d fs dest j2 it2"
      using search_at_field [OF wf 1(2)] unfolding pb_field_iter_find_def by blast
    note fit1 = static_msg_field [OF msg at_field_sel(5) [OF 1(2)]]
    obtain d' where d': "d = Suc d'" "k \<le> d'"
      using d by (cases d) auto
    have rel: "pb_release_single_field env d it1 w = Some w" for w :: "'b mach"
      unfolding d'(1)
      by (rule release_single_same)
        (use fit1(1,4) d'(2) in \<open>auto simp: at_field_sel(2) [OF 1(2)] intro: release_static\<close>)
    have "PB_ATYPE (ftype (pos_field it2)) \<noteq> PB_ATYPE_POINTER"
      using static_msg_field(1) [OF msg at_field_sel(5) [OF 2(2)]] at_field_sel(2) [OF 2(2)]
      by (simp add: static_field_def pb_consts)
    then show ?thesis
      using False 1 2 within_error [of A st]
      by (cases b; cases b2) (auto simp: pb_release_union_field_def Let_def rel d_error_def)
  qed
qed

lemma decode_field_safe:
  assumes msg: "static_msg (dec_descs env) (Suc k) fs n" and d: "k < d"
    and A: "region dest n \<subseteq> A" "region (frame env d) 4 \<subseteq> A"
    and subs: "subs_safe A env k dec dec_noinit"
    and it: "at_field env d fs dest i it" and h: "honest (fst st)"
  shows "\<exists>ok j it' st'. decode_field env d dec dec_noinit wt it st = Some (ok, it', st') \<and>
    at_field env d fs dest j it' \<and> within A st st'"
proof -
  obtain ok1 j it1 st1 where 1: "(if PB_HTYPE (ftype (pos_field it)) = PB_HTYPE_ONEOF
      then pb_release_union_field env d it st else Some (True, it, st)) = Some (ok1, it1, st1)"
    "at_field env d fs dest j it1" "within A st st1"
    using union_field_safe [OF msg d it, of st A] it
    by (cases "PB_HTYPE (ftype (pos_field it)) = PB_HTYPE_ONEOF") auto
  show ?thesis
  proof (cases ok1)
    case False
    then show ?thesis
      unfolding decode_field_def 1(1) using 1(2,3) by auto
  next
    case True
    have f: "static_field (pos_field it1)"
      using static_msg_field(1) [OF msg at_field_sel(5) [OF 1(2)]] at_field_sel(2) [OF 1(2)] by simp
    then obtain func where func: "decoder_of env dec dec_noinit (pos_field it1) = Some func"
      using decoder_of_defined by blast
    have "k \<le> d"
      using d by simp
    from safeD [OF decode_at_field [OF msg this A subs 1(2) func] within_honest [OF 1(3) h]]
    obtain ok2 st2 where 2: "decode_static_field env d func wt it1 st1 = Some (ok2, st2)"
      "within A st1 st2"
      by blast
    have "decode_field env d dec dec_noinit wt it st = Some (ok2, it1, st2)"
      unfolding decode_field_def 1(1) using True f func 2(1)
      by (simp add: static_field_def)
    then show ?thesis
      using 1(2) within_trans [OF 1(3) 2(2)] by blast
  qed
qed

lemma track_fixed_count_safe:
  assumes it: "at_field env d fs dest i (iter ls)" and A: "region (frame env d) 4 \<subseteq> A"
  shows "\<exists>ok ls' st'. track_fixed_count env d ls st = (ok, ls', st') \<and>
    at_field env d fs dest i (iter ls') \<and> within A st st'"
proof -
  have "within A st (poke (\<lambda>m. st32 m (frame env d) 0) st)"
    by (intro within_poke writes_in_st32 A)
  moreover have "at_field env d fs dest i ((iter ls)\<lparr>pSize := frame env d\<rparr>)"
    if "PB_HTYPE (ftype (pos_field (iter ls))) = PB_HTYPE_REPEATED"
    using it that at_field_sel(2) [OF it] by (auto simp: at_field_def)
  ultimately show ?thesis
    using it within_error [of A st]
    by (auto simp: track_fixed_count_def Let_def d_error_def ex_pair_eq)
qed

lemma skip_unknown_safe:
  "\<exists>e st'. skip_unknown wt ls st = Some (e, ls, st') \<and> within A st st'"
  using skip_field_forward [of "fst st" wt]
  by (auto simp: skip_unknown_def within_def split: prod.splits)

lemma tag_small: "pb_decode_tag s = (True, wt, t, eof, s') \<Longrightarrow> t < 0xFFFFFFFF"
proof -
  assume "pb_decode_tag s = (True, wt, t, eof, s')"
  then obtain v :: u32 where "t = drop_bit 3 v"
    by (auto simp: pb_decode_tag_def split: prod.splits bool.splits if_splits)
  moreover have "unat v div 8 < 4294967295"
    using unat_lt_32 [of v] by linarith
  ultimately show ?thesis
    by (simp add: word_less_nat_alt unat_drop_bit)
qed

lemma no_extension_field:
  assumes "static_msg (dec_descs env) (Suc k) fs n" "at_field env d fs dest i it"
  shows "\<exists>j it'. find_extension_field it = Some (False, it') \<and> at_field env d fs dest j it'"
proof -
  obtain b j it' where s: "find_extension_field it = Some (b, it')" "at_field env d fs dest j it'"
    "b \<longrightarrow> PB_LTYPE (ftype (pos_field it')) = PB_LTYPE_EXTENSION"
    using search_at_field [OF static_msg_wf [OF assms(1)] assms(2)]
    unfolding find_extension_field_def by blast
  have "\<not> b"
    using s static_msg_field(1) [OF assms(1) at_field_sel(5) [OF s(2)]] at_field_sel(2) [OF s(2)]
    by (auto simp: static_field_def)
  with s show ?thesis by auto
qed

lemma decode_unknown_safe:
  assumes "static_msg (dec_descs env) (Suc k) fs n" "at_field env d fs dest i (iter ls)"
    "t < 0xFFFFFFFF"
  shows "\<exists>e j ls' st'. decode_unknown env d dec dec_noinit t wt ls st = Some (e, ls', st') \<and>
    at_field env d fs dest j (iter ls') \<and> within A st st'"
proof -
  obtain j it' where ext: "find_extension_field (iter ls) = Some (False, it')"
    "at_field env d fs dest j it'"
    using no_extension_field [OF assms(1,2)] by blast
  have "\<not> (0xFFFFFFFF :: u32) \<le> t"
    using assms(3) by simp
  then show ?thesis
    using skip_unknown_safe [of wt ls st A] assms(2) ext
      skip_unknown_safe [of wt "ls\<lparr>iter := it', extension_range_start := 0xFFFFFFFF\<rparr>" st A]
    by (cases "extension_range_start ls \<le> t") (fastforce simp: decode_unknown_def)+
qed

lemma iter_mark_required [simp]: "iter (mark_required ls) = iter ls"
  by (simp add: mark_required_def Let_def)

lemma decode_known_safe:
  assumes msg: "static_msg (dec_descs env) (Suc k) fs n" and d: "k < d"
    and A: "region dest n \<subseteq> A" "region (frame env d) 4 \<subseteq> A"
    and subs: "subs_safe A env k dec dec_noinit"
    and it: "at_field env d fs dest i (iter ls)" and h: "honest (fst st)"
  shows "\<exists>e j ls' st'. decode_known env d dec dec_noinit wt ls st = Some (e, ls', st') \<and>
    at_field env d fs dest j (iter ls') \<and> within A st st'"
proof -
  obtain ok ls1 st1 where 1: "track_fixed_count env d ls st = (ok, ls1, st1)"
    "at_field env d fs dest i (iter ls1)" "within A st st1"
    using track_fixed_count_safe [OF it A(2)] by blast
  obtain ok2 j it' st' where 2: "decode_field env d dec dec_noinit wt (iter ls1) st1 = Some (ok2, it', st')"
    "at_field env d fs dest j it'" "within A st1 st'"
    using decode_field_safe [OF msg d A subs 1(2) within_honest [OF 1(3) h]] by blast
  show ?thesis
    using 1 2 within_trans [OF 1(3) 2(3)]
    by (cases ok) (auto simp: decode_known_def Let_def)
qed

lemma decode_round_safe:
  assumes msg: "static_msg (dec_descs env) (Suc k) fs n" and d: "k < d"
    and A: "region dest n \<subseteq> A" "region (frame env d) 4 \<subseteq> A"
    and subs: "subs_safe A env k dec dec_noinit"
    and it: "at_field env d fs dest i (iter ls)" and h: "honest (fst st)"
  shows "\<exists>e j ls' st'. decode_round env d dec dec_noinit ls st = Some (e, ls', st') \<and>
    at_field env d fs dest j (iter ls') \<and> within A st st' \<and>
    (e = Continue \<longrightarrow> unat (bytes_left (fst st')) < unat (bytes_left (fst st)))"
proof -
  obtain ok wt t eof s where 1: "pb_decode_tag (fst st) = (ok, wt, t, eof, s)"
    by (metis prod_cases5)
  note f = tag_forward [OF 1]
  have w: "within A st (s, snd st)"
    using within_stream [OF f(1), of A "snd st"] by simp
  show ?thesis
  proof (cases ok)
    case False
    then show ?thesis
      using it w by (auto simp: decode_round_def 1)
  next
    case True
    obtain found j it' where 2: "pb_field_iter_find (iter ls) t = Some (found, it')"
      "at_field env d fs dest j it'"
      using search_at_field [OF static_msg_wf [OF msg] it] unfolding pb_field_iter_find_def by blast
    have t: "t < 0xFFFFFFFF"
      using tag_small [of "fst st" wt t eof s] 1 True by simp
    have h1: "honest (fst (s, snd st))"
      by (rule within_honest [OF w h])
    have at: "at_field env d fs dest j (iter (ls\<lparr>iter := it'\<rparr>))"
      using 2(2) by simp
    have "\<exists>e j' ls' st'. (if found then decode_known env d dec dec_noinit wt (ls\<lparr>iter := it'\<rparr>) (s, snd st)
        else decode_unknown env d dec dec_noinit t wt (ls\<lparr>iter := it'\<rparr>) (s, snd st)) =
          Some (e, ls', st') \<and> at_field env d fs dest j' (iter ls') \<and> within A (s, snd st) st'"
      using decode_known_safe [OF msg d A subs at h1, of wt]
        decode_unknown_safe [OF msg at t, of dec dec_noinit wt "(s, snd st)" A]
      by (cases found) simp_all
    then obtain e j' ls' st' where 3: "decode_round env d dec dec_noinit ls st = Some (e, ls', st')"
      "at_field env d fs dest j' (iter ls')" "within A (s, snd st) st'"
      by (auto simp: decode_round_def 1 True 2(1))
    have "unat (bytes_left (fst st')) \<le> unat (bytes_left s)"
      using 3(3) by (simp add: within_def follows_def)
    then show ?thesis
      using 3 within_trans [OF w 3(3)] f(2) [OF True] by (meson le_less_trans)
  qed
qed

section \<open>The decoder\<close>

lemma decode_loop_safe:
  assumes msg: "static_msg (dec_descs env) (Suc k) fs n" and d: "k < d"
    and A: "region dest n \<subseteq> A" "region (frame env d) 4 \<subseteq> A"
    and subs: "subs_safe A env k dec dec_noinit"
  shows "at_field env d fs dest i (iter ls) \<Longrightarrow> honest (fst st) \<Longrightarrow>
    \<exists>ok j ls' st'. decode_loop (decode_round env d dec dec_noinit) ls st = Some (ok, ls', st') \<and>
      at_field env d fs dest j (iter ls') \<and> within A st st'"
proof (induction "unat (bytes_left (fst st))" arbitrary: i ls st rule: less_induct)
  case less
  show ?case
  proof (cases "bytes_left (fst st) = 0")
    case True
    then show ?thesis
      using less.prems by (subst decode_loop.simps) auto
  next
    case False
    obtain e j ls1 st1 where 1: "decode_round env d dec dec_noinit ls st = Some (e, ls1, st1)"
      "at_field env d fs dest j (iter ls1)" "within A st st1"
      "e = Continue \<longrightarrow> unat (bytes_left (fst st1)) < unat (bytes_left (fst st))"
      using decode_round_safe [OF msg d A subs less.prems] by blast
    show ?thesis
    proof (cases "e = Continue")
      case False
      then show ?thesis
        using \<open>bytes_left (fst st) \<noteq> 0\<close> 1 by (subst decode_loop.simps) auto
    next
      case True
      from less.hyps [OF _ 1(2) within_honest [OF 1(3) less.prems(2)]] 1(4) True
      obtain ok j' ls' st' where
        "decode_loop (decode_round env d dec dec_noinit) ls1 st1 = Some (ok, ls', st')"
        "at_field env d fs dest j' (iter ls')" "within A st1 st'"
        by blast
      then show ?thesis
        using \<open>bytes_left (fst st) \<noteq> 0\<close> 1 True within_trans [OF 1(3)]
        by (subst decode_loop.simps) auto
    qed
  qed
qed

lemma decode_message_safe:
  assumes msg: "static_msg (dec_descs env) (Suc k) fs n" and d: "k < d"
    and A: "region dest n \<subseteq> A" "region (frame env d) 4 \<subseteq> A"
    and subs: "subs_safe A env k dec dec_noinit"
  shows "safe A (decode_message env d dec dec_noinit fs dest)"
  unfolding safe_def
proof (intro allI impI)
  fix st :: "('a, 'b) dstate"
  assume h: "honest (fst st)"
  let ?st = "poke (\<lambda>m. st32 m (frame env d) 0) st"
  have w: "within A st ?st"
    by (intro within_poke writes_in_st32 A(2))
  have "at_field env d fs dest 0 (iter (decode_start env fs dest))"
    by (auto simp: at_field_def decode_start_def pb_field_iter_begin_eq)
  from decode_loop_safe [OF msg d A subs this within_honest [OF w h]] obtain ok j ls' st' where
    1: "decode_loop (decode_round env d dec dec_noinit) (decode_start env fs dest) ?st =
      Some (ok, ls', st')" "within A ?st st'"
    by blast
  have "\<exists>ok2 st''. decode_end env d ls' st' = (ok2, st'') \<and> within A st' st''"
    using within_error [of A st'] by (auto simp: decode_end_def d_error_def ex_pair_eq)
  then obtain ok2 st'' where 2: "decode_end env d ls' st' = (ok2, st'')" "within A st' st''"
    by blast
  have "decode_message env d dec dec_noinit fs dest st =
      Some (if ok then (ok2, st'') else (False, st'))"
    using 1(1) 2(1) by (simp add: decode_message_def)
  moreover have "within A st st'" "within A st st''"
    using within_trans [OF w 1(2)] within_trans [OF within_trans [OF w 1(2)] 2(2)] by auto
  ultimately show "\<exists>ok st'. decode_message env d dec dec_noinit fs dest st = Some (ok, st') \<and> within A st st'"
    by (cases ok) auto
qed

lemma decode_init_safe:
  assumes msg: "static_msg (dec_descs env) k fs n" and d: "k \<le> d" and A: "region dest n \<subseteq> A"
    and noinit: "safe A (dec_noinit fs dest)"
  shows "safe A (decode_init env d dec_noinit fs dest)"
  unfolding safe_def
proof (intro allI impI)
  fix st :: "('a, 'b) dstate"
  assume h: "honest (fst st)"
  obtain m where m: "pb_message_set_to_defaults env d fs dest (mem (snd st)) = Some m"
    "writes_in A (mem (snd st)) m"
    using defaults_safe [OF msg d A] by blast
  let ?st = "poke (\<lambda>_. m) st"
  have w: "within A st ?st"
    using m(2) by (simp add: within_def poke_def)
  from safeD [OF noinit within_honest [OF w h]] obtain ok st' where
    1: "dec_noinit fs dest ?st = Some (ok, st')" "within A ?st st'"
    by blast
  then have "decode_init env d dec_noinit fs dest st = Some (ok, st')"
    using m(1) by (cases ok) (simp_all add: decode_init_def release_static [OF msg d])
  then show "\<exists>ok st'. decode_init env d dec_noinit fs dest st = Some (ok, st') \<and> within A st st'"
    using within_trans [OF w 1(2)] by blast
qed

definition frames :: "('s, 'h) dec_env \<Rightarrow> nat \<Rightarrow> addr set" where
  "frames env d = (\<Union>j < d. region (frame env j) 4)"

lemma noinit_safe:
  "static_msg (dec_descs env) k fs n \<Longrightarrow> k < d \<Longrightarrow> region dest n \<subseteq> A \<Longrightarrow> frames env d \<subseteq> A \<Longrightarrow>
     safe A (pb_decode_noinit env d fs dest)"
proof (induction d arbitrary: k fs n dest)
  case 0
  then show ?case by simp
next
  case (Suc d)
  obtain k' where k: "k = Suc k'" "k' < d"
    using Suc.prems(1,2) by (cases k) auto
  have fr: "frames env d \<subseteq> A" "region (frame env d) 4 \<subseteq> A"
    using Suc.prems(4) by (auto simp: frames_def lessThan_Suc)
  have "subs_safe A env k' (decode_init env d (pb_decode_noinit env d)) (pb_decode_noinit env d)"
    unfolding subs_safe_def
  proof (intro allI impI conjI)
    fix fs n p
    assume s: "static_msg (dec_descs env) k' fs n" "region p n \<subseteq> A"
    show n: "safe A (pb_decode_noinit env d fs p)"
      by (rule Suc.IH [OF s(1) k(2) s(2) fr(1)])
    show "safe A (decode_init env d (pb_decode_noinit env d) fs p)"
      by (rule decode_init_safe [where dec_noinit = "pb_decode_noinit env d",
            OF s(1) less_imp_le [OF k(2)] s(2) n])
  qed
  from decode_message_safe [OF Suc.prems(1) [unfolded k(1)] k(2) Suc.prems(3) fr(2) this]
  show ?case
    by (simp add: safe_def)
qed

lemma decode_safe:
  assumes "static_msg (dec_descs env) k fs n" "k < d"
  shows "safe (region dest n \<union> frames env d) (pb_decode env d fs dest)"
  unfolding pb_decode_def
  by (rule decode_init_safe [OF assms(1) less_imp_le [OF assms(2)]])
    (auto intro: noinit_safe [OF assms])

end
