(* ===== verification/Pb_Istream_Spec.thy ===== *)
theory Pb_Istream_Spec
  imports Pb_Istream Pb_Ostream
begin

text \<open>
  What the input primitives of \<open>pb_decode.c\<close> promise. A stream stands for the bytes left in it
  (\<open>input\<close>); a primitive takes a prefix of them (\<open>reads\<close>). The laws of a byte source are the locale
  \<open>source\<close>, which the streams on a buffer satisfy. Inside it: the varint decoders on every input,
  the round trips with the encoders of \<open>Pb_Ostream\<close>, skipping, and substreams.
\<close>

section \<open>Streams as byte strings\<close>

definition avail :: "'s icallback \<Rightarrow> ('s istate \<Rightarrow> u8 list) \<Rightarrow> 's pb_istream \<Rightarrow> bool" where
  "avail cb inp s \<longleftrightarrow> is_callback s = cb \<and> unat (bytes_left s) \<le> length (inp (is_state s))"

definition input :: "('s istate \<Rightarrow> u8 list) \<Rightarrow> 's pb_istream \<Rightarrow> u8 list" where
  "input inp s = take (unat (bytes_left s)) (inp (is_state s))"

definition reads ::
  "('s istate \<Rightarrow> u8 list) \<Rightarrow> 's pb_istream \<Rightarrow> u8 list \<Rightarrow> 's pb_istream \<Rightarrow> bool" where
  "reads inp s bs s' \<longleftrightarrow> is_callback s' = is_callback s \<and> is_errmsg s' = is_errmsg s \<and>
     inp (is_state s) = bs @ inp (is_state s') \<and>
     unat (bytes_left s) = length bs + unat (bytes_left s')"

lemma reads_Nil [simp, intro]: "reads inp s [] s"
  by (simp add: reads_def)

lemma reads_append: "reads inp s bs s' \<Longrightarrow> reads inp s' cs s'' \<Longrightarrow> reads inp s (bs @ cs) s''"
  by (simp add: reads_def)

lemma reads_Cons: "reads inp s [b] s' \<Longrightarrow> reads inp s' cs s'' \<Longrightarrow> reads inp s (b # cs) s''"
  using reads_append [of inp s "[b]" s' cs s''] by simp

lemma reads_avail: "reads inp s bs s' \<Longrightarrow> avail cb inp s \<Longrightarrow> avail cb inp s'"
  by (auto simp: reads_def avail_def)

lemma reads_input: "reads inp s bs s' \<Longrightarrow> input inp s = bs @ input inp s'"
  by (auto simp: reads_def input_def)

lemma length_input: "avail cb inp s \<Longrightarrow> length (input inp s) = unat (bytes_left s)"
  by (simp add: avail_def input_def)

lemma input_Nil: "avail cb inp s \<Longrightarrow> input inp s = [] \<longleftrightarrow> bytes_left s = 0"
  using length_input [of cb inp s] by (auto simp: unat_eq_zero)

lemma reads_errmsg: "reads inp s bs s' \<Longrightarrow> is_errmsg s' = is_errmsg s"
  by (simp add: reads_def)

section \<open>Varints on the wire\<close>

text \<open>The bytes up to the first without the continuation bit, and what they stand for.\<close>

fun split_varint :: "u8 list \<Rightarrow> (u8 list \<times> u8 list) option" where
  "split_varint [] = None"
| "split_varint (b # bs) =
     (if b AND 0x80 = 0 then Some ([b], bs)
      else map_option (\<lambda>(vs, rest). (b # vs, rest)) (split_varint bs))"

fun le7 :: "u8 list \<Rightarrow> 'a::len word" where
  "le7 [] = 0"
| "le7 (b # bs) = ucast (b AND 0x7F) OR push_bit 7 (le7 bs)"

lemma split_varint_append: "split_varint bs = Some (vs, rest) \<Longrightarrow> bs = vs @ rest"
  by (induction bs arbitrary: vs) (auto split: if_splits)

lemma bit_le_7F: "v \<le> 0x7F \<Longrightarrow> bit (v :: u64) n \<Longrightarrow> n < 7"
  using drop_bit_0_bit [of 7 v n] by (simp add: le_7F_iff)

lemma split_varint_bytes: "split_varint (varint_bytes v @ rest) = Some (varint_bytes v, rest)"
proof (induction v rule: varint_bytes.induct)
  case (1 v)
  have "(ucast v :: u8) AND 0x80 = 0" if "v \<le> 0x7F"
    using that by (intro bit_word_eqI) (auto simp: bit_simps dest: bit_le_7F)
  moreover have "((ucast (v AND 0x7F) OR 0x80) AND 0x80 :: u8) \<noteq> 0"
    by (auto simp: bit_eq_iff bit_simps intro: exI [of _ 7])
  ultimately show ?case
    using 1 by (simp add: varint_bytes.simps [of v])
qed

lemma le7_varint_bytes: "le7 (varint_bytes v) = (v :: u64)"
proof (induction v rule: varint_bytes.induct)
  case (1 v)
  show ?case
  proof (cases "v \<le> 0x7F")
    case True
    then show ?thesis
      by (simp add: varint_bytes.simps [of v])
        (auto intro!: bit_word_eqI simp: bit_simps dest: bit_le_7F)
  next
    case False
    have "ucast ((ucast (v AND 0x7F) OR 0x80) AND 0x7F :: u8) OR push_bit 7 (drop_bit 7 v) = v"
      (is "?l = v")
    proof (rule bit_word_eqI)
      show "bit ?l n \<longleftrightarrow> bit v n" if "n < LENGTH(64)" for n
        using that by (cases "n < 7") (auto simp: bit_simps)
    qed
    with False 1 show ?thesis
      by (simp add: varint_bytes.simps [of v])
  qed
qed

section \<open>Byte sources\<close>

definition fails :: "bool \<times> 'v \<times> 's pb_istream \<Rightarrow> string \<Rightarrow> bool" where
  "fails r msg \<longleftrightarrow> \<not> fst r \<and> is_errmsg (snd (snd r)) = Some msg"

text \<open>\<open>parses f bs v\<close>: whenever \<open>bs\<close> comes next in the stream, \<open>f\<close> takes it and returns \<open>v\<close>.\<close>

definition parses :: "'s icallback \<Rightarrow> ('s istate \<Rightarrow> u8 list) \<Rightarrow>
    ('s pb_istream \<Rightarrow> bool \<times> 'v \<times> 's pb_istream) \<Rightarrow> u8 list \<Rightarrow> 'v \<Rightarrow> bool" where
  "parses cb inp f bs v \<longleftrightarrow> (\<forall>s rest. avail cb inp s \<longrightarrow> input inp s = bs @ rest \<longrightarrow>
     (\<exists>s'. f s = (True, v, s') \<and> reads inp s bs s' \<and> input inp s' = rest))"

lemma parsesD:
  "parses cb inp f bs v \<Longrightarrow> avail cb inp s \<Longrightarrow> input inp s = bs @ rest \<Longrightarrow>
     \<exists>s'. f s = (True, v, s') \<and> reads inp s bs s' \<and> input inp s' = rest"
  by (simp add: parses_def)

locale source =
  fixes cb :: "'s icallback" and inp :: "'s istate \<Rightarrow> u8 list"
  assumes call_read_ok: "0 < n \<Longrightarrow> n \<le> length (inp st) \<Longrightarrow>
    \<exists>st'. call_read cb st n = (True, take n (inp st), st') \<and> inp st' = drop n (inp st)"
begin

lemma readbyte_Cons:
  assumes "avail cb inp s" "input inp s = b # rest"
  shows "\<exists>s'. pb_readbyte s = (True, b, s') \<and> reads inp s [b] s' \<and> input inp s' = rest"
proof -
  have nz: "bytes_left s \<noteq> 0"
    using input_Nil [OF assms(1)] assms(2) by simp
  then have pos: "0 < unat (bytes_left s)"
    by (simp add: unat_gt_0)
  then obtain xs where xs: "inp (is_state s) = b # xs"
    using assms(2) by (cases "inp (is_state s)") (auto simp: input_def take_Cons')
  then obtain st' where st': "call_read cb (is_state s) 1 = (True, [b], st')" "inp st' = xs"
    using call_read_ok [of 1 "is_state s"] by auto
  let ?s' = "s\<lparr>is_state := st', bytes_left := bytes_left s - 1\<rparr>"
  have "pb_readbyte s = (True, b, ?s')"
    using nz st' assms(1) by (simp add: pb_readbyte_def avail_def the_byte_def)
  moreover have r: "reads inp s [b] ?s'"
    using st' xs pos nz by (simp add: reads_def unat_minus_one)
  ultimately show ?thesis
    using reads_input [OF r] assms(2) by auto
qed

lemma readbyte_Nil:
  "avail cb inp s \<Longrightarrow> input inp s = [] \<Longrightarrow> pb_readbyte s = (False, 0, is_error s ''end-of-stream'')"
  by (simp add: pb_readbyte_def input_Nil)

lemma read_ok:
  assumes s: "avail cb inp s" and n: "n \<le> bytes_left s"
  shows "\<exists>s'. pb_read s n = (True, take (unat n) (input inp s), s') \<and>
    reads inp s (take (unat n) (input inp s)) s'"
proof (cases "n = 0")
  case True
  then show ?thesis by (auto simp: pb_read_def)
next
  case False
  then have n0: "0 < unat n"
    by (simp add: unat_gt_0)
  have le: "unat n \<le> unat (bytes_left s)"
    using n by (simp add: word_le_nat_alt)
  have cb: "is_callback s = cb" and len: "unat (bytes_left s) \<le> length (inp (is_state s))"
    using s by (simp_all add: avail_def)
  have bs: "take (unat n) (input inp s) = take (unat n) (inp (is_state s))"
    using le by (simp add: input_def min_absorb1)
  obtain st' where st': "call_read cb (is_state s) (unat n) =
      (True, take (unat n) (inp (is_state s)), st')" "inp st' = drop (unat n) (inp (is_state s))"
    using call_read_ok [OF n0, of "is_state s"] le len by auto
  have "\<not> bytes_left s < n"
    using n by simp
  then have "pb_read s n = (True, take (unat n) (input inp s),
      s\<lparr>is_state := st', bytes_left := bytes_left s - n\<rparr>)"
    using False st'(1) cb bs by (simp add: pb_read_def read_some_def)
  moreover have "reads inp s (take (unat n) (input inp s))
      (s\<lparr>is_state := st', bytes_left := bytes_left s - n\<rparr>)"
    using st'(2) le len n unfolding bs by (simp add: reads_def unat_sub)
  ultimately show ?thesis by blast
qed

lemma read_short:
  assumes "avail cb inp s" "bytes_left s < n"
  shows "pb_read s n = (False, [], is_error s ''end-of-stream'')"
  using assms by (auto simp: pb_read_def read_some_def)

lemma parses_read: "unat n = length bs \<Longrightarrow> parses cb inp (\<lambda>s. pb_read s n) bs bs"
  unfolding parses_def
proof (intro allI impI)
  fix s :: "'s pb_istream" and rest
  assume n: "unat n = length bs" and s: "avail cb inp s" "input inp s = bs @ rest"
  then have "n \<le> bytes_left s"
    using length_input [OF s(1)] by (simp add: word_le_nat_alt)
  from read_ok [OF s(1) this] obtain s' where
    "pb_read s n = (True, bs, s')" and r: "reads inp s bs s'"
    using n s(2) by auto
  then show "\<exists>s'. pb_read s n = (True, bs, s') \<and> reads inp s bs s' \<and> input inp s' = rest"
    using reads_input [OF r] s(2) by auto
qed

text \<open>\<open>pb_decode_varint\<close> on every input.\<close>

lemma varint_loop64_step:
  "k \<le> 10 \<Longrightarrow> varint_loop64 s (of_nat (7 * k)) r =
     (if k = 10 then (False, 0, is_error s ''varint overflow'')
      else case pb_readbyte s of
        (False, b, s) \<Rightarrow> (False, 0, s)
      | (True, b, s) \<Rightarrow>
          let r = r OR push_bit (7 * k) (ucast (b AND 0x7F)) in
          if b AND 0x80 \<noteq> 0 then varint_loop64 s (of_nat (7 * Suc k)) r
          else (True, r, s))"
proof -
  assume k: "k \<le> 10"
  then have u: "unat (of_nat (7 * k) :: u8) = 7 * k"
    by (simp add: unat_of_nat take_bit_nat_eq_self del: of_nat_mult)
  then have ge: "(64 :: u8) \<le> of_nat (7 * k) \<longleftrightarrow> k = 10"
    using k unfolding word_le_nat_alt by auto
  have "of_nat (7 * k) + 7 = (of_nat (7 * Suc k) :: u8)"
    by simp
  then show ?thesis
    by (subst varint_loop64.simps) (simp only: u ge)
qed

lemma varint_loop64_spec:
  assumes "avail cb inp s" "is_errmsg s = None" "k \<le> 10"
  shows "case split_varint (input inp s) of
      Some (vs, rest) \<Rightarrow>
        if k + length vs \<le> 10
        then \<exists>s'. varint_loop64 s (of_nat (7 * k)) r =
               (True, r OR push_bit (7 * k) (le7 vs), s') \<and> reads inp s vs s' \<and>
               input inp s' = rest
        else fails (varint_loop64 s (of_nat (7 * k)) r) ''varint overflow''
    | None \<Rightarrow> fails (varint_loop64 s (of_nat (7 * k)) r)
        (if k + length (input inp s) < 10 then ''end-of-stream'' else ''varint overflow'')"
  using assms
proof (induction "input inp s" arbitrary: s k r)
  case Nil
  have "varint_loop64 s (of_nat (7 * k)) r = (if k = 10
      then (False, 0, is_error s ''varint overflow'')
      else (False, 0, is_error s ''end-of-stream''))"
    using Nil by (simp add: varint_loop64_step readbyte_Nil del: of_nat_mult)
  then show ?case
    using Nil by (simp add: fails_def is_error_def flip: Nil.hyps del: of_nat_mult)
next
  case (Cons b bs)
  have inp: "input inp s = b # bs"
    using Cons.hyps(2) by simp
  obtain s' where s': "pb_readbyte s = (True, b, s')" "reads inp s [b] s'" "input inp s' = bs"
    using readbyte_Cons [OF Cons.prems(1) inp] by auto
  have av: "avail cb inp s'" "is_errmsg s' = None"
    using reads_avail [OF s'(2) Cons.prems(1)] reads_errmsg [OF s'(2)] Cons.prems(2) by simp_all
  let ?r = "r OR push_bit (7 * k) (ucast (b AND 0x7F))"
  note step = varint_loop64_step [OF Cons.prems(3), of s r, unfolded s'(1)]
  consider (full) "k = 10" | (last) "k < 10" "b AND 0x80 = 0" | (more) "k < 10" "b AND 0x80 \<noteq> 0"
    using Cons.prems(3) by linarith
  then show ?case
  proof cases
    case full
    have "fails (varint_loop64 s (of_nat (7 * k)) r) ''varint overflow''"
      unfolding step using full Cons.prems(2) by (simp add: fails_def is_error_def)
    moreover have "vs \<noteq> []" if "split_varint (b # bs) = Some (vs, rest)" for vs rest
      using that by (auto split: if_splits)
    ultimately show ?thesis
      using full by (simp add: inp del: split_varint.simps of_nat_mult split: option.split)
  next
    case last
    then show ?thesis
      unfolding step using s' by (simp add: inp)
  next
    case more
    note IH = Cons.hyps(1) [OF s'(3) [symmetric] av, of "Suc k" ?r]
    show ?thesis
      unfolding step using more IH s'(2,3)
      by (auto simp: inp or.assoc push_bit_push_bit push_bit_or add.commute reads_Cons
          simp del: of_nat_mult split: option.splits if_splits)
  qed
qed

lemma pb_decode_varint_spec:
  assumes "avail cb inp s" "is_errmsg s = None"
  shows "case split_varint (input inp s) of
      Some (vs, rest) \<Rightarrow>
        if length vs \<le> 10
        then \<exists>s'. pb_decode_varint s = (True, le7 vs, s') \<and> reads inp s vs s' \<and> input inp s' = rest
        else fails (pb_decode_varint s) ''varint overflow''
    | None \<Rightarrow> fails (pb_decode_varint s)
        (if length (input inp s) < 10 then ''end-of-stream'' else ''varint overflow'')"
  using varint_loop64_spec [OF assms, of 0 0]
  by (auto simp: pb_decode_varint_def split: option.splits if_splits)

text \<open>On success the error message plays no role.\<close>

lemma varint_loop64_parses:
  assumes "avail cb inp s" "split_varint (input inp s) = Some (vs, rest)" "k + length vs \<le> 10"
  shows "\<exists>s'. varint_loop64 s (of_nat (7 * k)) r = (True, r OR push_bit (7 * k) (le7 vs), s') \<and>
    reads inp s vs s' \<and> input inp s' = rest"
  using assms
proof (induction vs arbitrary: s k r)
  case Nil
  then show ?case
    by (cases "input inp s") (auto split: if_splits)
next
  case (Cons b vs)
  obtain b' bs where inp: "input inp s = b' # bs"
    using Cons.prems(2) by (cases "input inp s") auto
  then have b: "b' = b"
    using Cons.prems(2) by (auto split: if_splits)
  obtain s' where s': "pb_readbyte s = (True, b, s')" "reads inp s [b] s'" "input inp s' = bs"
    using readbyte_Cons [OF Cons.prems(1) inp] b by auto
  let ?r = "r OR push_bit (7 * k) (ucast (b AND 0x7F))"
  have k: "k < 10" "k \<le> 10" "Suc k + length vs \<le> 10"
    using Cons.prems(3) by simp_all
  note step = varint_loop64_step [OF k(2), of s r, unfolded s'(1)]
  show ?case
  proof (cases "b AND 0x80 = 0")
    case True
    then show ?thesis
      unfolding step using s' k inp b Cons.prems(2) by simp
  next
    case False
    then have "split_varint (input inp s') = Some (vs, rest)"
      using Cons.prems(2) inp b s'(3) by (auto split: if_splits)
    from Cons.IH [OF reads_avail [OF s'(2) Cons.prems(1)] this k(3), of ?r] show ?thesis
      unfolding step using False k s'(2)
      by (auto simp: or.assoc push_bit_push_bit push_bit_or add.commute reads_Cons
          simp del: of_nat_mult)
  qed
qed

lemma parses_varint: "parses cb inp pb_decode_varint (varint_bytes v) v"
  unfolding parses_def pb_decode_varint_def
proof (intro allI impI)
  fix s :: "'s pb_istream" and rest
  assume s: "avail cb inp s" "input inp s = varint_bytes v @ rest"
  show "\<exists>s'. varint_loop64 s 0 0 = (True, v, s') \<and> reads inp s (varint_bytes v) s' \<and>
      input inp s' = rest"
    using varint_loop64_parses [OF s(1), of "varint_bytes v" rest 0 0] length_varint_bytes [of v]
    by (simp add: s(2) split_varint_bytes le7_varint_bytes)
qed

end

text \<open>Zigzag: the decoder's transformation undoes the encoder's.\<close>

lemma unzigzag_zigzag: "unzigzag (zigzag v) = v"
proof -
  have dbl: "bit (v * 2) n \<longleftrightarrow> 0 < n \<and> n < 64 \<and> bit v (n - 1)" for n
    using bit_push_bit_iff [of 1 v n] by (auto simp: push_bit_eq_mult possible_bit_word)
  have top: "n < 63 \<or> n = 63" if "n < 64" for n :: nat
    using that by linarith
  have "push_bit 1 v AND 1 = 0" "NOT (push_bit 1 v) AND 1 = 1"
    by (simp_all add: and_one_eq mod_2_eq_odd even_push_bit_iff)
  moreover have "drop_bit 1 (push_bit 1 v) = v" if "\<not> bit v 63"
    by (rule bit_word_eqI) (use that in \<open>auto simp: bit_simps dbl dest: top\<close>)
  moreover have "NOT (drop_bit 1 (NOT (push_bit 1 v))) = v" if "bit v 63"
    by (rule bit_word_eqI) (use that in \<open>auto simp: bit_simps dbl dest: top\<close>)
  ultimately show ?thesis
    by (auto simp: zigzag_def unzigzag_def bit_last_iff [symmetric])
qed

section \<open>Values of fixed width, skipping and substreams\<close>

lemma list4: "length bs = 4 \<Longrightarrow> \<exists>a b c d. bs = [a, b, c, d]"
  by (auto simp: numeral_eq_Suc length_Suc_conv)

lemma list8: "length bs = 8 \<Longrightarrow> \<exists>a b c d e f g h. bs = [a, b, c, d, e, f, g, h]"
  by (auto simp: numeral_eq_Suc length_Suc_conv)

context source
begin

lemma parses_svarint: "parses cb inp pb_decode_svarint (varint_bytes (zigzag v)) v"
  using parses_varint [of "zigzag v"] unfolding parses_def pb_decode_svarint_def
  by (force simp: unzigzag_zigzag)

lemma parses_fixed32:
  assumes "length bs = 4"
  shows "parses cb inp pb_decode_fixed32 bs (le_word bs)"
proof -
  obtain a b c d where bs: "bs = [a, b, c, d]"
    using list4 [OF assms] by blast
  have "push_bit 0 (ucast (bs ! 0)) OR push_bit 8 (ucast (bs ! 1)) OR
      push_bit 16 (ucast (bs ! 2)) OR push_bit 24 (ucast (bs ! 3)) = (le_word bs :: u32)"
    by (simp add: bs push_bit_or push_bit_push_bit)
  then show ?thesis
    using parses_read [of 4 bs] assms unfolding parses_def pb_decode_fixed32_def by force
qed

lemma parses_fixed64:
  assumes "length bs = 8"
  shows "parses cb inp pb_decode_fixed64 bs (le_word bs)"
proof -
  obtain a b c d e f g h where bs: "bs = [a, b, c, d, e, f, g, h]"
    using list8 [OF assms] by blast
  have "push_bit 0 (ucast (bs ! 0)) OR push_bit 8 (ucast (bs ! 1)) OR
      push_bit 16 (ucast (bs ! 2)) OR push_bit 24 (ucast (bs ! 3)) OR
      push_bit 32 (ucast (bs ! 4)) OR push_bit 40 (ucast (bs ! 5)) OR
      push_bit 48 (ucast (bs ! 6)) OR push_bit 56 (ucast (bs ! 7)) = (le_word bs :: u64)"
    by (simp add: bs push_bit_or push_bit_push_bit)
  then show ?thesis
    using parses_read [of 8 bs] assms unfolding parses_def pb_decode_fixed64_def by force
qed

text \<open>Skipping \<open>n\<close> bytes, from a buffer or in chunks of 16 from a user stream.\<close>

lemma skip_chunks_ok:
  "avail cb inp s \<Longrightarrow> n \<le> bytes_left s \<Longrightarrow>
     \<exists>s'. skip_chunks s n = (True, s') \<and> reads inp s (take (unat n) (input inp s)) s'"
proof (induction s n rule: skip_chunks.induct)
  case (1 s n)
  show ?case
  proof (cases "n > 16")
    case False
    then show ?thesis
      using read_ok [OF 1(2,3)] by (subst skip_chunks.simps) auto
  next
    case True
    then have "16 \<le> bytes_left s"
      using 1(3) by simp
    from read_ok [OF 1(2) this] obtain s' where s': "pb_read s 16 = (True, take 16 (input inp s), s')"
      "reads inp s (take 16 (input inp s)) s'"
      by auto
    have av: "avail cb inp s'"
      by (rule reads_avail [OF s'(2) 1(2)])
    have len: "length (input inp s) = unat (bytes_left s)"
      by (rule length_input [OF 1(2)])
    have n: "16 < unat n" "unat n \<le> unat (bytes_left s)"
      using True 1(3) by (simp_all add: word_less_nat_alt word_le_nat_alt)
    have n': "unat (n - 16) = unat n - 16"
      using True by (simp add: unat_sub)
    have inp': "input inp s' = drop 16 (input inp s)"
      using reads_input [OF s'(2)] by (metis append_eq_conv_conj append_take_drop_id)
    have "n - 16 \<le> bytes_left s'"
      using length_input [OF av] n len by (simp add: inp' word_le_nat_alt n')
    then obtain s'' where s'': "skip_chunks s' (n - 16) = (True, s'')"
      "reads inp s' (take (unat (n - 16)) (input inp s')) s''"
      using 1(1) [OF True s'(1) [symmetric] refl refl av] by auto
    have "take 16 (input inp s) @ take (unat (n - 16)) (input inp s') = take (unat n) (input inp s)"
      using n unfolding n' inp' by (simp add: take_add [symmetric])
    then show ?thesis
      using True s'(1) s''(1) reads_append [OF s'(2) s''(2)]
      by (subst skip_chunks.simps) simp
  qed
qed

lemma read_null_ok:
  assumes "avail cb inp s" "n \<le> bytes_left s"
  shows "\<exists>s'. pb_read_null s n = (True, s') \<and> reads inp s (take (unat n) (input inp s)) s'"
  using skip_chunks_ok [OF assms] read_ok [OF assms]
  by (auto simp: pb_read_null_def pb_read_def split: prod.splits)

lemma skip_varint_ok:
  "avail cb inp s \<Longrightarrow> split_varint (input inp s) = Some (vs, rest) \<Longrightarrow>
     \<exists>s'. pb_skip_varint s = (True, s') \<and> reads inp s vs s'"
proof (induction vs arbitrary: s)
  case Nil
  then show ?case
    by (cases "input inp s") (auto split: if_splits)
next
  case (Cons b vs)
  obtain b' bs where inp: "input inp s = b' # bs"
    using Cons.prems(2) by (cases "input inp s") auto
  then have b: "b' = b"
    using Cons.prems(2) by (auto split: if_splits)
  have "parses cb inp (\<lambda>s. pb_read s 1) [b] [b]"
    by (rule parses_read) simp
  from parsesD [OF this Cons.prems(1), of bs] inp b
  obtain s' where s': "pb_read s 1 = (True, [b], s')" "reads inp s [b] s'" "input inp s' = bs"
    by auto
  show ?case
  proof (cases "b AND 0x80 = 0")
    case True
    then show ?thesis
      using s' inp b Cons.prems(2) by (subst pb_skip_varint.simps) (simp add: the_byte_def)
  next
    case False
    then have "split_varint (input inp s') = Some (vs, rest)"
      using Cons.prems(2) inp b s'(3) by (auto split: if_splits)
    from Cons.IH [OF reads_avail [OF s'(2) Cons.prems(1)] this] obtain s'' where
      "pb_skip_varint s' = (True, s'')" "reads inp s' vs s''"
      by blast
    then show ?thesis
      using False s'(1) reads_Cons [OF s'(2)]
      by (subst pb_skip_varint.simps) (simp add: the_byte_def)
  qed
qed

end

section \<open>32-bit varints\<close>

lemma ucast_le7: "(le7 vs :: u32) = ucast (le7 vs :: u64)"
proof (induction vs)
  case Nil
  show ?case by simp
next
  case (Cons b vs)
  have "ucast (push_bit 7 x :: u64) = (push_bit 7 (ucast x) :: u32)" for x :: u64
    by (rule bit_word_eqI) (auto simp: bit_simps)
  moreover have "ucast (ucast (b AND 0x7F) :: u64) = (ucast (b AND 0x7F) :: u32)"
    by (rule bit_word_eqI) (auto simp: bit_simps)
  moreover have "ucast (x OR y :: u64) = (ucast x OR ucast y :: u32)" for x y :: u64
    by (rule bit_word_eqI) (auto simp: bit_simps)
  ultimately show ?case
    using Cons by simp
qed

lemma le7_append: "le7 (us @ vs) = le7 us OR push_bit (7 * length us) (le7 vs)"
  by (induction us) (simp_all add: or.assoc push_bit_or push_bit_push_bit add.commute)

lemma push_bit_over: "LENGTH('a) \<le> n \<Longrightarrow> push_bit n (w :: 'a::len word) = 0"
  by (rule bit_word_eqI) (auto simp: bit_simps)

lemma last_varint_bytes:
  "last (varint_bytes v) = ucast (drop_bit (7 * (length (varint_bytes v) - 1)) v)"
proof (induction v rule: varint_bytes.induct)
  case (1 v)
  show ?case
  proof (cases "v \<le> 0x7F")
    case True
    then show ?thesis
      by (simp add: varint_bytes.simps [of v])
  next
    case False
    obtain k where "length (varint_bytes (drop_bit 7 v)) = Suc k"
      by (cases "length (varint_bytes (drop_bit 7 v))") auto
    with False 1 show ?thesis
      by (simp add: varint_bytes.simps [of v] drop_bit_drop_bit add.commute)
  qed
qed

text \<open>The bytes of a negative 32-bit value, extended to 64 bits: five, and five of the sign.\<close>

lemma drop_35_negative:
  assumes "sint (v :: u32) < 0"
  shows "drop_bit 35 (scast v :: u64) = 0x1FFFFFFF"
proof (rule bit_word_eqI)
  fix n
  assume "n < LENGTH(64)"
  have "bit v 31"
    using assms bit_last_iff [of v] by simp
  moreover have "bit (0x1FFFFFFF :: u64) n \<longleftrightarrow> n < 29"
    using bit_mask_iff [of 29 n, where 'a = u64] \<open>n < LENGTH(64)\<close>
    by (simp add: mask_eq_exp_minus_1)
  ultimately show "bit (drop_bit 35 (scast v :: u64)) n \<longleftrightarrow> bit (0x1FFFFFFF :: u64) n"
    using \<open>n < LENGTH(64)\<close> by (auto simp: bit_simps)
qed

lemma varint_bytes_sign: "varint_bytes 0x1FFFFFFF = [0xFF, 0xFF, 0xFF, 0xFF, 0x01]"
  by (simp add: varint_bytes.simps)

context source
begin

lemma varint32_loop_step:
  assumes "k < 5"
  shows "varint32_loop s (of_nat (7 * k)) r =
     (case pb_readbyte s of
        (False, b, s) \<Rightarrow> (False, of_nat (7 * k), b, r, s)
      | (True, b, s) \<Rightarrow>
          let r = r OR push_bit (7 * k) (ucast (b AND 0x7F)) in
          if b AND 0x80 \<noteq> 0 then varint32_loop s (of_nat (7 * Suc k)) r
          else (True, of_nat (7 * Suc k), b, r, s))"
proof -
  have u: "unat (of_nat (7 * k) :: u8) = 7 * k"
    using assms by (simp add: unat_of_nat take_bit_nat_eq_self del: of_nat_mult)
  then have ge: "\<not> (32 :: u8) \<le> of_nat (7 * k)"
    using assms unfolding word_le_nat_alt by auto
  have "of_nat (7 * k) + 7 = (of_nat (7 * Suc k) :: u8)"
    by simp
  then show ?thesis
    by (subst varint32_loop.simps) (simp only: u ge if_False simp_thms Let_def)
qed

lemma varint32_loop_parses:
  assumes "avail cb inp s" "split_varint (input inp s) = Some (vs, rest)" "k + length vs \<le> 5"
  shows "\<exists>s'. varint32_loop s (of_nat (7 * k)) r =
      (True, of_nat (7 * (k + length vs)), last vs, r OR push_bit (7 * k) (le7 vs), s') \<and>
    reads inp s vs s' \<and> input inp s' = rest"
  using assms
proof (induction vs arbitrary: s k r)
  case Nil
  then show ?case
    by (cases "input inp s") (auto split: if_splits)
next
  case (Cons b vs)
  obtain b' bs where inp: "input inp s = b' # bs"
    using Cons.prems(2) by (cases "input inp s") auto
  then have b: "b' = b"
    using Cons.prems(2) by (auto split: if_splits)
  obtain s' where s': "pb_readbyte s = (True, b, s')" "reads inp s [b] s'" "input inp s' = bs"
    using readbyte_Cons [OF Cons.prems(1) inp] b by auto
  let ?r = "r OR push_bit (7 * k) (ucast (b AND 0x7F))"
  have k: "k < 5" "Suc k + length vs \<le> 5"
    using Cons.prems(3) by simp_all
  note step = varint32_loop_step [OF k(1), of s r, unfolded s'(1)]
  show ?case
  proof (cases "b AND 0x80 = 0")
    case True
    then have "vs = []" "rest = bs"
      using Cons.prems(2) inp b by auto
    then show ?thesis
      unfolding step using True s' by simp
  next
    case False
    then have sp: "split_varint (input inp s') = Some (vs, rest)"
      using Cons.prems(2) inp b s'(3) by (auto split: if_splits)
    then have "vs \<noteq> []"
      by (cases "input inp s'") (auto split: if_splits)
    with Cons.IH [OF reads_avail [OF s'(2) Cons.prems(1)] sp k(2), of ?r] show ?thesis
      unfolding step using False k s'(2)
      by (auto simp: or.assoc push_bit_push_bit push_bit_or add.commute reads_Cons
          simp del: of_nat_mult)
  qed
qed

text \<open>While continuation bits are set, the loop goes on.\<close>

lemma varint32_loop_more:
  assumes "avail cb inp s" "input inp s = us @ rest" "k + length us \<le> 5"
    "\<forall>b \<in> set us. b AND 0x80 \<noteq> 0"
  shows "\<exists>s'. varint32_loop s (of_nat (7 * k)) r =
      varint32_loop s' (of_nat (7 * (k + length us))) (r OR push_bit (7 * k) (le7 us)) \<and>
    reads inp s us s' \<and> input inp s' = rest"
  using assms
proof (induction us arbitrary: s k r)
  case Nil
  then show ?case by auto
next
  case (Cons b us)
  obtain s' where s': "pb_readbyte s = (True, b, s')" "reads inp s [b] s'"
    "input inp s' = us @ rest"
    using readbyte_Cons [OF Cons.prems(1), of b "us @ rest"] Cons.prems(2) by auto
  have k: "k < 5" "Suc k + length us \<le> 5" "\<forall>b \<in> set us. b AND 0x80 \<noteq> 0" "b AND 0x80 \<noteq> 0"
    using Cons.prems(3,4) by auto
  show ?case
    unfolding varint32_loop_step [OF k(1), of s r, unfolded s'(1)]
    using Cons.IH [OF reads_avail [OF s'(2) Cons.prems(1)] s'(3) k(2,3),
        of "r OR push_bit (7 * k) (ucast (b AND 0x7F))"] s'(2) k(4)
    by (auto simp: or.assoc push_bit_push_bit push_bit_or add.commute reads_Cons
        simp del: of_nat_mult)
qed

text \<open>The sign bytes of a negative value: nothing is added to the result.\<close>

lemma varint32_loop_sign:
  assumes "avail cb inp s" "input inp s = varint_bytes 0x1FFFFFFF @ rest" "drop_bit 31 r \<noteq> 0"
  shows "\<exists>s'. varint32_loop s 35 r = (True, 70, 1, r, s') \<and>
    reads inp s (varint_bytes 0x1FFFFFFF) s' \<and> input inp s' = rest"
proof -
  obtain s1 where 1: "pb_readbyte s = (True, 0xFF, s1)" "reads inp s [0xFF] s1"
    "input inp s1 = [0xFF, 0xFF, 0xFF, 0x01] @ rest"
    using readbyte_Cons [OF assms(1)] assms(2) by (auto simp: varint_bytes_sign)
  note a1 = reads_avail [OF 1(2) assms(1)]
  obtain s2 where 2: "pb_readbyte s1 = (True, 0xFF, s2)" "reads inp s1 [0xFF] s2"
    "input inp s2 = [0xFF, 0xFF, 0x01] @ rest"
    using readbyte_Cons [OF a1] 1(3) by auto
  note a2 = reads_avail [OF 2(2) a1]
  obtain s3 where 3: "pb_readbyte s2 = (True, 0xFF, s3)" "reads inp s2 [0xFF] s3"
    "input inp s3 = [0xFF, 0x01] @ rest"
    using readbyte_Cons [OF a2] 2(3) by auto
  note a3 = reads_avail [OF 3(2) a2]
  obtain s4 where 4: "pb_readbyte s3 = (True, 0xFF, s4)" "reads inp s3 [0xFF] s4"
    "input inp s4 = [0x01] @ rest"
    using readbyte_Cons [OF a3] 3(3) by auto
  note a4 = reads_avail [OF 4(2) a3]
  obtain s5 where 5: "pb_readbyte s4 = (True, 0x01, s5)" "reads inp s4 [0x01] s5"
    "input inp s5 = rest"
    using readbyte_Cons [OF a4] 4(3) by auto
  have "varint32_loop s 35 r = varint32_loop s1 42 r"
    "varint32_loop s1 42 r = varint32_loop s2 49 r"
    "varint32_loop s2 49 r = varint32_loop s3 56 r"
    "varint32_loop s3 56 r = varint32_loop s4 63 r"
    "varint32_loop s4 63 r = (True, 70, 1, r, s5)"
    using 1(1) 2(1) 3(1) 4(1) 5(1) assms(3) by (subst varint32_loop.simps, simp)+
  moreover have "reads inp s (varint_bytes 0x1FFFFFFF) s5"
    unfolding varint_bytes_sign
    by (intro reads_Cons [OF 1(2)] reads_Cons [OF 2(2)] reads_Cons [OF 3(2)] reads_Cons [OF 4(2)] 5(2))
  ultimately show ?thesis
    using 5(3) by auto
qed

end

text \<open>The continuation bits of a split and of an encoded value.\<close>

lemma split_varint_all: "split_varint bs = Some (vs, rest) \<Longrightarrow>
    vs \<noteq> [] \<and> (\<forall>b \<in> set (butlast vs). b AND 0x80 \<noteq> 0) \<and> last vs AND 0x80 = 0"
  by (induction bs arbitrary: vs) (auto split: if_splits)

lemma varint_bytes_five:
  assumes "drop_bit 35 w \<noteq> 0"
  shows "\<exists>us. length us = 5 \<and> (\<forall>b \<in> set us. b AND 0x80 \<noteq> 0) \<and>
    varint_bytes w = us @ varint_bytes (drop_bit 35 w)"
proof -
  have big: "\<not> drop_bit n w \<le> 0x7F" if "n \<le> 28" for n
  proof
    assume "drop_bit n w \<le> 0x7F"
    then have "drop_bit (7 + n) w = 0"
      by (simp add: le_7F_iff drop_bit_drop_bit)
    then have "drop_bit (28 - n) (drop_bit (7 + n) w) = 0"
      by simp
    then show False
      using assms that by (simp add: drop_bit_drop_bit)
  qed
  have step: "varint_bytes (drop_bit n w) =
      (ucast (drop_bit n w AND 0x7F) OR 0x80) # varint_bytes (drop_bit (7 + n) w)"
    if "n \<le> 28" for n
    using big [OF that] by (simp add: varint_bytes.simps [of "drop_bit n w"] drop_bit_drop_bit)
  let ?b = "\<lambda>n. ucast (drop_bit n w AND 0x7F) OR 0x80 :: u8"
  have "?b n AND 0x80 \<noteq> 0" for n
    by (auto simp: bit_eq_iff bit_simps intro: exI [of _ 7])
  moreover have "varint_bytes w = [?b 0, ?b 7, ?b 14, ?b 21, ?b 28] @ varint_bytes (drop_bit 35 w)"
    using step [of 0] step [of 7] step [of 14] step [of 21] step [of 28] by simp
  ultimately show ?thesis
    by (intro exI [of _ "[?b 0, ?b 7, ?b 14, ?b 21, ?b 28]"]) simp
qed

lemma low_byte_bit:
  assumes "b AND 0x80 = 0" "bit (b :: u8) n"
  shows "n < 7"
proof (rule ccontr)
  assume "\<not> n < 7"
  moreover have "n < 8"
    using bit_imp_le_length [OF assms(2)] by simp
  ultimately have "n = 7"
    by simp
  then have "bit (b AND 0x80) 7"
    using assms(2) by (simp add: bit_simps)
  with assms(1) show False
    by simp
qed

lemma eof_bitpos:
  "k \<le> 5 \<Longrightarrow> (of_nat (7 * k) :: u8) = 35 \<longleftrightarrow> k = 5"
  unfolding word_unat_eq_iff by (simp add: unat_of_nat take_bit_nat_eq_self del: of_nat_mult)

context source
begin

lemma varint32_eof_parses:
  assumes s: "avail cb inp s" and sp: "split_varint (input inp s) = Some (vs, rest)"
    and len: "length vs \<le> 5" and top: "length vs = 5 \<Longrightarrow> last vs AND 0x70 = 0"
  shows "\<exists>s'. pb_decode_varint32_eof s = (True, False, le7 vs, s') \<and> reads inp s vs s' \<and>
    input inp s' = rest"
proof -
  obtain b bs where inp: "input inp s = b # bs"
    using sp by (cases "input inp s") auto
  then obtain s' where s': "pb_readbyte s = (True, b, s')" "reads inp s [b] s'" "input inp s' = bs"
    using readbyte_Cons [OF s] by blast
  show ?thesis
  proof (cases "b AND 0x80 = 0")
    case True
    have "(ucast b :: u32) = ucast (b AND 0x7F)"
      by (rule bit_word_eqI) (auto simp: bit_simps dest: low_byte_bit [OF True])
    then show ?thesis
      using True s' sp inp by (auto simp: pb_decode_varint32_eof_def)
  next
    case False
    then obtain ws where ws: "vs = b # ws" "split_varint (input inp s') = Some (ws, rest)"
      using sp inp s'(3) by (auto split: if_splits)
    then have ne: "ws \<noteq> []"
      using split_varint_all by blast
    have "Suc 0 + length ws \<le> 5"
      using len ws(1) by simp
    from varint32_loop_parses [OF reads_avail [OF s'(2) s] ws(2) this]
    obtain s'' where s'': "varint32_loop s' (of_nat (7 * 1)) (ucast (b AND 0x7F)) =
        (True, of_nat (7 * (Suc (length ws))), last ws,
         ucast (b AND 0x7F) OR push_bit (7 * 1) (le7 ws), s'')"
      "reads inp s' ws s''" "input inp s'' = rest"
      by auto
    have "(of_nat (7 * Suc (length ws)) :: u8) = 35 \<longleftrightarrow> length ws = 4"
      using eof_bitpos [of "Suc (length ws)"] len ws(1) by simp
    then have "\<not> ((of_nat (7 * Suc (length ws)) :: u8) = 35 \<and> last ws AND 0x70 \<noteq> 0)"
      using top ws(1) ne by simp
    then have "pb_decode_varint32_eof s = (True, False, le7 vs, s'')"
      using False s'(1) s''(1) ws(1) by (simp add: pb_decode_varint32_eof_def del: of_nat_Suc)
    then show ?thesis
      using reads_Cons [OF s'(2) s''(2)] s''(3) ws(1) by auto
  qed
qed

end

lemma varint_bytes_32:
  fixes v :: u32
  defines "bs \<equiv> varint_bytes (ucast v)"
  shows "length bs \<le> 5" "length bs = 5 \<Longrightarrow> last bs AND 0x70 = 0" "le7 bs = v"
proof -
  have "unat (ucast v :: u64) < 2 ^ (7 * 5)"
    using unat_lt_32 [of v] by simp
  then show "length bs \<le> 5"
    unfolding bs_def by (rule length_varint_bytes_le) simp
  show "last bs AND 0x70 = 0" if "length bs = 5"
  proof -
    have "last bs = ucast (drop_bit 28 (ucast v :: u64))"
      using that last_varint_bytes [of "ucast v"] unfolding bs_def by simp
    then show ?thesis
      by (simp, intro bit_word_eqI) (auto simp: bit_simps dest: bit_imp_le_length)
  qed
  have "(le7 bs :: u32) = ucast (ucast v :: u64)"
    unfolding bs_def by (simp add: ucast_le7 le7_varint_bytes)
  also have "\<dots> = v"
    by (rule bit_word_eqI) (auto simp: bit_simps)
  finally show "le7 bs = v" .
qed

context source
begin

lemma varint32_eof_unsigned:
  assumes "avail cb inp s" "input inp s = varint_bytes (ucast (v :: u32)) @ rest"
  shows "\<exists>s'. pb_decode_varint32_eof s = (True, False, v, s') \<and>
    reads inp s (varint_bytes (ucast v)) s' \<and> input inp s' = rest"
  using varint32_eof_parses [OF assms(1), unfolded assms(2), OF split_varint_bytes
      varint_bytes_32(1) varint_bytes_32(2)]
  by (simp add: varint_bytes_32(3))

lemma parses_varint32: "parses cb inp pb_decode_varint32 (varint_bytes (ucast v)) v"
  unfolding parses_def pb_decode_varint32_def using varint32_eof_unsigned by fastforce

text \<open>Other implementations write a negative \<open>int32\<close> as ten bytes; the result is the same value.\<close>

lemma parses_varint32_negative:
  assumes neg: "sint (v :: u32) < 0"
  shows "parses cb inp pb_decode_varint32 (varint_bytes (scast v)) v"
  unfolding parses_def
proof (intro allI impI)
  fix s :: "'s pb_istream" and rest
  assume s: "avail cb inp s" and inp: "input inp s = varint_bytes (scast v) @ rest"
  let ?w = "scast v :: u64"
  have "drop_bit 35 ?w \<noteq> 0"
    using drop_35_negative [OF neg] by simp
  then obtain us where us: "length us = 5" "\<forall>b \<in> set us. b AND 0x80 \<noteq> 0"
    "varint_bytes ?w = us @ varint_bytes 0x1FFFFFFF"
    using varint_bytes_five [of ?w] drop_35_negative [OF neg] by auto
  then obtain b us' where b: "us = b # us'"
    by (cases us) auto
  obtain s1 where 1: "pb_readbyte s = (True, b, s1)" "reads inp s [b] s1"
    "input inp s1 = us' @ varint_bytes 0x1FFFFFFF @ rest"
    using readbyte_Cons [OF s, of b] inp us(3) b by auto
  note a1 = reads_avail [OF 1(2) s]
  have more: "1 + length us' \<le> 5" "\<forall>b \<in> set us'. b AND 0x80 \<noteq> 0"
    using us(1,2) b by auto
  obtain s2 where 2: "varint32_loop s1 7 (ucast (b AND 0x7F)) =
      varint32_loop s2 35 (ucast (b AND 0x7F) OR push_bit 7 (le7 us'))"
    "reads inp s1 us' s2" "input inp s2 = varint_bytes 0x1FFFFFFF @ rest"
    using varint32_loop_more [OF a1 1(3) more, of "ucast (b AND 0x7F)"] us(1) b by auto
  have r: "ucast (b AND 0x7F) OR push_bit 7 (le7 us') = v"
  proof -
    have "ucast (b AND 0x7F) OR push_bit 7 (le7 us') = (le7 (us @ varint_bytes 0x1FFFFFFF) :: u32)"
      using us(1) b unfolding le7_append by (simp add: push_bit_over)
    also have "\<dots> = ucast ?w"
      by (simp add: us(3) [symmetric] ucast_le7 le7_varint_bytes)
    also have "\<dots> = v"
      by (rule bit_word_eqI) (auto simp: bit_simps less_Suc_eq)
    finally show ?thesis .
  qed
  have "bit v 31"
    using neg bit_last_iff [of v] by simp
  then have "bit (drop_bit 31 v) 0"
    by (simp add: bit_drop_bit_eq)
  then have "drop_bit 31 v \<noteq> 0"
    by auto
  from varint32_loop_sign [OF reads_avail [OF 2(2) a1] 2(3) this] obtain s3 where
    3: "varint32_loop s2 35 v = (True, 70, 1, v, s3)"
    "reads inp s2 (varint_bytes 0x1FFFFFFF) s3" "input inp s3 = rest"
    by blast
  have "b AND 0x80 \<noteq> 0"
    using us(2) b by simp
  then have "pb_decode_varint32 s = (True, v, s3)"
    using 1(1) 2(1) 3(1) by (simp add: pb_decode_varint32_def pb_decode_varint32_eof_def r)
  moreover have "reads inp s (varint_bytes ?w) s3"
    unfolding us(3) b using reads_Cons [OF 1(2) reads_append [OF 2(2) 3(2)]] by simp
  ultimately show "\<exists>s'. pb_decode_varint32 s = (True, v, s') \<and>
      reads inp s (varint_bytes ?w) s' \<and> input inp s' = rest"
    using 3(3) by blast
qed

text \<open>Tags.\<close>

lemma tag_roundtrip:
  assumes s: "avail cb inp s"
    and inp: "input inp s = varint_bytes (push_bit 3 (ucast t) OR ucast wt) @ rest"
    and t: "drop_bit 29 (t :: u32) = 0" "t \<noteq> 0" and wt: "drop_bit 3 (wt :: u32) = 0"
  shows "\<exists>s'. pb_decode_tag s = (True, wt, t, False, s') \<and>
    reads inp s (varint_bytes (push_bit 3 (ucast t) OR ucast wt)) s' \<and> input inp s' = rest"
proof -
  let ?v = "push_bit 3 t OR wt"
  note bt = drop_bit_0_bit [OF t(1)] and bw = drop_bit_0_bit [OF wt]
  have "push_bit 3 (ucast t) OR ucast wt = (ucast ?v :: u64)"
    by (rule bit_word_eqI) (auto simp: bit_simps dest: bt bw)
  moreover have "?v AND 7 = wt"
    by (rule bit_word_eqI) (auto simp: bit_simps dest: bw)
  moreover have v: "drop_bit 3 ?v = t"
    by (rule bit_word_eqI) (auto simp: bit_simps dest: bt bw)
  moreover have "?v \<noteq> 0"
    using v t(2) by (metis drop_bit_of_0)
  ultimately show ?thesis
    using varint32_eof_unsigned [OF s, of ?v rest] inp
    by (auto simp: pb_decode_tag_def)
qed

end

section \<open>Length-delimited values\<close>

definition prefixed :: "u8 list \<Rightarrow> u8 list" where
  "prefixed body = varint_bytes (of_nat (length body)) @ body"

text \<open>One value on the wire, by its wire type.\<close>

definition wire_value :: "pb_wire_type \<Rightarrow> u8 list \<Rightarrow> bool" where
  "wire_value wt bs \<longleftrightarrow>
     (if wt = PB_WT_VARINT then split_varint bs = Some (bs, [])
      else if wt = PB_WT_64BIT then length bs = 8
      else if wt = PB_WT_32BIT then length bs = 4
      else if wt = PB_WT_STRING
      then (\<exists>body. length body < 4294967296 \<and> bs = prefixed body)
      else False)"

lemma split_varint_more: "split_varint bs = Some (vs, []) \<Longrightarrow> split_varint (bs @ rest) = Some (vs, rest)"
  by (induction bs arbitrary: vs) (auto split: if_splits)

lemma ucast_of_nat_32: "n < 4294967296 \<Longrightarrow> ucast (of_nat n :: u32) = (of_nat n :: u64)"
  by (simp add: word_unat_eq_iff word_bounds)

lemma reads_take:
  assumes "reads inp s (take n (input inp s)) s'" "input inp s = bs @ rest" "n = length bs"
  shows "reads inp s bs s' \<and> input inp s' = rest"
  using assms reads_input [OF assms(1)] by auto

context source
begin

lemma parses_length:
  assumes "length body < 4294967296" "avail cb inp s" "input inp s = prefixed body @ rest"
  shows "\<exists>s'. pb_decode_varint32 s = (True, of_nat (length body), s') \<and>
    reads inp s (varint_bytes (of_nat (length body))) s' \<and> input inp s' = body @ rest"
  using parsesD [OF parses_varint32 [of "of_nat (length body)"] assms(2), of "body @ rest"] assms
  by (simp add: prefixed_def ucast_of_nat_32)

lemma skip_bytes:
  assumes "avail cb inp s" "input inp s = bs @ rest" "unat n = length bs"
  shows "\<exists>s'. pb_read_null s n = (True, s') \<and> reads inp s bs s' \<and> input inp s' = rest"
proof -
  have "n \<le> bytes_left s"
    using length_input [OF assms(1)] assms(2,3) by (simp add: word_le_nat_alt)
  from read_null_ok [OF assms(1) this] reads_take [of inp s "unat n"] assms(2,3)
  show ?thesis by blast
qed

lemma skip_field_ok:
  assumes "avail cb inp s" "input inp s = bs @ rest" "wire_value wt bs"
  shows "\<exists>s'. pb_skip_field s wt = (True, s') \<and> reads inp s bs s' \<and> input inp s' = rest"
proof -
  consider (varint) "wt = PB_WT_VARINT" "split_varint bs = Some (bs, [])"
    | (f64) "wt = PB_WT_64BIT" "length bs = 8"
    | (f32) "wt = PB_WT_32BIT" "length bs = 4"
    | (string) body where "wt = PB_WT_STRING" "length body < 4294967296" "bs = prefixed body"
    using assms(3) by (auto simp: wire_value_def split: if_splits)
  then show ?thesis
  proof cases
    case varint
    obtain s' where "pb_skip_varint s = (True, s')" "reads inp s bs s'"
      using skip_varint_ok [OF assms(1)] split_varint_more [OF varint(2)] assms(2) by metis
    then show ?thesis
      using varint(1) reads_input [of inp s bs s'] assms(2) by (simp add: pb_skip_field_def)
  next
    case f64
    then show ?thesis
      using skip_bytes [OF assms(1,2), of 8] by (simp add: pb_skip_field_def pb_consts)
  next
    case f32
    then show ?thesis
      using skip_bytes [OF assms(1,2), of 4] by (simp add: pb_skip_field_def pb_consts)
  next
    case string
    obtain s1 where 1: "pb_decode_varint32 s = (True, of_nat (length body), s1)"
      "reads inp s (varint_bytes (of_nat (length body))) s1" "input inp s1 = body @ rest"
      using parses_length [OF string(2) assms(1)] assms(2) string(3) by blast
    have "unat (ucast (of_nat (length body) :: u32) :: u64) = length body"
      using string(2) by (simp add: word_bounds)
    from skip_bytes [OF reads_avail [OF 1(2) assms(1)] 1(3) this] obtain s2 where
      2: "pb_read_null s1 (ucast (of_nat (length body) :: u32)) = (True, s2)"
      "reads inp s1 body s2" "input inp s2 = rest"
      by blast
    then show ?thesis
      using 1(1) string(1) reads_append [OF 1(2) 2(2)]
      by (auto simp: pb_skip_field_def pb_consts pb_skip_string_def string(3) prefixed_def)
  qed
qed

text \<open>The substream holds exactly the body; closing it takes the parent to the body's end,
  whatever part of it has been read.\<close>

lemma make_substream:
  assumes "avail cb inp s" "input inp s = prefixed body @ rest" "length body < 4294967296"
  shows "\<exists>sub s1. pb_make_string_substream s = (True, sub, s1) \<and> avail cb inp sub \<and>
    input inp sub = body \<and> is_errmsg sub = is_errmsg s \<and>
    (\<forall>bs sub'. reads inp sub bs sub' \<longrightarrow>
      (\<exists>s2. pb_close_string_substream s1 sub' = (True, s2) \<and>
        reads inp s (prefixed body) s2 \<and> input inp s2 = rest))"
proof -
  let ?n = "of_nat (length body) :: u64"
  obtain s0 where s0: "pb_decode_varint32 s = (True, of_nat (length body), s0)"
    "reads inp s (varint_bytes ?n) s0" "input inp s0 = body @ rest"
    using parses_length [OF assms(3,1,2)] by blast
  note av = reads_avail [OF s0(2) assms(1)]
  have n: "unat ?n = length body" "ucast (of_nat (length body) :: u32) = ?n"
    using assms(3) by (simp_all add: word_bounds ucast_of_nat_32)
  have left: "unat (bytes_left s0) = length body + length rest"
    using length_input [OF av] s0(3) by simp
  then have le: "?n \<le> bytes_left s0"
    by (simp add: word_le_nat_alt n)
  let ?sub = "s0\<lparr>bytes_left := ?n\<rparr>" and ?s1 = "s0\<lparr>bytes_left := bytes_left s0 - ?n\<rparr>"
  have make: "pb_make_string_substream s = (True, ?sub, ?s1)"
    using s0(1) le by (simp add: pb_make_string_substream_def n not_less)
  have sub: "avail cb inp ?sub" "input inp ?sub = body"
  proof -
    show "avail cb inp ?sub"
      using av left by (simp add: avail_def n)
    have "take (length body) (take (unat (bytes_left s0)) (inp (is_state s0))) = body"
      using s0(3) by (simp add: input_def)
    then show "input inp ?sub = body"
      using left by (simp add: input_def n min_absorb1)
  qed
  have "\<exists>s2. pb_close_string_substream ?s1 sub' = (True, s2) \<and>
      reads inp s (prefixed body) s2 \<and> input inp s2 = rest"
    if r: "reads inp ?sub bs sub'" for bs sub'
  proof -
    note av' = reads_avail [OF r sub(1)]
    obtain sub'' where close: "pb_close_string_substream ?s1 sub' =
        (True, ?s1\<lparr>is_state := is_state sub'', is_errmsg := is_errmsg sub''\<rparr>)"
      and all: "reads inp ?sub body sub''"
    proof (cases "bytes_left sub' = 0")
      case True
      then have "bs = body"
        using reads_input [OF r] sub(2) av' by (simp add: input_def)
      with True r that show ?thesis
        by (simp add: pb_close_string_substream_def)
    next
      case False
      obtain sub'' where sub'': "pb_read_null sub' (bytes_left sub') = (True, sub'')"
        "reads inp sub' (take (unat (bytes_left sub')) (input inp sub')) sub''"
        using read_null_ok [OF av'] by blast
      moreover have "bs @ take (unat (bytes_left sub')) (input inp sub') = body"
        using length_input [OF av'] reads_input [OF r] sub(2) by simp
      ultimately show ?thesis
        using that [of sub''] False reads_append [OF r sub''(2)]
        by (simp add: pb_close_string_substream_def)
    qed
    let ?s2 = "?s1\<lparr>is_state := is_state sub'', is_errmsg := is_errmsg sub''\<rparr>"
    have "reads inp s0 body ?s2"
      using all le left by (simp add: reads_def unat_sub n)
    then have "reads inp s (prefixed body) ?s2"
      unfolding prefixed_def by (rule reads_append [OF s0(2)])
    moreover from reads_input [OF this] have "input inp ?s2 = rest"
      using assms(2) by simp
    ultimately show ?thesis
      using close by blast
  qed
  then show ?thesis
    using make sub reads_errmsg [OF s0(2)] by fastforce
qed

end

section \<open>Streams on a buffer\<close>

definition buffer_of :: "'s istate \<Rightarrow> u8 list" where
  "buffer_of st = (case st of Input bs \<Rightarrow> bs | User_state _ \<Rightarrow> [])"

interpretation bufs: source Buf_read buffer_of
  by unfold_locales (auto simp: buffer_of_def call_read_def buf_read_def split: istate.splits)

lemma avail_from_buffer:
  "length bs < 18446744073709551616 \<Longrightarrow>
     avail Buf_read buffer_of (pb_istream_from_buffer bs (of_nat (length bs)))"
  by (simp add: avail_def pb_istream_from_buffer_def buffer_of_def word_bounds)

lemma input_from_buffer:
  "length bs < 18446744073709551616 \<Longrightarrow>
     input buffer_of (pb_istream_from_buffer bs (of_nat (length bs))) = bs"
  by (simp add: input_def pb_istream_from_buffer_def buffer_of_def word_bounds)

end
