(* ===== verification/Pb_Decode_Spec.thy ===== *)
theory Pb_Decode_Spec
  imports Pb_Decode_Safe Pb_Istream_Spec
begin

text \<open>
  The functional behaviour of the decoder's parts: the check for required fields, default values,
  releasing of allocated fields, the field decoders on the values the encoder writes, and
  length-delimited messages.
\<close>

section \<open>Required fields\<close>

definition seen_bit :: "u32 list \<Rightarrow> nat \<Rightarrow> bool" where
  "seen_bit seen i \<longleftrightarrow> bit (seen ! (i div 32)) (i mod 32)"

lemma bit_ones: "bit (- 1 :: u32) k \<longleftrightarrow> k < 32"
  by simp

lemma low_ones: "0 < r \<Longrightarrow> r < 32 \<Longrightarrow> bit (drop_bit (32 - r) (- 1 :: u32)) k \<longleftrightarrow> k < r"
  by (auto simp: bit_simps)

text \<open>The comparison of whole words, and of the rest, says that the first \<open>n\<close> bits are set.\<close>

lemma all_seen_iff:
  assumes len: "n \<le> 32 * length seen"
    and off: "\<And>i. n \<le> i \<Longrightarrow> i < 32 * length seen \<Longrightarrow> \<not> seen_bit seen i"
  shows "all_seen seen n \<longleftrightarrow> (\<forall>i < n. seen_bit seen i)"
proof -
  have word: "seen ! j = - 1 \<longleftrightarrow> (\<forall>k < 32. seen_bit seen (32 * j + k))" for j
  proof -
    have "seen_bit seen (32 * j + k) \<longleftrightarrow> bit (seen ! j) k" if "k < 32" for k
      using that by (simp add: seen_bit_def)
    then show ?thesis
      by (auto simp: bit_eq_iff dest: bit_imp_le_length)
  qed
  have rest: "seen ! (n div 32) = drop_bit (32 - n mod 32) (- 1) \<longleftrightarrow>
      (\<forall>k < n mod 32. seen_bit seen (32 * (n div 32) + k))" if "n mod 32 \<noteq> 0"
  proof -
    have high: "\<not> bit (seen ! (n div 32)) k" if "n mod 32 \<le> k" for k
    proof
      assume b: "bit (seen ! (n div 32)) k"
      then have "k < 32"
        using bit_imp_le_length by fastforce
      moreover have "n \<le> 32 * (n div 32) + k"
        using that by (metis add_le_cancel_left mult_div_mod_eq)
      moreover have "n div 32 < length seen"
        using len \<open>n mod 32 \<noteq> 0\<close> by presburger
      ultimately show False
        using off [of "32 * (n div 32) + k"] b by (simp add: seen_bit_def)
    qed
    have "seen ! (n div 32) = drop_bit (32 - n mod 32) (- 1) \<longleftrightarrow>
        (\<forall>k. bit (seen ! (n div 32)) k \<longleftrightarrow> k < n mod 32)"
    proof -
      have y: "bit (drop_bit (32 - n mod 32) (- 1 :: u32)) k \<longleftrightarrow> k < n mod 32" for k
        using that by (intro low_ones) simp_all
      show ?thesis
        unfolding y [symmetric] by (metis bit_word_eqI)
    qed
    also have "\<dots> \<longleftrightarrow> (\<forall>k < n mod 32. bit (seen ! (n div 32)) k)"
      using high by (meson not_le)
    also have "\<dots> \<longleftrightarrow> (\<forall>k < n mod 32. seen_bit seen (32 * (n div 32) + k))"
      by (auto simp: seen_bit_def)
    finally show ?thesis .
  qed
  have split: "(\<forall>i < n. P i) \<longleftrightarrow> (\<forall>j < n div 32. \<forall>k < 32. P (32 * j + k)) \<and>
      (\<forall>k < n mod 32. P (32 * (n div 32) + k))" for P
  proof (intro iffI conjI allI impI)
    fix j k :: nat
    assume "\<forall>i<n. P i" "j < n div 32" "k < 32"
    moreover from this have "32 * j + k < n"
      by linarith
    ultimately show "P (32 * j + k)" by blast
  next
    fix k :: nat
    assume "\<forall>i<n. P i" "k < n mod 32"
    moreover from this have "32 * (n div 32) + k < n"
      by (metis add_less_cancel_left mult_div_mod_eq)
    ultimately show "P (32 * (n div 32) + k)" by blast
  next
    fix i
    assume *: "(\<forall>j < n div 32. \<forall>k < 32. P (32 * j + k)) \<and> (\<forall>k < n mod 32. P (32 * (n div 32) + k))"
      and "i < n"
    then consider "i div 32 < n div 32" | "i div 32 = n div 32" "i mod 32 < n mod 32"
      using div_le_mono [of i n 32] by (metis add_less_cancel_left le_neq_implies_less less_imp_le
          mult_div_mod_eq)
    then show "P i"
      by cases (use * mult_div_mod_eq [of 32 i] mod_less_divisor [of 32 i] in \<open>metis zero_less_numeral\<close>)+
  qed
  show ?thesis
    unfolding all_seen_def split [of "seen_bit seen"] using word rest
    by (cases "n mod 32 = 0") (auto simp: list_all_iff)
qed

text \<open>The number of required fields is what stepping to the end of the array counts.\<close>

definition required_total :: "pb_field list \<Rightarrow> nat" where
  "required_total fs = length (filter (\<lambda>f. PB_HTYPE (ftype f) = PB_HTYPE_REQUIRED) fs)"

lemma seek_end_eq:
  assumes "fields_wf fs" "i < length fs"
  shows "seek_end (iter_at fs dest i) = (required_before fs (length fs - 1),
    ftype (field_at fs (length fs - 1)), iter_at fs dest 0)"
  using assms(2)
proof (induction "length fs - i" arbitrary: i)
  case 0
  then show ?case by simp
next
  case (Suc d)
  show ?case
  proof (cases "Suc i < length fs")
    case True
    then show ?thesis
      using Suc(1) [of "Suc i"] Suc(2) assms(1) Suc.prems
      by (subst seek_end.simps) (simp add: pb_field_iter_next_eq)
  next
    case False
    then have i: "length fs - 1 = i"
      using Suc.prems by simp
    show ?thesis
      unfolding i using assms(1) Suc.prems False
      by (subst seek_end.simps) (simp add: pb_field_iter_next_eq)
  qed
qed

lemma req_field_count_eq:
  assumes "fields_wf fs" "i < length fs"
  shows "req_field_count (iter_at fs dest i) = min PB_MAX_REQUIRED_FIELDS (required_total fs)"
proof -
  have ne: "0 < length fs"
    using assms(2) by linarith
  then have "required_before fs (length fs) = required_before fs (length fs - 1) +
      (if PB_HTYPE (ftype (field_at fs (length fs - 1))) = PB_HTYPE_REQUIRED then 1 else 0)"
    using required_before_Suc [of "length fs - 1" fs] by simp
  moreover have "required_before fs (length fs) = required_total fs"
    by (simp add: required_before_def required_total_def)
  moreover have "tag (field_at fs 0) \<noteq> 0"
    using assms(1) ne by (simp add: field_at_tag)
  ultimately show ?thesis
    by (simp add: req_field_count_def seek_end_eq [OF assms])
qed

text \<open>The end of the message: success when no fixed count is short and every required field, of the
  first 64, has its bit.\<close>

lemma decode_end_iff:
  assumes wf: "fields_wf fs" and i: "i < length fs" and it: "iter ls = iter_at fs dest i"
    and len: "length (fields_seen ls) = 2"
    and bits: "\<And>j. j < 64 \<Longrightarrow> seen_bit (fields_seen ls) j \<Longrightarrow> j < required_total fs"
  shows "fst (decode_end env d ls st) \<longleftrightarrow> \<not> wrong_count env d ls (mem (snd st)) \<and>
    (\<forall>j < min PB_MAX_REQUIRED_FIELDS (required_total fs). seen_bit (fields_seen ls) j)"
proof -
  have "all_seen (fields_seen ls) (req_field_count (iter ls)) \<longleftrightarrow>
      (\<forall>j < min PB_MAX_REQUIRED_FIELDS (required_total fs). seen_bit (fields_seen ls) j)"
    unfolding it req_field_count_eq [OF wf i]
  proof (rule all_seen_iff)
    show "min PB_MAX_REQUIRED_FIELDS (required_total fs) \<le> 32 * length (fields_seen ls)"
      using len by (simp add: PB_MAX_REQUIRED_FIELDS_def)
  next
    fix j
    assume j: "min PB_MAX_REQUIRED_FIELDS (required_total fs) \<le> j" "j < 32 * length (fields_seen ls)"
    then have "j < 64" "required_total fs \<le> j"
      using len by (simp_all add: PB_MAX_REQUIRED_FIELDS_def min_def split: if_splits)
    then show "\<not> seen_bit (fields_seen ls) j"
      using bits [of j] by linarith
  qed
  then show ?thesis
    by (simp add: decode_end_def d_error_def)
qed

end
