(* ===== verification/Pb_Varint32.thy ===== *)
theory Pb_Varint32
  imports Pb_Istream_Spec
begin

text \<open>
  The 32-bit varint reader on every input, not only on those that an encoder writes: which byte
  strings it accepts (\<open>accepts32\<close>), with what value, and how it fails on the others. Up to the fifth
  byte the loop collects bits; behind it, it looks only for the sign bytes of a negative number
  (\<open>tail_ok\<close>, \<open>varint32_loop_tail\<close>). \<open>bitpos\<close> is one byte wide and wraps around at the 38th byte,
  hence the bound of 36 bytes here.
\<close>

lemma split_varint_None: "split_varint bs = None \<longleftrightarrow> (\<forall>b \<in> set bs. b AND 0x80 \<noteq> 0)"
  by (induction bs) auto

lemma eof_bitpos_36:
  "k \<le> 36 \<Longrightarrow> (of_nat (7 * k) :: u8) = 35 \<longleftrightarrow> k = 5"
  unfolding word_unat_eq_iff by (simp add: unat_of_nat take_bit_nat_eq_self del: of_nat_mult)

text \<open>What the reader accepts behind the fifth byte, where \<open>r\<close> is the value so far: bytes without
  bits, or the sign bytes of a negative number.\<close>

fun tail_ok :: "u32 \<Rightarrow> nat \<Rightarrow> u8 list \<Rightarrow> bool" where
  "tail_ok r k [] \<longleftrightarrow> True"
| "tail_ok r k (b # bs) \<longleftrightarrow>
     (b AND 0x7F = 0 \<or> drop_bit 31 r \<noteq> 0 \<and> b = (if k < 9 then 0xFF else 1)) \<and> tail_ok r (Suc k) bs"

definition accepts32 :: "u8 list \<Rightarrow> bool" where
  "accepts32 vs \<longleftrightarrow> length vs < 5 \<or> length vs = 5 \<and> last vs AND 0x70 = 0 \<or>
     5 < length vs \<and> tail_ok (le7 vs) 5 (drop 5 vs)"

definition loop_fails :: "bool \<times> u8 \<times> u8 \<times> u32 \<times> 's pb_istream \<Rightarrow> string \<Rightarrow> bool" where
  "loop_fails r msg \<longleftrightarrow> (\<exists>bp b v s'. r = (False, bp, b, v, s') \<and> is_errmsg s' = Some msg)"

context source
begin

lemma varint32_tail_step:
  assumes "5 \<le> k" "k \<le> 36"
  shows "varint32_loop s (of_nat (7 * k)) r =
     (case pb_readbyte s of
        (False, b, s) \<Rightarrow> (False, of_nat (7 * k), b, r, s)
      | (True, b, s) \<Rightarrow>
          if \<not> tail_ok r k [b] then (False, of_nat (7 * k), b, r, is_error s ''varint overflow'')
          else if b AND 0x80 \<noteq> 0 then varint32_loop s (of_nat (7 * Suc k)) r
          else (True, of_nat (7 * Suc k), b, r, s))"
proof -
  have u: "unat (of_nat (7 * k) :: u8) = 7 * k"
    using assms by (simp add: unat_of_nat take_bit_nat_eq_self del: of_nat_mult)
  then have ge: "(32 :: u8) \<le> of_nat (7 * k)" and lt: "(of_nat (7 * k) :: u8) < 63 \<longleftrightarrow> k < 9"
    using assms unfolding word_le_nat_alt word_less_nat_alt by auto
  have "of_nat (7 * k) + 7 = (of_nat (7 * Suc k) :: u8)"
    by simp
  then show ?thesis
    by (subst varint32_loop.simps) (auto simp only: ge lt if_True if_False simp_thms Let_def tail_ok.simps
        de_Morgan_conj de_Morgan_disj not_not split: prod.split bool.split if_split)
qed

lemma varint32_loop_tail:
  assumes "avail cb inp s" "is_errmsg s = None" "5 \<le> k"
    "k + (case split_varint (input inp s) of Some (vs, rest) \<Rightarrow> length vs | None \<Rightarrow> length (input inp s)) \<le> 36"
  shows "case split_varint (input inp s) of
      Some (vs, rest) \<Rightarrow>
        if tail_ok r k vs
        then \<exists>s'. varint32_loop s (of_nat (7 * k)) r = (True, of_nat (7 * (k + length vs)), last vs, r, s') \<and>
          reads inp s vs s' \<and> input inp s' = rest
        else loop_fails (varint32_loop s (of_nat (7 * k)) r) ''varint overflow''
    | None \<Rightarrow> loop_fails (varint32_loop s (of_nat (7 * k)) r)
        (if tail_ok r k (input inp s) then ''end-of-stream'' else ''varint overflow'')"
  using assms
proof (induction "input inp s" arbitrary: s k)
  case Nil
  have "k \<le> 36" using Nil.prems(4) by (simp add: Nil.hyps [symmetric])
  then show ?case
    using Nil.prems(2,3) readbyte_Nil [OF Nil.prems(1)] Nil.hyps [symmetric]
    by (simp add: varint32_tail_step loop_fails_def is_error_def del: of_nat_mult)
next
  case (Cons b bs)
  note inp = Cons.hyps(2) [symmetric]
  obtain s' where s': "pb_readbyte s = (True, b, s')" "reads inp s [b] s'" "input inp s' = bs"
    using readbyte_Cons [OF Cons.prems(1) inp] by auto
  have e: "is_errmsg s' = None"
    using reads_errmsg [OF s'(2)] Cons.prems(2) by simp
  have k: "k \<le> 36" using Cons.prems(4) by (auto simp: inp split: option.splits if_splits)
  note step = varint32_tail_step [OF Cons.prems(3) k, of s r, unfolded s'(1) prod.case bool.case]
  show ?case
  proof (cases "tail_ok r k [b]")
    case False
    then have "loop_fails (varint32_loop s (of_nat (7 * k)) r) ''varint overflow''"
      unfolding step using e by (simp add: loop_fails_def is_error_def)
    with False show ?thesis
      by (auto simp: inp split: option.split)
  next
    case ok: True
    show ?thesis
    proof (cases "b AND 0x80 = 0")
      case True
      then show ?thesis
        unfolding step using ok s' by (simp add: inp del: of_nat_mult)
    next
      case False
      have "Suc k + (case split_varint (input inp s') of Some (vs, rest) \<Rightarrow> length vs | None \<Rightarrow> length (input inp s')) \<le> 36"
        using Cons.prems(4) False by (auto simp: inp s'(3) split: option.splits)
      from Cons.hyps(1) [OF s'(3) [symmetric] reads_avail [OF s'(2) Cons.prems(1)] e _ this] Cons.prems(3)
      show ?thesis
        unfolding step using ok False s'(2) split_varint_all [of bs]
        apply (auto simp: inp s'(3) reads_Cons split: option.splits if_splits simp del: of_nat_mult)
        done
    qed
  qed
qed


text \<open>The first byte with a continuation bit, and the loop up to the fifth.\<close>

lemma varint32_head:
  assumes "avail cb inp s" "input inp s = us @ rest" "us \<noteq> []" "length us \<le> 5"
    "\<forall>b \<in> set us. b AND 0x80 \<noteq> 0"
  shows "\<exists>s'. reads inp s us s' \<and> input inp s' = rest \<and> pb_decode_varint32_eof s =
    (case varint32_loop s' (of_nat (7 * length us)) (le7 us) of
       (False, bitpos, b, result, s) \<Rightarrow> (False, False, 0, s)
     | (True, bitpos, b, result, s) \<Rightarrow>
         if bitpos = 35 \<and> b AND 0x70 \<noteq> 0
         then (False, False, 0, is_error s ''varint overflow'')
         else (True, False, result, s))"
proof -
  obtain b ws where us: "us = b # ws" using assms(3) by (cases us) auto
  obtain s1 where 1: "pb_readbyte s = (True, b, s1)" "reads inp s [b] s1" "input inp s1 = ws @ rest"
    using readbyte_Cons [OF assms(1), of b "ws @ rest"] assms(2) us by auto
  have "Suc 0 + length ws \<le> 5" "\<forall>b \<in> set ws. b AND 0x80 \<noteq> 0"
    using assms(4,5) us by auto
  from varint32_loop_more [OF reads_avail [OF 1(2) assms(1)] 1(3) this, of "ucast (b AND 0x7F)"]
  obtain s2 where 2: "varint32_loop s1 7 (ucast (b AND 0x7F)) =
      varint32_loop s2 (of_nat (7 * length us)) (le7 us)" "reads inp s1 ws s2" "input inp s2 = rest"
    unfolding us by auto
  have "b AND 0x80 \<noteq> 0" using assms(5) us by simp
  with 1(1) 2(1) have "pb_decode_varint32_eof s =
    (case varint32_loop s2 (of_nat (7 * length us)) (le7 us) of
       (False, bitpos, b, result, s) \<Rightarrow> (False, False, 0, s)
     | (True, bitpos, b, result, s) \<Rightarrow>
         if bitpos = 35 \<and> b AND 0x70 \<noteq> 0
         then (False, False, 0, is_error s ''varint overflow'')
         else (True, False, result, s))"
    by (simp add: pb_decode_varint32_eof_def del: of_nat_mult)
  then show ?thesis
    using reads_Cons [OF 1(2) 2(2)] 2(3) us by blast
qed

lemma varint32_short_fails:
  assumes "avail cb inp s" "is_errmsg s = None" "k \<le> 4" "input inp s = []"
  shows "loop_fails (varint32_loop s (of_nat (7 * k)) r) ''end-of-stream''"
  using assms readbyte_Nil [OF assms(1,4)]
  by (simp add: varint32_loop_step loop_fails_def is_error_def del: of_nat_mult)

lemma varint32_None:
  assumes s: "avail cb inp s" "is_errmsg s = None" and bs: "split_varint (input inp s) = None"
    and len: "length (input inp s) \<le> 36"
  shows "fails (pb_decode_varint32 s)
    (if tail_ok (le7 (take 5 (input inp s))) 5 (drop 5 (input inp s)) then ''end-of-stream'' else ''varint overflow'')"
proof (cases "input inp s = []")
  case True
  then show ?thesis
    using readbyte_Nil [OF s(1) True] s(2)
    by (simp add: pb_decode_varint32_def pb_decode_varint32_eof_def fails_def is_error_def)
next
  case False
  let ?us = "take 5 (input inp s)" and ?ws = "drop 5 (input inp s)"
  have all: "\<forall>b \<in> set (input inp s). b AND 0x80 \<noteq> 0"
    using bs by (simp add: split_varint_None)
  have "?us \<noteq> []" "length ?us \<le> 5" "\<forall>b \<in> set ?us. b AND 0x80 \<noteq> 0"
    using False all by (auto dest: in_set_takeD)
  from varint32_head [OF s(1) _ this, of ?ws]
  obtain s' where s': "reads inp s ?us s'" "input inp s' = ?ws" "pb_decode_varint32_eof s =
    (case varint32_loop s' (of_nat (7 * length ?us)) (le7 ?us) of
       (False, bitpos, b, result, s) \<Rightarrow> (False, False, 0, s)
     | (True, bitpos, b, result, s) \<Rightarrow>
         if bitpos = 35 \<and> b AND 0x70 \<noteq> 0
         then (False, False, 0, is_error s ''varint overflow'')
         else (True, False, result, s))"
    by auto
  have e: "is_errmsg s' = None" and a: "avail cb inp s'"
    using reads_errmsg [OF s'(1)] s(2) reads_avail [OF s'(1) s(1)] by simp_all
  have "loop_fails (varint32_loop s' (of_nat (7 * length ?us)) (le7 ?us))
    (if tail_ok (le7 ?us) 5 ?ws then ''end-of-stream'' else ''varint overflow'')"
  proof (cases "length ?us \<le> 4")
    case True
    then have "?ws = []" by simp
    then show ?thesis
      using varint32_short_fails [OF a e True] s'(2) by simp
  next
    case False
    then have l: "length ?us = 5" by simp
    have "split_varint ?ws = None"
      using all by (auto simp: split_varint_None dest: in_set_dropD)
    then show ?thesis
      using varint32_loop_tail [OF a e, of 5 "le7 ?us"] l s'(2) len by simp
  qed
  then show ?thesis
    unfolding pb_decode_varint32_def s'(3) by (auto simp: loop_fails_def fails_def)
qed

lemma varint32_five_over:
  assumes s: "avail cb inp s" "is_errmsg s = None" and sp: "split_varint (input inp s) = Some (vs, rest)"
    and len: "length vs = 5" and top: "last vs AND 0x70 \<noteq> 0"
  shows "fails (pb_decode_varint32 s) ''varint overflow''"
proof -
  have vs: "input inp s = take 4 vs @ drop 4 vs @ rest" "take 4 vs \<noteq> []" "length (take 4 vs) = 4"
    using split_varint_append [OF sp] len by auto
  have take4: "take 4 vs = butlast vs" by (simp add: butlast_conv_take len)
  then have more: "\<forall>b \<in> set (take 4 vs). b AND 0x80 \<noteq> 0" and fin: "last vs AND 0x80 = 0"
    using split_varint_all [OF sp] by auto
  have "length (take 4 vs) \<le> 5" by simp
  from varint32_head [OF s(1) vs(1,2) this more] obtain s' where s': "reads inp s (take 4 vs) s'"
    "input inp s' = drop 4 vs @ rest" "pb_decode_varint32_eof s =
    (case varint32_loop s' (of_nat (7 * 4)) (le7 (take 4 vs)) of
       (False, bitpos, b, result, s) \<Rightarrow> (False, False, 0, s)
     | (True, bitpos, b, result, s) \<Rightarrow>
         if bitpos = 35 \<and> b AND 0x70 \<noteq> 0
         then (False, False, 0, is_error s ''varint overflow'')
         else (True, False, result, s))"
    unfolding vs(3) by auto
  have "drop 4 vs = [last vs]"
    using len by (cases vs rule: rev_cases) auto
  then have "split_varint (input inp s') = Some ([last vs], rest)"
    using s'(2) fin by simp
  from varint32_loop_parses [OF reads_avail [OF s'(1) s(1)] this, of 4 "le7 (take 4 vs)"]
  obtain s'' where "varint32_loop s' (of_nat (7 * 4)) (le7 (take 4 vs)) =
      (True, 35, last vs, le7 (take 4 vs) OR push_bit 28 (le7 [last vs]), s'')" "reads inp s' [last vs] s''"
    by auto
  then show ?thesis
    using top reads_errmsg [OF s'(1)] reads_errmsg [of inp s' "[last vs]" s''] s(2)
    by (simp add: pb_decode_varint32_def s'(3) fails_def is_error_def)
qed

lemma varint32_long:
  assumes s: "avail cb inp s" "is_errmsg s = None" and sp: "split_varint (input inp s) = Some (vs, rest)"
    and len: "5 < length vs" "length vs \<le> 36"
  shows "if accepts32 vs then \<exists>s'. pb_decode_varint32 s = (True, le7 vs, s') \<and> input inp s' = rest
    else fails (pb_decode_varint32 s) ''varint overflow''"
proof -
  let ?us = "take 5 vs" and ?ws = "drop 5 vs"
  have vs: "input inp s = ?us @ ?ws @ rest" "?us \<noteq> []" "length ?us = 5" "length ?us \<le> 5"
    using split_varint_append [OF sp] len by auto
  have all: "\<forall>b \<in> set (butlast vs). b AND 0x80 \<noteq> 0" "last vs AND 0x80 = 0"
    using split_varint_all [OF sp] by auto
  have "?us = take 5 (butlast vs)"
    using len by (simp add: take_butlast)
  then have more: "\<forall>b \<in> set ?us. b AND 0x80 \<noteq> 0"
    using all(1) in_set_takeD by metis
  have drop: "split_varint (us @ bs) = Some (us @ vs, rest) \<Longrightarrow> split_varint bs = Some (vs, rest)"
    if "\<forall>b \<in> set us. b AND 0x80 \<noteq> 0" for us bs vs
    using that by (induction us) auto
  have "split_varint (?us @ ?ws @ rest) = Some (?us @ ?ws, rest)"
    unfolding vs(1) [symmetric] append_take_drop_id by (rule sp)
  from drop [OF more this] have sp': "split_varint (?ws @ rest) = Some (?ws, rest)" .
  have val: "(le7 vs :: u32) = le7 ?us"
  proof -
    have "(le7 vs :: u32) = le7 (?us @ ?ws)" by simp
    also have "\<dots> = le7 ?us" unfolding le7_append vs(3) by (simp add: push_bit_over)
    finally show ?thesis .
  qed
  from varint32_head [OF s(1) vs(1,2,4) more] obtain s' where s': "reads inp s ?us s'"
    "input inp s' = ?ws @ rest" "pb_decode_varint32_eof s =
    (case varint32_loop s' (of_nat (7 * 5)) (le7 vs) of
       (False, bitpos, b, result, s) \<Rightarrow> (False, False, 0, s)
     | (True, bitpos, b, result, s) \<Rightarrow>
         if bitpos = 35 \<and> b AND 0x70 \<noteq> 0
         then (False, False, 0, is_error s ''varint overflow'')
         else (True, False, result, s))"
    unfolding vs(3) val by auto
  have e: "is_errmsg s' = None" and a: "avail cb inp s'"
    using reads_errmsg [OF s'(1)] s(2) reads_avail [OF s'(1) s(1)] by simp_all
  have tail: "if tail_ok (le7 vs) 5 ?ws
    then \<exists>s''. varint32_loop s' (of_nat (7 * 5)) (le7 vs) = (True, of_nat (7 * length vs), last ?ws, le7 vs, s'') \<and>
      input inp s'' = rest
    else loop_fails (varint32_loop s' (of_nat (7 * 5)) (le7 vs)) ''varint overflow''"
    using varint32_loop_tail [OF a e, of 5 "le7 vs"] len s'(2) sp' by (auto simp del: of_nat_mult split: if_splits)
  have "(of_nat (7 * length vs) :: u8) \<noteq> 35"
    using eof_bitpos_36 [OF len(2)] len(1) by simp
  with tail show ?thesis
    using len(1) unfolding pb_decode_varint32_def s'(3)
    by (auto simp: loop_fails_def fails_def accepts32_def simp del: of_nat_mult split: if_splits)
qed

text \<open>The 32-bit reader on every input whose varint is at most 36 bytes long.\<close>

lemma pb_decode_varint32_spec:
  assumes s: "avail cb inp s" "is_errmsg s = None"
  shows "case split_varint (input inp s) of
      Some (vs, rest) \<Rightarrow> length vs \<le> 36 \<longrightarrow>
        (if accepts32 vs then \<exists>s'. pb_decode_varint32 s = (True, le7 vs, s') \<and> input inp s' = rest
         else fails (pb_decode_varint32 s) ''varint overflow'')
    | None \<Rightarrow> length (input inp s) \<le> 36 \<longrightarrow> fails (pb_decode_varint32 s)
        (if tail_ok (le7 (take 5 (input inp s))) 5 (drop 5 (input inp s))
         then ''end-of-stream'' else ''varint overflow'')"
proof (cases "split_varint (input inp s)")
  case None
  then show ?thesis using varint32_None [OF s] by auto
next
  case (Some p)
  then obtain vs rest where sp: "split_varint (input inp s) = Some (vs, rest)" by (cases p) auto
  have short: "\<exists>s'. pb_decode_varint32 s = (True, le7 vs, s') \<and> input inp s' = rest"
    if "length vs \<le> 5" "length vs = 5 \<Longrightarrow> last vs AND 0x70 = 0"
    using varint32_eof_parses [OF s(1) sp that] by (auto simp: pb_decode_varint32_def)
  consider "length vs < 5" | "length vs = 5" | "5 < length vs" by linarith
  then show ?thesis
  proof cases
    case 3
    then show ?thesis using varint32_long [OF s sp] sp by simp
  next
    case 2
    then show ?thesis using short varint32_five_over [OF s sp] sp by (auto simp: accepts32_def)
  qed (use short sp in \<open>auto simp: accepts32_def\<close>)
qed

end

end
