(* ===== verification/Pb_Wire_Theorems.thy ===== *)
theory Pb_Wire_Theorems
  imports Pb_Istream_Spec Pb_Varint32
begin

text \<open>
  The properties of the wire format: what the encoder's primitives write, the decoder's primitives
  read back, and the decoder's behaviour on bytes the encoder does not produce. Each round trip
  runs the code of \<open>pb_encode.c\<close> on a buffer and the code of \<open>pb_decode.c\<close> on the bytes in it, with
  more input behind them, which is left in the stream.
\<close>

abbreviation buffer :: "u8 list \<Rightarrow> 's pb_istream" where
  "buffer bs \<equiv> pb_istream_from_buffer bs (of_nat (length bs))"

text \<open>After a successful write to a buffer the bytes are those of the contract.\<close>

lemma emitted:
  assumes e: "emits buf_write (\<lambda>st. st) f bs" and f: "f (pb_ostream_from_buffer n) = Some (True, s)"
    and len: "length bs < 18446744073709551616"
  shows "os_state s = bs" "length bs \<le> unat n"
proof -
  let ?s = "pb_ostream_from_buffer n"
  have s: "os_callback ?s = Some buf_write" "os_errmsg ?s = None" "bytes_written ?s = 0"
    "max_size ?s = n" "os_state ?s = []"
    by (simp_all add: pb_ostream_from_buffer_def)
  show "length bs \<le> unat n"
    using emits_full [OF e s(1,2)] s len f by (cases "length bs \<le> unat n") auto
  then show "os_state s = bs"
    using emits_fits [OF e s(1,2)] s f by auto
qed

lemma emitted_varint:
  assumes "pb_encode_varint (pb_ostream_from_buffer n) v = (True, s)"
  shows "os_state s = varint_bytes v"
  using emitted(1) [OF buf.emits_varint [of v], of n s] assms length_varint_bytes [of v] by simp

lemma parses_buffer:
  assumes "parses Buf_read buffer_of f bs v" "length (bs @ rest) < 18446744073709551616"
  shows "\<exists>s'. f (buffer (bs @ rest)) = (True, v, s') \<and> input buffer_of s' = rest"
  using parsesD [OF assms(1) avail_from_buffer input_from_buffer, of rest] assms(2)
  by auto

section \<open>Varints\<close>

text \<open>C5. What \<open>pb_encode_varint\<close> writes for any 64-bit value, \<open>pb_decode_varint\<close> reads back, and it
  takes exactly these bytes from the stream.\<close>

theorem varint_roundtrip:
  assumes "pb_encode_varint (pb_ostream_from_buffer n) v = (True, s)"
    and "length (os_state s @ rest) < 2 ^ 64"
  shows "\<exists>s'. pb_decode_varint (buffer (os_state s @ rest)) = (True, v, s') \<and>
    input buffer_of s' = rest"
  using parses_buffer [OF bufs.parses_varint, of v rest] assms(2)
  by (simp add: emitted_varint [OF assms(1)])

lemma encode_300:
  "pb_encode_varint (pb_ostream_from_buffer 2) 300 =
     (True, advance (pb_ostream_from_buffer 2) [0xAC, 0x02] 2)"
  by (simp add: pb_encode_varint_write varint_bytes.simps pb_write_def pb_ostream_from_buffer_def
      buf_write_def advance_def Let_def)

theorem varint_roundtrip_witness:
  "\<exists>s'. pb_decode_varint (buffer [0xAC, 0x02, 0x55]) = (True, 300, s') \<and>
     input buffer_of s' = [0x55]"
  using varint_roundtrip [OF encode_300, of "[0x55]"] by simp

text \<open>C6. \<open>pb_decode_varint\<close> on every input: the bytes up to the first without a continuation bit
  are the value, seven bits each; more than ten of them are an overflow, and so is a longer run of
  continuation bytes; a shorter input without an end is \<open>end-of-stream\<close>.\<close>

theorem pb_decode_varint_all_inputs:
  assumes "length bs < 2 ^ 64"
  shows "case split_varint bs of
      Some (vs, rest) \<Rightarrow>
        if length vs \<le> 10
        then \<exists>s'. pb_decode_varint (buffer bs :: 's pb_istream) = (True, le7 vs, s') \<and> input buffer_of s' = rest
        else fails (pb_decode_varint (buffer bs :: 's pb_istream)) ''varint overflow''
    | None \<Rightarrow> fails (pb_decode_varint (buffer bs :: 's pb_istream))
        (if length bs < 10 then ''end-of-stream'' else ''varint overflow'')"
proof -
  have "is_errmsg (buffer bs :: 's pb_istream) = None"
    by (simp add: pb_istream_from_buffer_def)
  from bufs.pb_decode_varint_spec [OF avail_from_buffer this] assms
  show ?thesis
    by (auto simp: input_from_buffer split: option.splits if_splits)
qed

theorem pb_decode_varint_all_inputs_witness:
  "fails (pb_decode_varint (buffer [0x80, 0x80] :: unit pb_istream)) ''end-of-stream''"
  using pb_decode_varint_all_inputs [of "[0x80, 0x80]"] by simp

text \<open>A varint never takes more than ten bytes, so a buffer with room for ten is always
  enough.\<close>

theorem pb_encode_varint_bound:
  "fst (pb_encode_varint (pb_ostream_from_buffer 10) v) \<and>
   unat (bytes_written (snd (pb_encode_varint (pb_ostream_from_buffer 10) v))) \<le> 10"
proof -
  have len: "length (varint_bytes v) \<le> 10"
    by (rule length_varint_bytes)
  then obtain st where "pb_encode_varint (pb_ostream_from_buffer 10) v =
      (True, advance (pb_ostream_from_buffer 10) st (length (varint_bytes v)))"
    using emits_fits [OF buf.emits_varint, of "pb_ostream_from_buffer 10" v]
    by (auto simp: pb_ostream_from_buffer_def)
  moreover have "unat (of_nat (length (varint_bytes v)) :: u64) = length (varint_bytes v)"
    using len by (intro unat_of_nat_64) simp
  ultimately show ?thesis
    using len by (simp add: pb_ostream_from_buffer_def)
qed

text \<open>Signed values: the zigzag encoding of any value, negative ones included, is undone.\<close>

theorem svarint_roundtrip:
  assumes "pb_encode_svarint (pb_ostream_from_buffer n) v = (True, s)"
    and "length (os_state s @ rest) < 2 ^ 64"
  shows "\<exists>s'. pb_decode_svarint (buffer (os_state s @ rest)) = (True, v, s') \<and>
    input buffer_of s' = rest"
proof -
  have "os_state s = varint_bytes (zigzag v)"
    using assms(1) by (intro emitted_varint) (simp add: pb_encode_svarint_def)
  then show ?thesis
    using parses_buffer [OF bufs.parses_svarint, of v rest] assms(2) by simp
qed

theorem svarint_roundtrip_witness:
  "\<exists>s'. pb_decode_svarint (buffer [0x03]) = (True, - 2, s') \<and> input buffer_of s' = []"
proof -
  have "zigzag (- 2) = 3"
    by (simp add: zigzag_def)
  then have "pb_encode_svarint (pb_ostream_from_buffer 1) (- 2) =
      (True, advance (pb_ostream_from_buffer 1) [0x03] 1)"
    by (simp add: pb_encode_svarint_def pb_encode_varint_write varint_bytes.simps pb_write_def
        pb_ostream_from_buffer_def buf_write_def advance_def Let_def)
  from svarint_roundtrip [OF this, of "[]"] show ?thesis
    by simp
qed

text \<open>A 32-bit varint reads back what was written for an unsigned value, and the ten bytes that
  the encoder writes for a negative \<open>int32\<close> are the same value again.\<close>

theorem varint32_roundtrip:
  assumes "pb_encode_varint (pb_ostream_from_buffer n) w = (True, s)"
    and "w = ucast (v :: u32) \<or> sint v < 0 \<and> w = scast v"
    and "length (os_state s @ rest) < 2 ^ 64"
  shows "\<exists>s'. pb_decode_varint32 (buffer (os_state s @ rest)) = (True, v, s') \<and>
    input buffer_of s' = rest"
  using parses_buffer [OF bufs.parses_varint32, of v rest]
    parses_buffer [OF bufs.parses_varint32_negative, of v rest] assms(2,3)
  by (auto simp: emitted_varint [OF assms(1)])

theorem varint32_roundtrip_witness:
  "\<exists>s'. pb_decode_varint32 (buffer [0xFE, 0xFF, 0xFF, 0xFF, 0xFF, 0xFF, 0xFF, 0xFF, 0xFF, 0x01]) =
     (True, - 2, s') \<and> input buffer_of s' = []"
proof -
  have "pb_encode_varint (pb_ostream_from_buffer 10) 0xFFFFFFFFFFFFFFFE =
    (True, advance (pb_ostream_from_buffer 10)
      [0xFE, 0xFF, 0xFF, 0xFF, 0xFF, 0xFF, 0xFF, 0xFF, 0xFF, 0x01] 10)"
    by (simp add: pb_encode_varint_write varint_bytes.simps pb_write_def
        pb_ostream_from_buffer_def buf_write_def advance_def Let_def)
  from varint32_roundtrip [OF this, of "- 2" "[]"] show ?thesis
    by simp
qed

text \<open>C17. \<open>pb_decode_varint32\<close> on every input whose varint is at most 36 bytes long (behind that the
  one-byte \<open>bitpos\<close> wraps around). It accepts up to four bytes, a fifth byte that is the last and has
  no bits that do not fit, and more than five bytes when those behind the fifth have no bits or are
  the sign bytes of a negative number; the value is then the low 32 bits. Everything else is
  \<open>varint overflow\<close>, and an input without an end is \<open>end-of-stream\<close> unless the bytes behind the fifth
  are not acceptable. So the bits \<open>0x70\<close> of a fifth byte that is not the last are not checked: the
  six bytes of \<open>7 * 2 ^ 32\<close> in the witness are accepted as 0.\<close>

theorem pb_decode_varint32_all_inputs:
  assumes "length bs < 2 ^ 64"
  shows "case split_varint bs of
      Some (vs, rest) \<Rightarrow> length vs \<le> 36 \<longrightarrow>
        (if length vs < 5 \<or> length vs = 5 \<and> last vs AND 0x70 = 0 \<or> 5 < length vs \<and> tail_ok (le7 vs) 5 (drop 5 vs)
         then \<exists>s'. pb_decode_varint32 (buffer bs :: 's pb_istream) = (True, le7 vs, s') \<and> input buffer_of s' = rest
         else fails (pb_decode_varint32 (buffer bs :: 's pb_istream)) ''varint overflow'')
    | None \<Rightarrow> length bs \<le> 36 \<longrightarrow> fails (pb_decode_varint32 (buffer bs :: 's pb_istream))
        (if tail_ok (le7 (take 5 bs)) 5 (drop 5 bs) then ''end-of-stream'' else ''varint overflow'')"
proof -
  have "is_errmsg (buffer bs :: 's pb_istream) = None"
    by (simp add: pb_istream_from_buffer_def)
  from bufs.pb_decode_varint32_spec [OF avail_from_buffer this] assms
  show ?thesis
    unfolding accepts32_def [symmetric] by (auto simp: input_from_buffer split: option.splits if_splits)
qed

theorem pb_decode_varint32_all_inputs_witness:
  "\<exists>s'. pb_decode_varint32 (buffer [0x80, 0x80, 0x80, 0x80, 0xF0, 0x00] :: unit pb_istream) = (True, 0, s') \<and>
     input buffer_of s' = []"
proof -
  have "(le7 [0x80, 0x80, 0x80, 0x80, 0xF0, 0x00] :: u32) = 0"
    by code_simp
  then show ?thesis
    using pb_decode_varint32_all_inputs [of "[0x80, 0x80, 0x80, 0x80, 0xF0, 0x00]"]
    by (simp del: le7.simps)
qed

text \<open>With 38 bytes \<open>bitpos\<close> has wrapped around: a byte at bit 259 is added at bit 3.\<close>

lemma varint32_bitpos_wraps:
  "fst (pb_decode_varint32 (buffer (replicate 37 0x80 @ [0x01]) :: unit pb_istream)) \<and>
   fst (snd (pb_decode_varint32 (buffer (replicate 37 0x80 @ [0x01]) :: unit pb_istream))) = 8"
  by code_simp

section \<open>Tags and skipping\<close>

text \<open>The tag of a field, for every field number the format has, and its wire type are read
  back.\<close>

theorem tag_roundtrip_buffer:
  assumes "pb_encode_tag (pb_ostream_from_buffer n) wt t = (True, s)"
    and "0 < t" "t < 2 ^ 29" "wt < 8" "length (os_state s @ rest) < 2 ^ 64"
  shows "\<exists>s'. pb_decode_tag (buffer (os_state s @ rest)) = (True, wt, t, False, s') \<and>
    input buffer_of s' = rest"
proof -
  have s: "os_state s = varint_bytes (push_bit 3 (ucast t) OR ucast wt)"
    using assms(1) by (intro emitted_varint) (simp add: pb_encode_tag_def)
  have "drop_bit 29 t = 0" "drop_bit 3 wt = 0" "t \<noteq> 0"
    using assms(2-4) by (auto simp: word_unat_eq_iff unat_drop_bit word_less_nat_alt)
  from bufs.tag_roundtrip [OF avail_from_buffer input_from_buffer this(1,3,2)] assms(5) s
  show ?thesis
    by (auto simp: input_from_buffer)
qed

theorem tag_roundtrip_buffer_witness:
  "\<exists>s'. pb_decode_tag (buffer [0x12, 0x03]) = (True, PB_WT_STRING, 2, False, s') \<and>
     input buffer_of s' = [0x03]"
proof -
  have "pb_encode_tag (pb_ostream_from_buffer 1) PB_WT_STRING 2 =
      (True, advance (pb_ostream_from_buffer 1) [0x12] 1)"
    by (simp add: pb_encode_tag_def pb_encode_varint_write varint_bytes.simps pb_write_def
        pb_ostream_from_buffer_def buf_write_def advance_def Let_def PB_WT_STRING_def)
  from tag_roundtrip_buffer [OF this, of "[0x03]"] show ?thesis
    by (simp add: PB_WT_STRING_def)
qed

text \<open>C11. An unknown field is skipped exactly: for each wire type \<open>pb_skip_field\<close> takes one value of
  that type, of any length, and nothing behind it.\<close>

theorem pb_skip_field_exact:
  assumes "wire_value wt bs" "length (bs @ rest) < 2 ^ 64"
  shows "\<exists>s'. pb_skip_field (buffer (bs @ rest)) wt = (True, s') \<and> input buffer_of s' = rest"
  using bufs.skip_field_ok [OF avail_from_buffer input_from_buffer assms(1), of rest] assms(2)
  by auto

theorem pb_skip_field_exact_witness:
  "\<exists>s'. pb_skip_field (buffer [0x02, 0x41, 0x42, 0x08]) PB_WT_STRING = (True, s') \<and>
     input buffer_of s' = [0x08]"
proof -
  have "wire_value PB_WT_STRING [0x02, 0x41, 0x42]"
    unfolding wire_value_def
    by (simp add: pb_consts) (rule exI [of _ "[0x41, 0x42]"], simp add: prefixed_def varint_bytes.simps)
  from pb_skip_field_exact [OF this, of "[0x08]"] show ?thesis
    by simp
qed

end
