(* ===== verification/Pb_Consumer.thy ===== *)
theory Pb_Consumer
  imports Pb_Istream_Spec
begin

text \<open>
  The code that runs on the substream of a length-delimited part (a callback of the user, a decoder
  of a field) is any program that uses the stream through \<open>pb_read\<close> (into a buffer) and \<open>bytes_left\<close>: the type
  \<open>reader\<close>. \<open>run_reader\<close> runs it on a stream, \<open>read_bytes\<close> on a byte string; \<open>run_reader_bytes\<close>
  shows that they agree, reads that fail included.
\<close>

text \<open>A consumer of a stream: any program that looks at \<open>bytes_left\<close> or calls \<open>pb_read\<close>, and goes on as it
  likes with what it learns, whether the read succeeded or not.\<close>

datatype 'a reader = Stop 'a | Look "u64 \<Rightarrow> 'a reader" | Read u64 "bool \<Rightarrow> u8 list \<Rightarrow> 'a reader"

primrec run_reader :: "'a reader \<Rightarrow> 's pb_istream \<Rightarrow> 'a \<times> 's pb_istream" where
  "run_reader (Stop a) s = (a, s)"
| "run_reader (Look f) s = run_reader (f (bytes_left s)) s"
| "run_reader (Read n f) s = (let r = pb_read s n in run_reader (f (fst r) (fst (snd r))) (snd (snd r)))"

text \<open>The same on a byte string: a read that asks for more than there is fails and takes nothing.\<close>

primrec read_bytes :: "'a reader \<Rightarrow> u8 list \<Rightarrow> 'a \<times> u8 list" where
  "read_bytes (Stop a) bs = (a, bs)"
| "read_bytes (Look f) bs = read_bytes (f (of_nat (length bs))) bs"
| "read_bytes (Read n f) bs =
     (if unat n \<le> length bs then read_bytes (f True (take (unat n) bs)) (drop (unat n) bs)
      else read_bytes (f False []) bs)"

lemma read_bytes_suffix: "\<exists>used. bs = used @ snd (read_bytes r bs)"
proof (induction r arbitrary: bs)
  case (Look f)
  show ?case using Look [OF rangeI] by simp
next
  case (Read n f)
  show ?case
  proof (cases "unat n \<le> length bs")
    case True
    obtain used where "drop (unat n) bs = used @ snd (read_bytes (f True (take (unat n) bs)) (drop (unat n) bs))"
      using Read [OF rangeI rangeI] by blast
    then have "bs = (take (unat n) bs @ used) @ snd (read_bytes (Read n f) bs)"
      using True append_take_drop_id [of "unat n" bs] by simp
    then show ?thesis by blast
  next
    case False
    then show ?thesis using Read [OF rangeI rangeI, of bs False "[]"] by simp
  qed
qed simp

lemma reads_errmsg_indep:
  "reads inp (s\<lparr>is_errmsg := e\<rparr>) bs s' \<Longrightarrow> reads inp s bs (s'\<lparr>is_errmsg := is_errmsg s\<rparr>)"
  by (simp add: reads_def)

context source
begin

lemma run_reader_bytes:
  assumes "avail cb inp s"
  shows "\<exists>s' used. run_reader r s = (fst (read_bytes r (input inp s)), s') \<and>
    reads inp s used (s'\<lparr>is_errmsg := is_errmsg s\<rparr>)"
  using assms
proof (induction r arbitrary: s)
  case (Stop a)
  have "reads inp s [] (s\<lparr>is_errmsg := is_errmsg s\<rparr>)" by simp
  then show ?case by auto
next
  case (Look f)
  have "of_nat (length (input inp s)) = bytes_left s" using length_input [OF Look.prems] by simp
  then show ?case using Look.IH [OF rangeI Look.prems] by simp
next
  case (Read n f)
  have len: "unat n \<le> length (input inp s) \<longleftrightarrow> n \<le> bytes_left s"
    using length_input [OF Read.prems] by (simp add: word_le_nat_alt)
  show ?case
  proof (cases "n \<le> bytes_left s")
    case True
    let ?bs = "take (unat n) (input inp s)"
    obtain s1 where s1: "pb_read s n = (True, ?bs, s1)" "reads inp s ?bs s1"
      using read_ok [OF Read.prems True] by blast
    have rest: "input inp s1 = drop (unat n) (input inp s)"
      using reads_input [OF s1(2)] True len by (metis append_take_drop_id same_append_eq)
    obtain s' used where s': "run_reader (f True ?bs) s1 = (fst (read_bytes (f True ?bs) (input inp s1)), s')"
      "reads inp s1 used (s'\<lparr>is_errmsg := is_errmsg s1\<rparr>)"
      using Read.IH [OF rangeI rangeI reads_avail [OF s1(2) Read.prems], of True ?bs] by auto
    have "reads inp s (?bs @ used) (s'\<lparr>is_errmsg := is_errmsg s\<rparr>)"
      using reads_append [OF s1(2) s'(2)] reads_errmsg [OF s1(2)] by simp
    then show ?thesis using s1(1) s'(1) True len rest by auto
  next
    case False
    then have r: "pb_read s n = (False, [], is_error s ''end-of-stream'')"
      using read_short [OF Read.prems] by simp
    let ?s = "is_error s ''end-of-stream''"
    have av: "avail cb inp ?s" and i: "input inp ?s = input inp s"
      using Read.prems by (simp_all add: is_error_def avail_def input_def)
    obtain s' used where s': "run_reader (f False []) ?s = (fst (read_bytes (f False []) (input inp ?s)), s')"
      "reads inp ?s used (s'\<lparr>is_errmsg := is_errmsg ?s\<rparr>)"
      using Read.IH [OF rangeI rangeI av, of False "[]"] by auto
    have "reads inp s used (s'\<lparr>is_errmsg := is_errmsg s\<rparr>)"
      using s'(2) by (simp add: reads_def is_error_def)
    then show ?thesis using r s'(1) False len i by auto
  qed
qed

end

text \<open>Closing does not depend on the error message of the substream, which the parent takes over.\<close>

lemma close_errmsg:
  assumes "is_callback sub = Buf_read" "pb_close_string_substream s (sub\<lparr>is_errmsg := e\<rparr>) = (True, s2)"
  shows "pb_close_string_substream s sub = (True, s2\<lparr>is_errmsg := is_errmsg sub\<rparr>)"
  using assms
  by (auto simp: pb_close_string_substream_def pb_read_null_def read_some_def is_error_def
      split: if_splits prod.splits bool.splits)

end
