(* ===== verification/Pb_Empty_Message.thy ===== *)
theory Pb_Empty_Message
  imports Pb_Decode_Spec
begin

text \<open>
  A message type without fields: its descriptor array is the terminator alone, which the search for
  tag 0 finds. The lemmas follow \<open>pb_decode\<close> on an input of fields with tag 0 whose key and value are
  one byte each: the key is its wire type (\<open>zero_tag_tag\<close>), the terminator is decoded as a required
  \<open>bool\<close> at the start of the structure (\<open>no_fields_known\<close>), and no required field is missing at the
  end (\<open>no_fields_end\<close>).
\<close>

lemma ucast_eq_0: "(ucast (v :: u8) :: u32) = 0 \<longleftrightarrow> v = 0"
  using unat_lt_8 [of v] by (simp add: word_unat_eq_iff unsigned_ucast_eq take_bit_nat_eq_self)

lemma low_key:
  assumes "(wt :: u8) < 8"
  shows "ucast wt AND 7 = (ucast wt :: u32)" "drop_bit 3 (ucast wt :: u32) = 0"
proof -
  have "unat wt < 8" using assms by (simp add: word_less_nat_alt)
  then have w: "unat (ucast wt :: u32) < 2 ^ 3" by (simp add: unsigned_ucast_eq take_bit_nat_eq_self)
  show "drop_bit 3 (ucast wt :: u32) = 0"
    using w by (intro word_unat_eq_iff [THEN iffD2]) (simp add: unat_drop_bit)
  have "take_bit 3 (ucast wt :: u32) = ucast wt"
    using w by (intro word_unat_eq_iff [THEN iffD2]) (simp add: unsigned_take_bit_eq take_bit_nat_eq_self)
  then show "ucast wt AND 7 = (ucast wt :: u32)" by (simp add: take_bit_eq_mask mask_eq_exp_minus_1)
qed


abbreviation at_input :: "u8 list \<Rightarrow> u64 \<Rightarrow> 's pb_istream" where
  "at_input bs n \<equiv> \<lparr>is_callback = Buf_read, is_state = Input bs, bytes_left = n, is_errmsg = None\<rparr>"

lemma zero_tag_tag:
  assumes "0 < wt" "wt < 8" "n + 2 \<noteq> 0"
  shows "pb_decode_tag (at_input (wt # bs) (n + 2)) = (True, ucast wt, 0, False, at_input bs (n + 1))"
proof -
  have "unat wt < 8" "wt \<noteq> 0" using assms by (auto simp: word_less_nat_alt)
  then have "wt AND 0x80 = 0" by (simp add: AND_80_eq_0)
  then show ?thesis
    using assms low_key [OF assms(2)] \<open>wt \<noteq> 0\<close>
    by (auto simp: ucast_eq_0 pb_decode_tag_def pb_decode_varint32_eof_def pb_readbyte_def call_read_def buf_read_def the_byte_def)
qed

text \<open>The locals while a message without fields is decoded.\<close>

definition no_fields :: "addr \<Rightarrow> dec_locals \<Rightarrow> bool" where
  "no_fields dest ls \<longleftrightarrow> iter ls = iter_at [] dest 0 \<and> fixed_count_field ls = None"

lemma no_fields_start: "no_fields dest (decode_start env [] dest)"
  by (simp add: no_fields_def decode_start_def pb_field_iter_begin_eq)

lemma no_fields_required: "no_fields dest ls \<Longrightarrow> no_fields dest (mark_required ls)"
  by (simp add: no_fields_def mark_required_def Let_def)

lemma no_fields_find:
  assumes "no_fields dest ls"
  shows "pb_field_iter_find (iter ls) 0 = Some (True, iter ls)"
  using assms by (simp add: no_fields_def pb_field_iter_find_def iter_search_empty field_at_def
      PB_LTYPE_def pb_consts PB_LAST_FIELD_def)

lemma no_fields_known:
  assumes "no_fields dest ls" "v AND 0x80 = 0" "n + 1 \<noteq> 0"
  shows "decode_known env d dec dec_noinit wt ls (at_input (v # rest) (n + 1), w) =
    Some (Continue, mark_required ls, at_input rest n,
      w\<lparr>mem := (mem w)(dest := if v \<noteq> 0 then 1 else 0)\<rparr>)"
proof -
  have it: "iter ls = iter_at [] dest 0" and f: "fixed_count_field ls = None"
    using assms(1) by (simp_all add: no_fields_def)
  have st8: "st8 m dest b = m(dest := b)" for m b
    by (simp add: st8_def store_def fun_eq_iff)
  have track: "track_fixed_count env d ls st = (True, ls, st)" for st :: "('a, 'b) dstate"
    by (simp add: track_fixed_count_def it field_at_def PB_HTYPE_def pb_consts PB_LAST_FIELD_def Let_def)
  have same: "iter (mark_required ls) = iter ls"
    by (simp add: mark_required_def Let_def)
  have "decode_field env d dec dec_noinit wt (iter_at [] dest 0) (at_input (v # rest) (n + 1), w) =
      Some (True, iter_at [] dest 0, at_input rest n, w\<lparr>mem := (mem w)(dest := if v \<noteq> 0 then 1 else 0)\<rparr>)"
    using assms(2,3)
    by (simp add: decode_field_def decoder_of_def
      PB_DECODERS_def decode_static_field_def pb_dec_bool_def on_value_def pb_decode_varint32_def pb_decode_varint32_eof_def
      pb_readbyte_def call_read_def buf_read_def the_byte_def poke_def st8 ucast_eq_0
      field_at_def PB_LTYPE_def PB_HTYPE_def PB_ATYPE_def pb_consts PB_LAST_FIELD_def Let_def)
  moreover have "(mark_required ls)\<lparr>iter := iter_at [] dest 0\<rparr> = mark_required ls"
    using same it by (cases "mark_required ls") simp
  ultimately show ?thesis
    by (simp add: decode_known_def track same it)
qed

lemma no_fields_end:
  assumes "no_fields dest ls"
  shows "decode_end env d ls st = (True, st)"
  using assms by (simp add: no_fields_def decode_end_def wrong_count_def all_seen_def req_field_count_def
      seek_end.simps field_at_def PB_HTYPE_def pb_consts PB_LAST_FIELD_def
      pb_field_iter_next_def required_before_def Let_def)

text \<open>The loop on fields whose key and value are one byte each.\<close>

abbreviation key_value :: "(u8 \<times> u8) list \<Rightarrow> u8 list" where
  "key_value ps \<equiv> concat (map (\<lambda>(wt, v). [wt, v]) ps)"

definition last_flag :: "(u8 \<times> u8) list \<Rightarrow> addr \<Rightarrow> 'h mach \<Rightarrow> 'h mach" where
  "last_flag ps dest w =
     (if ps = [] then w else w\<lparr>mem := (mem w)(dest := if snd (last ps) \<noteq> 0 then 1 else 0)\<rparr>)"

lemma last_flag_Cons:
  "last_flag ps dest (w\<lparr>mem := (mem w)(dest := if v \<noteq> 0 then 1 else 0)\<rparr>) = last_flag ((wt, v) # ps) dest w"
  by (auto simp: last_flag_def)

lemma no_fields_loop:
  assumes "\<forall>(wt, v) \<in> set ps. 0 < wt \<and> wt < 8 \<and> v AND 0x80 = 0"
    "2 * length ps < 2 ^ 64" "no_fields dest ls"
  shows "\<exists>ls'. no_fields dest ls' \<and>
    decode_loop (decode_round env d dec dec_noinit) ls (at_input (key_value ps) (of_nat (2 * length ps)), w) =
      Some (True, ls', at_input [] 0, last_flag ps dest w)"
  using assms
proof (induction ps arbitrary: ls w)
  case Nil
  then show ?case by (auto simp: decode_loop.simps last_flag_def)
next
  case (Cons p ps)
  obtain wt v where p: "p = (wt, v)" by (cases p)
  have h: "0 < wt" "wt < 8" "v AND 0x80 = 0" using Cons.prems(1) p by auto
  define n :: u64 where "n = of_nat (2 * length ps)"
  have n: "(of_nat (2 * length (p # ps)) :: u64) = n + 2" by (simp add: n_def)
  have n1: "n + 1 = of_nat (2 * length ps + 1)" by (simp add: n_def)
  have "unat (n + 2) = 2 * length ps + 2"
    using Cons.prems(2) unfolding n [symmetric] by (subst unat_of_nat_64) simp_all
  moreover have "unat (n + 1) = 2 * length ps + 1"
    using Cons.prems(2) unfolding n1 by (subst unat_of_nat_64) simp_all
  ultimately have nz: "n + 2 \<noteq> 0" "n + 1 \<noteq> 0" by auto
  let ?w = "w\<lparr>mem := (mem w)(dest := if v \<noteq> 0 then 1 else 0)\<rparr>"
  have round: "decode_round env d dec dec_noinit ls (at_input (wt # v # key_value ps) (n + 2), w) =
      Some (Continue, mark_required ls, at_input (key_value ps) n, ?w)"
    unfolding decode_round_def fst_conv snd_conv zero_tag_tag [OF h(1,2) nz(1)]
    by (simp add: no_fields_find [OF Cons.prems(3)] no_fields_known [OF Cons.prems(3) h(3) nz(2)])
  have "\<forall>(wt, v) \<in> set ps. 0 < wt \<and> wt < 8 \<and> v AND 0x80 = 0" "2 * length ps < 2 ^ 64"
    using Cons.prems(1,2) by auto
  from Cons.IH [OF this no_fields_required [OF Cons.prems(3)], folded n_def, of ?w]
  obtain ls' where ls': "no_fields dest ls'"
    "decode_loop (decode_round env d dec dec_noinit) (mark_required ls) (at_input (key_value ps) n, ?w) =
      Some (True, ls', at_input [] 0, last_flag (p # ps) dest w)"
    unfolding last_flag_Cons [of _ _ _ v wt] p by blast
  have "decode_loop (decode_round env d dec dec_noinit) ls (at_input (wt # v # key_value ps) (n + 2), w) =
      Some (True, ls', at_input [] 0, last_flag (p # ps) dest w)"
    by (subst decode_loop.simps) (simp only: pb_istream.simps fst_conv snd_conv nz(1) if_False round
        Option.bind.simps simp_thms if_True ls'(2))
  then show ?case
    unfolding n using ls'(1) by (auto simp: p)
qed

end
