(* ===== verification/Pb_Decode_Theorems.thy ===== *)
theory Pb_Decode_Theorems
  imports Pb_Decode_Spec Pb_Wire_Theorems Pb_Consumer Pb_Empty_Message
begin

text \<open>
  The properties of the message decoder: memory safety and termination on every input, the field
  iterator, delimited substreams, required fields, and two inputs or descriptors for which the code
  writes where it should not.
\<close>

lemma power_64: "(2 :: nat) ^ 64 = 18446744073709551616" and power_32: "(2 :: nat) ^ 32 = 4294967296"
  by simp_all

section \<open>Memory safety\<close>

text \<open>C1. For a message without pointers, callbacks and extensions whose fields lie inside a
  structure of \<open>n\<close> bytes (submessages recursively), \<open>pb_decode\<close> returns on every input, truncated,
  malformed or hostile, from a buffer or from any user stream that stores no more than it is asked
  for. Every byte of memory it has changed is in the structure at \<open>dest\<close> or is the local variable
  \<open>fixed_count_size\<close> of one of its own frames; it has not touched the allocator, and the stream
  has not grown.\<close>

theorem pb_decode_memory_safe:
  assumes "static_msg (dec_descs env) k fs n" "k < d"
    and "\<And>u c. length (fst (snd (call_read (is_callback s) u c))) \<le> c"
  shows "\<exists>ok s' w'. pb_decode env d fs dest (s, w) = Some (ok, s', w') \<and>
    (\<forall>a. mem w' a \<noteq> mem w a \<longrightarrow>
       dest \<le> a \<and> a < dest + n \<or> (\<exists>j < d. frame env j \<le> a \<and> a < frame env j + 4)) \<and>
    heap w' = heap w \<and> bytes_left s' \<le> bytes_left s"
proof -
  have "honest s"
    using assms(3) by (simp add: honest_def)
  then obtain ok s' w' where d: "pb_decode env d fs dest (s, w) = Some (ok, s', w')"
    and w: "within (region dest n \<union> frames env d) (s, w) (s', w')"
    using decode_safe [OF assms(1,2), of dest] unfolding safe_def
    by (metis fst_conv prod.exhaust)
  have "dest \<le> a \<and> a < dest + n \<or> (\<exists>j < d. frame env j \<le> a \<and> a < frame env j + 4)"
    if "mem w' a \<noteq> mem w a" for a
    using that w by (auto simp: within_def writes_in_def region_def frames_def)
  with d w show ?thesis
    by (auto simp: within_def follows_def word_le_nat_alt)
qed

definition demo_dec :: "('s, unit) dec_env" where
  "demo_dec = \<lparr>dec_descs = (\<lambda>_. []), call_decode = (\<lambda>_ _ _ st. (True, st)),
     call_ext_decode = (\<lambda>_ _ _ _ st. (True, st)), pb_realloc = (\<lambda>_ _ w. (0, w)),
     pb_free = (\<lambda>_ w. w), frame = (\<lambda>d. 2000 + 4 * int d)\<rparr>"

definition demo_struct :: "pb_field list" where
  "demo_struct =
     [\<lparr>tag = 1, ftype = 0x02, data_offset = 0, size_offset = 0, data_size = 4, array_size = 0, ptr = 0\<rparr>,
      \<lparr>tag = 2, ftype = 0x22, data_offset = 4, size_offset = -4, data_size = 4, array_size = 3, ptr = 0\<rparr>]"

lemma demo_static: "static_msg (\<lambda>_. []) 1 demo_struct 20"
  by (simp add: demo_struct_def fields_fit_def fields_wf_def field_at_def static_field_def
      value_fits_def cell_fits_def ltype_width_def PB_ATYPE_def PB_HTYPE_def PB_LTYPE_def pb_consts
      in_union_def member_size_def Let_def upt_rec)

theorem pb_decode_memory_safe_witness:
  "\<exists>ok s' w'. pb_decode demo_dec 2 demo_struct 1000
      (buffer [0x12, 0x05, 0x80, 0x80, 0x80, 0x80, 0x80] :: unit pb_istream,
       \<lparr>mem = (\<lambda>_. 0), heap = ()\<rparr>) = Some (ok, s', w') \<and>
    (\<forall>a. mem w' a \<noteq> 0 \<longrightarrow> 1000 \<le> a \<and> a < 1020 \<or> (\<exists>j < 2. 2000 + 4 * int j \<le> a \<and> a < 2004 + 4 * int j)) \<and>
    bytes_left s' \<le> 7"
proof -
  have h: "length (fst (snd (call_read (is_callback (buffer bs :: unit pb_istream)) u c))) \<le> c"
    for bs u c
    by (simp add: pb_istream_from_buffer_def call_read_def buf_read_def split: istate.split)
  have "static_msg (dec_descs (demo_dec :: (unit, unit) dec_env)) 1 demo_struct 20" "(1::nat) < 2"
    using demo_static by (simp_all add: demo_dec_def)
  from pb_decode_memory_safe [OF this h, of 1000
      "[0x12, 0x05, 0x80, 0x80, 0x80, 0x80, 0x80]" "\<lparr>mem = (\<lambda>_. 0), heap = ()\<rparr>"]
  show ?thesis
    by (simp add: demo_dec_def pb_istream_from_buffer_def)
qed

section \<open>The iterator\<close>

text \<open>C8. Looking up a field always returns: with the iterator at an entry with that tag, at the
  address of its data in the structure and with the number of required fields before it; or with
  the iterator where it was when no entry has the tag.\<close>

theorem pb_field_iter_find_spec:
  assumes "fields_wf fs" "i < length fs"
  shows "(\<exists>j < length fs. tag (fs ! j) = t \<and> PB_LTYPE (ftype (fs ! j)) \<noteq> PB_LTYPE_EXTENSION \<and>
      pb_field_iter_find (iter_at fs dest i) t = Some (True, iter_at fs dest j)) \<or>
    (\<forall>j < length fs. tag (fs ! j) = t \<longrightarrow> PB_LTYPE (ftype (fs ! j)) = PB_LTYPE_EXTENSION) \<and>
      pb_field_iter_find (iter_at fs dest i) t = Some (False, iter_at fs dest i)"
  using iter_search_from_start [OF assms, of
      "\<lambda>f. tag f = t \<and> PB_LTYPE (ftype f) \<noteq> PB_LTYPE_EXTENSION" dest]
  by (auto simp: pb_field_iter_find_def field_at_def)

theorem pb_field_iter_find_spec_witness:
  "pb_field_iter_find (iter_at demo_struct 1000 1) 1 = Some (True, iter_at demo_struct 1000 0) \<and>
   pData (iter_at demo_struct 1000 0) = 1000"
proof -
  have wf: "fields_wf demo_struct" "1 < length demo_struct"
    by (simp_all add: demo_struct_def fields_wf_def)
  have l: "length demo_struct = 2" "tag (demo_struct ! 0) = 1" "tag (demo_struct ! 1) = 2"
    "PB_LTYPE (ftype (demo_struct ! 0)) \<noteq> PB_LTYPE_EXTENSION"
    by (simp_all add: demo_struct_def PB_LTYPE_def pb_consts)
  have "j = 0" if "j < 2" "tag (demo_struct ! j) = 1" for j
    using that l(3) by (cases j) (auto simp: less_Suc_eq numeral_2_eq_2)
  with pb_field_iter_find_spec [OF wf, of 1 1000] l
  have "pb_field_iter_find (iter_at demo_struct 1000 1) 1 = Some (True, iter_at demo_struct 1000 0)"
    by (metis zero_less_numeral)
  then show ?thesis
    by (simp add: demo_struct_def field_at_def)
qed

text \<open>C13. A loop over the fields of a message runs its body once for every entry, in the order of
  the descriptors, with the iterator at the address of the entry, until a body fails.\<close>

theorem iter_do_visits_all:
  assumes "fields_wf fs" "fs \<noteq> []"
  shows "pb_field_iter_begin fs dest = (True, iter_at fs dest 0) \<and>
    iter_do body (iter_at fs dest 0) s = run_all body (map (iter_at fs dest) [0..<length fs]) s"
  using assms by (simp add: pb_field_iter_begin_eq field_at_tag iter_do_from)

theorem iter_do_visits_all_witness:
  "iter_do (\<lambda>it ts. Some (True, ts @ [(tag (pos_field it), pData it)])) (iter_at demo_struct 1000 0) [] =
     Some (True, [(1, 1000), (2, 1008)])"
proof -
  have "fields_wf demo_struct" "demo_struct \<noteq> []"
    by (simp_all add: demo_struct_def fields_wf_def)
  from iter_do_visits_all [OF this, THEN conjunct2, of "\<lambda>it ts.
      Some (True, ts @ [(tag (pos_field it), pData it)])" 1000 "[]"]
  show ?thesis
    by (simp add: demo_struct_def upt_rec and_then_opt_def field_at_def in_union_def member_size_def
        PB_ATYPE_def PB_HTYPE_def pb_consts)
qed

section \<open>Delimited messages\<close>

text \<open>C7. A length-delimited part is isolated. Let any program \<open>r\<close> that reads, looks at \<open>bytes_left\<close> and
  goes on as it likes run on the substream; a read may ask for more than there is, and the program
  may report success or failure. Then what it computes is what it computes on the bytes of the part
  alone (\<open>read_bytes\<close>, where a read that asks for too much fails and takes nothing), whatever follows
  the part in the parent; and afterwards the parent stands behind the part, whether all of it was
  read or not.\<close>

theorem in_substream_isolated:
  fixes w :: "'h mach"
  assumes "length body < 2 ^ 32" "length (prefixed body @ rest) < 2 ^ 64"
  shows "\<exists>s'. in_substream (\<lambda>(sub, w). case run_reader r sub of (a, sub') \<Rightarrow> Some (status a, sub', update a w))
      (buffer (prefixed body @ rest) :: 's pb_istream, w) =
    Some (status (fst (read_bytes r body)), s', update (fst (read_bytes r body)) w) \<and> input buffer_of s' = rest"
proof -
  have "avail Buf_read buffer_of (buffer (prefixed body @ rest) :: 's pb_istream)"
    "input buffer_of (buffer (prefixed body @ rest) :: 's pb_istream) = prefixed body @ rest"
    using assms(2) by (simp_all only: avail_from_buffer input_from_buffer power_64)
  from bufs.make_substream [OF this assms(1) [unfolded power_32]]
  obtain sub s1 :: "'s pb_istream" where make: "pb_make_string_substream (buffer (prefixed body @ rest)) = (True, sub, s1)"
    "avail Buf_read buffer_of sub" "input buffer_of sub = body"
    and close: "\<And>bs sub'. reads buffer_of sub bs sub' \<Longrightarrow> \<exists>s2.
      pb_close_string_substream s1 sub' = (True, s2) \<and> input buffer_of s2 = rest"
    by blast
  obtain sub' used where run: "run_reader r sub = (fst (read_bytes r body), sub')"
    "reads buffer_of sub used (sub'\<lparr>is_errmsg := is_errmsg sub\<rparr>)"
    using bufs.run_reader_bytes [OF make(2)] make(3) by metis
  obtain s2 where s2: "pb_close_string_substream s1 (sub'\<lparr>is_errmsg := is_errmsg sub\<rparr>) = (True, s2)"
    "input buffer_of s2 = rest"
    using close [OF run(2)] by blast
  have "is_callback sub' = Buf_read" using run(2) make(2) by (simp add: reads_def avail_def)
  from close_errmsg [OF this s2(1)]
  have "in_substream (\<lambda>(sub, w). case run_reader r sub of (a, sub') \<Rightarrow> Some (status a, sub', update a w))
      (buffer (prefixed body @ rest), w) =
    Some (status (fst (read_bytes r body)), s2\<lparr>is_errmsg := is_errmsg sub'\<rparr>, update (fst (read_bytes r body)) w)"
    unfolding in_substream_def fst_conv snd_conv make(1) by (simp add: run(1) close_substream_def)
  then show ?thesis using s2(2) by (auto simp: input_def)
qed

theorem in_substream_isolated_witness:
  "\<exists>s'. in_substream (\<lambda>(sub, w). case run_reader (Read 1 (\<lambda>_ bs. Read 5 (\<lambda>ok _. Stop (ok, bs)))) sub of
        (a, sub') \<Rightarrow> Some (fst a, sub', w\<lparr>heap := snd a\<rparr>))
      (buffer [0x02, 0x41, 0x42, 0x08] :: unit pb_istream, \<lparr>mem = (\<lambda>_. 0), heap = []\<rparr>) =
    Some (False, s', \<lparr>mem = (\<lambda>_. 0), heap = [0x41]\<rparr>) \<and> input buffer_of s' = [0x08]"
  using in_substream_isolated [where body = "[0x41, 0x42]" and rest = "[0x08]" and status = fst
      and r = "Read 1 (\<lambda>_ bs. Read 5 (\<lambda>ok _. Stop (ok, bs)))" and w = "\<lparr>mem = (\<lambda>_. 0), heap = []\<rparr>"
      and update = "\<lambda>a w. w\<lparr>heap := snd a\<rparr>"]
  by (simp add: prefixed_def varint_bytes.simps)

section \<open>Required fields\<close>

lemma decode_end_empty:
  assumes wf: "fields_wf fs" and it: "iter ls = iter_at fs dest 0"
    and ls: "fields_seen ls = [0, 0]" "fixed_count_field ls = None"
  shows "decode_end env d ls st =
    (if required_total fs = 0 then (True, st) else d_error st ''missing required field'')"
proof -
  have "\<not> seen_bit [0, 0] j" if "j < 64" for j
    using that by (auto simp: seen_bit_def nth_Cons split: nat.split)
  then have "all_seen [0, 0] (req_field_count (iter ls)) \<longleftrightarrow> required_total fs = 0"
  proof (cases "fs = []")
    case True
    then show ?thesis
      by (simp add: it req_field_count_def seek_end.simps pb_field_iter_next_def field_at_def
          Let_def PB_LAST_FIELD_def PB_HTYPE_def pb_consts required_total_def all_seen_def
          required_before_def)
  next
    case False
    have "all_seen [0, 0] (min 64 (required_total fs)) \<longleftrightarrow>
        (\<forall>i < min 64 (required_total fs). seen_bit [0, 0] i)"
      using \<open>\<And>j. j < 64 \<Longrightarrow> \<not> seen_bit [0, 0] j\<close> by (intro all_seen_iff) auto
    then show ?thesis
      using False \<open>\<And>j. j < 64 \<Longrightarrow> \<not> seen_bit [0, 0] j\<close>
      by (simp add: it req_field_count_eq [OF wf] PB_MAX_REQUIRED_FIELDS_def)
         (metis gr0I zero_less_numeral not_less0)
  qed
  then show ?thesis
    by (simp add: decode_end_def wrong_count_def ls)
qed

text \<open>On an empty input \<open>pb_decode\<close> succeeds exactly if the message has no required field, and
  otherwise says that one is missing.\<close>

theorem pb_decode_empty_input:
  assumes "static_msg (dec_descs env) k fs n" "k < d"
    and "bytes_left s = 0" "is_errmsg s = None"
  shows "\<exists>s' w'. pb_decode env d fs dest (s, w) = Some (required_total fs = 0, s', w') \<and>
    (required_total fs \<noteq> 0 \<longrightarrow> PB_GET_ERROR (is_errmsg s') = ''missing required field'')"
proof -
  obtain d' where d: "d = Suc d'"
    using assms(2) by (cases d) auto
  obtain m where m: "pb_message_set_to_defaults env d fs dest (mem w) = Some m"
    using defaults_safe [OF assms(1) less_imp_le [OF assms(2)] subset_refl, of dest "mem w"] by auto
  have release: "pb_release env d fs dest w' = Some w'" for w'
    by (rule release_static [OF assms(1) less_imp_le [OF assms(2)]])
  let ?ls = "decode_start env fs dest"
  have noinit: "pb_decode_noinit env d fs dest st =
      decode_message env d' (decode_init env d' (pb_decode_noinit env d')) (pb_decode_noinit env d')
        fs dest st" for st
    by (simp add: d)
  note fin = decode_end_empty [OF static_msg_wf [OF assms(1)], of ?ls dest env d']
  show ?thesis
    using assms(3,4) fin
    by (auto simp: pb_decode_def decode_init_def m noinit release decode_message_def
        decode_loop.simps poke_def decode_start_def pb_field_iter_begin_eq d_error_def is_error_def
        PB_GET_ERROR_def)
qed

theorem pb_decode_empty_input_witness:
  "\<exists>s' w'. pb_decode demo_dec 2 demo_struct 1000
      (buffer [] :: unit pb_istream, \<lparr>mem = (\<lambda>_. 0), heap = ()\<rparr>) = Some (False, s', w') \<and>
    PB_GET_ERROR (is_errmsg s') = ''missing required field''"
proof -
  have "static_msg (dec_descs (demo_dec :: (unit, unit) dec_env)) 1 demo_struct 20" "(1::nat) < 2"
    "bytes_left (buffer [] :: unit pb_istream) = 0" "is_errmsg (buffer [] :: unit pb_istream) = None"
    using demo_static by (simp_all add: demo_dec_def pb_istream_from_buffer_def)
  from pb_decode_empty_input [OF this, of 1000 "\<lparr>mem = (\<lambda>_. 0), heap = ()\<rparr>"]
  show ?thesis
    by (simp add: demo_struct_def required_total_def PB_HTYPE_def pb_consts)
qed

section \<open>Writes outside the data\<close>

text \<open>C16. The default value of a repeated field without a counter, which the generator uses for
  arrays of fixed count, is written as a counter over the array itself: an array of less than four
  bytes is overrun, whatever lies behind it.\<close>

theorem fixed_count_default_overruns:
  assumes "PB_ATYPE (ftype f) = PB_ATYPE_STATIC" "PB_HTYPE (ftype f) = PB_HTYPE_REPEATED"
    and "PB_LTYPE (ftype f) \<noteq> PB_LTYPE_EXTENSION" "tag f \<noteq> 0"
    and "data_offset f = 0" "size_offset f = 0" "uint (data_size f) * uint (array_size f) < 4"
  shows "\<exists>m'. pb_message_set_to_defaults env (Suc d) [f] dest m = Some m' \<and>
    dest + 3 \<notin> region dest (uint (data_size f) * uint (array_size f)) \<and> m' (dest + 3) = 0"
proof -
  have "fields_wf [f]" "[f] \<noteq> []"
    using assms(4) by (simp_all add: fields_wf_def)
  then have "pb_message_set_to_defaults env (Suc d) [f] dest m = Some (st32 m dest 0)"
    using assms(1-6)
    by (simp add: pb_message_set_to_defaults_def message_defaults_def pb_field_iter_begin_eq
        iter_do_from field_at_def and_then_opt_def field_default_def Let_def upt_rec)
  moreover have "st32 m dest 0 (dest + 3) = 0"
    by (simp add: st32_def store_def eval_nat_numeral)
  ultimately show ?thesis
    using assms(7) by (simp add: region_def)
qed

theorem fixed_count_default_overruns_witness:
  "\<exists>m'. pb_message_set_to_defaults (demo_dec :: (unit, unit) dec_env) 1
      [\<lparr>tag = 1, ftype = 0x20, data_offset = 0, size_offset = 0, data_size = 1, array_size = 2, ptr = 0\<rparr>]
      1000 (\<lambda>_. 0xFF) = Some m' \<and> 1003 \<notin> region 1000 2 \<and> m' 1003 = 0"
  using fixed_count_default_overruns [of "\<lparr>tag = 1, ftype = 0x20, data_offset = 0, size_offset = 0,
      data_size = 1, array_size = 2, ptr = 0\<rparr>" "demo_dec :: (unit, unit) dec_env" 0 1000 "\<lambda>_. 0xFF"]
  by (simp add: PB_ATYPE_def PB_HTYPE_def PB_LTYPE_def pb_consts)

text \<open>C18. A message type without fields accepts fields with the invalid tag 0 and any wire type other
  than 0, the invalid ones included, and writes to a structure that has nothing to write to: the
  terminator of its descriptor array is taken for a required \<open>bool\<close>. For every list \<open>ps\<close> of such keys
  and values of one byte, whatever \<open>dest\<close>, \<open>env\<close> and the memory are, \<open>pb_decode\<close> succeeds, has read
  everything, and the byte at \<open>dest\<close> is 0 or 1 as the last value is zero or not; but for the local
  \<open>fixed_count_size\<close> in the frame of the call, nothing else changes.\<close>

theorem zero_tag_accepted:
  fixes w :: "'h mach"
  assumes "ps \<noteq> []" "\<forall>(wt, v) \<in> set ps. 0 < wt \<and> wt < 8 \<and> v AND 0x80 = 0" "2 * length ps < 2 ^ 64"
  shows "\<exists>s'. pb_decode env (Suc d) [] dest (buffer (key_value ps) :: 's pb_istream, w) =
    Some (True, s', w\<lparr>mem := (st32 (mem w) (frame env d) 0)(dest := if snd (last ps) \<noteq> 0 then 1 else 0)\<rparr>) \<and>
    bytes_left s' = 0"
proof -
  have len: "length (key_value ps) = 2 * length ps"
    by (induction ps) auto
  let ?w = "w\<lparr>mem := st32 (mem w) (frame env d) 0\<rparr>"
  from no_fields_loop [where w = ?w and env = env and d = d and dest = dest and
      dec = "decode_init env d (pb_decode_noinit env d)" and dec_noinit = "pb_decode_noinit env d",
      OF assms(2,3) no_fields_start]
  obtain ls' :: dec_locals where ls': "no_fields dest ls'"
    "decode_loop (decode_round env d (decode_init env d (pb_decode_noinit env d)) (pb_decode_noinit env d))
      (decode_start env [] dest) (at_input (key_value ps) (of_nat (2 * length ps)) :: 's pb_istream, ?w) =
      Some (True, ls', at_input [] 0, last_flag ps dest ?w)"
    by blast
  have "last_flag ps dest ?w = w\<lparr>mem := (st32 (mem w) (frame env d) 0)(dest := if snd (last ps) \<noteq> 0 then 1 else 0)\<rparr>"
    using assms(1) by (simp add: last_flag_def)
  moreover have "pb_message_set_to_defaults env (Suc d) [] dest m = Some m" for m
    by (simp add: pb_message_set_to_defaults_def message_defaults_def pb_field_iter_begin_eq field_at_def
        PB_LAST_FIELD_def)
  ultimately show ?thesis
    using ls'(2)
    by (cases w) (simp add: pb_decode_def decode_init_def decode_message_def poke_def len pb_istream_from_buffer_def
        no_fields_end [OF ls'(1)])
qed

theorem zero_tag_accepted_witness:
  "\<exists>s'. pb_decode (demo_dec :: (unit, unit) dec_env) 1 [] 1000
      (buffer [0x04, 0x01, 0x07, 0x00, 0x06, 0x02] :: unit pb_istream, \<lparr>mem = (\<lambda>_. 0), heap = ()\<rparr>) =
    Some (True, s', \<lparr>mem = (st32 (\<lambda>_. 0) (frame (demo_dec :: (unit, unit) dec_env) 0) 0)(1000 := 1), heap = ()\<rparr>) \<and>
    bytes_left s' = 0"
  using zero_tag_accepted [of "[(0x04, 0x01), (0x07, 0x00), (0x06, 0x02)]" "demo_dec :: (unit, unit) dec_env" 0 1000
      "\<lparr>mem = (\<lambda>_. 0), heap = ()\<rparr>"]
  by simp

end
