(* ===== verification/Const_Time.thy ===== *)
theory Const_Time
  imports Prelude
begin

text \<open>
  The constant-time primitives of BoringSSL's \<open>crypto/internal.h\<close>, on the 64-bit
  \<open>crypto_word_t\<close>: masks that are all ones or all zeros, computed without branches. The lemmas say
  which comparison each of them computes, for every argument; \<open>constant_time_facts\<close> collects them.
\<close>

named_theorems constant_time_facts \<open>what the constant-time primitives compute\<close>

text \<open>The barriers return their argument; their purpose is to stop the optimiser.\<close>

definition value_barrier_w :: "u64 \<Rightarrow> u64" where
  "value_barrier_w a = a"

definition constant_time_msb_w :: "u64 \<Rightarrow> u64" where
  "constant_time_msb_w a = 0 - drop_bit (8 * 8 - 1) a"

definition constant_time_lt_w :: "u64 \<Rightarrow> u64 \<Rightarrow> u64" where
  "constant_time_lt_w a b = constant_time_msb_w (a XOR ((a XOR b) OR ((a - b) XOR a)))"

definition constant_time_lt_8 :: "u64 \<Rightarrow> u64 \<Rightarrow> u8" where
  "constant_time_lt_8 a b = ucast (constant_time_lt_w a b)"

definition constant_time_ge_w :: "u64 \<Rightarrow> u64 \<Rightarrow> u64" where
  "constant_time_ge_w a b = NOT (constant_time_lt_w a b)"

definition constant_time_ge_8 :: "u64 \<Rightarrow> u64 \<Rightarrow> u8" where
  "constant_time_ge_8 a b = ucast (constant_time_ge_w a b)"

definition constant_time_is_zero_w :: "u64 \<Rightarrow> u64" where
  "constant_time_is_zero_w a = constant_time_msb_w (NOT a AND (a - 1))"

definition constant_time_is_zero_8 :: "u64 \<Rightarrow> u8" where
  "constant_time_is_zero_8 a = ucast (constant_time_is_zero_w a)"

definition constant_time_eq_w :: "u64 \<Rightarrow> u64 \<Rightarrow> u64" where
  "constant_time_eq_w a b = constant_time_is_zero_w (a XOR b)"

definition constant_time_eq_8 :: "u64 \<Rightarrow> u64 \<Rightarrow> u8" where
  "constant_time_eq_8 a b = ucast (constant_time_eq_w a b)"

text \<open>An \<open>int\<close> is sign-extended to the width of the word.\<close>

definition constant_time_eq_int :: "u32 \<Rightarrow> u32 \<Rightarrow> u64" where
  "constant_time_eq_int a b = constant_time_eq_w (scast a) (scast b)"

definition constant_time_eq_int_8 :: "u32 \<Rightarrow> u32 \<Rightarrow> u8" where
  "constant_time_eq_int_8 a b = constant_time_eq_8 (scast a) (scast b)"

definition constant_time_select_w :: "u64 \<Rightarrow> u64 \<Rightarrow> u64 \<Rightarrow> u64" where
  "constant_time_select_w m a b = (value_barrier_w m AND a) OR (value_barrier_w (NOT m) AND b)"

definition constant_time_select_8 :: "u8 \<Rightarrow> u8 \<Rightarrow> u8 \<Rightarrow> u8" where
  "constant_time_select_8 m a b = ucast (constant_time_select_w (ucast m) (ucast a) (ucast b))"

definition constant_time_select_int :: "u64 \<Rightarrow> u32 \<Rightarrow> u32 \<Rightarrow> u32" where
  "constant_time_select_int m a b = ucast (constant_time_select_w m (scast a) (scast b))"

section \<open>What they compute\<close>

lemma drop_63: "drop_bit 63 (a :: u64) = of_bool (bit a 63)"
proof (rule bit_word_eqI)
  fix n
  assume "n < LENGTH(64)"
  then show "bit (drop_bit 63 a) n \<longleftrightarrow> bit (of_bool (bit a 63) :: u64) n"
    by (cases n) (auto simp: bit_simps dest: bit_imp_le_length)
qed

lemma constant_time_msb_w_eq [constant_time_facts]:
  "constant_time_msb_w a = (if bit a 63 then - 1 else 0)"
  by (simp add: constant_time_msb_w_def drop_63)

lemma bit_63_iff: "bit (a :: u64) 63 \<longleftrightarrow> 9223372036854775808 \<le> unat a"
proof -
  have "unat a div 2 ^ 63 = (if bit a 63 then 1 else 0)"
    using arg_cong [OF drop_63 [of a], of unat] by (simp add: unat_drop_bit)
  moreover have "unat a div 2 ^ 63 = 0 \<longleftrightarrow> unat a < 2 ^ 63"
    by (simp add: div_eq_0_iff)
  ultimately show ?thesis
    by (auto simp: not_less split: if_splits)
qed

lemma constant_time_lt_w_eq [constant_time_facts]:
  "constant_time_lt_w a b = (if a < b then - 1 else 0)"
proof -
  let ?d = "a - b"
  have d: "unat ?d = (if b \<le> a then unat a - unat b else unat a + 18446744073709551616 - unat b)"
    by (simp add: unat_sub_if' word_le_nat_alt)
  have "bit (a XOR ((a XOR b) OR (?d XOR a))) 63 \<longleftrightarrow>
      (if bit a 63 = bit b 63 then bit ?d 63 else bit b 63)"
    by (auto simp: bit_simps)
  also have "\<dots> \<longleftrightarrow> a < b"
    using unat_lt_64 [of a] unat_lt_64 [of b]
    by (auto simp: bit_63_iff d word_less_nat_alt word_le_nat_alt not_less split: if_splits)
  finally show ?thesis
    by (simp only: constant_time_lt_w_def constant_time_msb_w_eq)
qed

lemma constant_time_is_zero_w_eq [constant_time_facts]:
  "constant_time_is_zero_w a = (if a = 0 then - 1 else 0)"
proof -
  have "bit (NOT a AND (a - 1)) 63 \<longleftrightarrow> a = 0"
  proof (cases "a = 0")
    case True
    then show ?thesis by simp
  next
    case False
    then have "unat (a - 1) = unat a - 1"
      by (simp add: unat_minus_one)
    then have "\<not> (\<not> bit a 63 \<and> bit (a - 1) 63)"
      by (auto simp: bit_63_iff)
    with False show ?thesis
      by (auto simp: bit_simps)
  qed
  then show ?thesis
    by (simp only: constant_time_is_zero_w_def constant_time_msb_w_eq)
qed

lemma constant_time_eq_w_eq [constant_time_facts]:
  "constant_time_eq_w a b = (if a = b then - 1 else 0)"
proof -
  have "a XOR b = 0 \<longleftrightarrow> a = b"
    by (auto simp: bit_eq_iff bit_simps)
  then show ?thesis
    by (simp add: constant_time_eq_w_def constant_time_is_zero_w_eq)
qed

lemma ucast_mask [simp]: "ucast (- 1 :: u64) = (- 1 :: u8)"
  by (rule bit_word_eqI) (simp add: bit_simps)

lemma constant_time_8_eq [constant_time_facts]:
  "constant_time_lt_8 a b = (if a < b then - 1 else 0)"
  "constant_time_ge_8 a b = (if a \<ge> b then - 1 else 0)"
  "constant_time_is_zero_8 a = (if a = 0 then - 1 else 0)"
  "constant_time_eq_8 a b = (if a = b then - 1 else 0)"
  by (simp_all add: constant_time_lt_8_def constant_time_ge_8_def constant_time_ge_w_def
      constant_time_is_zero_8_def constant_time_eq_8_def constant_time_facts not_less [symmetric])

lemma constant_time_ge_w_eq [constant_time_facts]:
  "constant_time_ge_w a b = (if a \<ge> b then - 1 else 0)"
  by (simp add: constant_time_ge_w_def constant_time_lt_w_eq not_less [symmetric])

lemma scast_eq_iff: "(scast a :: u64) = scast b \<longleftrightarrow> a = (b :: u32)"
proof
  assume "(scast a :: u64) = scast b"
  then have "ucast (scast a :: u64) = (ucast (scast b :: u64) :: u32)"
    by simp
  moreover have "ucast (scast c :: u64) = c" for c :: u32
    by (rule bit_word_eqI) (auto simp: bit_simps less_Suc_eq)
  ultimately show "a = b"
    by simp
qed simp

lemma constant_time_eq_int_eq [constant_time_facts]:
  "constant_time_eq_int a b = (if a = b then - 1 else 0)"
  "constant_time_eq_int_8 a b = (if a = b then - 1 else 0)"
  by (simp_all add: constant_time_eq_int_def constant_time_eq_int_8_def constant_time_facts
      scast_eq_iff)

lemma constant_time_select_w_eq [constant_time_facts]:
  "constant_time_select_w (if c then - 1 else 0) a b = (if c then a else b)"
  by (simp add: constant_time_select_w_def value_barrier_w_def)

text \<open>The 8-bit select widens the mask with zeros: the upper bits select \<open>b\<close>, which has none.\<close>

lemma constant_time_select_8_eq [constant_time_facts]:
  "constant_time_select_8 (if c then - 1 else 0) a b = (if c then a else b)"
proof -
  have "constant_time_select_8 (- 1) a b = a"
    unfolding constant_time_select_8_def constant_time_select_w_def value_barrier_w_def
    by (rule bit_word_eqI) (auto simp: bit_simps)
  moreover have "constant_time_select_8 0 a b = b"
    unfolding constant_time_select_8_def constant_time_select_w_def value_barrier_w_def
    by (rule bit_word_eqI) (auto simp: bit_simps)
  ultimately show ?thesis
    by simp
qed

lemma constant_time_select_int_eq [constant_time_facts]:
  "constant_time_select_int (if c then - 1 else 0) a b = (if c then a else b)"
proof -
  have "ucast (scast x :: u64) = x" for x :: u32
    by (rule bit_word_eqI) (auto simp: bit_simps less_Suc_eq)
  then show ?thesis
    by (simp add: constant_time_select_int_def constant_time_select_w_eq)
qed

end
