(* ===== verification/Base64.thy ===== *)
theory Base64
  imports Const_Time
begin

text \<open>
  BoringSSL's \<open>crypto/base64/base64.c\<close>: the constant-time conversion of single characters, encoding
  and decoding of blocks, and the streaming encoder and decoder with their context. An output
  buffer is the list of the bytes written to it, from its start; a C \<open>int\<close> is an \<open>int\<close>.
\<close>

section \<open>Characters\<close>

text \<open>ASCII codes of the character constants in the code.\<close>

definition chr_A :: u8 where "chr_A = 0x41"
definition chr_Z :: u8 where "chr_Z = 0x5A"
definition chr_a :: u8 where "chr_a = 0x61"
definition chr_z :: u8 where "chr_z = 0x7A"
definition chr_0 :: u8 where "chr_0 = 0x30"
definition chr_9 :: u8 where "chr_9 = 0x39"
definition chr_plus :: u8 where "chr_plus = 0x2B"
definition chr_slash :: u8 where "chr_slash = 0x2F"
definition chr_equals :: u8 where "chr_equals = 0x3D"
definition chr_space :: u8 where "chr_space = 0x20"
definition chr_tab :: u8 where "chr_tab = 0x09"
definition chr_cr :: u8 where "chr_cr = 0x0D"
definition chr_newline :: u8 where "chr_newline = 0x0A"

lemmas chr_defs = chr_A_def chr_Z_def chr_a_def chr_z_def chr_0_def chr_9_def chr_plus_def
  chr_slash_def chr_equals_def chr_space_def chr_tab_def chr_cr_def chr_newline_def

definition constant_time_lt_args_8 :: "u8 \<Rightarrow> u8 \<Rightarrow> u8" where
  "constant_time_lt_args_8 a b = ucast (constant_time_msb_w (ucast a - ucast b))"

definition constant_time_in_range_8 :: "u8 \<Rightarrow> u8 \<Rightarrow> u8 \<Rightarrow> u8" where
  "constant_time_in_range_8 a mn mx = constant_time_lt_args_8 (a - mn) (mx - mn + 1)"

definition conv_bin2ascii :: "u8 \<Rightarrow> u8" where
  "conv_bin2ascii a0 =
     (let a = a0 AND 0x3F;
          ret = constant_time_select_8 (constant_time_eq_8 (ucast a) 62) chr_plus chr_slash;
          ret = constant_time_select_8 (constant_time_lt_args_8 a 62) (a - 52 + chr_0) ret;
          ret = constant_time_select_8 (constant_time_lt_args_8 a 52) (a - 26 + chr_a) ret;
          ret = constant_time_select_8 (constant_time_lt_args_8 a 26) (a + chr_A) ret
      in ret)"

definition base64_ascii_to_bin :: "u8 \<Rightarrow> u8" where
  "base64_ascii_to_bin a =
     (let is_upper = constant_time_in_range_8 a chr_A chr_Z;
          is_lower = constant_time_in_range_8 a chr_a chr_z;
          is_digit = constant_time_in_range_8 a chr_0 chr_9;
          is_plus = constant_time_eq_8 (ucast a) (ucast chr_plus);
          is_slash = constant_time_eq_8 (ucast a) (ucast chr_slash);
          is_equals = constant_time_eq_8 (ucast a) (ucast chr_equals);
          ret = 0xFF;
          ret = constant_time_select_8 is_upper (a - chr_A) ret;
          ret = constant_time_select_8 is_lower (a - chr_a + 26) ret;
          ret = constant_time_select_8 is_digit (a - chr_0 + 52) ret;
          ret = constant_time_select_8 is_plus 62 ret;
          ret = constant_time_select_8 is_slash 63 ret;
          ret = constant_time_select_8 is_equals 0 ret
      in ret)"

section \<open>Lengths\<close>

definition EVP_EncodedLength :: "u64 \<Rightarrow> u64 option" where
  "EVP_EncodedLength n =
     (if n + 2 < n then None
      else let n = (n + 2) div 3 in
        if drop_bit 2 (push_bit 2 n) \<noteq> n then None
        else let n = push_bit 2 n in
          if n + 1 < n then None else Some (n + 1))"

definition EVP_DecodedLength :: "u64 \<Rightarrow> u64 option" where
  "EVP_DecodedLength n = (if n mod 4 \<noteq> 0 then None else Some ((n div 4) * 3))"

section \<open>Encoding a block\<close>

definition encode_triple :: "u32 \<Rightarrow> u8 list" where
  "encode_triple l = [conv_bin2ascii (ucast (drop_bit 18 l)), conv_bin2ascii (ucast (drop_bit 12 l)),
     conv_bin2ascii (ucast (drop_bit 6 l)), conv_bin2ascii (ucast l)]"

text \<open>The loop \<open>while (remaining)\<close>. \<open>ret\<close> is the number of bytes it writes.\<close>

fun encode_loop :: "u8 list \<Rightarrow> u8 list" where
  "encode_loop [] = []"
| "encode_loop [x] =
     (let l = push_bit 16 (ucast x) in
      [conv_bin2ascii (ucast (drop_bit 18 (l :: u32))), conv_bin2ascii (ucast (drop_bit 12 l)),
       chr_equals, chr_equals])"
| "encode_loop [x, y] =
     (let l = push_bit 16 (ucast x) OR push_bit 8 (ucast y) in
      [conv_bin2ascii (ucast (drop_bit 18 (l :: u32))), conv_bin2ascii (ucast (drop_bit 12 l)),
       conv_bin2ascii (ucast (drop_bit 6 l)), chr_equals])"
| "encode_loop (x # y # z # src) =
     encode_triple (push_bit 16 (ucast x) OR push_bit 8 (ucast y) OR ucast z) @ encode_loop src"

text \<open>What is written to \<open>dst\<close>, with the trailing NUL, and the result.\<close>

definition EVP_EncodeBlock :: "u8 list \<Rightarrow> u8 list \<times> u64" where
  "EVP_EncodeBlock src =
     (let out = encode_loop src in (out @ [0], of_nat (length out)))"

section \<open>Decoding a block\<close>

text \<open>\<open>base64_decode_quad\<close>: the bytes it writes, whose number is \<open>*out_num_bytes\<close>.\<close>

definition base64_decode_quad :: "u8 \<Rightarrow> u8 \<Rightarrow> u8 \<Rightarrow> u8 \<Rightarrow> u8 list option" where
  "base64_decode_quad in0 in1 in2 in3 =
     (let a = base64_ascii_to_bin in0; b = base64_ascii_to_bin in1;
          c = base64_ascii_to_bin in2; d = base64_ascii_to_bin in3 in
      if a = 0xFF \<or> b = 0xFF \<or> c = 0xFF \<or> d = 0xFF then None
      else
        let v = push_bit 18 (ucast a) OR push_bit 12 (ucast b) OR push_bit 6 (ucast c) OR
                  ucast d :: u32;
            padding_pattern = push_bit 3 (of_bool (in0 = chr_equals)) OR
              push_bit 2 (of_bool (in1 = chr_equals)) OR
              push_bit 1 (of_bool (in2 = chr_equals)) OR of_bool (in3 = chr_equals) :: u32
        in if padding_pattern = 0
           then Some [ucast (drop_bit 16 v), ucast (drop_bit 8 v), ucast v]
           else if padding_pattern = 1 then Some [ucast (drop_bit 16 v), ucast (drop_bit 8 v)]
           else if padding_pattern = 3 then Some [ucast (drop_bit 16 v)]
           else None)"

text \<open>The loop of \<open>EVP_DecodeBase64\<close> over quads, its input a multiple of four long: success, and the
  bytes written to \<open>out\<close>.\<close>

fun decode_loop64 :: "u8 list \<Rightarrow> bool \<times> u8 list" where
  "decode_loop64 (i0 # i1 # i2 # i3 # rest) =
     (case base64_decode_quad i0 i1 i2 i3 of
        None \<Rightarrow> (False, [])
      | Some bs \<Rightarrow>
          if length bs \<noteq> 3 \<and> rest \<noteq> [] then (False, bs)
          else case decode_loop64 rest of (ok, out) \<Rightarrow> (ok, bs @ out))"
| "decode_loop64 _ = (True, [])"

text \<open>The result, the bytes written to \<open>out\<close> and \<open>*out_len\<close>.\<close>

definition EVP_DecodeBase64 :: "u64 \<Rightarrow> u8 list \<Rightarrow> bool \<times> u8 list \<times> u64" where
  "EVP_DecodeBase64 max_out inp =
     (let in_len = of_nat (length inp) in
      if in_len mod 4 \<noteq> 0 then (False, [], 0)
      else case EVP_DecodedLength in_len of
        None \<Rightarrow> (False, [], 0)
      | Some max_len \<Rightarrow>
          if max_out < max_len then (False, [], 0)
          else case decode_loop64 inp of
            (False, out) \<Rightarrow> (False, out, 0)
          | (True, out) \<Rightarrow> (True, out, of_nat (length out)))"

definition is_blank :: "u8 \<Rightarrow> bool" where
  "is_blank c \<longleftrightarrow> c = chr_space \<or> c = chr_tab"

definition is_space :: "u8 \<Rightarrow> bool" where
  "is_space c \<longleftrightarrow> c = chr_space \<or> c = chr_tab \<or> c = chr_cr \<or> c = chr_newline"

definition INT_MAX :: int where "INT_MAX = 2147483647"

text \<open>\<open>while (dst_len % 3 != 0) dst[dst_len++] = '\0'\<close>\<close>

fun pad3 :: "nat \<Rightarrow> nat" where
  "pad3 n = (if n mod 3 = 0 then 0 else if n mod 3 = 1 then 2 else 1)"

text \<open>The result is the return value and the bytes written to \<open>dst\<close>.\<close>

definition EVP_DecodeBlock :: "u8 list \<Rightarrow> int \<times> u8 list" where
  "EVP_DecodeBlock src0 =
     (let src = dropWhile is_blank src0;
          src = rev (dropWhile is_space (rev src)) in
      case EVP_DecodedLength (of_nat (length src)) of
        None \<Rightarrow> (-1, [])
      | Some dst_len \<Rightarrow>
          if uint dst_len > INT_MAX then (-1, [])
          else case EVP_DecodeBase64 dst_len src of
            (False, out, _) \<Rightarrow> (-1, out)
          | (True, out, n) \<Rightarrow>
              let out = out @ replicate (pad3 (length out)) 0 in (int (length out), out))"

section \<open>The streaming encoder and decoder\<close>

record EVP_ENCODE_CTX =
  data_used :: nat
  ctx_data :: "u8 list"
  eof_seen :: bool
  error_encountered :: bool

text \<open>\<open>EVP_EncodeInit\<close> and \<open>EVP_DecodeInit\<close> clear the structure.\<close>

definition EVP_EncodeInit :: EVP_ENCODE_CTX where
  "EVP_EncodeInit = \<lparr>data_used = 0, ctx_data = replicate 48 0, eof_seen = False,
     error_encountered = False\<rparr>"

definition EVP_DecodeInit :: EVP_ENCODE_CTX where
  "EVP_DecodeInit = \<lparr>data_used = 0, ctx_data = replicate 48 0, eof_seen = False,
     error_encountered = False\<rparr>"

text \<open>\<open>memcpy(&ctx->data[k], in, n)\<close>\<close>

definition put_data :: "EVP_ENCODE_CTX \<Rightarrow> nat \<Rightarrow> u8 list \<Rightarrow> EVP_ENCODE_CTX" where
  "put_data ctx k bs =
     ctx\<lparr>ctx_data := take k (ctx_data ctx) @ bs @ drop (k + length bs) (ctx_data ctx)\<rparr>"

text \<open>\<open>while (in_len >= sizeof(ctx->data))\<close>: the output, the total, and what is left of the input, or
  that the total overflowed.\<close>

function encode_lines :: "u64 \<Rightarrow> u8 list \<Rightarrow> bool \<times> u8 list \<times> u64 \<times> u8 list" where
  "encode_lines tot inp =
     (if length inp \<ge> 48 then
        let out = encode_loop (take 48 inp) @ [chr_newline];
            tot' = tot + of_nat (length out)
        in if tot' < tot then (False, out, tot, inp)
           else case encode_lines tot' (drop 48 inp) of
             (ok, out', tot'', rest) \<Rightarrow> (ok, out @ out', tot'', rest)
      else (True, [], tot, inp))"
  by pat_completeness auto
termination
  by (relation "measure (\<lambda>(tot, inp). length inp)") auto

declare encode_lines.simps [simp del]

text \<open>The context, the bytes written to \<open>out\<close> (without the NUL that follows them), \<open>*out_len\<close>.\<close>

definition EVP_EncodeUpdate ::
  "EVP_ENCODE_CTX \<Rightarrow> u8 list \<Rightarrow> EVP_ENCODE_CTX \<times> u8 list \<times> int" where
  "EVP_EncodeUpdate ctx inp0 =
     (if inp0 = [] then (ctx, [], 0)
      else if 48 - data_used ctx > length inp0 then
        ((put_data ctx (data_used ctx) inp0)\<lparr>data_used := data_used ctx + length inp0\<rparr>, [], 0)
      else
        let todo = 48 - data_used ctx;
            (ctx, out, inp) =
              (if data_used ctx \<noteq> 0 then
                 let ctx = put_data ctx (data_used ctx) (take todo inp0) in
                 (ctx\<lparr>data_used := 0\<rparr>, encode_loop (ctx_data ctx) @ [chr_newline], drop todo inp0)
               else (ctx, [], inp0))
        in case encode_lines (of_nat (length out)) inp of
             (False, out', _, _) \<Rightarrow> (ctx, out @ out', 0)
           | (True, out', tot, rest) \<Rightarrow>
               ((put_data ctx 0 rest)\<lparr>data_used := length rest\<rparr>, out @ out',
                if uint tot > INT_MAX then 0 else uint tot))"

definition EVP_EncodeFinal :: "EVP_ENCODE_CTX \<Rightarrow> EVP_ENCODE_CTX \<times> u8 list \<times> int" where
  "EVP_EncodeFinal ctx =
     (if data_used ctx = 0 then (ctx, [], 0)
      else
        let out = encode_loop (take (data_used ctx) (ctx_data ctx)) @ [chr_newline] in
        (ctx\<lparr>data_used := 0\<rparr>, out, int (length out)))"

text \<open>The loop of \<open>EVP_DecodeUpdate\<close>: whether it runs to its end, the context, and the output.\<close>

fun decode_update_loop ::
  "EVP_ENCODE_CTX \<Rightarrow> u8 list \<Rightarrow> bool \<times> EVP_ENCODE_CTX \<times> u8 list" where
  "decode_update_loop ctx [] = (True, ctx, [])"
| "decode_update_loop ctx (c # inp) =
     (if is_space c then decode_update_loop ctx inp
      else if eof_seen ctx then (False, ctx\<lparr>error_encountered := True\<rparr>, [])
      else
        let ctx = (put_data ctx (data_used ctx) [c])\<lparr>data_used := data_used ctx + 1\<rparr> in
        if data_used ctx = 4 then
          (case base64_decode_quad (ctx_data ctx ! 0) (ctx_data ctx ! 1) (ctx_data ctx ! 2)
                  (ctx_data ctx ! 3) of
             None \<Rightarrow> (False, ctx\<lparr>error_encountered := True\<rparr>, [])
           | Some bs \<Rightarrow>
               let ctx = ctx\<lparr>data_used := 0\<rparr>;
                   ctx = (if length bs < 3 then ctx\<lparr>eof_seen := True\<rparr> else ctx)
               in case decode_update_loop ctx inp of (ok, ctx, out) \<Rightarrow> (ok, ctx, bs @ out))
        else decode_update_loop ctx inp)"

text \<open>The context, the result, the bytes written to \<open>out\<close>, and \<open>*out_len\<close>.\<close>

definition EVP_DecodeUpdate ::
  "EVP_ENCODE_CTX \<Rightarrow> u8 list \<Rightarrow> EVP_ENCODE_CTX \<times> int \<times> u8 list \<times> int" where
  "EVP_DecodeUpdate ctx inp =
     (if error_encountered ctx then (ctx, -1, [], 0)
      else case decode_update_loop ctx inp of
        (False, ctx, out) \<Rightarrow> (ctx, -1, out, 0)
      | (True, ctx, out) \<Rightarrow>
          if int (length out) > INT_MAX then (ctx\<lparr>error_encountered := True\<rparr>, -1, out, 0)
          else (ctx, if eof_seen ctx then 0 else 1, out, int (length out)))"

definition EVP_DecodeFinal :: "EVP_ENCODE_CTX \<Rightarrow> int \<times> int" where
  "EVP_DecodeFinal ctx =
     (if error_encountered ctx \<or> data_used ctx \<noteq> 0 then (-1, 0) else (1, 0))"

end
