(* ===== verification/Base64_Stream.thy ===== *)
theory Base64_Stream
  imports Base64_Spec
begin

text \<open>
  The streaming functions of \<open>base64.c\<close> against what they should compute of the whole input: the
  encoder writes the lines of the PEM format however the input is cut into updates, and the decoder
  reads encoded text with white space anywhere, however it is cut. \<open>encode_chunks\<close> and
  \<open>decode_chunks\<close> are the callers' loops: init, updates, final, and only \<open>*out_len\<close> bytes of each
  output are used.
\<close>

section \<open>The encoder\<close>

text \<open>The full lines of an input, and the bytes that are left.\<close>

function full_lines :: "u8 list \<Rightarrow> u8 list" where
  "full_lines bs =
     (if length bs \<ge> 48 then encode_loop (take 48 bs) @ [chr_newline] @ full_lines (drop 48 bs)
      else [])"
  by pat_completeness auto
termination by (relation "measure length") auto

declare full_lines.simps [simp del]

definition rest_of_line :: "u8 list \<Rightarrow> u8 list" where
  "rest_of_line bs = drop (48 * (length bs div 48)) bs"

definition pem_text :: "u8 list \<Rightarrow> u8 list" where
  "pem_text bs = full_lines bs @
     (if rest_of_line bs = [] then [] else encode_loop (rest_of_line bs) @ [chr_newline])"

lemma rest_of_line_short [simp]: "length bs < 48 \<Longrightarrow> rest_of_line bs = bs"
  by (simp add: rest_of_line_def)

lemma full_lines_short [simp]: "length bs < 48 \<Longrightarrow> full_lines bs = []"
  by (simp add: full_lines.simps)

lemma length_rest_of_line: "length (rest_of_line bs) < 48"
  using mod_less_divisor [of 48 "length bs"]
  by (simp add: rest_of_line_def minus_mult_div_eq_mod)

lemma rest_of_line_long: "length bs \<ge> 48 \<Longrightarrow> rest_of_line bs = rest_of_line (drop 48 bs)"
  by (simp add: rest_of_line_def le_div_geq add.commute)

lemma full_lines_append:
  "full_lines (xs @ ys) = full_lines xs @ full_lines (rest_of_line xs @ ys) \<and>
   rest_of_line (xs @ ys) = rest_of_line (rest_of_line xs @ ys)"
proof (induction xs rule: full_lines.induct)
  case (1 xs)
  show ?case
  proof (cases "length xs \<ge> 48")
    case True
    then have "take 48 (xs @ ys) = take 48 xs" "drop 48 (xs @ ys) = drop 48 xs @ ys"
      "length (xs @ ys) \<ge> 48"
      by simp_all
    with 1 [OF True] True show ?thesis
      by (simp add: full_lines.simps [of "xs @ ys"] full_lines.simps [of xs]
          rest_of_line_long [of "xs @ ys"] rest_of_line_long [of xs])
  qed simp
qed

lemma encode_lines_eq:
  "unat tot + length (full_lines inp) < 18446744073709551616 \<Longrightarrow>
     encode_lines tot inp =
       (True, full_lines inp, tot + of_nat (length (full_lines inp)), rest_of_line inp)"
proof (induction tot inp rule: encode_lines.induct)
  case (1 tot inp)
  show ?case
  proof (cases "length inp \<ge> 48")
    case True
    let ?out = "encode_loop (take 48 inp) @ [chr_newline]"
    let ?tot = "tot + of_nat (length ?out)"
    have len: "length (full_lines inp) = length ?out + length (full_lines (drop 48 inp))"
      using True by (simp add: full_lines.simps [of inp])
    have u: "unat ?tot = unat tot + length ?out"
      using 1(2) len by (intro unat_add_64) simp
    then have "\<not> ?tot < tot"
      by (simp add: word_less_nat_alt)
    with 1(1) [OF True refl refl] True 1(2) len u show ?thesis
      by (simp add: encode_lines.simps [of tot inp] full_lines.simps [of inp]
          rest_of_line_long [of inp] Let_def add.assoc)
  qed (simp add: encode_lines.simps [of tot inp])
qed

text \<open>The invariant of the context, and the input it still holds.\<close>

definition enc_ok :: "EVP_ENCODE_CTX \<Rightarrow> bool" where
  "enc_ok ctx \<longleftrightarrow> data_used ctx < 48 \<and> length (ctx_data ctx) = 48"

definition pending :: "EVP_ENCODE_CTX \<Rightarrow> u8 list" where
  "pending ctx = take (data_used ctx) (ctx_data ctx)"

lemma enc_ok_init: "enc_ok EVP_EncodeInit" "pending EVP_EncodeInit = []"
  by (simp_all add: enc_ok_def pending_def EVP_EncodeInit_def)

lemma put_data_sel [simp]:
  "data_used (put_data ctx k bs) = data_used ctx" "eof_seen (put_data ctx k bs) = eof_seen ctx"
  "error_encountered (put_data ctx k bs) = error_encountered ctx"
  "ctx_data (put_data ctx k bs) = take k (ctx_data ctx) @ bs @ drop (k + length bs) (ctx_data ctx)"
  by (simp_all add: put_data_def)

lemma EVP_EncodeUpdate_spec:
  assumes ok: "enc_ok ctx" and small: "length (full_lines (pending ctx @ inp)) \<le> 2147483647"
  shows "\<exists>ctx'. EVP_EncodeUpdate ctx inp = (ctx', full_lines (pending ctx @ inp),
      int (length (full_lines (pending ctx @ inp)))) \<and>
    enc_ok ctx' \<and> pending ctx' = rest_of_line (pending ctx @ inp)"
proof -
  let ?u = "data_used ctx" and ?d = "ctx_data ctx"
  have u: "?u < 48" "length ?d = 48" "length (pending ctx) = ?u"
    using ok by (simp_all add: enc_ok_def pending_def)
  consider (empty) "inp = []" | (short) "inp \<noteq> []" "48 - ?u > length inp"
    | (full) "inp \<noteq> []" "\<not> 48 - ?u > length inp"
    by blast
  then show ?thesis
  proof cases
    case empty
    then show ?thesis
      using ok u by (simp add: EVP_EncodeUpdate_def)
  next
    case short
    then show ?thesis
      using u by (simp add: EVP_EncodeUpdate_def enc_ok_def) (simp add: pending_def)
  next
    case full
    let ?todo = "48 - ?u"
    let ?line = "take ?u ?d @ take ?todo inp"
    define out where "out = (if ?u \<noteq> 0 then encode_loop ?line @ [chr_newline] else [])"
    define rest where "rest = (if ?u \<noteq> 0 then drop ?todo inp else inp)"
    define ctx1 where "ctx1 = (if ?u \<noteq> 0
      then (put_data ctx ?u (take ?todo inp))\<lparr>data_used := 0\<rparr> else ctx)"
    have ctx1: "data_used ctx1 = 0" "length (ctx_data ctx1) = 48"
      using u full by (simp_all add: ctx1_def)
    have whole: "full_lines (pending ctx @ inp) = out @ full_lines rest"
      "rest_of_line (pending ctx @ inp) = rest_of_line rest"
    proof -
      have "take 48 (pending ctx @ inp) = ?line" "drop 48 (pending ctx @ inp) = drop ?todo inp"
        "length (pending ctx @ inp) \<ge> 48"
        using u full by (simp_all add: pending_def)
      moreover have "pending ctx = []" if "?u = 0"
        using that by (simp add: pending_def)
      ultimately show "full_lines (pending ctx @ inp) = out @ full_lines rest"
        "rest_of_line (pending ctx @ inp) = rest_of_line rest"
        by (cases "?u = 0"; simp add: out_def rest_def full_lines.simps [of "pending ctx @ inp"]
            rest_of_line_long [of "pending ctx @ inp"])+
    qed
    have bound: "length out + length (full_lines rest) \<le> 2147483647"
      using small whole(1) by simp
    have n: "unat (of_nat (length out) :: u64) = length out"
      "unat (of_nat (length out) + of_nat (length (full_lines rest)) :: u64) =
         length out + length (full_lines rest)"
      using bound unat_of_nat_64 [of "length out"]
        unat_of_nat_64 [of "length out + length (full_lines rest)"]
      by simp_all
    have lines: "encode_lines (of_nat (length out)) rest = (True, full_lines rest,
        of_nat (length out) + of_nat (length (full_lines rest)), rest_of_line rest)"
      using n(1) bound by (intro encode_lines_eq) simp
    have total: "uint (of_nat (length out) + of_nat (length (full_lines rest)) :: u64) =
        int (length out + length (full_lines rest))"
      using n(2) by (metis uint_nat)
    have "EVP_EncodeUpdate ctx inp =
        (case encode_lines (of_nat (length out)) rest of
             (False, out', _, _) \<Rightarrow> (ctx1, out @ out', 0)
           | (True, out', tot, rest') \<Rightarrow>
               ((put_data ctx1 0 rest')\<lparr>data_used := length rest'\<rparr>, out @ out',
                if uint tot > INT_MAX then 0 else uint tot))"
      using full u by (cases "?u = 0"; simp add: EVP_EncodeUpdate_def out_def rest_def ctx1_def Let_def
          split: prod.split bool.split)
    also have "\<dots> = ((put_data ctx1 0 (rest_of_line rest))\<lparr>data_used := length (rest_of_line rest)\<rparr>,
        out @ full_lines rest, int (length out + length (full_lines rest)))"
      using bound by (simp add: lines total INT_MAX_def)
    finally show ?thesis
      using ctx1 length_rest_of_line [of rest] unfolding whole
      by (simp add: enc_ok_def pending_def)
  qed
qed

lemma EVP_EncodeFinal_spec:
  assumes "enc_ok ctx"
  shows "\<exists>ctx'. EVP_EncodeFinal ctx = (ctx',
      (if pending ctx = [] then [] else encode_loop (pending ctx) @ [chr_newline]),
      int (length (if pending ctx = [] then [] else encode_loop (pending ctx) @ [chr_newline])))"
  using assms by (auto simp: EVP_EncodeFinal_def pending_def enc_ok_def Let_def)

fun encode_chunks :: "EVP_ENCODE_CTX \<Rightarrow> u8 list list \<Rightarrow> u8 list" where
  "encode_chunks ctx [] = (case EVP_EncodeFinal ctx of (ctx, out, n) \<Rightarrow> take (nat n) out)"
| "encode_chunks ctx (c # cs) =
     (case EVP_EncodeUpdate ctx c of (ctx, out, n) \<Rightarrow> take (nat n) out @ encode_chunks ctx cs)"

lemma encode_chunks_spec:
  "enc_ok ctx \<Longrightarrow> length (full_lines (pending ctx @ concat cs)) \<le> 2147483647 \<Longrightarrow>
     encode_chunks ctx cs = pem_text (pending ctx @ concat cs)"
proof (induction cs arbitrary: ctx)
  case Nil
  then show ?case
    using EVP_EncodeFinal_spec [of ctx] by (auto simp: pem_text_def enc_ok_def pending_def)
next
  case (Cons c cs)
  have split: "full_lines (pending ctx @ concat (c # cs)) =
      full_lines (pending ctx @ c) @ full_lines (rest_of_line (pending ctx @ c) @ concat cs)"
    "rest_of_line (pending ctx @ concat (c # cs)) =
      rest_of_line (rest_of_line (pending ctx @ c) @ concat cs)"
    using full_lines_append [of "pending ctx @ c" "concat cs"] by simp_all
  then obtain ctx' where "EVP_EncodeUpdate ctx c = (ctx', full_lines (pending ctx @ c),
      int (length (full_lines (pending ctx @ c))))" "enc_ok ctx'"
    "pending ctx' = rest_of_line (pending ctx @ c)"
    using EVP_EncodeUpdate_spec [of ctx c] Cons.prems by auto
  with Cons.IH [of ctx'] Cons.prems split show ?case
    by (simp add: pem_text_def)
qed

section \<open>Encoded text\<close>

lemma encode_loop_append:
  "length xs mod 3 = 0 \<Longrightarrow> encode_loop (xs @ ys) = encode_loop xs @ encode_loop ys"
  by (induction xs rule: encode_loop.induct) simp_all

lemma encode_loop_chars: "c \<in> set (encode_loop bs) \<Longrightarrow> \<not> is_space c"
  by (induction bs rule: encode_loop.induct)
    (auto simp: encode_triple_def Let_def ascii_to_bin_conv(3), auto simp: is_space_def chr_defs)

lemma filter_encode_loop [simp]: "filter (\<lambda>c. \<not> is_space c) (encode_loop bs) = encode_loop bs"
  using encode_loop_chars by (simp add: filter_id_conv)

lemma is_space_newline [simp]: "is_space chr_newline"
  by (simp add: is_space_def)

lemma is_space_equals [simp]: "\<not> is_space chr_equals"
  by (simp add: is_space_def chr_defs)

lemma pem_text_filter: "filter (\<lambda>c. \<not> is_space c) (pem_text bs) = encode_loop bs"
proof (induction bs rule: full_lines.induct)
  case (1 bs)
  show ?case
  proof (cases "length bs \<ge> 48")
    case True
    then have "encode_loop bs = encode_loop (take 48 bs) @ encode_loop (drop 48 bs)"
      using encode_loop_append [of "take 48 bs" "drop 48 bs"] by simp
    moreover have "pem_text bs = encode_loop (take 48 bs) @ chr_newline # pem_text (drop 48 bs)"
      using True by (simp add: pem_text_def full_lines.simps [of bs] rest_of_line_long [of bs])
    ultimately show ?thesis
      using 1 [OF True] by simp
  qed (simp add: pem_text_def)
qed

section \<open>The decoder\<close>

lemma decode_update_loop_filter:
  "decode_update_loop ctx inp = decode_update_loop ctx (filter (\<lambda>c. \<not> is_space c) inp)"
proof (induction inp arbitrary: ctx)
  case (Cons c inp)
  have "decode_update_loop ctx' inp = decode_update_loop ctx' (filter (\<lambda>c. \<not> is_space c) inp)"
    for ctx'
    by (rule Cons.IH)
  then show ?case
    by (cases "is_space c") (simp_all only: decode_update_loop.simps filter.simps if_True if_False
        not_True_eq_False not_False_eq_True)
qed simp

lemma decode_update_loop_append:
  "decode_update_loop ctx (xs @ ys) =
     (case decode_update_loop ctx xs of
        (False, ctx', out) \<Rightarrow> (False, ctx', out)
      | (True, ctx', out) \<Rightarrow>
          (case decode_update_loop ctx' ys of (ok, ctx'', out') \<Rightarrow> (ok, ctx'', out @ out')))"
proof (induction ctx xs rule: decode_update_loop.induct)
  case (1 ctx)
  show ?case by (simp split: prod.split)
next
  case (2 ctx c inp)
  show ?case
    using 2
    by (simp add: Let_def split: option.split)
       (auto split: prod.split bool.split option.split if_splits)
qed

text \<open>Four characters in an empty context are one quad.\<close>

definition after_quad :: "EVP_ENCODE_CTX \<Rightarrow> u8 list \<Rightarrow> u8 list \<Rightarrow> EVP_ENCODE_CTX" where
  "after_quad ctx quad bs = ctx\<lparr>ctx_data := quad @ drop 4 (ctx_data ctx), data_used := 0,
     eof_seen := (length bs < 3 \<or> eof_seen ctx)\<rparr>"

lemma decode_update_loop_quad:
  assumes ctx: "data_used ctx = 0" "\<not> eof_seen ctx" "length (ctx_data ctx) = 48"
    and chars: "\<not> is_space a" "\<not> is_space b" "\<not> is_space c" "\<not> is_space d"
    and quad: "base64_decode_quad a b c d = Some bs"
  shows "decode_update_loop ctx (a # b # c # d # rest) =
    (case decode_update_loop (after_quad ctx [a, b, c, d] bs) rest of
       (ok, ctx', out) \<Rightarrow> (ok, ctx', bs @ out))"
proof -
  obtain x0 x1 x2 x3 xs where d: "ctx_data ctx = x0 # x1 # x2 # x3 # xs"
    using ctx(3) by (auto simp: eval_nat_numeral length_Suc_conv)
  have "decode_update_loop ctx (a # b # c # d # rest) =
      (case decode_update_loop (if length bs < 3
          then ctx\<lparr>ctx_data := a # b # c # d # xs, data_used := 0, eof_seen := True\<rparr>
          else ctx\<lparr>ctx_data := a # b # c # d # xs, data_used := 0\<rparr>) rest of
         (ok, ctx', out) \<Rightarrow> (ok, ctx', bs @ out))"
    using ctx chars quad d by (simp add: put_data_def Let_def)
  also have "(if length bs < 3
          then ctx\<lparr>ctx_data := a # b # c # d # xs, data_used := 0, eof_seen := True\<rparr>
          else ctx\<lparr>ctx_data := a # b # c # d # xs, data_used := 0\<rparr>) =
      after_quad ctx [a, b, c, d] bs"
    using ctx d by (cases ctx) (simp add: after_quad_def)
  finally show ?thesis .
qed

lemma after_quad_sel [simp]:
  "data_used (after_quad ctx q bs) = 0"
  "eof_seen (after_quad ctx q bs) \<longleftrightarrow> length bs < 3 \<or> eof_seen ctx"
  "error_encountered (after_quad ctx q bs) = error_encountered ctx"
  "ctx_data (after_quad ctx q bs) = q @ drop 4 (ctx_data ctx)"
  by (simp_all add: after_quad_def)

lemma decode_update_loop_encoded:
  "data_used ctx = 0 \<Longrightarrow> \<not> eof_seen ctx \<Longrightarrow> \<not> error_encountered ctx \<Longrightarrow> length (ctx_data ctx) = 48 \<Longrightarrow>
     \<exists>ctx'. decode_update_loop ctx (encode_loop src) = (True, ctx', src) \<and> data_used ctx' = 0 \<and>
       \<not> error_encountered ctx'"
proof (induction src arbitrary: ctx rule: encode_loop.induct)
  case 1
  then show ?case by simp
next
  case (2 x)
  have "decode_update_loop ctx (encode_loop [x]) = (case decode_update_loop
      (after_quad ctx (encode_loop [x]) [x]) [] of (ok, ctx', out) \<Rightarrow> (ok, ctx', [x] @ out))"
    unfolding encode_loop.simps Let_def
    by (rule decode_update_loop_quad) (use 2 decode_quad_one [of x] in
      \<open>simp_all add: ascii_to_bin_conv(3) del: push_bit_numeral\<close>)
  then show ?case
    using 2 by simp
next
  case (3 x y)
  have "decode_update_loop ctx (encode_loop [x, y]) = (case decode_update_loop
      (after_quad ctx (encode_loop [x, y]) [x, y]) [] of (ok, ctx', out) \<Rightarrow> (ok, ctx', [x, y] @ out))"
    unfolding encode_loop.simps Let_def
    by (rule decode_update_loop_quad) (use 3 decode_quad_two [of x y] in
      \<open>simp_all add: ascii_to_bin_conv(3) del: push_bit_numeral\<close>)
  then show ?case
    using 3 by simp
next
  case (4 x y z src)
  let ?l = "push_bit 16 (ucast x) OR push_bit 8 (ucast y) OR ucast z :: u32"
  let ?ctx = "after_quad ctx (encode_triple ?l) [x, y, z]"
  have "decode_update_loop ctx (encode_triple ?l @ encode_loop src) =
      (case decode_update_loop ?ctx (encode_loop src) of (ok, ctx', out) \<Rightarrow> (ok, ctx', [x, y, z] @ out))"
  proof -
    have "base64_decode_quad (conv_bin2ascii (ucast (drop_bit 18 ?l)))
        (conv_bin2ascii (ucast (drop_bit 12 ?l))) (conv_bin2ascii (ucast (drop_bit 6 ?l)))
        (conv_bin2ascii (ucast ?l)) = Some [x, y, z]"
      using decode_quad_triple [of x y z] by (simp add: encode_triple_def del: push_bit_numeral)
    from decode_update_loop_quad [OF 4(2,3,5) _ _ _ _ this, of "encode_loop src"] show ?thesis
      by (simp add: encode_triple_def ascii_to_bin_conv(3) del: push_bit_numeral)
  qed
  moreover obtain ctx' where "decode_update_loop ?ctx (encode_loop src) = (True, ctx', src)"
    "data_used ctx' = 0" "\<not> error_encountered ctx'"
    using 4(1) [of ?ctx] 4(2-5) by (auto simp: encode_triple_def)
  ultimately show ?case
    by simp
qed

fun decode_chunks :: "EVP_ENCODE_CTX \<Rightarrow> u8 list list \<Rightarrow> u8 list option" where
  "decode_chunks ctx [] = (case EVP_DecodeFinal ctx of (r, n) \<Rightarrow> if r = 1 then Some [] else None)"
| "decode_chunks ctx (c # cs) =
     (case EVP_DecodeUpdate ctx c of (ctx, r, out, n) \<Rightarrow>
        if r = -1 then None else map_option ((@) (take (nat n) out)) (decode_chunks ctx cs))"

lemma decode_update_loop_error:
  "fst (decode_update_loop ctx inp) \<Longrightarrow>
     error_encountered (fst (snd (decode_update_loop ctx inp))) = error_encountered ctx"
proof (induction inp arbitrary: ctx)
  case (Cons c inp)
  let ?ctx = "(put_data ctx (data_used ctx) [c])\<lparr>data_used := data_used ctx + 1\<rparr>"
  let ?quad = "base64_decode_quad (ctx_data ?ctx ! 0) (ctx_data ?ctx ! 1) (ctx_data ?ctx ! 2)
    (ctx_data ?ctx ! 3)"
  consider "is_space c" | "\<not> is_space c" "eof_seen ctx"
    | "\<not> is_space c" "\<not> eof_seen ctx" "data_used ?ctx \<noteq> 4"
    | "\<not> is_space c" "\<not> eof_seen ctx" "data_used ?ctx = 4" "?quad = None"
    | bs where "\<not> is_space c" "\<not> eof_seen ctx" "data_used ?ctx = 4" "?quad = Some bs"
    by blast
  then show ?case
    by cases (use Cons in \<open>auto simp: Let_def split_def split: if_splits\<close>)
qed simp

text \<open>The chunks together run the loop over their concatenation.\<close>

lemma decode_chunks_loop:
  "decode_update_loop ctx (concat cs) = (True, ctx', out) \<Longrightarrow> \<not> error_encountered ctx \<Longrightarrow>
     \<not> error_encountered ctx' \<Longrightarrow> data_used ctx' = 0 \<Longrightarrow> length out \<le> 2147483647 \<Longrightarrow>
     decode_chunks ctx cs = Some out"
proof (induction cs arbitrary: ctx out)
  case Nil
  then show ?case by (simp add: EVP_DecodeFinal_def)
next
  case (Cons c cs)
  obtain ctx1 o1 o2 where 1: "decode_update_loop ctx c = (True, ctx1, o1)"
    and 2: "decode_update_loop ctx1 (concat cs) = (True, ctx', o2)" and "out = o1 @ o2"
    using Cons.prems(1) by (auto simp: decode_update_loop_append split: prod.splits bool.splits)
  have "error_encountered ctx1 = error_encountered ctx"
    using decode_update_loop_error [of ctx c] by (simp add: 1)
  with Cons.IH [OF 2] Cons.prems 1 \<open>out = o1 @ o2\<close> show ?case
    by (simp add: EVP_DecodeUpdate_def INT_MAX_def)
qed

lemma decode_chunks_encoded:
  assumes "filter (\<lambda>c. \<not> is_space c) (concat cs) = encode_loop src" "length src \<le> 2147483647"
  shows "decode_chunks EVP_DecodeInit cs = Some src"
proof -
  obtain ctx' where "decode_update_loop EVP_DecodeInit (concat cs) = (True, ctx', src)"
    "data_used ctx' = 0" "\<not> error_encountered ctx'"
    using decode_update_loop_encoded [of EVP_DecodeInit src] assms(1)
      decode_update_loop_filter [of EVP_DecodeInit "concat cs"]
    by (auto simp: EVP_DecodeInit_def)
  then show ?thesis
    using assms(2) by (intro decode_chunks_loop) (simp_all add: EVP_DecodeInit_def)
qed

lemma decode_update_loop_fails:
  "fst (decode_update_loop ctx inp) \<or> error_encountered (fst (snd (decode_update_loop ctx inp)))"
proof (induction inp arbitrary: ctx)
  case (Cons c inp)
  then show ?case
    by (simp add: Let_def split_def split: option.split)
qed simp

section \<open>Trimming\<close>

lemma dropWhile_append_all: "list_all P xs \<Longrightarrow> dropWhile P (xs @ ys) = dropWhile P ys"
  by (induction xs) simp_all

lemma dropWhile_none: "(\<And>c. c \<in> set xs \<Longrightarrow> \<not> P c) \<Longrightarrow> dropWhile P xs = xs"
  by (cases xs) simp_all

lemma EVP_DecodeBlock_trim:
  assumes "list_all is_blank before" "list_all is_space behind"
  shows "EVP_DecodeBlock (before @ encode_loop src @ behind) =
    (case EVP_DecodedLength (of_nat (length (encode_loop src))) of
        None \<Rightarrow> (-1, [])
      | Some dst_len \<Rightarrow>
          if uint dst_len > INT_MAX then (-1, [])
          else case EVP_DecodeBase64 dst_len (encode_loop src) of
            (False, out, _) \<Rightarrow> (-1, out)
          | (True, out, n) \<Rightarrow>
              let out = out @ replicate (pad3 (length out)) 0 in (int (length out), out))"
proof -
  let ?t = "dropWhile is_blank (before @ encode_loop src @ behind)"
  have "rev (dropWhile is_space (rev ?t)) = encode_loop src"
  proof (cases "encode_loop src")
    case Nil
    then have "list_all is_space ?t"
      using assms set_dropWhileD [of _ is_blank "before @ behind"]
      by (fastforce simp: list_all_iff is_blank_def is_space_def)
    then have "dropWhile is_space (rev ?t) = []"
      by (simp add: list_all_iff)
    with Nil show ?thesis by simp
  next
    case (Cons c cs)
    then have "\<not> is_blank c"
      using encode_loop_chars [of c src] by (auto simp: is_blank_def is_space_def)
    then have "?t = encode_loop src @ behind"
      using Cons by (simp add: dropWhile_append_all [OF assms(1)])
    moreover have "dropWhile is_space (rev (encode_loop src)) = rev (encode_loop src)"
      using encode_loop_chars [of _ src] by (intro dropWhile_none) simp
    ultimately show ?thesis
      using assms(2) by (simp add: dropWhile_append_all list_all_iff)
  qed
  then show ?thesis
    by (simp only: EVP_DecodeBlock_def Let_def)
qed

end
