(* ===== verification/Base64_Theorems.thy ===== *)
theory Base64_Theorems
  imports Base64_Stream
begin

text \<open>
  The properties of BoringSSL's base64: the constant-time primitives it is built from, the
  alphabet, blocks, lengths, and the streaming encoder and decoder.
\<close>

section \<open>Constant-time primitives\<close>

text \<open>C15. The branch-free comparisons and selections of \<open>crypto/internal.h\<close> compute the ordinary
  ones for all arguments: a mask of ones or zeros for \<open><\<close>, \<open>\<ge>\<close>, equality and zero tests, on words
  and sign-extended \<open>int\<close>s, and the selected argument under such a mask.\<close>

theorem constant_time_correct:
  "constant_time_lt_w a b = (if a < b then - 1 else 0) \<and>
   constant_time_ge_w a b = (if a \<ge> b then - 1 else 0) \<and>
   constant_time_is_zero_w a = (if a = 0 then - 1 else 0) \<and>
   constant_time_eq_w a b = (if a = b then - 1 else 0) \<and>
   constant_time_eq_int i j = (if i = j then - 1 else 0) \<and>
   constant_time_select_w (if c then - 1 else 0) a b = (if c then a else b) \<and>
   constant_time_select_8 (if c then - 1 else 0) x y = (if c then x else y) \<and>
   constant_time_select_int (if c then - 1 else 0) i j = (if c then i else j)"
  by (simp only: constant_time_facts simp_thms)

section \<open>The alphabet\<close>

lemma length_alphabet: "length alphabet = 64"
  by (simp add: alphabet_codes)

text \<open>The constant-time conversions are the base64 alphabet and its inverse: the encoder's
  table lookup, and a decoder that accepts exactly the alphabet and the padding character.\<close>

theorem base64_alphabet:
  "conv_bin2ascii a = alphabet ! unat (a AND 0x3F) \<and>
   base64_ascii_to_bin (conv_bin2ascii a) = a AND 0x3F \<and>
   (base64_ascii_to_bin c \<noteq> 0xFF \<longleftrightarrow> c \<in> set alphabet \<or> c = chr_equals)"
proof -
  have "c \<in> set alphabet" if "base64_ascii_to_bin c \<noteq> 0xFF" "c \<noteq> chr_equals"
  proof -
    have "c = alphabet ! unat (base64_ascii_to_bin c AND 0x3F)"
      using conv_ascii_to_bin [OF that] conv_bin2ascii_alphabet by metis
    moreover have "unat (base64_ascii_to_bin c AND 0x3F) < length alphabet"
      using AND_3F_less [of "base64_ascii_to_bin c"]
      by (simp add: word_less_nat_alt length_alphabet)
    ultimately show ?thesis
      by (metis nth_mem)
  qed
  moreover have "base64_ascii_to_bin c \<noteq> 0xFF" if c: "c \<in> set alphabet"
  proof -
    obtain i where i: "i < 64" "c = alphabet ! i"
      using c by (metis in_set_conv_nth length_alphabet)
    then have "base64_ascii_to_bin c = word_of_nat i"
      using alphabet_index [of i] by simp
    moreover have "(word_of_nat i :: u8) \<noteq> 0xFF"
      using i(1) by (simp add: word_unat_eq_iff unat_of_nat take_bit_nat_eq_self)
    ultimately show ?thesis
      by simp
  qed
  moreover have "base64_ascii_to_bin chr_equals \<noteq> 0xFF"
    by (simp add: bin_equals)
  ultimately show ?thesis
    using conv_bin2ascii_alphabet ascii_to_bin_conv(1) by blast
qed

section \<open>Blocks\<close>

text \<open>C10. Decoding what \<open>EVP_EncodeBlock\<close> wrote (without the NUL) gives the input back, whatever
  bytes it has, whenever the output buffer has the size that \<open>EVP_DecodedLength\<close> asks for.\<close>

theorem base64_block_roundtrip:
  assumes "length src < 2 ^ 32" "EVP_EncodeBlock src = (out, n)"
    and "EVP_DecodedLength n = Some max_len" "max_len \<le> max_out"
  shows "out = take (unat n) out @ [0] \<and>
    EVP_DecodeBase64 max_out (take (unat n) out) = (True, src, of_nat (length src))"
proof -
  have out: "out = encode_loop src @ [0]" "n = of_nat (length (encode_loop src))"
    using assms(2) by (simp_all add: EVP_EncodeBlock_def Let_def)
  have small: "length (encode_loop src) < 18446744073709551616"
    using assms(1) unfolding length_encode_loop by simp
  have n: "unat n = length (encode_loop src)"
    unfolding out(2) by (rule unat_of_nat_64 [OF small])
  have "EVP_DecodedLength n = Some (of_nat (3 * (length (encode_loop src) div 4)))"
    "unat (of_nat (3 * (length (encode_loop src) div 4)) :: u64) =
       3 * (length (encode_loop src) div 4)"
    unfolding out(2) by (rule DecodedLength_eq [OF small], simp add: length_encode_loop)+
  then have "\<not> unat max_out < 3 * ((length src + 2) div 3)"
    using assms(3,4) by (simp add: word_le_nat_alt length_encode_loop)
  then show ?thesis
    using decode_base64_encode_block [of src max_out] assms(1) n out
    by (simp add: EVP_EncodeBlock_def Let_def)
qed

theorem base64_block_roundtrip_witness:
  "EVP_DecodeBase64 6 (take 8 (fst (EVP_EncodeBlock [0x66, 0x6F, 0x6F, 0x62]))) =
     (True, [0x66, 0x6F, 0x6F, 0x62], 4)"
  using base64_block_roundtrip [of "[0x66, 0x6F, 0x6F, 0x62]" _ 8 6 6]
  by (simp add: EVP_EncodeBlock_def Let_def encode_triple_def EVP_DecodedLength_def)

text \<open>\<open>EVP_EncodedLength\<close> is exactly the number of bytes \<open>EVP_EncodeBlock\<close> writes, its NUL
  included, and it fails exactly when that number is not a \<open>size_t\<close>.\<close>

theorem EVP_EncodedLength_exact:
  "(length src < 2 ^ 32 \<longrightarrow>
      EVP_EncodedLength (of_nat (length src)) = Some (of_nat (length (fst (EVP_EncodeBlock src))))) \<and>
   (EVP_EncodedLength n = None \<longleftrightarrow> 2 ^ 64 \<le> 4 * ((unat n + 2) div 3) + 1)"
proof (rule conjI; (rule impI)?)
  assume small: "length src < 2 ^ 32"
  then have "unat (of_nat (length src) :: u64) = length src"
    by (intro unat_of_nat_64) simp
  then show "EVP_EncodedLength (of_nat (length src)) =
      Some (of_nat (length (fst (EVP_EncodeBlock src))))"
    using small by (simp add: EVP_EncodedLength_eq EVP_EncodeBlock_def Let_def length_encode_loop)
next
  show "EVP_EncodedLength n = None \<longleftrightarrow> 2 ^ 64 \<le> 4 * ((unat n + 2) div 3) + 1"
    by (simp add: EVP_EncodedLength_eq Let_def not_less)
qed

theorem EVP_EncodedLength_exact_witness:
  "EVP_EncodedLength 4 = Some 9 \<and> EVP_EncodedLength 0xFFFFFFFFFFFFFFFF = None"
  using EVP_EncodedLength_exact [of "[1, 2, 3, 4]" "0xFFFFFFFFFFFFFFFF"]
  by (simp add: EVP_EncodeBlock_def Let_def encode_triple_def)

text \<open>C14. \<open>EVP_DecodeBase64\<close> never writes more than \<open>max_out\<close> bytes, on any input, also when it
  fails in the middle, and \<open>*out_len\<close> is what it wrote.\<close>

theorem EVP_DecodeBase64_in_bounds:
  assumes "length inp < 2 ^ 64" "EVP_DecodeBase64 max_out inp = (ok, out, n)"
  shows "length out \<le> unat max_out \<and> (ok \<longrightarrow> unat n = length out) \<and> (\<not> ok \<longrightarrow> n = 0)"
proof -
  have len: "length out \<le> unat max_out"
    using assms EVP_DecodeBase64_eq [of inp max_out] decode_loop_length [of inp]
    by (auto split: if_splits prod.splits)
  moreover have "unat (of_nat (length out) :: u64) = length out"
    using len unat_lt_64 [of max_out] by (intro unat_of_nat_64) linarith
  ultimately show ?thesis
    using assms EVP_DecodeBase64_eq [of inp max_out]
    by (auto split: if_splits prod.splits)
qed

theorem EVP_DecodeBase64_in_bounds_witness:
  "length (fst (snd (EVP_DecodeBase64 6 (map of_char ''Zm9v????'')))) \<le> 6"
  using EVP_DecodeBase64_in_bounds [of "map of_char ''Zm9v????''" 6]
  by (cases "EVP_DecodeBase64 6 (map of_char ''Zm9v????'')") simp

section \<open>Streams\<close>

text \<open>C12. The streaming encoder does not depend on how the input is cut into updates: init, any
  updates and final write the lines of the whole input, 48 bytes each, in the PEM format.\<close>

theorem base64_encoder_stream:
  assumes "length (pem_text (concat chunks)) < 2 ^ 31"
  shows "encode_chunks EVP_EncodeInit chunks = pem_text (concat chunks)"
  using encode_chunks_spec [of EVP_EncodeInit chunks] assms
  by (simp add: enc_ok_init pem_text_def)

theorem base64_encoder_stream_witness:
  "encode_chunks EVP_EncodeInit [[0x66], [], [0x6F, 0x6F, 0x62]] = map of_char ''Zm9vYg=='' @ [chr_newline]"
  using base64_encoder_stream [of "[[0x66], [], [0x6F, 0x6F, 0x62]]"]
  by (simp add: pem_text_def Let_def encode_triple_def conv_bin2ascii_eq chr_defs of_char_def)

text \<open>C9. The round trip through the streams: whatever way the input is cut into updates of the
  encoder, and its text into updates of the decoder, the decoder returns the input.\<close>

theorem base64_stream_roundtrip:
  assumes "concat text = encode_chunks EVP_EncodeInit chunks"
    and "length (pem_text (concat chunks)) < 2 ^ 31" "length (concat chunks) < 2 ^ 31"
  shows "decode_chunks EVP_DecodeInit text = Some (concat chunks)"
proof -
  have "concat text = pem_text (concat chunks)"
    using encode_chunks_spec [of EVP_EncodeInit chunks] assms(1,2)
    by (simp add: enc_ok_init pem_text_def)
  then show ?thesis
    using assms(3) by (intro decode_chunks_encoded) (simp_all only: pem_text_filter, simp)
qed

theorem base64_stream_roundtrip_witness:
  "decode_chunks EVP_DecodeInit [[0x5A], map of_char ''m9vYg'', map of_char ''=='', [chr_newline]] =
     Some [0x66, 0x6F, 0x6F, 0x62]"
proof -
  have "encode_chunks EVP_EncodeInit [[0x66], [0x6F, 0x6F, 0x62]] =
      map of_char ''Zm9vYg=='' @ [chr_newline]"
    using encode_chunks_spec [of EVP_EncodeInit "[[0x66], [0x6F, 0x6F, 0x62]]"]
    by (simp add: enc_ok_init pem_text_def Let_def encode_triple_def conv_bin2ascii_eq chr_defs
        of_char_def)
  then show ?thesis
    using base64_stream_roundtrip
      [of "[[0x5A], map of_char ''m9vYg'', map of_char ''=='', [chr_newline]]"
        "[[0x66], [0x6F, 0x6F, 0x62]]"]
    by (simp add: pem_text_def Let_def encode_triple_def)
qed

text \<open>An error of the decoder is final: after an update has returned -1 every later update and
  the final call fail, write nothing and leave the context as it is.\<close>

theorem EVP_DecodeUpdate_error_final:
  assumes "EVP_DecodeUpdate ctx inp = (ctx', -1, out, n)"
  shows "n = 0 \<and> EVP_DecodeUpdate ctx' inp' = (ctx', -1, [], 0) \<and> EVP_DecodeFinal ctx' = (-1, 0)"
proof -
  have "fst (decode_update_loop ctx inp) \<or>
      error_encountered (fst (snd (decode_update_loop ctx inp)))" for ctx inp
    by (rule decode_update_loop_fails)
  then have "error_encountered ctx' \<and> n = 0"
    using assms by (auto simp: EVP_DecodeUpdate_def split: if_splits prod.splits bool.splits)
       (metis fst_conv snd_conv)+
  then show ?thesis
    by (simp add: EVP_DecodeUpdate_def EVP_DecodeFinal_def)
qed

theorem EVP_DecodeUpdate_error_final_witness:
  "EVP_DecodeFinal (fst (EVP_DecodeUpdate EVP_DecodeInit (map of_char ''Z?9v''))) = (-1, 0)"
  using EVP_DecodeUpdate_error_final [of EVP_DecodeInit "map of_char ''Z?9v''"]
  by (simp add: EVP_DecodeUpdate_def EVP_DecodeInit_def is_space_def chr_defs of_char_def put_data_def
      base64_decode_quad_def ascii_to_bin_eq Let_def EVP_DecodeFinal_def)

text \<open>\<open>EVP_DecodeBlock\<close> on encoded text with blanks before and white space behind it writes the
  input, padded with zeros to whole triples, and returns the padded length.\<close>

theorem EVP_DecodeBlock_padded:
  assumes "list_all is_blank before" "list_all is_space behind" "length src < 2 ^ 30"
  shows "EVP_DecodeBlock (before @ encode_loop src @ behind) =
    (int (3 * ((length src + 2) div 3)),
     src @ replicate (3 * ((length src + 2) div 3) - length src) 0)"
proof -
  note trimmed = EVP_DecodeBlock_trim [OF assms(1,2), of src]
  have "length (encode_loop src) < 18446744073709551616" "length (encode_loop src) mod 4 = 0"
    using assms(3) unfolding length_encode_loop by simp_all
  note len = DecodedLength_eq [OF this]
  have "uint (of_nat (3 * (length (encode_loop src) div 4)) :: u64) =
      int (3 * ((length src + 2) div 3))"
    using len(2) unfolding length_encode_loop by (metis uint_nat nonzero_mult_div_cancel_left zero_neq_numeral)
  moreover have "EVP_DecodeBase64 (of_nat (3 * (length (encode_loop src) div 4))) (encode_loop src) =
      (True, src, of_nat (length src))"
    using decode_base64_encode_block [of src "of_nat (3 * (length (encode_loop src) div 4))"] assms(3)
      len(2)
    by (simp add: EVP_EncodeBlock_def Let_def length_encode_loop)
  moreover have "length src + pad3 (length src) = 3 * ((length src + 2) div 3)"
    by (auto simp: pad3.simps) presburger+
  ultimately show ?thesis
    using assms(3) trimmed len(1)
    by (auto simp: INT_MAX_def Let_def)
qed

theorem EVP_DecodeBlock_padded_witness:
  "EVP_DecodeBlock (map of_char '' Zg== '' @ [chr_newline]) = (3, [0x66, 0, 0])"
proof -
  have "map of_char '' Zg== '' @ [chr_newline] =
      [0x20] @ encode_loop [0x66] @ [0x20, chr_newline]"
    by (simp add: chr_defs Let_def conv_bin2ascii_eq of_char_def)
  moreover have "replicate 2 (0 :: u8) = [0, 0]"
    by (simp add: numeral_2_eq_2)
  moreover have "list_all is_blank [0x20]" "list_all is_space [0x20, chr_newline]"
    by (simp_all add: is_blank_def is_space_def chr_defs)
  ultimately show ?thesis
    using EVP_DecodeBlock_padded [of "[0x20]" "[0x20, chr_newline]" "[0x66]"] by simp
qed

text \<open>\<open>base64.h\<close> says that \<open>EVP_DecodeBlock\<close> also strips trailing minuses; the code does not, and
  rejects any encoded text that one follows.\<close>

theorem EVP_DecodeBlock_minus_rejected:
  assumes "length src < 2 ^ 30"
  shows "EVP_DecodeBlock (encode_loop src @ [0x2D]) = (-1, [])"
proof -
  have minus: "\<not> is_space 0x2D" "\<not> is_blank 0x2D"
    by (simp_all add: is_space_def is_blank_def chr_defs)
  then have chars: "\<not> is_blank c" if "c \<in> set (encode_loop src @ [0x2D])" for c
    using that encode_loop_chars [of c src] by (auto simp: is_blank_def is_space_def)
  have "dropWhile is_blank (encode_loop src @ [0x2D]) = encode_loop src @ [0x2D]"
    by (rule dropWhile_none) (use chars in auto)
  moreover have "EVP_DecodedLength (of_nat (length (encode_loop src @ [0x2D]))) = None"
  proof -
    have "length (encode_loop src @ [0x2D]) < 18446744073709551616"
      "length (encode_loop src @ [0x2D]) mod 4 \<noteq> 0"
      using assms by (simp_all add: length_encode_loop mod_Suc)
    then show ?thesis
      using length_mod_4 [of "length (encode_loop src @ [0x2D])"] by (simp add: EVP_DecodedLength_def)
  qed
  ultimately show ?thesis
    using minus by (simp add: EVP_DecodeBlock_def Let_def)
qed

theorem EVP_DecodeBlock_minus_rejected_witness:
  "EVP_DecodeBlock (map of_char ''Zg==-'') = (-1, [])"
  using EVP_DecodeBlock_minus_rejected [of "[0x66]"]
  by (simp add: Let_def conv_bin2ascii_eq chr_defs of_char_def)

end
