(* ===== verification/Crypto_Mem.thy ===== *)
theory Crypto_Mem
  imports Prelude
begin

text \<open>
  BoringSSL's \<open>crypto/mem.c\<close>: the allocator with its size prefix, which wipes what it frees, and the
  string and memory helpers; and the byte swaps of \<open>crypto/internal.h\<close>. The system's \<open>malloc\<close> is a
  parameter, a function from the requested size to an address, 0 for NULL.
\<close>

section \<open>The allocator\<close>

definition OPENSSL_MALLOC_PREFIX :: nat where "OPENSSL_MALLOC_PREFIX = 8"

definition OPENSSL_malloc :: "(u64 \<Rightarrow> addr) \<Rightarrow> u64 \<Rightarrow> memory \<Rightarrow> addr \<times> memory" where
  "OPENSSL_malloc malloc sz m =
     (let ptr = malloc (sz + word_of_nat OPENSSL_MALLOC_PREFIX) in
      if ptr = 0 then (0, m)
      else (ptr + int OPENSSL_MALLOC_PREFIX, st64 m ptr sz))"

definition OPENSSL_cleanse :: "addr \<Rightarrow> u64 \<Rightarrow> memory \<Rightarrow> memory" where
  "OPENSSL_cleanse ptr len m = store m ptr (replicate (unat len) 0)"

text \<open>\<open>OPENSSL_free\<close> hands the block to \<open>sdallocx\<close>, the last component: its address and size.\<close>

definition OPENSSL_free :: "addr \<Rightarrow> memory \<Rightarrow> memory \<times> (addr \<times> u64) option" where
  "OPENSSL_free orig_ptr m =
     (if orig_ptr = 0 then (m, None)
      else let ptr = orig_ptr - int OPENSSL_MALLOC_PREFIX;
               sz = ld64 m ptr;
               n = sz + word_of_nat OPENSSL_MALLOC_PREFIX
           in (OPENSSL_cleanse ptr n m, Some (ptr, n)))"

definition OPENSSL_realloc ::
  "(u64 \<Rightarrow> addr) \<Rightarrow> addr \<Rightarrow> u64 \<Rightarrow> memory \<Rightarrow> addr \<times> memory \<times> (addr \<times> u64) option" where
  "OPENSSL_realloc malloc orig_ptr new_size m =
     (if orig_ptr = 0 then
        (let (ret, m) = OPENSSL_malloc malloc new_size m in (ret, m, None))
      else
        let ptr = orig_ptr - int OPENSSL_MALLOC_PREFIX;
            old_size = ld64 m ptr;
            (ret, m) = OPENSSL_malloc malloc new_size m
        in if ret = 0 then (0, m, None)
           else let to_copy = (if old_size < new_size then old_size else new_size);
                    m = store m ret (load m orig_ptr (unat to_copy));
                    (m, freed) = OPENSSL_free orig_ptr m
                in (ret, m, freed))"

section \<open>Comparing, hashing\<close>

text \<open>\<open>CRYPTO_memcmp\<close> returns the disjunction of all differences, without a branch on the data.\<close>

fun memcmp_loop :: "u8 \<Rightarrow> u8 list \<Rightarrow> u8 list \<Rightarrow> u8" where
  "memcmp_loop x (a # as) (b # bs) = memcmp_loop (x OR (a XOR b)) as bs"
| "memcmp_loop x _ _ = x"

definition CRYPTO_memcmp :: "u8 list \<Rightarrow> u8 list \<Rightarrow> nat \<Rightarrow> int" where
  "CRYPTO_memcmp a b len = uint (memcmp_loop 0 (take len a) (take len b))"

fun hash32_loop :: "u32 \<Rightarrow> u8 list \<Rightarrow> u32" where
  "hash32_loop h [] = h"
| "hash32_loop h (b # bs) = hash32_loop ((h XOR ucast b) * 16777619) bs"

definition OPENSSL_hash32 :: "u8 list \<Rightarrow> u32" where
  "OPENSSL_hash32 bs = hash32_loop 2166136261 bs"

section \<open>Strings\<close>

text \<open>A C string is the list of its characters; reading at the end of the list gives the
  terminating NUL. A \<open>char\<close> is signed.\<close>

definition c_char :: "u8 list \<Rightarrow> u8" where
  "c_char s = (case s of [] \<Rightarrow> 0 | c # _ \<Rightarrow> c)"

fun strlen :: "u8 list \<Rightarrow> nat" where
  "strlen [] = 0"
| "strlen (c # s) = (if c = 0 then 0 else Suc (strlen s))"

fun OPENSSL_strnlen :: "u8 list \<Rightarrow> nat \<Rightarrow> nat" where
  "OPENSSL_strnlen s 0 = 0"
| "OPENSSL_strnlen s (Suc n) = (if c_char s = 0 then 0 else Suc (OPENSSL_strnlen (tl s) n))"

definition OPENSSL_tolower :: "int \<Rightarrow> int" where
  "OPENSSL_tolower c = (if 65 \<le> c \<and> c \<le> 90 then c + (97 - 65) else c)"

fun OPENSSL_strcasecmp :: "u8 list \<Rightarrow> u8 list \<Rightarrow> int" where
  "OPENSSL_strcasecmp a b =
     (let aa = OPENSSL_tolower (sint (c_char a)); bb = OPENSSL_tolower (sint (c_char b)) in
      if aa < bb then -1 else if aa > bb then 1 else if aa = 0 then 0
      else case (a, b) of (_ # as, _ # bs) \<Rightarrow> OPENSSL_strcasecmp as bs | _ \<Rightarrow> 0)"

declare OPENSSL_strcasecmp.simps [simp del]

fun OPENSSL_strncasecmp :: "u8 list \<Rightarrow> u8 list \<Rightarrow> nat \<Rightarrow> int" where
  "OPENSSL_strncasecmp a b 0 = 0"
| "OPENSSL_strncasecmp a b (Suc n) =
     (let aa = OPENSSL_tolower (sint (c_char a)); bb = OPENSSL_tolower (sint (c_char b)) in
      if aa < bb then -1 else if aa > bb then 1 else if aa = 0 then 0
      else OPENSSL_strncasecmp (tl a) (tl b) n)"

text \<open>Duplicates: \<open>alloc\<close> says whether the allocation succeeds; the result is the new block.\<close>

definition OPENSSL_memdup :: "bool \<Rightarrow> u8 list \<Rightarrow> u8 list option" where
  "OPENSSL_memdup alloc data =
     (if length data = 0 then None else if \<not> alloc then None else Some data)"

definition OPENSSL_strdup :: "bool \<Rightarrow> u8 list option \<Rightarrow> u8 list option" where
  "OPENSSL_strdup alloc s =
     (case s of None \<Rightarrow> None
      | Some s \<Rightarrow> if \<not> alloc then None else Some (take (strlen s) s @ [0]))"

definition OPENSSL_strndup :: "bool \<Rightarrow> u8 list \<Rightarrow> u64 \<Rightarrow> u8 list option" where
  "OPENSSL_strndup alloc str sz =
     (let sz = word_of_nat (OPENSSL_strnlen str (unat sz)) :: u64; alloc_size = sz + 1 in
      if alloc_size < sz then None
      else if \<not> alloc then None
      else Some (take (unat sz) str @ [0]))"

text \<open>Bounded copies: the destination is a buffer of \<open>dst_size\<close> bytes; the result is its new
  contents and the length the string wanted.\<close>

fun OPENSSL_strlcpy :: "u8 list \<Rightarrow> u8 list \<Rightarrow> u8 list \<times> nat" where
  "OPENSSL_strlcpy [] src = ([], strlen src)"
| "OPENSSL_strlcpy [d] src = ([0], strlen src)"
| "OPENSSL_strlcpy (d # d' # dst) src =
     (if c_char src \<noteq> 0
      then (let (out, l) = OPENSSL_strlcpy (d' # dst) (tl src) in (c_char src # out, l + 1))
      else (0 # d' # dst, strlen src))"

fun OPENSSL_strlcat :: "u8 list \<Rightarrow> u8 list \<Rightarrow> u8 list \<times> nat" where
  "OPENSSL_strlcat [] src = OPENSSL_strlcpy [] src"
| "OPENSSL_strlcat (d # dst) src =
     (if d \<noteq> 0 then (let (out, l) = OPENSSL_strlcat dst src in (d # out, l + 1))
      else OPENSSL_strlcpy (d # dst) src)"

section \<open>Byte order\<close>

definition CRYPTO_bswap2 :: "u16 \<Rightarrow> u16" where
  "CRYPTO_bswap2 x = (drop_bit 8 x) OR (push_bit 8 x)"

definition CRYPTO_bswap4 :: "u32 \<Rightarrow> u32" where
  "CRYPTO_bswap4 x =
     (let x = (drop_bit 16 x) OR (push_bit 16 x)
      in drop_bit 8 (x AND 0xff00ff00) OR push_bit 8 (x AND 0x00ff00ff))"

definition CRYPTO_bswap8 :: "u64 \<Rightarrow> u64" where
  "CRYPTO_bswap8 x =
     ucast (CRYPTO_bswap4 (ucast (drop_bit 32 x))) OR
     push_bit 32 (ucast (CRYPTO_bswap4 (ucast x)))"

section \<open>What they compute\<close>

lemma bit_0xff00ff_int [simp]:
  "bit (16711935 :: int) n \<longleftrightarrow> n < 8 \<or> 16 \<le> n \<and> n < 24"
  "bit (4278255360 :: int) n \<longleftrightarrow> 8 \<le> n \<and> n < 16 \<or> 24 \<le> n \<and> n < 32"
proof -
  have "bit (255 OR push_bit 16 255 :: int) n \<longleftrightarrow> n < 8 \<or> 16 \<le> n \<and> n < 24"
    unfolding bit_or_iff bit_push_bit_iff by auto
  then show "bit (16711935 :: int) n \<longleftrightarrow> n < 8 \<or> 16 \<le> n \<and> n < 24" by simp
  have "bit (push_bit 8 255 OR push_bit 24 255 :: int) n \<longleftrightarrow> 8 \<le> n \<and> n < 16 \<or> 24 \<le> n \<and> n < 32"
    unfolding bit_or_iff bit_push_bit_iff by auto
  then show "bit (4278255360 :: int) n \<longleftrightarrow> 8 \<le> n \<and> n < 16 \<or> 24 \<le> n \<and> n < 32" by simp
qed

text \<open>The swaps turn the value of a byte string into the value of the reversed string.\<close>

lemma bswap2_le: "CRYPTO_bswap2 (le_word [a, b]) = le_word [b, a]"
  by (rule bit_word_eqI) (auto simp: CRYPTO_bswap2_def bit_simps dest: bit_imp_le_length)
lemma bswap4_le: "CRYPTO_bswap4 (le_word [a, b, c, d]) = le_word [d, c, b, a]"
proof (rule bit_word_eqI)
  fix j assume "j < LENGTH(32)"
  then have "j < 8 \<or> 8 \<le> j \<and> j < 16 \<or> 16 \<le> j \<and> j < 24 \<or> 24 \<le> j \<and> j < 32" by auto
  then show "bit (CRYPTO_bswap4 (le_word [a, b, c, d])) j \<longleftrightarrow> bit (le_word [d, c, b, a] :: u32) j"
    by (elim disjE) (auto simp: CRYPTO_bswap4_def Let_def bit_simps dest: bit_imp_le_length)
qed
lemma bswap8_le: "CRYPTO_bswap8 (le_word [a, b, c, d, e, f, g, h]) = le_word [h, g, f, e, d, c, b, a]"
proof -
  let ?x = "le_word [a, b, c, d, e, f, g, h] :: u64"
  have *: "?x = le_word [a, b, c, d] OR push_bit 32 (le_word [e, f, g, h])"
    using le_word_append [of "[a, b, c, d]" "[e, f, g, h]", where 'a = 64] by simp
  have lo: "(ucast ?x :: u32) = le_word [a, b, c, d]"
    by (rule bit_word_eqI) (auto simp: bit_simps dest: bit_imp_le_length)
  have hi: "(ucast (drop_bit 32 ?x) :: u32) = le_word [e, f, g, h]"
    by (rule bit_word_eqI) (auto simp: bit_simps add.commute [of 32] dest: bit_imp_le_length)
  have "CRYPTO_bswap8 ?x = ucast (le_word [h, g, f, e] :: u32) OR push_bit 32 (ucast (le_word [d, c, b, a] :: u32))"
    unfolding CRYPTO_bswap8_def lo hi bswap4_le ..
  also have "\<dots> = le_word [h, g, f, e, d, c, b, a]"
    using le_word_append [of "[h, g, f, e]" "[d, c, b, a]", where 'a = 64]
    by (simp add: ucast_le_word del: le_word.simps)
  finally show ?thesis .
qed

lemma memcmp_loop_0:
  "length a = length b \<Longrightarrow> memcmp_loop x a b = 0 \<longleftrightarrow> x = 0 \<and> a = b"
proof (induction x a b rule: memcmp_loop.induct)
  case (1 x a as b bs)
  have "x OR (a XOR b) = 0 \<longleftrightarrow> x = 0 \<and> a = b"
    by (auto simp: bit_eq_iff bit_simps)
  with 1 show ?case by auto
qed auto

lemma CRYPTO_memcmp_0:
  "length a = n \<Longrightarrow> length b = n \<Longrightarrow> CRYPTO_memcmp a b n = 0 \<longleftrightarrow> a = b"
  by (simp add: CRYPTO_memcmp_def uint_0_iff memcmp_loop_0)

lemma strlen_takeWhile: "strlen s = length (takeWhile (\<lambda>c. c \<noteq> 0) s)"
  by (induction s) auto

lemma strlen_le: "strlen s \<le> length s"
  by (induction s) auto

lemma take_strlen: "take (strlen s) s = takeWhile (\<lambda>c. c \<noteq> 0) s"
  by (induction s) auto

lemma OPENSSL_strnlen_min: "OPENSSL_strnlen s n = min n (strlen s)"
proof (induction n arbitrary: s)
  case (Suc n)
  then show ?case by (cases s) (auto simp: c_char_def)
qed simp

lemma take_strnlen: "take (OPENSSL_strnlen s n) s = takeWhile (\<lambda>c. c \<noteq> 0) (take n s)"
proof (induction n arbitrary: s)
  case (Suc n)
  then show ?case by (cases s) (auto simp: c_char_def)
qed simp

lemma length_strlcpy [simp]: "length (fst (OPENSSL_strlcpy dst src)) = length dst"
  by (induction dst src rule: OPENSSL_strlcpy.induct) (auto simp: split_def Let_def)

lemma strlcpy_snd: "snd (OPENSSL_strlcpy dst src) = strlen src"
proof (induction dst src rule: OPENSSL_strlcpy.induct)
  case (3 d d' dst src)
  then show ?case by (cases src) (auto simp: split_def c_char_def)
qed auto

lemma strlcpy_fst:
  "dst \<noteq> [] \<Longrightarrow> fst (OPENSSL_strlcpy dst src) =
     (let k = min (strlen src) (length dst - 1) in take k src @ [0] @ drop (Suc k) dst)"
proof (induction dst src rule: OPENSSL_strlcpy.induct)
  case (3 d d' dst src)
  then show ?case
    by (cases src) (auto simp: split_def c_char_def Let_def)
qed auto

lemma tolower_0 [simp]: "OPENSSL_tolower (sint (c :: u8)) = 0 \<longleftrightarrow> c = 0" "OPENSSL_tolower 0 = 0"
proof -
  have "c = 0" if "sint c = 0"
    using uint_sint [of c] that by (simp add: uint_0_iff)
  then show "OPENSSL_tolower (sint (c :: u8)) = 0 \<longleftrightarrow> c = 0" "OPENSSL_tolower 0 = 0"
    by (auto simp: OPENSSL_tolower_def)
qed

lemma strcasecmp_unfold:
  "OPENSSL_strcasecmp [] [] = 0"
  "OPENSSL_strcasecmp [] (b # bs) = (let bb = OPENSSL_tolower (sint b) in
     if 0 < bb then -1 else if bb < 0 then 1 else 0)"
  "OPENSSL_strcasecmp (a # as) [] = (let aa = OPENSSL_tolower (sint a) in
     if aa < 0 then -1 else if 0 < aa then 1 else 0)"
  "OPENSSL_strcasecmp (a # as) (b # bs) =
     (let aa = OPENSSL_tolower (sint a); bb = OPENSSL_tolower (sint b) in
      if aa < bb then -1 else if aa > bb then 1 else if aa = 0 then 0
      else OPENSSL_strcasecmp as bs)"
  by (subst OPENSSL_strcasecmp.simps; auto simp: c_char_def Let_def)+

lemma strcasecmp_eq:
  assumes "0 \<notin> set a" "0 \<notin> set b"
  shows "OPENSSL_strcasecmp a b = 0 \<longleftrightarrow>
    map (\<lambda>c. OPENSSL_tolower (sint c)) a = map (\<lambda>c. OPENSSL_tolower (sint c)) b"
  using assms
proof (induction a arbitrary: b)
  case Nil
  then show ?case
  proof (cases b)
    case (Cons c cs)
    then have "OPENSSL_tolower (sint c) \<noteq> 0" using Nil by auto
    then show ?thesis by (simp add: Cons strcasecmp_unfold Let_def)
  qed (simp add: strcasecmp_unfold)
next
  case (Cons c cs)
  then have "OPENSSL_tolower (sint c) \<noteq> 0" by auto
  with Cons show ?case by (cases b) (auto simp: strcasecmp_unfold Let_def)
qed

lemma strcasecmp_swap: "OPENSSL_strcasecmp b a = - OPENSSL_strcasecmp a b"
proof (induction a arbitrary: b)
  case Nil
  then show ?case by (cases b) (simp_all add: strcasecmp_unfold Let_def)
next
  case (Cons c cs)
  then show ?case by (cases b) (simp_all add: strcasecmp_unfold Let_def)
qed

lemma strncasecmp_prefix:
  assumes "length a < n" "length b < n"
  shows "OPENSSL_strncasecmp a b n = OPENSSL_strcasecmp a b"
  using assms
proof (induction n arbitrary: a b)
  case (Suc n)
  then show ?case
    by (cases a; cases b) (auto simp: strcasecmp_unfold c_char_def Let_def)
qed simp

section \<open>Reallocation and wiping\<close>

text \<open>\<open>block m p n\<close>: \<open>p\<close> was returned by the allocator for \<open>n\<close> bytes.\<close>

definition block :: "memory \<Rightarrow> addr \<Rightarrow> u64 \<Rightarrow> bool" where
  "block m p n \<longleftrightarrow> p \<noteq> 0 \<and> ld64 m (p - 8) = n \<and> unat n + 8 < 2 ^ 64"

lemma unat_prefix: "unat n + 8 < 2 ^ 64 \<Longrightarrow> unat (n + 8 :: u64) = unat n + 8"
  using unat_add_64 [of n 8] by simp

lemma OPENSSL_free_wipes:
  assumes "block m p n"
  shows "OPENSSL_free p m =
    (store m (p - 8) (replicate (unat n + 8) 0), Some (p - 8, n + 8))"
  using assms
  by (simp add: OPENSSL_free_def block_def OPENSSL_MALLOC_PREFIX_def Let_def OPENSSL_cleanse_def
      unat_prefix)

lemma OPENSSL_malloc_block:
  assumes "OPENSSL_malloc malloc n m = (p, m')" "p \<noteq> 0" "unat n + 8 < 2 ^ 64"
  shows "block m' p n" "p = malloc (n + 8) + 8" "m' = st64 m (p - 8) n" "malloc (n + 8) \<noteq> 0"
  using assms
  by (auto simp: OPENSSL_malloc_def OPENSSL_MALLOC_PREFIX_def Let_def block_def
      c64.ld_st_same split: if_splits)

lemma load_store_prefix:
  "k \<le> length bs \<Longrightarrow> load (store m p bs) p k = take k bs"
  using load_store_within [of 0 k bs m p] by simp

lemma realloc_spec:
  fixes n' :: u64
  assumes old: "block m p n" and fit: "unat n' + 8 < 2 ^ 64"
    and q: "malloc (n' + 8) = q" "q \<noteq> 0"
    and apart: "q + int (unat n') + 8 \<le> p - 8 \<or> p + int (unat n) \<le> q"
    and "q + 8 \<noteq> 0"
  obtains m' where
    "OPENSSL_realloc malloc p n' m = (q + 8, m', Some (p - 8, n + 8))"
    "block m' (q + 8) n'"
    "load m' (q + 8) (min (unat n) (unat n')) = load m p (min (unat n) (unat n'))"
    "load m' (p - 8) (unat n + 8) = replicate (unat n + 8) 0"
    "\<And>a k. (a + int k \<le> q \<or> q + int (unat n') + 8 \<le> a) \<Longrightarrow>
       (a + int k \<le> p - 8 \<or> p + int (unat n) \<le> a) \<Longrightarrow> load m' a k = load m a k"
proof -
  define c where "c = min (unat n) (unat n')"
  define m1 where "m1 = st64 m q n'"
  define m2 where "m2 = store m1 (q + 8) (load m1 p c)"
  define m3 where "m3 = store m2 (p - 8) (replicate (unat n + 8) 0)"
  have m1: "OPENSSL_malloc malloc n' m = (q + 8, m1)"
    using q by (simp add: OPENSSL_malloc_def OPENSSL_MALLOC_PREFIX_def m1_def)
  have cp: "unat (if n < n' then n else n') = c"
    by (auto simp: c_def min_def word_less_nat_alt)
  have q8: "ld64 m1 q = n'" "\<And>a k. a + int k \<le> q \<or> q + 8 \<le> a \<Longrightarrow> load m1 a k = load m a k"
    using only_writes_load [OF c64.st_only] by (auto simp: m1_def c64.ld_st_same)
  have m2o: "load m2 a k = load m1 a k" if "a + int k \<le> q + 8 \<or> q + 8 + int c \<le> a" for a k
    using that by (auto simp: m2_def load_store_other)
  have m3o: "load m3 a k = load m2 a k" if "a + int k \<le> p - 8 \<or> p + int (unat n) \<le> a" for a k
    using that by (auto simp: m3_def load_store_other)
  have cn: "int c \<le> int (unat n)" "int c \<le> int (unat n')"
    by (simp_all only: c_def of_nat_le_iff min.cobounded1 min.cobounded2)
  have "ld64 m2 (p - 8) = ld64 m (p - 8)"
    using apart cn by (auto simp: ld64_def m2o q8)
  then have b2: "block m2 p n" using old by (simp add: block_def)
  have r: "OPENSSL_realloc malloc p n' m = (q + 8, m3, Some (p - 8, n + 8))"
  proof -
    have "p \<noteq> 0" "ld64 m (p - 8) = n" using old by (simp_all add: block_def)
    then show ?thesis
      using \<open>q + 8 \<noteq> 0\<close> OPENSSL_free_wipes [OF b2]
      by (simp add: OPENSSL_realloc_def m1 cp m3_def OPENSSL_MALLOC_PREFIX_def Let_def
          flip: m2_def split del: if_split cong: if_cong)
  qed
  have "ld64 m3 q = n'"
  proof -
    have "load m3 q 8 = load m2 q 8"
      using apart by (intro m3o) linarith
    also have "\<dots> = load m1 q 8" by (rule m2o) simp
    finally show ?thesis using q8(1) by (simp add: ld64_def)
  qed
  then have blk: "block m3 (q + 8) n'" using \<open>q + 8 \<noteq> 0\<close> fit by (simp add: block_def)
  have data: "load m3 (q + 8) c = load m p c"
  proof -
    have "load m3 (q + 8) c = load m2 (q + 8) c"
      using apart cn by (intro m3o) auto
    also have "\<dots> = load m1 p c" by (simp add: m2_def load_store_same)
    also have "\<dots> = load m p c" using apart cn by (intro q8) auto
    finally show ?thesis .
  qed
  have wiped: "load m3 (p - 8) (unat n + 8) = replicate (unat n + 8) 0"
    by (simp only: m3_def load_store_same length_replicate)
  have rest: "load m3 a k = load m a k"
    if "a + int k \<le> q \<or> q + int (unat n') + 8 \<le> a" "a + int k \<le> p - 8 \<or> p + int (unat n) \<le> a"
    for a k
    using that cn by (simp add: m3o) (subst m2o; auto simp: q8)
  show ?thesis
    by (rule that [OF r blk data [unfolded c_def] wiped]) (rule rest)
qed

end
