(* ===== verification/Cbs.thy ===== *)
theory Cbs
  imports Crypto_Mem
begin

text \<open>
  BoringSSL's \<open>crypto/bytestring/cbs.c\<close>: reading integers, length-prefixed strings and DER or BER
  elements from a byte string. A \<open>CBS\<close> is a pointer and a length; the model is the list of the
  bytes it spans, which no operation writes to. An operation that takes a \<open>CBS *\<close> returns its output,
  \<open>None\<close> when the C function returns 0, and the new \<open>CBS\<close>, also on failure. Outputs written before a
  failure are not part of the result; the callers in these files do not read them.
\<close>

section \<open>Byte strings\<close>

type_synonym cbs = "u8 list"

type_synonym 'a parse = "'a option \<times> cbs"

text \<open>The idiom \<open>if (!f(cbs, &x)) return 0; ...\<close>, and a test that returns 0 where the \<open>CBS\<close> is left as
  it is.\<close>

definition p_then :: "'a parse \<Rightarrow> ('a \<Rightarrow> cbs \<Rightarrow> 'b parse) \<Rightarrow> 'b parse" where
  "p_then r k = (case r of (None, s) \<Rightarrow> (None, s) | (Some a, s) \<Rightarrow> k a s)"

definition CBS_init :: "u8 list \<Rightarrow> cbs" where
  "CBS_init data = data"

definition cbs_get :: "nat \<Rightarrow> cbs \<Rightarrow> u8 list parse" where
  "cbs_get n cbs = (if length cbs < n then (None, cbs) else (Some (take n cbs), drop n cbs))"

definition CBS_skip :: "nat \<Rightarrow> cbs \<Rightarrow> unit parse" where
  "CBS_skip len cbs = p_then (cbs_get len cbs) (\<lambda>dummy cbs. (Some (), cbs))"

definition CBS_data :: "cbs \<Rightarrow> u8 list" where
  "CBS_data cbs = cbs"

definition CBS_len :: "cbs \<Rightarrow> nat" where
  "CBS_len cbs = length cbs"

text \<open>Copies to the heap: the result, the new \<open>*out_ptr\<close> (\<open>None\<close> for NULL) and \<open>*out_len\<close>.\<close>

definition CBS_stow :: "bool \<Rightarrow> cbs \<Rightarrow> bool \<times> u8 list option \<times> nat" where
  "CBS_stow alloc cbs =
     (if length cbs = 0 then (True, None, 0)
      else case OPENSSL_memdup alloc cbs of
        None \<Rightarrow> (False, None, 0)
      | Some p \<Rightarrow> (True, Some p, length cbs))"

definition CBS_strdup :: "bool \<Rightarrow> cbs \<Rightarrow> bool \<times> u8 list option" where
  "CBS_strdup alloc cbs =
     (let out_ptr = OPENSSL_strndup alloc cbs (word_of_nat (length cbs))
      in (out_ptr \<noteq> None, out_ptr))"

definition CBS_contains_zero_byte :: "cbs \<Rightarrow> bool" where
  "CBS_contains_zero_byte cbs = (0 \<in> set cbs)"

definition CBS_mem_equal :: "cbs \<Rightarrow> u8 list \<Rightarrow> nat \<Rightarrow> bool" where
  "CBS_mem_equal cbs data len =
     (if len \<noteq> length cbs then False else CRYPTO_memcmp cbs data len = 0)"

section \<open>Integers\<close>

fun get_u_loop :: "u64 \<Rightarrow> u8 list \<Rightarrow> u64" where
  "get_u_loop result [] = result"
| "get_u_loop result (b # bs) = get_u_loop (push_bit 8 result OR ucast b) bs"

definition cbs_get_u :: "nat \<Rightarrow> cbs \<Rightarrow> u64 parse" where
  "cbs_get_u len cbs = p_then (cbs_get len cbs) (\<lambda>data cbs. (Some (get_u_loop 0 data), cbs))"

definition CBS_get_u8 :: "cbs \<Rightarrow> u8 parse" where
  "CBS_get_u8 cbs = p_then (cbs_get 1 cbs) (\<lambda>v cbs. (Some (v ! 0), cbs))"

definition CBS_get_u16 :: "cbs \<Rightarrow> u16 parse" where
  "CBS_get_u16 cbs = p_then (cbs_get_u 2 cbs) (\<lambda>v cbs. (Some (ucast v), cbs))"

definition CBS_get_u16le :: "cbs \<Rightarrow> u16 parse" where
  "CBS_get_u16le cbs = p_then (CBS_get_u16 cbs) (\<lambda>out cbs. (Some (CRYPTO_bswap2 out), cbs))"

definition CBS_get_u24 :: "cbs \<Rightarrow> u32 parse" where
  "CBS_get_u24 cbs = p_then (cbs_get_u 3 cbs) (\<lambda>v cbs. (Some (ucast v), cbs))"

definition CBS_get_u32 :: "cbs \<Rightarrow> u32 parse" where
  "CBS_get_u32 cbs = p_then (cbs_get_u 4 cbs) (\<lambda>v cbs. (Some (ucast v), cbs))"

definition CBS_get_u32le :: "cbs \<Rightarrow> u32 parse" where
  "CBS_get_u32le cbs = p_then (CBS_get_u32 cbs) (\<lambda>out cbs. (Some (CRYPTO_bswap4 out), cbs))"

definition CBS_get_u64 :: "cbs \<Rightarrow> u64 parse" where
  "CBS_get_u64 cbs = cbs_get_u 8 cbs"

definition CBS_get_u64le :: "cbs \<Rightarrow> u64 parse" where
  "CBS_get_u64le cbs = p_then (cbs_get_u 8 cbs) (\<lambda>out cbs. (Some (CRYPTO_bswap8 out), cbs))"

definition CBS_get_last_u8 :: "cbs \<Rightarrow> u8 parse" where
  "CBS_get_last_u8 cbs =
     (if length cbs = 0 then (None, cbs)
      else (Some (cbs ! (length cbs - 1)), take (length cbs - 1) cbs))"

definition CBS_get_bytes :: "nat \<Rightarrow> cbs \<Rightarrow> cbs parse" where
  "CBS_get_bytes len cbs = p_then (cbs_get len cbs) (\<lambda>v cbs. (Some (CBS_init v), cbs))"

definition CBS_copy_bytes :: "nat \<Rightarrow> cbs \<Rightarrow> u8 list parse" where
  "CBS_copy_bytes len cbs = p_then (cbs_get len cbs) (\<lambda>v cbs. (Some (take len v), cbs))"

definition cbs_get_length_prefixed :: "nat \<Rightarrow> cbs \<Rightarrow> cbs parse" where
  "cbs_get_length_prefixed len_len cbs =
     p_then (cbs_get_u len_len cbs) (\<lambda>len cbs. CBS_get_bytes (unat len) cbs)"

definition CBS_get_u8_length_prefixed :: "cbs \<Rightarrow> cbs parse" where
  "CBS_get_u8_length_prefixed = cbs_get_length_prefixed 1"

definition CBS_get_u16_length_prefixed :: "cbs \<Rightarrow> cbs parse" where
  "CBS_get_u16_length_prefixed = cbs_get_length_prefixed 2"

definition CBS_get_u24_length_prefixed :: "cbs \<Rightarrow> cbs parse" where
  "CBS_get_u24_length_prefixed = cbs_get_length_prefixed 3"

section \<open>ASN.1 elements\<close>

definition CBS_ASN1_TAG_SHIFT :: nat where "CBS_ASN1_TAG_SHIFT = 24"
definition CBS_ASN1_CONSTRUCTED :: u32 where
  "CBS_ASN1_CONSTRUCTED = push_bit CBS_ASN1_TAG_SHIFT 0x20"
definition CBS_ASN1_CONTEXT_SPECIFIC :: u32 where
  "CBS_ASN1_CONTEXT_SPECIFIC = push_bit CBS_ASN1_TAG_SHIFT 0x80"
definition CBS_ASN1_TAG_NUMBER_MASK :: u32 where
  "CBS_ASN1_TAG_NUMBER_MASK = push_bit (5 + CBS_ASN1_TAG_SHIFT) 1 - 1"
definition CBS_ASN1_BOOLEAN :: u32 where "CBS_ASN1_BOOLEAN = 0x1"
definition CBS_ASN1_INTEGER :: u32 where "CBS_ASN1_INTEGER = 0x2"
definition CBS_ASN1_OCTETSTRING :: u32 where "CBS_ASN1_OCTETSTRING = 0x4"
definition CBS_ASN1_OBJECT :: u32 where "CBS_ASN1_OBJECT = 0x6"
definition CBS_ASN1_SEQUENCE :: u32 where "CBS_ASN1_SEQUENCE = 0x10 OR CBS_ASN1_CONSTRUCTED"
definition CBS_ASN1_SET :: u32 where "CBS_ASN1_SET = 0x11 OR CBS_ASN1_CONSTRUCTED"

lemmas asn1_tag_defs = CBS_ASN1_TAG_SHIFT_def CBS_ASN1_CONSTRUCTED_def
  CBS_ASN1_CONTEXT_SPECIFIC_def CBS_ASN1_TAG_NUMBER_MASK_def CBS_ASN1_BOOLEAN_def
  CBS_ASN1_INTEGER_def CBS_ASN1_OCTETSTRING_def CBS_ASN1_OBJECT_def CBS_ASN1_SEQUENCE_def
  CBS_ASN1_SET_def

text \<open>The loop ends because every round takes a byte.\<close>

fun parse_base128_loop :: "u64 \<Rightarrow> cbs \<Rightarrow> u64 parse" where
  "parse_base128_loop v [] = (None, [])"
| "parse_base128_loop v (b # cbs) =
     (if drop_bit (64 - 7) v \<noteq> 0 then (None, cbs)
      else if v = 0 \<and> b = 0x80 then (None, cbs)
      else let v = push_bit 7 v OR ucast (b AND 0x7f) in
        if b AND 0x80 \<noteq> 0 then parse_base128_loop v cbs else (Some v, cbs))"

definition parse_base128_integer :: "cbs \<Rightarrow> u64 parse" where
  "parse_base128_integer cbs = parse_base128_loop 0 cbs"

definition parse_asn1_tag :: "cbs \<Rightarrow> u32 parse" where
  "parse_asn1_tag cbs =
     p_then (CBS_get_u8 cbs) (\<lambda>tag_byte cbs.
       let tag = push_bit CBS_ASN1_TAG_SHIFT (ucast tag_byte AND 0xe0) :: u32;
           tag_number = ucast (tag_byte AND 0x1f) :: u32
       in if tag_number = 0x1f then
            p_then (parse_base128_integer cbs) (\<lambda>v cbs.
              if v > ucast CBS_ASN1_TAG_NUMBER_MASK \<or> v < 0x1f then (None, cbs)
              else (Some (tag OR ucast v), cbs))
          else (Some (tag OR tag_number), cbs))"

text \<open>The header is parsed from a copy, \<open>header\<close>, so that a failure leaves \<open>cbs\<close> as it was. The result
  is the element, its tag and the length of its header.\<close>

definition cbs_get_any_asn1_element :: "bool \<Rightarrow> cbs \<Rightarrow> (cbs \<times> u32 \<times> u64) parse" where
  "cbs_get_any_asn1_element ber_ok cbs =
     (let finish = (\<lambda>len tag header_len.
            p_then (CBS_get_bytes (unat (len :: u64)) cbs)
              (\<lambda>out cbs. (Some (out, tag, header_len), cbs)))
      in case parse_asn1_tag cbs of (None, header) \<Rightarrow> (None, cbs) | (Some tag, header) \<Rightarrow>
        (case CBS_get_u8 header of (None, header) \<Rightarrow> (None, cbs) | (Some length_byte, header) \<Rightarrow>
          let header_len = word_of_nat (CBS_len cbs - CBS_len header) :: u64 in
          if length_byte AND 0x80 = 0 then
            finish (ucast length_byte + header_len) tag header_len
          else
            let num_bytes = unat (length_byte AND 0x7f) in
            if ber_ok \<and> tag AND CBS_ASN1_CONSTRUCTED \<noteq> 0 \<and> num_bytes = 0 then
              finish header_len tag header_len
            else if num_bytes = 0 \<or> num_bytes > 4 then (None, cbs)
            else (case cbs_get_u num_bytes header of (None, header) \<Rightarrow> (None, cbs)
              | (Some len64, header) \<Rightarrow>
                if len64 < 128 then (None, cbs)
                else if drop_bit ((num_bytes - 1) * 8) len64 = 0 then (None, cbs)
                else let len = len64 in
                  if len + header_len + word_of_nat num_bytes < len then (None, cbs)
                  else finish (len + (header_len + word_of_nat num_bytes)) tag
                         (header_len + word_of_nat num_bytes))))"

definition CBS_get_any_asn1_element :: "cbs \<Rightarrow> (cbs \<times> u32 \<times> u64) parse" where
  "CBS_get_any_asn1_element cbs = cbs_get_any_asn1_element False cbs"

definition CBS_get_any_ber_asn1_element :: "cbs \<Rightarrow> (cbs \<times> u32 \<times> u64) parse" where
  "CBS_get_any_ber_asn1_element cbs = cbs_get_any_asn1_element True cbs"

definition CBS_get_any_asn1 :: "cbs \<Rightarrow> (cbs \<times> u32) parse" where
  "CBS_get_any_asn1 cbs =
     p_then (CBS_get_any_asn1_element cbs) (\<lambda>(out, tag, header_len) cbs.
       case CBS_skip (unat header_len) out of (None, out) \<Rightarrow> (None, cbs)
       | (Some _, out) \<Rightarrow> (Some (out, tag), cbs))"

text \<open>With the wrong tag the function fails after it has advanced over the element.\<close>

definition cbs_get_asn1 :: "u32 \<Rightarrow> bool \<Rightarrow> cbs \<Rightarrow> cbs parse" where
  "cbs_get_asn1 tag_value skip_header cbs =
     p_then (CBS_get_any_asn1_element cbs) (\<lambda>(out, tag, header_len) cbs.
       if tag \<noteq> tag_value then (None, cbs)
       else if skip_header then
         (case CBS_skip (unat header_len) out of (None, out) \<Rightarrow> (None, cbs)
          | (Some _, out) \<Rightarrow> (Some out, cbs))
       else (Some out, cbs))"

definition CBS_get_asn1 :: "u32 \<Rightarrow> cbs \<Rightarrow> cbs parse" where
  "CBS_get_asn1 tag_value cbs = cbs_get_asn1 tag_value True cbs"

definition CBS_get_asn1_element :: "u32 \<Rightarrow> cbs \<Rightarrow> cbs parse" where
  "CBS_get_asn1_element tag_value cbs = cbs_get_asn1 tag_value False cbs"

definition CBS_peek_asn1_tag :: "cbs \<Rightarrow> u32 \<Rightarrow> bool" where
  "CBS_peek_asn1_tag cbs tag_value =
     (if CBS_len cbs < 1 then False
      else case parse_asn1_tag cbs of (None, _) \<Rightarrow> False
        | (Some actual_tag, _) \<Rightarrow> tag_value = actual_tag)"

section \<open>ASN.1 values\<close>

fun asn1_uint64_loop :: "u64 \<Rightarrow> u8 list \<Rightarrow> u64 option" where
  "asn1_uint64_loop out [] = Some out"
| "asn1_uint64_loop out (b # bs) =
     (if drop_bit 56 out \<noteq> 0 then None
      else asn1_uint64_loop (push_bit 8 out OR ucast b) bs)"

definition CBS_get_asn1_uint64 :: "cbs \<Rightarrow> u64 parse" where
  "CBS_get_asn1_uint64 cbs =
     p_then (CBS_get_asn1 CBS_ASN1_INTEGER cbs) (\<lambda>bytes cbs.
       let data = CBS_data bytes; len = CBS_len bytes in
       if len = 0 then (None, cbs)
       else if data ! 0 AND 0x80 \<noteq> 0 then (None, cbs)
       else if data ! 0 = 0 \<and> len > 1 \<and> data ! 1 AND 0x80 = 0 then (None, cbs)
       else (asn1_uint64_loop 0 data, cbs))"

text \<open>The union of the code: eight bytes read back as a little-endian \<open>int64_t\<close>, a \<open>64 word\<close> that
  its readers take as signed.\<close>

function int64_fill :: "nat \<Rightarrow> u8 list \<Rightarrow> u8 list \<Rightarrow> u8 list" where
  "int64_fill i data u = (if i < length data
     then int64_fill (i + 1) data (u[i := data ! (length data - i - 1)]) else u)"
  by auto
termination by (relation "measure (\<lambda>(i, data, u). length data - i)") auto

declare int64_fill.simps [simp del]

definition CBS_get_asn1_int64 :: "cbs \<Rightarrow> u64 parse" where
  "CBS_get_asn1_int64 cbs =
     p_then (CBS_get_asn1 CBS_ASN1_INTEGER cbs) (\<lambda>bytes cbs.
       let data = CBS_data bytes; len = CBS_len bytes in
       if len = 0 \<or> len > 8 then (None, cbs)
       else if len > 1 \<and> data ! 0 = 0 \<and> data ! 1 AND 0x80 = 0 then (None, cbs)
       else if len > 1 \<and> data ! 0 = 0xff \<and> data ! 1 AND 0x80 \<noteq> 0 then (None, cbs)
       else let is_negative = data ! 0 AND 0x80 \<noteq> 0;
                u = replicate 8 (if is_negative then 0xff else 0)
            in (Some (le_word (int64_fill 0 data u)), cbs))"

definition CBS_get_asn1_bool :: "cbs \<Rightarrow> int parse" where
  "CBS_get_asn1_bool cbs =
     p_then (CBS_get_asn1 CBS_ASN1_BOOLEAN cbs) (\<lambda>bytes cbs.
       if CBS_len bytes \<noteq> 1 then (None, cbs)
       else let value = CBS_data bytes ! 0 in
         if value \<noteq> 0 \<and> value \<noteq> 0xff then (None, cbs)
         else (Some (if value \<noteq> 0 then 1 else 0), cbs))"

text \<open>Optional elements: \<open>Some None\<close> is absent (\<open>*out_present\<close> is 0), \<open>Some (Some x)\<close> present.\<close>

definition CBS_get_optional_asn1 :: "u32 \<Rightarrow> cbs \<Rightarrow> cbs option parse" where
  "CBS_get_optional_asn1 tag cbs =
     (if CBS_peek_asn1_tag cbs tag
      then p_then (CBS_get_asn1 tag cbs) (\<lambda>out cbs. (Some (Some out), cbs))
      else (Some None, cbs))"

definition CBS_get_optional_asn1_octet_string :: "u32 \<Rightarrow> cbs \<Rightarrow> (cbs \<times> bool) parse" where
  "CBS_get_optional_asn1_octet_string tag cbs =
     p_then (CBS_get_optional_asn1 tag cbs) (\<lambda>child cbs.
       case child of
         Some child \<Rightarrow>
           (case CBS_get_asn1 CBS_ASN1_OCTETSTRING child of
              (Some out, child) \<Rightarrow> if CBS_len child \<noteq> 0 then (None, cbs) else (Some (out, True), cbs)
            | (None, child) \<Rightarrow> (None, cbs))
       | None \<Rightarrow> (Some (CBS_init [], False), cbs))"

definition CBS_get_optional_asn1_uint64 :: "u32 \<Rightarrow> u64 \<Rightarrow> cbs \<Rightarrow> u64 parse" where
  "CBS_get_optional_asn1_uint64 tag default_value cbs =
     p_then (CBS_get_optional_asn1 tag cbs) (\<lambda>child cbs.
       case child of
         Some child \<Rightarrow>
           (case CBS_get_asn1_uint64 child of
              (Some out, child) \<Rightarrow> if CBS_len child \<noteq> 0 then (None, cbs) else (Some out, cbs)
            | (None, child) \<Rightarrow> (None, cbs))
       | None \<Rightarrow> (Some default_value, cbs))"

definition CBS_get_optional_asn1_bool :: "u32 \<Rightarrow> int \<Rightarrow> cbs \<Rightarrow> int parse" where
  "CBS_get_optional_asn1_bool tag default_value cbs =
     p_then (CBS_get_optional_asn1 tag cbs) (\<lambda>child cbs.
       case child of
         Some child \<Rightarrow>
           (case CBS_get_asn1 CBS_ASN1_BOOLEAN child of
              (Some child2, child) \<Rightarrow>
                if CBS_len child2 \<noteq> 1 \<or> CBS_len child \<noteq> 0 then (None, cbs)
                else let boolean = CBS_data child2 ! 0 in
                  if boolean = 0 then (Some 0, cbs)
                  else if boolean = 0xff then (Some 1, cbs)
                  else (None, cbs)
            | (None, child) \<Rightarrow> (None, cbs))
       | None \<Rightarrow> (Some default_value, cbs))"

section \<open>Bit strings\<close>

definition CBS_is_valid_asn1_bitstring :: "cbs \<Rightarrow> bool" where
  "CBS_is_valid_asn1_bitstring cbs =
     (case CBS_get_u8 cbs of (None, inp) \<Rightarrow> False
      | (Some num_unused_bits, inp) \<Rightarrow>
          if num_unused_bits > 7 then False
          else if num_unused_bits = 0 then True
          else (case CBS_get_last_u8 inp of (None, inp) \<Rightarrow> False
            | (Some last_byte, inp) \<Rightarrow> last_byte AND (push_bit (unat num_unused_bits) 1 - 1) = 0))"

definition CBS_asn1_bitstring_has_bit :: "cbs \<Rightarrow> u32 \<Rightarrow> bool" where
  "CBS_asn1_bitstring_has_bit cbs b =
     (if \<not> CBS_is_valid_asn1_bitstring cbs then False
      else let byte_num = drop_bit 3 b + 1;
               bit_num = 7 - (b AND 7)
           in unat byte_num < CBS_len cbs \<and>
              CBS_data cbs ! unat byte_num AND push_bit (unat bit_num) 1 \<noteq> 0)"

end
