(* ===== verification/Cbb.thy ===== *)
theory Cbb
  imports Cbs
begin

text \<open>
  BoringSSL's \<open>crypto/bytestring/cbb.c\<close>: building byte strings with pending length prefixes. The CBBs
  that grow out of one top-level CBB share its buffer; a state holds the buffer and the CBBs by an
  identifier, the address of the C variable. \<open>cb_base\<close> says that the \<open>base\<close> pointer is not NULL.

  Results are \<open>Some (r, st)\<close> with the value the C function returns and the new state; \<open>None\<close> is a
  write outside the buffer, or a flush along a cyclic chain of children. Allocation is an
  environment: \<open>alloc n\<close> says whether a request for \<open>n\<close> bytes succeeds, \<open>junk\<close> is the contents of
  fresh memory.
\<close>

section \<open>State\<close>

record cbb_env =
  alloc :: "u64 \<Rightarrow> bool"
  junk :: u8

record cbb_buffer =
  bb_buf :: "u8 list"
  bb_len :: u64
  bb_cap :: u64
  bb_can_resize :: bool
  bb_error :: bool

type_synonym cbb_id = nat

record cbb =
  cb_base :: bool
  cb_child :: "cbb_id option"
  cb_offset :: u64
  cb_pending_len_len :: u8
  cb_pending_is_asn1 :: bool
  cb_is_child :: bool

record cbb_state =
  st_base :: cbb_buffer
  st_cbb :: "cbb_id \<Rightarrow> cbb"

type_synonym cbb_op = "cbb_state \<Rightarrow> (bool \<times> cbb_state) option"

definition zero_cbb :: cbb where
  "zero_cbb = \<lparr>cb_base = False, cb_child = None, cb_offset = 0, cb_pending_len_len = 0,
     cb_pending_is_asn1 = False, cb_is_child = False\<rparr>"

definition set_cbb :: "cbb_id \<Rightarrow> cbb \<Rightarrow> cbb_state \<Rightarrow> cbb_state" where
  "set_cbb i c st = st\<lparr>st_cbb := (st_cbb st)(i := c)\<rparr>"

definition set_base :: "cbb_buffer \<Rightarrow> cbb_state \<Rightarrow> cbb_state" where
  "set_base b st = st\<lparr>st_base := b\<rparr>"

definition set_error :: "cbb_state \<Rightarrow> cbb_state" where
  "set_error st = st\<lparr>st_base := (st_base st)\<lparr>bb_error := True\<rparr>\<rparr>"

section \<open>The buffer\<close>

text \<open>Writing \<open>bs\<close> at index \<open>i\<close>, and moving \<open>n\<close> bytes from \<open>i\<close> to \<open>j\<close>.\<close>

definition bb_write :: "nat \<Rightarrow> u8 list \<Rightarrow> cbb_buffer \<Rightarrow> cbb_buffer option" where
  "bb_write i bs b =
     (if i + length bs \<le> length (bb_buf b)
      then Some (b\<lparr>bb_buf := take i (bb_buf b) @ bs @ drop (i + length bs) (bb_buf b)\<rparr>)
      else None)"

definition bb_move :: "nat \<Rightarrow> nat \<Rightarrow> nat \<Rightarrow> cbb_buffer \<Rightarrow> cbb_buffer option" where
  "bb_move j i n b =
     (if i + n \<le> length (bb_buf b) then bb_write j (take n (drop i (bb_buf b))) b else None)"

definition CBB_zero :: "cbb_id \<Rightarrow> cbb_state \<Rightarrow> cbb_state" where
  "CBB_zero cbb st = set_cbb cbb zero_cbb st"

definition cbb_init :: "cbb_env \<Rightarrow> cbb_id \<Rightarrow> u8 list \<Rightarrow> u64 \<Rightarrow> cbb_state \<Rightarrow> bool \<times> cbb_state" where
  "cbb_init env cbb buf cap st =
     (if \<not> alloc env 32 then (False, st)
      else (True, set_cbb cbb ((st_cbb st cbb)\<lparr>cb_base := True, cb_is_child := False\<rparr>)
         (set_base \<lparr>bb_buf = buf, bb_len = 0, bb_cap = cap, bb_can_resize = True, bb_error = False\<rparr>
           st)))"

definition CBB_init :: "cbb_env \<Rightarrow> cbb_id \<Rightarrow> u64 \<Rightarrow> cbb_state \<Rightarrow> bool \<times> cbb_state" where
  "CBB_init env cbb initial_capacity st =
     (let st = CBB_zero cbb st;
          buf = replicate (unat initial_capacity) (junk env)
      in if initial_capacity > 0 \<and> \<not> alloc env initial_capacity then (False, st)
         else cbb_init env cbb buf initial_capacity st)"

definition CBB_init_fixed :: "cbb_env \<Rightarrow> cbb_id \<Rightarrow> u8 list \<Rightarrow> u64 \<Rightarrow> cbb_state \<Rightarrow> bool \<times> cbb_state" where
  "CBB_init_fixed env cbb buf len st =
     and_then (cbb_init env cbb buf len (CBB_zero cbb st)) (\<lambda>st.
       (True, set_base ((st_base st)\<lparr>bb_can_resize := False\<rparr>) st))"

definition CBB_cleanup :: "cbb_id \<Rightarrow> cbb_state \<Rightarrow> cbb_state" where
  "CBB_cleanup cbb st =
     (if cb_is_child (st_cbb st cbb) then st
      else set_cbb cbb ((st_cbb st cbb)\<lparr>cb_base := False\<rparr>) st)"

definition cbb_buffer_reserve :: "cbb_env \<Rightarrow> u64 \<Rightarrow> cbb_buffer \<Rightarrow> bool \<times> cbb_buffer" where
  "cbb_buffer_reserve env len base =
     (let newlen = bb_len base + len; err = (False, base\<lparr>bb_error := True\<rparr>) in
      if newlen < bb_len base then err
      else if newlen > bb_cap base then
        (let newcap = bb_cap base * 2 in
         if \<not> bb_can_resize base then err
         else let newcap = (if newcap < bb_cap base \<or> newcap < newlen then newlen else newcap) in
           if \<not> alloc env newcap then err
           else (True, base\<lparr>bb_buf := bb_buf base @
                   replicate (unat newcap - length (bb_buf base)) (junk env), bb_cap := newcap\<rparr>))
      else (True, base))"

definition cbb_buffer_add :: "cbb_env \<Rightarrow> u64 \<Rightarrow> cbb_buffer \<Rightarrow> bool \<times> cbb_buffer" where
  "cbb_buffer_add env len base =
     and_then (cbb_buffer_reserve env len base) (\<lambda>base.
       (True, base\<lparr>bb_len := bb_len base + len\<rparr>))"

text \<open>The loop that stores \<open>v\<close> big-endian in the \<open>n\<close> bytes from index \<open>p\<close>, and what is left of \<open>v\<close>.\<close>

fun store_be :: "nat \<Rightarrow> nat \<Rightarrow> u64 \<Rightarrow> cbb_buffer \<Rightarrow> (u64 \<times> cbb_buffer) option" where
  "store_be p 0 v b = Some (v, b)"
| "store_be p (Suc i) v b =
     (case bb_write (p + i) [ucast v] b of None \<Rightarrow> None
      | Some b \<Rightarrow> store_be p i (drop_bit 8 v) b)"

definition cbb_buffer_add_u ::
  "cbb_env \<Rightarrow> u64 \<Rightarrow> nat \<Rightarrow> cbb_buffer \<Rightarrow> (bool \<times> cbb_buffer) option" where
  "cbb_buffer_add_u env v len_len base =
     (if len_len = 0 then Some (True, base)
      else let p = unat (bb_len base) in
        case cbb_buffer_add env (word_of_nat len_len) base of
          (False, base) \<Rightarrow> Some (False, base)
        | (True, base) \<Rightarrow> do {
            (v, base) \<leftarrow> store_be p len_len v base;
            Some (if v \<noteq> 0 then (False, base\<lparr>bb_error := True\<rparr>) else (True, base))
          })"

text \<open>An operation on \<open>cbb->base\<close>.\<close>

definition on_base :: "(cbb_buffer \<Rightarrow> (bool \<times> cbb_buffer) option) \<Rightarrow> cbb_id \<Rightarrow> cbb_op" where
  "on_base f cbb st =
     (if \<not> cb_base (st_cbb st cbb) then Some (False, st)
      else do { (ok, b) \<leftarrow> f (st_base st); Some (ok, set_base b st) })"

section \<open>Flushing\<close>

text \<open>The second half of \<open>CBB_flush\<close>: the length prefix of child \<open>k\<close>, whose contents start at
  \<open>child_start\<close> and end with the buffer.\<close>

definition asn1_len_len :: "u64 \<Rightarrow> u64 \<times> u8 \<times> u64" where
  "asn1_len_len len =
     (if len > 0xffffff then (5, 0x80 OR 4, len)
      else if len > 0xffff then (4, 0x80 OR 3, len)
      else if len > 0xff then (3, 0x80 OR 2, len)
      else if len > 0x7f then (2, 0x80 OR 1, len)
      else (1, ucast len, 0))"

definition flush_asn1 :: "cbb_env \<Rightarrow> cbb_id \<Rightarrow> u64 \<Rightarrow> u64 \<Rightarrow> cbb_state \<Rightarrow>
    ((u64 \<times> cbb_state) option) option" where
  "flush_asn1 env k child_start len st =
     (if len > 0xfffffffe then Some None
      else let (len_len, initial_length_byte, len') = asn1_len_len len; ch = st_cbb st k in
        case (if len_len \<noteq> 1 then
                (let extra_bytes = len_len - 1 in
                 case cbb_buffer_add env extra_bytes (st_base st) of
                   (False, base) \<Rightarrow> Some (False, base)
                 | (True, base) \<Rightarrow>
                     (case bb_move (unat (child_start + extra_bytes)) (unat child_start) (unat len)
                             base of None \<Rightarrow> None | Some base \<Rightarrow> Some (True, base)))
              else Some (True, st_base st)) of
          None \<Rightarrow> None
        | Some (False, base) \<Rightarrow> Some None
        | Some (True, base) \<Rightarrow>
            (case bb_write (unat (cb_offset ch)) [initial_length_byte] base of None \<Rightarrow> None
             | Some base \<Rightarrow> Some (Some (len',
                 set_cbb k (ch\<lparr>cb_offset := cb_offset ch + 1,
                                cb_pending_len_len := ucast (len_len - 1)\<rparr>)
                   (set_base base st)))))"

definition flush_prefix :: "cbb_env \<Rightarrow> cbb_id \<Rightarrow> cbb_id \<Rightarrow> u64 \<Rightarrow> cbb_op" where
  "flush_prefix env cbb k child_start st =
     (let len = bb_len (st_base st) - child_start in
      case (if cb_pending_is_asn1 (st_cbb st k) then flush_asn1 env k child_start len st
            else Some (Some (len, st))) of
        None \<Rightarrow> None
      | Some None \<Rightarrow> Some (False, set_error st)
      | Some (Some (len, st)) \<Rightarrow>
          let ch = st_cbb st k in
          (case store_be (unat (cb_offset ch)) (unat (cb_pending_len_len ch)) len (st_base st) of
             None \<Rightarrow> None
           | Some (len, base) \<Rightarrow>
               if len \<noteq> 0 then Some (False, set_error (set_base base st))
               else let st = set_cbb k ((st_cbb st k)\<lparr>cb_base := False\<rparr>) (set_base base st)
                    in Some (True, set_cbb cbb ((st_cbb st cbb)\<lparr>cb_child := None\<rparr>) st)))"

partial_function (option) CBB_flush ::
  "cbb_env \<Rightarrow> cbb_id \<Rightarrow> cbb_state \<Rightarrow> (bool \<times> cbb_state) option" where
  "CBB_flush env cbb st =
     (if \<not> cb_base (st_cbb st cbb) \<or> bb_error (st_base st) then Some (False, st)
      else case cb_child (st_cbb st cbb) of None \<Rightarrow> Some (True, st)
      | Some k \<Rightarrow>
          if cb_pending_len_len (st_cbb st k) = 0 then Some (True, st)
          else let child_start = cb_offset (st_cbb st k) + ucast (cb_pending_len_len (st_cbb st k)) in
            do {
              (ok, st) \<leftarrow> CBB_flush env k st;
              if \<not> ok \<or> child_start < cb_offset (st_cbb st k) \<or> bb_len (st_base st) < child_start
              then Some (False, set_error st)
              else flush_prefix env cbb k child_start st
            })"

section \<open>Finishing\<close>

text \<open>\<open>want\<close> says that the pointers \<open>out_data\<close> and \<open>out_len\<close> are not NULL. The first component is what
  is stored through them: the buffer and its length.\<close>

definition CBB_finish ::
  "cbb_env \<Rightarrow> cbb_id \<Rightarrow> bool \<Rightarrow> cbb_state \<Rightarrow> ((u8 list \<times> u64) option \<times> cbb_state) option" where
  "CBB_finish env cbb want st =
     (if cb_is_child (st_cbb st cbb) then Some (None, st)
      else do {
        (ok, st) \<leftarrow> CBB_flush env cbb st;
        if \<not> ok then Some (None, st)
        else if bb_can_resize (st_base st) \<and> \<not> want then Some (None, st)
        else Some (Some (bb_buf (st_base st), bb_len (st_base st)), CBB_cleanup cbb st)
      })"

definition CBB_data :: "cbb_id \<Rightarrow> cbb_state \<Rightarrow> u8 list" where
  "CBB_data cbb st =
     drop (unat (cb_offset (st_cbb st cbb) + ucast (cb_pending_len_len (st_cbb st cbb))))
       (take (unat (bb_len (st_base st))) (bb_buf (st_base st)))"

definition CBB_len :: "cbb_id \<Rightarrow> cbb_state \<Rightarrow> u64" where
  "CBB_len cbb st =
     bb_len (st_base st) - cb_offset (st_cbb st cbb) - ucast (cb_pending_len_len (st_cbb st cbb))"

section \<open>Adding bytes and integers\<close>

text \<open>The idiom \<open>if (!CBB_flush(cbb)) return 0; ...\<close> continues with \<open>and_then_opt\<close>.\<close>

definition CBB_add_bytes :: "cbb_env \<Rightarrow> cbb_id \<Rightarrow> u8 list \<Rightarrow> cbb_op" where
  "CBB_add_bytes env cbb data st =
     and_then_opt (CBB_flush env cbb st) (on_base (\<lambda>b.
       let dest = unat (bb_len b) in
       case cbb_buffer_add env (word_of_nat (length data)) b of
         (False, b) \<Rightarrow> Some (False, b)
       | (True, b) \<Rightarrow> (case bb_write dest data b of None \<Rightarrow> None | Some b \<Rightarrow> Some (True, b))) cbb)"

text \<open>\<open>*out_data\<close> is the old end of the contents.\<close>

definition CBB_add_space :: "cbb_env \<Rightarrow> cbb_id \<Rightarrow> u64 \<Rightarrow> cbb_op" where
  "CBB_add_space env cbb len st =
     and_then_opt (CBB_flush env cbb st) (on_base (\<lambda>b. Some (cbb_buffer_add env len b)) cbb)"

definition CBB_reserve :: "cbb_env \<Rightarrow> cbb_id \<Rightarrow> u64 \<Rightarrow> cbb_op" where
  "CBB_reserve env cbb len st =
     and_then_opt (CBB_flush env cbb st) (on_base (\<lambda>b. Some (cbb_buffer_reserve env len b)) cbb)"

definition CBB_did_write :: "cbb_id \<Rightarrow> u64 \<Rightarrow> cbb_state \<Rightarrow> bool \<times> cbb_state" where
  "CBB_did_write cbb len st =
     (let newlen = bb_len (st_base st) + len in
      if cb_child (st_cbb st cbb) \<noteq> None \<or> newlen < bb_len (st_base st) \<or>
         newlen > bb_cap (st_base st) then (False, st)
      else (True, set_base ((st_base st)\<lparr>bb_len := newlen\<rparr>) st))"

definition cbb_add_u :: "cbb_env \<Rightarrow> cbb_id \<Rightarrow> u64 \<Rightarrow> nat \<Rightarrow> cbb_op" where
  "cbb_add_u env cbb v n st =
     and_then_opt (CBB_flush env cbb st) (on_base (cbb_buffer_add_u env v n) cbb)"

definition CBB_add_u8 :: "cbb_env \<Rightarrow> cbb_id \<Rightarrow> u8 \<Rightarrow> cbb_op" where
  "CBB_add_u8 env cbb v = cbb_add_u env cbb (ucast v) 1"

definition CBB_add_u16 :: "cbb_env \<Rightarrow> cbb_id \<Rightarrow> u16 \<Rightarrow> cbb_op" where
  "CBB_add_u16 env cbb v = cbb_add_u env cbb (ucast v) 2"

definition CBB_add_u16le :: "cbb_env \<Rightarrow> cbb_id \<Rightarrow> u16 \<Rightarrow> cbb_op" where
  "CBB_add_u16le env cbb v = CBB_add_u16 env cbb (CRYPTO_bswap2 v)"

definition CBB_add_u24 :: "cbb_env \<Rightarrow> cbb_id \<Rightarrow> u32 \<Rightarrow> cbb_op" where
  "CBB_add_u24 env cbb v = cbb_add_u env cbb (ucast v) 3"

definition CBB_add_u32 :: "cbb_env \<Rightarrow> cbb_id \<Rightarrow> u32 \<Rightarrow> cbb_op" where
  "CBB_add_u32 env cbb v = cbb_add_u env cbb (ucast v) 4"

definition CBB_add_u32le :: "cbb_env \<Rightarrow> cbb_id \<Rightarrow> u32 \<Rightarrow> cbb_op" where
  "CBB_add_u32le env cbb v = CBB_add_u32 env cbb (CRYPTO_bswap4 v)"

definition CBB_add_u64 :: "cbb_env \<Rightarrow> cbb_id \<Rightarrow> u64 \<Rightarrow> cbb_op" where
  "CBB_add_u64 env cbb v = cbb_add_u env cbb v 8"

definition CBB_add_u64le :: "cbb_env \<Rightarrow> cbb_id \<Rightarrow> u64 \<Rightarrow> cbb_op" where
  "CBB_add_u64le env cbb v = CBB_add_u64 env cbb (CRYPTO_bswap8 v)"

section \<open>Children\<close>

definition start_child :: "cbb_id \<Rightarrow> cbb_id \<Rightarrow> u64 \<Rightarrow> u8 \<Rightarrow> bool \<Rightarrow> cbb_state \<Rightarrow> cbb_state" where
  "start_child cbb out_contents offset len_len is_asn1 st =
     (let st = set_cbb out_contents (zero_cbb\<lparr>cb_base := cb_base (st_cbb st cbb), cb_is_child := True,
            cb_offset := offset, cb_pending_len_len := len_len, cb_pending_is_asn1 := is_asn1\<rparr>) st
      in set_cbb cbb ((st_cbb st cbb)\<lparr>cb_child := Some out_contents\<rparr>) st)"

definition cbb_add_length_prefixed :: "cbb_env \<Rightarrow> cbb_id \<Rightarrow> cbb_id \<Rightarrow> u8 \<Rightarrow> cbb_op" where
  "cbb_add_length_prefixed env cbb out_contents len_len st =
     and_then_opt (CBB_flush env cbb st) (\<lambda>st.
       let offset = bb_len (st_base st) in
       and_then_opt
         (on_base (\<lambda>b. case cbb_buffer_add env (ucast len_len) b of
             (False, b) \<Rightarrow> Some (False, b)
           | (True, b) \<Rightarrow> (case bb_write (unat offset) (replicate (unat len_len) 0) b of
               None \<Rightarrow> None | Some b \<Rightarrow> Some (True, b))) cbb st)
         (\<lambda>st. Some (True, start_child cbb out_contents offset len_len False st)))"

definition CBB_add_u8_length_prefixed :: "cbb_env \<Rightarrow> cbb_id \<Rightarrow> cbb_id \<Rightarrow> cbb_op" where
  "CBB_add_u8_length_prefixed env cbb out_contents = cbb_add_length_prefixed env cbb out_contents 1"

definition CBB_add_u16_length_prefixed :: "cbb_env \<Rightarrow> cbb_id \<Rightarrow> cbb_id \<Rightarrow> cbb_op" where
  "CBB_add_u16_length_prefixed env cbb out_contents = cbb_add_length_prefixed env cbb out_contents 2"

definition CBB_add_u24_length_prefixed :: "cbb_env \<Rightarrow> cbb_id \<Rightarrow> cbb_id \<Rightarrow> cbb_op" where
  "CBB_add_u24_length_prefixed env cbb out_contents = cbb_add_length_prefixed env cbb out_contents 3"

text \<open>\<open>add_base128_integer\<close>: the number of groups, and the loop that writes groups \<open>i - 1\<close> to 0.\<close>

function base128_len_len :: "u64 \<Rightarrow> nat" where
  "base128_len_len copy = (if copy > 0 then Suc (base128_len_len (drop_bit 7 copy)) else 0)"
  by auto
termination
  by (relation "measure unat") (auto intro: drop_bit_less simp: word_neq_0_conv)

declare base128_len_len.simps [simp del]

fun add_base128_loop :: "cbb_env \<Rightarrow> cbb_id \<Rightarrow> u64 \<Rightarrow> nat \<Rightarrow> cbb_op" where
  "add_base128_loop env cbb v 0 st = Some (True, st)"
| "add_base128_loop env cbb v (Suc i) st =
     (let byte = ucast (drop_bit (7 * i) v) AND 0x7F;
          byte = (if i \<noteq> 0 then byte OR 0x80 else byte)
      in and_then_opt (CBB_add_u8 env cbb byte st) (add_base128_loop env cbb v i))"

definition add_base128_integer :: "cbb_env \<Rightarrow> cbb_id \<Rightarrow> u64 \<Rightarrow> cbb_op" where
  "add_base128_integer env cbb v =
     (let len_len = base128_len_len v;
          len_len = (if len_len = 0 then 1 else len_len)
      in add_base128_loop env cbb v len_len)"

definition CBB_add_asn1 :: "cbb_env \<Rightarrow> cbb_id \<Rightarrow> cbb_id \<Rightarrow> u32 \<Rightarrow> cbb_op" where
  "CBB_add_asn1 env cbb out_contents tag st =
     and_then_opt (CBB_flush env cbb st) (\<lambda>st.
       let tag_bits = ucast (drop_bit CBS_ASN1_TAG_SHIFT tag) AND 0xE0 :: u8;
           tag_number = tag AND CBS_ASN1_TAG_NUMBER_MASK
       in and_then_opt
            (if tag_number \<ge> 0x1F then
               and_then_opt (CBB_add_u8 env cbb (tag_bits OR 0x1F) st)
                 (add_base128_integer env cbb (ucast tag_number))
             else CBB_add_u8 env cbb (tag_bits OR ucast tag_number) st)
            (\<lambda>st. let offset = bb_len (st_base st) in
               and_then_opt (CBB_add_u8 env cbb 0 st) (\<lambda>st.
                 Some (True, start_child cbb out_contents offset 1 True st))))"

definition CBB_discard_child :: "cbb_id \<Rightarrow> cbb_state \<Rightarrow> cbb_state" where
  "CBB_discard_child cbb st =
     (case cb_child (st_cbb st cbb) of None \<Rightarrow> st
      | Some k \<Rightarrow>
          let st = set_base ((st_base st)\<lparr>bb_len := cb_offset (st_cbb st k)\<rparr>) st;
              st = set_cbb k ((st_cbb st k)\<lparr>cb_base := False\<rparr>) st
          in set_cbb cbb ((st_cbb st cbb)\<lparr>cb_child := None\<rparr>) st)"

section \<open>ASN.1 values\<close>

text \<open>The argument \<open>child\<close> is the local variable of that name. In \<open>add_uint64_loop\<close> the byte of index
  \<open>i\<close> is the one \<open>8 * (7 - i)\<close> bits up; \<open>started\<close> is returned when the loop ends.\<close>

fun add_uint64_loop ::
  "cbb_env \<Rightarrow> cbb_id \<Rightarrow> u64 \<Rightarrow> nat list \<Rightarrow> bool \<Rightarrow> cbb_state \<Rightarrow> (bool option \<times> cbb_state) option" where
  "add_uint64_loop env child value [] started st = Some (Some started, st)"
| "add_uint64_loop env child value (i # is) started st =
     (let byte = ucast (drop_bit (8 * (7 - i)) value) :: u8 in
      if \<not> started \<and> byte = 0 then add_uint64_loop env child value is started st
      else do {
        (ok, st) \<leftarrow> (if \<not> started \<and> byte AND 0x80 \<noteq> 0 then CBB_add_u8 env child 0 st
                   else Some (True, st));
        if \<not> ok then Some (None, st)
        else do {
          (ok, st) \<leftarrow> CBB_add_u8 env child byte st;
          if \<not> ok then Some (None, st)
          else add_uint64_loop env child value is True st
        }
      })"

definition CBB_add_asn1_uint64 :: "cbb_env \<Rightarrow> cbb_id \<Rightarrow> cbb_id \<Rightarrow> u64 \<Rightarrow> cbb_op" where
  "CBB_add_asn1_uint64 env cbb child value st =
     and_then_opt (CBB_add_asn1 env cbb child CBS_ASN1_INTEGER st) (\<lambda>st. do {
       (r, st) \<leftarrow> add_uint64_loop env child value [0, 1, 2, 3, 4, 5, 6, 7] False st;
       (case r of None \<Rightarrow> Some (False, st)
        | Some started \<Rightarrow>
            and_then_opt (if \<not> started then CBB_add_u8 env child 0 st else Some (True, st))
              (CBB_flush env cbb))
     })"

text \<open>The first octet to write: leading sign octets are skipped.\<close>

fun int64_start :: "u8 list \<Rightarrow> nat \<Rightarrow> nat" where
  "int64_start bytes 0 = 0"
| "int64_start bytes (Suc i) =
     (if bytes ! Suc i = 0xFF \<and> bytes ! i AND 0x80 \<noteq> 0 then int64_start bytes i else Suc i)"

fun add_bytes_down :: "cbb_env \<Rightarrow> cbb_id \<Rightarrow> u8 list \<Rightarrow> nat \<Rightarrow> cbb_op" where
  "add_bytes_down env child bytes 0 st = Some (True, st)"
| "add_bytes_down env child bytes (Suc i) st =
     and_then_opt (CBB_add_u8 env child (bytes ! i) st) (add_bytes_down env child bytes i)"

definition CBB_add_asn1_int64 :: "cbb_env \<Rightarrow> cbb_id \<Rightarrow> cbb_id \<Rightarrow> u64 \<Rightarrow> cbb_op" where
  "CBB_add_asn1_int64 env cbb child value st =
     (if sint value \<ge> 0 then CBB_add_asn1_uint64 env cbb child value st
      else let bytes = le_bytes 8 value; start = int64_start bytes 7 in
        and_then_opt (CBB_add_asn1 env cbb child CBS_ASN1_INTEGER st) (\<lambda>st.
          and_then_opt (add_bytes_down env child bytes (start + 1) st) (CBB_flush env cbb)))"

definition CBB_add_asn1_octet_string :: "cbb_env \<Rightarrow> cbb_id \<Rightarrow> cbb_id \<Rightarrow> u8 list \<Rightarrow> cbb_op" where
  "CBB_add_asn1_octet_string env cbb child data st =
     and_then_opt (CBB_add_asn1 env cbb child CBS_ASN1_OCTETSTRING st) (\<lambda>st.
       and_then_opt (CBB_add_bytes env child data st) (CBB_flush env cbb))"

definition CBB_add_asn1_bool :: "cbb_env \<Rightarrow> cbb_id \<Rightarrow> cbb_id \<Rightarrow> int \<Rightarrow> cbb_op" where
  "CBB_add_asn1_bool env cbb child value st =
     and_then_opt (CBB_add_asn1 env cbb child CBS_ASN1_BOOLEAN st) (\<lambda>st.
       and_then_opt (CBB_add_u8 env child (if value \<noteq> 0 then 0xFF else 0) st) (CBB_flush env cbb))"

end
