(* ===== verification/Cbs_Spec.thy ===== *)
theory Cbs_Spec
  imports Cbs "HOL-Library.Sublist"
begin

text \<open>
  What the readers of \<open>Cbs\<close> accept. The interface is \<open>codec\<close>: a reader returns a value if and only
  if its input starts with the encoding of that value, and leaves what follows. It makes the encoding
  unique, injective and prefix-free. The fixed-width integers, the length-prefixed strings and the
  base-128 integers are interpretations; the DER elements follow in \<open>Cbs_Der\<close>.
\<close>

named_theorems cbs_simps \<open>closed forms of the readers\<close>

section \<open>Sequencing\<close>

lemma p_then_simps [simp]:
  "p_then (None, s) k = (None, s)"
  "p_then (Some a, s) k = k a s"
  by (simp_all add: p_then_def)

lemma p_then_Some:
  "p_then r k = (Some b, s') \<longleftrightarrow> (\<exists>a s. r = (Some a, s) \<and> k a s = (Some b, s'))"
  by (cases r; cases "fst r") auto

lemma cbs_get_simps [cbs_simps]:
  "cbs_get n s = (if length s < n then (None, s) else (Some (take n s), drop n s))"
  by (simp add: cbs_get_def)

lemma cbs_get_append: "length bs = n \<Longrightarrow> cbs_get n (bs @ s) = (Some bs, s)"
  by (simp add: cbs_get_def)

lemma cbs_get_Some: "cbs_get n s = (Some bs, s') \<longleftrightarrow> length bs = n \<and> s = bs @ s'"
  by (auto simp: cbs_get_def)

lemma get_u_loop_be: "get_u_loop r bs = push_bit (8 * length bs) r OR be_word bs"
  by (induction bs arbitrary: r) (simp_all add: be_word_Cons push_bit_or ac_simps)

lemma cbs_get_u_Some:
  "cbs_get_u n s = (Some v, s') \<longleftrightarrow> (\<exists>bs. length bs = n \<and> v = be_word bs \<and> s = bs @ s')"
  by (auto simp: cbs_get_u_def p_then_Some cbs_get_Some get_u_loop_be)

lemma CBS_get_u8_simps [simp]:
  "CBS_get_u8 [] = (None, [])"
  "CBS_get_u8 (b # s) = (Some b, s)"
  by (simp_all add: CBS_get_u8_def cbs_get_def)

lemma CBS_get_bytes_Some:
  "CBS_get_bytes n s = (Some bs, s') \<longleftrightarrow> length bs = n \<and> s = bs @ s'"
  by (auto simp: CBS_get_bytes_def p_then_Some cbs_get_Some CBS_init_def)

section \<open>No reader leaves its input\<close>

text \<open>Whatever a reader returns, the new \<open>CBS\<close> is a tail of the old one.\<close>

definition advances :: "(cbs \<Rightarrow> 'a parse) \<Rightarrow> bool" where
  "advances f \<longleftrightarrow> (\<forall>s. suffix (snd (f s)) s)"

lemma advancesI: "(\<And>s. suffix (snd (f s)) s) \<Longrightarrow> advances f"
  by (simp add: advances_def)

lemma advancesD: "advances f \<Longrightarrow> f s = (r, s') \<Longrightarrow> suffix s' s"
  unfolding advances_def by (metis snd_conv)

lemma advances_then [intro]:
  assumes "advances f" "\<And>a. advances (k a)"
  shows "advances (\<lambda>s. p_then (f s) k)"
proof (rule advancesI)
  fix s
  obtain r s1 where r: "f s = (r, s1)" by (cases "f s")
  have "suffix s1 s" using assms(1) r by (rule advancesD)
  moreover have "suffix (snd (k a s1)) s1" for a
    using assms(2) [of a] by (simp add: advances_def)
  ultimately show "suffix (snd (p_then (f s) k)) s"
    using r by (cases r) (auto intro: suffix_order.trans)
qed

lemma advances_return [intro, simp]: "advances (\<lambda>s. (r, s))"
  by (simp add: advances_def)

lemma advances_if [intro]:
  "advances f \<Longrightarrow> advances g \<Longrightarrow> advances (\<lambda>s. if c then f s else g s)"
  by (simp add: advances_def)

lemma advances_get [intro, simp]: "advances (cbs_get n)"
  by (simp add: advances_def cbs_get_def suffix_drop)

section \<open>Readers and encodings\<close>

locale codec =
  fixes read :: "cbs \<Rightarrow> 'a parse"
    and enc :: "'a \<Rightarrow> u8 list"
    and ok :: "'a \<Rightarrow> bool"
  assumes read_iff: "read s = (Some a, s') \<longleftrightarrow> ok a \<and> s = enc a @ s'"
begin

lemma read_enc: "ok a \<Longrightarrow> read (enc a @ s) = (Some a, s)"
  by (simp add: read_iff)

lemma read_exact: "ok a \<Longrightarrow> read (enc a) = (Some a, [])"
  using read_enc [of a "[]"] by simp

lemma prefix_free:
  assumes "ok a" "ok b" "enc a @ s = enc b @ t"
  shows "a = b \<and> s = t"
proof -
  have "(Some a, s) = (Some b, t)"
    using read_enc [OF assms(1), of s] read_enc [OF assms(2), of t] unfolding assms(3) by simp
  then show ?thesis by simp
qed

lemma enc_inject: "ok a \<Longrightarrow> ok b \<Longrightarrow> enc a = enc b \<longleftrightarrow> a = b"
  using prefix_free [of a b "[]" "[]"] by auto

lemma framed:
  assumes "read s = (Some a, s')"
  obtains p where "s = p @ s'" "\<And>t. read (p @ t) = (Some a, t)"
  using assms by (auto simp: read_iff)

lemma consumes: "read s = (Some a, s') \<Longrightarrow> length s = length (enc a) + length s'"
  by (auto simp: read_iff)

text \<open>Reading a value that has to be all of a string.\<close>

lemma read_whole:
  "(case read child of (None, rest) \<Rightarrow> (None, c)
    | (Some a, rest) \<Rightarrow> if CBS_len rest \<noteq> 0 then (None, c) else (Some (f a), c)) = (Some y, c') \<longleftrightarrow>
    c' = c \<and> (\<exists>a. ok a \<and> child = enc a \<and> y = f a)"
proof (cases "read child")
  case (Pair r rest)
  then show ?thesis
  proof (cases r)
    case (Some a)
    then have "ok a \<and> child = enc a @ rest" using Pair read_iff by simp
    then show ?thesis
      using Some Pair read_exact enc_inject by (cases rest) (auto simp: CBS_len_def)
  next
    case None
    then have "\<not> (ok a \<and> child = enc a)" for a using Pair read_exact [of a] by auto
    then show ?thesis using Pair None by auto
  qed
qed

lemma read_fails: "(\<nexists>a t. ok a \<and> s = enc a @ t) \<Longrightarrow> fst (read s) = None"
  by (cases "read s"; cases "fst (read s)") (auto simp: read_iff)

end

text \<open>Two readers in a row read two encodings in a row.\<close>

definition p_pair :: "(cbs \<Rightarrow> 'a parse) \<Rightarrow> (cbs \<Rightarrow> 'b parse) \<Rightarrow> cbs \<Rightarrow> ('a \<times> 'b) parse" where
  "p_pair f g s = p_then (f s) (\<lambda>a s. p_then (g s) (\<lambda>b s. (Some (a, b), s)))"

lemma codec_pair:
  assumes "codec f ea oka" "codec g eb okb"
  shows "codec (p_pair f g) (\<lambda>(a, b). ea a @ eb b) (\<lambda>(a, b). oka a \<and> okb b)"
  by unfold_locales
    (auto simp: p_pair_def p_then_Some codec.read_iff [OF assms(1)] codec.read_iff [OF assms(2)])

section \<open>Fixed-width integers\<close>

lemma be_word_iff:
  assumes "8 * n \<le> LENGTH('a)"
  shows "length bs = n \<and> w = (be_word bs :: 'a::len word) \<longleftrightarrow>
    take_bit (8 * n) w = w \<and> bs = be_bytes n w"
proof safe
  assume n: "n = length bs" and w: "w = be_word bs"
  then show b: "bs = be_bytes (length bs) (be_word bs :: 'a word)"
    using assms by (simp add: be_bytes_be_word)
  show "take_bit (8 * length bs) (be_word bs) = (be_word bs :: 'a word)"
    using be_word_be_bytes [of "length bs" "be_word bs :: 'a word"] assms n
    by (simp add: be_bytes_be_word)
next
  assume "take_bit (8 * n) w = w" "bs = be_bytes n w"
  then show "w = be_word (be_bytes n w)" by (simp add: be_word_be_bytes)
qed simp

lemma be_word_iff_full:
  "8 * n = LENGTH('a) \<Longrightarrow>
    length bs = n \<and> w = (be_word bs :: 'a::len word) \<longleftrightarrow> bs = be_bytes n w"
  using be_word_iff [of n, where 'a = 'a] by (auto simp: take_bit_word_eq_self)

lemma ucast_be_word:
  "8 * length bs \<le> LENGTH('a) \<Longrightarrow> ucast (be_word bs :: 'a::len word) = (be_word bs :: 'b::len word)"
  by (simp add: be_word_def ucast_le_word)

lemma cbs_get_u_cast:
  assumes "8 * n \<le> 64"
  shows "p_then (cbs_get_u n s) (\<lambda>v cbs. (Some (ucast v :: 'a::len word), cbs)) = (Some w, s') \<longleftrightarrow>
    (\<exists>bs. (length bs = n \<and> w = be_word bs) \<and> s = bs @ s')"
  using assms by (auto simp: p_then_Some cbs_get_u_Some ucast_be_word)

interpretation u8: codec CBS_get_u8 "\<lambda>b. [b]" "\<lambda>_. True"
proof
  show "CBS_get_u8 s = (Some a, s') \<longleftrightarrow> True \<and> s = [a] @ s'" for s a s'
    by (cases s) auto
qed

interpretation u16: codec CBS_get_u16 "be_bytes 2" "\<lambda>_. True"
  by unfold_locales (simp add: CBS_get_u16_def cbs_get_u_cast be_word_iff_full)

interpretation u24: codec CBS_get_u24 "be_bytes 3" "\<lambda>w. take_bit 24 w = w"
  by unfold_locales (simp add: CBS_get_u24_def cbs_get_u_cast be_word_iff)

interpretation u32: codec CBS_get_u32 "be_bytes 4" "\<lambda>_. True"
  by unfold_locales (simp add: CBS_get_u32_def cbs_get_u_cast be_word_iff_full)

interpretation u64: codec CBS_get_u64 "be_bytes 8" "\<lambda>_. True"
  using be_word_iff_full [of 8, where 'a = 64]
  by unfold_locales (auto simp: CBS_get_u64_def cbs_get_u_Some)

lemma bswap_le:
  "length xs = 2 \<Longrightarrow> CRYPTO_bswap2 (le_word xs) = le_word (rev xs)"
  "length xs = 4 \<Longrightarrow> CRYPTO_bswap4 (le_word xs) = le_word (rev xs)"
  "length xs = 8 \<Longrightarrow> CRYPTO_bswap8 (le_word xs) = le_word (rev xs)"
  using bswap2_le bswap4_le bswap8_le
  by (auto simp: eval_nat_numeral length_Suc_conv simp del: le_word.simps)

text \<open>A byte swap makes a big-endian reader a little-endian one.\<close>

lemma bswap_bytes:
  fixes swap :: "'a::len word \<Rightarrow> 'a word"
  assumes n: "8 * n = LENGTH('a)"
    and swap: "\<And>xs. length xs = n \<Longrightarrow> swap (le_word xs) = le_word (rev xs)"
  shows "le_bytes n (swap v) = be_bytes n v" "swap (swap v) = v" "be_bytes n (swap v) = le_bytes n v"
proof -
  have inv: "le_word (le_bytes n v) = v" for v :: "'a word"
    using n by (simp add: le_word_le_bytes take_bit_word_eq_self)
  have "swap v = le_word (be_bytes n v)" for v
    using swap [of "le_bytes n v"] by (simp add: inv be_bytes_def)
  then show "le_bytes n (swap v) = be_bytes n v" for v
    using n by (simp add: le_bytes_le_word)
  then have "le_bytes n (swap (swap v)) = be_bytes n (swap v)" .
  moreover show "swap (swap v) = v" for v
    using swap [of "le_bytes n v"] swap [of "rev (le_bytes n v)"] by (simp add: inv)
  ultimately show "be_bytes n (swap v) = le_bytes n v" by simp
qed

lemma bswap_iff:
  fixes swap :: "'a::len word \<Rightarrow> 'a word"
  assumes "8 * n = LENGTH('a)" "\<And>xs. length xs = n \<Longrightarrow> swap (le_word xs) = le_word (rev xs)"
  shows "(\<exists>v. w = swap v \<and> s = be_bytes n v @ s') \<longleftrightarrow> s = le_bytes n w @ s'"
  using bswap_bytes [OF assms] by metis

interpretation u16le: codec CBS_get_u16le "le_bytes 2" "\<lambda>_. True"
proof unfold_locales
  show "CBS_get_u16le s = (Some a, s') \<longleftrightarrow> True \<and> s = le_bytes 2 a @ s'" for s a s'
    using bswap_iff [of 2 CRYPTO_bswap2 a s s']
    by (auto simp: CBS_get_u16le_def p_then_Some u16.read_iff bswap_le)
qed

interpretation u32le: codec CBS_get_u32le "le_bytes 4" "\<lambda>_. True"
proof unfold_locales
  show "CBS_get_u32le s = (Some a, s') \<longleftrightarrow> True \<and> s = le_bytes 4 a @ s'" for s a s'
    using bswap_iff [of 4 CRYPTO_bswap4 a s s']
    by (auto simp: CBS_get_u32le_def p_then_Some u32.read_iff bswap_le)
qed

interpretation u64le: codec CBS_get_u64le "le_bytes 8" "\<lambda>_. True"
proof unfold_locales
  show "CBS_get_u64le s = (Some a, s') \<longleftrightarrow> True \<and> s = le_bytes 8 a @ s'" for s a s'
    using bswap_iff [of 8 CRYPTO_bswap8 a s s'] u64.read_iff
    by (auto simp: CBS_get_u64le_def CBS_get_u64_def p_then_Some bswap_le)
qed

section \<open>Length-prefixed strings\<close>

definition len_prefixed :: "nat \<Rightarrow> u8 list \<Rightarrow> u8 list" where
  "len_prefixed n c = be_bytes n (word_of_nat (length c) :: u64) @ c"

lemma length_len_prefixed [simp]: "length (len_prefixed n c) = n + length c"
  by (simp add: len_prefixed_def)

lemma unat_of_nat_small: "8 * n \<le> 64 \<Longrightarrow> k < 2 ^ (8 * n) \<Longrightarrow> unat (word_of_nat k :: u64) = k"
  using power_increasing [of "8 * n" 64 "2 :: nat"] by (intro unat_of_nat_64) simp

lemma get_length_prefixed_iff:
  assumes n: "8 * n \<le> 64"
  shows "cbs_get_length_prefixed n s = (Some c, s') \<longleftrightarrow>
    length c < 2 ^ (8 * n) \<and> s = len_prefixed n c @ s'"
proof
  assume "cbs_get_length_prefixed n s = (Some c, s')"
  then obtain bs where bs: "length bs = n" "length c = unat (be_word bs :: u64)" "s = bs @ c @ s'"
    by (auto simp: cbs_get_length_prefixed_def p_then_Some cbs_get_u_Some CBS_get_bytes_Some)
  have "take_bit (8 * n) (be_word bs) = (be_word bs :: u64)" "bs = be_bytes n (be_word bs :: u64)"
    using bs(1) n be_word_iff [of n bs "be_word bs :: u64"] by auto
  then show "length c < 2 ^ (8 * n) \<and> s = len_prefixed n c @ s'"
    using bs by (simp add: len_prefixed_def take_bit_eq_self_unat)
next
  assume *: "length c < 2 ^ (8 * n) \<and> s = len_prefixed n c @ s'"
  define bs where "bs = be_bytes n (word_of_nat (length c) :: u64)"
  have "length bs = n \<and> (word_of_nat (length c) :: u64) = be_word bs"
    using * n be_word_iff [of n bs, where 'a = 64]
    by (simp add: bs_def take_bit_eq_self_unat unat_of_nat_small)
  then show "cbs_get_length_prefixed n s = (Some c, s')"
    using * n unat_of_nat_small [of n "length c"] unfolding len_prefixed_def bs_def [symmetric]
    by (auto simp: cbs_get_length_prefixed_def p_then_Some cbs_get_u_Some CBS_get_bytes_Some)
qed

interpretation u8_prefixed: codec CBS_get_u8_length_prefixed "len_prefixed 1" "\<lambda>c. length c < 2 ^ 8"
  by unfold_locales (simp add: CBS_get_u8_length_prefixed_def get_length_prefixed_iff)

interpretation u16_prefixed: codec CBS_get_u16_length_prefixed "len_prefixed 2" "\<lambda>c. length c < 2 ^ 16"
  by unfold_locales (simp add: CBS_get_u16_length_prefixed_def get_length_prefixed_iff)

interpretation u24_prefixed: codec CBS_get_u24_length_prefixed "len_prefixed 3" "\<lambda>c. length c < 2 ^ 24"
  by unfold_locales (simp add: CBS_get_u24_length_prefixed_def get_length_prefixed_iff)

end
