(* ===== verification/Cbs_Der.thy ===== *)
theory Cbs_Der
  imports Cbs_Spec
begin

text \<open>
  The DER readers of \<open>Cbs\<close> accept the distinguished encoding and nothing else: base-128 integers,
  identifier octets (\<open>der_tag\<close>), length octets (\<open>der_len\<close>) and whole elements (\<open>der_element\<close>).
\<close>

section \<open>Base-128 integers\<close>

text \<open>The continuation octets of \<open>n\<close>, none for 0, and its whole encoding.\<close>

fun base128_hi :: "nat \<Rightarrow> u8 list" where
  "base128_hi n = (if n = 0 then [] else base128_hi (n div 128) @ [word_of_nat (128 + n mod 128)])"

declare base128_hi.simps [simp del]

definition base128 :: "nat \<Rightarrow> u8 list" where
  "base128 n = base128_hi (n div 128) @ [word_of_nat (n mod 128)]"

lemma base128_hi_0 [simp]: "base128_hi 0 = []"
  by (subst base128_hi.simps) simp

lemma base128_hi_step:
  "0 < n \<Longrightarrow> base128_hi n = base128_hi (n div 128) @ [word_of_nat (128 + n mod 128)]"
  by (subst base128_hi.simps) simp

lemma base128_round:
  assumes "drop_bit 57 v = 0"
  shows "unat (push_bit 7 v OR ucast (b AND 0x7F) :: u64) = unat v * 128 + unat (b :: u8) mod 128"
proof -
  have "unat v < 2 ^ 57"
    using assms unat_drop_bit [of 57 v] by simp
  moreover have "unat (ucast (b AND 0x7F) :: u64) = unat b mod 128"
    by (simp add: unsigned_ucast_eq unat_AND_7F take_bit_nat_eq_self)
  ultimately show ?thesis
    using unat_or_shift [of "ucast (b AND 0x7F) :: u64" 7 v] by simp
qed

lemma drop_bit_57: "n < 2 ^ 57 \<Longrightarrow> drop_bit 57 (word_of_nat n :: u64) = 0"
  using unat_drop_bit [of 57 "word_of_nat n :: u64"] by (simp add: unat_of_nat_64 unsigned_eq_0_iff)

lemma base128_next:
  assumes "n < 2 ^ 57" "unat (b :: u8) mod 128 = low"
  shows "push_bit 7 (word_of_nat n) OR ucast (b AND 0x7F) = (word_of_nat (n * 128 + low) :: u64)"
proof (rule word_unat_eq_iff [THEN iffD2])
  have "low < 128" using assms(2) by auto
  then have "unat (word_of_nat (n * 128 + low) :: u64) = n * 128 + low"
    using assms(1) by (intro unat_of_nat_64) simp
  moreover have "unat (word_of_nat n :: u64) = n"
    using assms(1) by (intro unat_of_nat_64) simp
  ultimately show "unat (push_bit 7 (word_of_nat n) OR ucast (b AND 0x7F) :: u64) =
      unat (word_of_nat (n * 128 + low) :: u64)"
    using base128_round [OF drop_bit_57 [OF assms(1)], of b] assms(2) by simp
qed

lemma base128_loop_step:
  assumes n: "n div 128 < 2 ^ 57" and b: "unat b mod 128 = n mod 128"
    and nz: "\<not> (n div 128 = 0 \<and> unat b = 128)"
  shows "parse_base128_loop (word_of_nat (n div 128)) (b # s) =
    (if unat b < 128 then (Some (word_of_nat n), s) else parse_base128_loop (word_of_nat n) s)"
proof -
  have "\<not> (word_of_nat (n div 128) = (0 :: u64) \<and> b = 0x80)"
    using nz unat_of_nat_64 [of "n div 128"] n by auto
  moreover have "n div 128 * 128 + n mod 128 = n" by simp
  ultimately show ?thesis
    using drop_bit_57 [OF n] base128_next [OF n b] by (auto simp: AND_80_eq_0 Let_def)
qed

declare parse_base128_loop.simps(2) [simp del]

lemma parse_base128_hi:
  "n < 2 ^ 57 \<Longrightarrow>
    parse_base128_loop 0 (base128_hi n @ s) = parse_base128_loop (word_of_nat n) s"
proof (induction n arbitrary: s rule: less_induct)
  case (less n)
  show ?case
  proof (cases "n = 0")
    case False
    define c where "c = (word_of_nat (128 + n mod 128) :: u8)"
    have c: "unat c = 128 + n mod 128"
      unfolding c_def by (rule unat_of_nat_8) simp
    have hi: "n div 128 < 2 ^ 57" "n div 128 < n" using less.prems False by auto
    have "\<not> (n div 128 = 0 \<and> unat c = 128)" using False c by auto
    then have "parse_base128_loop (word_of_nat (n div 128)) (c # s) =
        parse_base128_loop (word_of_nat n) s"
      using c base128_loop_step [OF hi(1), of c s] by simp
    moreover have "base128_hi n = base128_hi (n div 128) @ [c]"
      using False unfolding c_def by (simp only: base128_hi_step)
    ultimately show ?thesis
      using less.IH [OF hi(2,1)] by simp
  qed simp
qed

lemma parse_base128_enc: "parse_base128_integer (base128 (unat v) @ s) = (Some v, s)"
proof -
  define c where "c = (word_of_nat (unat v mod 128) :: u8)"
  have c: "unat c = unat v mod 128" unfolding c_def by (rule unat_of_nat_8) simp
  then have lt: "unat c < 128" by simp
  have hi: "unat v div 128 < 2 ^ 57" using unat_lt_64 [of v] by simp
  have "parse_base128_loop (word_of_nat (unat v div 128)) (c # s) = (Some v, s)"
  proof (subst base128_loop_step [OF hi])
    show "\<not> (unat v div 128 = 0 \<and> unat c = 128)" using lt by simp
  qed (use c lt in simp_all)
  then show ?thesis
    using parse_base128_hi [OF hi]
    by (simp add: parse_base128_integer_def base128_def flip: c_def)
qed

lemma parse_base128_loop_Some:
  assumes "parse_base128_loop v (b # s) = (Some w, s')"
  defines "v' \<equiv> push_bit 7 v OR ucast (b AND 0x7F) :: u64"
  shows "unat v' = unat v * 128 + unat b mod 128" "\<not> (unat v = 0 \<and> unat b = 128)"
    "unat b < 128 \<Longrightarrow> w = v' \<and> s' = s"
    "\<not> unat b < 128 \<Longrightarrow> parse_base128_loop v' s = (Some w, s')"
proof -
  have g: "drop_bit 57 v = 0" "\<not> (v = 0 \<and> b = 0x80)"
    using assms(1) by (simp_all add: parse_base128_loop.simps(2) split: if_split_asm)
  have r: "(if unat b < 128 then (Some v', s) else parse_base128_loop v' s) = (Some w, s')"
    using assms(1) g by (auto simp: parse_base128_loop.simps(2) AND_80_eq_0 Let_def v'_def)
  show "unat v' = unat v * 128 + unat b mod 128"
    unfolding v'_def by (rule base128_round [OF g(1)])
  show "\<not> (unat v = 0 \<and> unat b = 128)"
  proof
    assume *: "unat v = 0 \<and> unat b = 128"
    then have "b = 0x80" by (intro word_unat_eq_iff [THEN iffD2]) simp
    then show False using * g(2) by (simp add: unsigned_eq_0_iff)
  qed
  show "unat b < 128 \<Longrightarrow> w = v' \<and> s' = s"
    "\<not> unat b < 128 \<Longrightarrow> parse_base128_loop v' s = (Some w, s')"
    using r by simp_all
qed

lemma base128_split:
  "(n * 128 + k mod 128) div 128 = n" "(n * 128 + k mod 128) mod 128 = k mod (128 :: nat)"
  by simp_all

lemma parse_base128_loop_sound:
  "parse_base128_loop v s = (Some w, s') \<Longrightarrow>
    \<exists>p. s = p @ s' \<and> base128_hi (unat v) @ p = base128 (unat w)"
proof (induction s arbitrary: v)
  case (Cons b s)
  define v' where "v' = (push_bit 7 v OR ucast (b AND 0x7F) :: u64)"
  note round = parse_base128_loop_Some [OF Cons.prems, folded v'_def]
  show ?case
  proof (cases "unat b < 128")
    case True
    then have "base128_hi (unat v) @ [b] = base128 (unat w)" "b # s = [b] @ s'"
      using round(1,3) by (simp_all add: base128_def base128_split)
    then show ?thesis by blast
  next
    case False
    then obtain p where p: "s = p @ s'" "base128_hi (unat v') @ p = base128 (unat w)"
      using Cons.IH round(4) by blast
    have b: "128 + unat b mod 128 = unat b"
      using False unat_lt_8 [of b] mod_if [of "unat b" 128] by simp
    then have "0 < unat v'"
      using round(1,2) by (cases "unat v = 0") auto
    then have "base128_hi (unat v') = base128_hi (unat v) @ [b]"
      using base128_hi_step [of "unat v'"] by (simp only: round(1) base128_split b) simp
    then have "b # s = (b # p) @ s' \<and> base128_hi (unat v) @ b # p = base128 (unat w)"
      using p by simp
    then show ?thesis by blast
  qed
qed simp

interpretation b128: codec parse_base128_integer "\<lambda>v. base128 (unat v)" "\<lambda>_. True"
proof
  show "parse_base128_integer s = (Some a, s') \<longleftrightarrow> True \<and> s = base128 (unat a) @ s'" for s a s'
    using parse_base128_loop_sound [of 0 s a s'] parse_base128_enc [of a s']
    by (auto simp: parse_base128_integer_def)
qed

section \<open>Identifier octets\<close>

text \<open>The class and the constructed bit of a tag, and its number.\<close>

definition tag_class :: "u32 \<Rightarrow> u8" where
  "tag_class tag = ucast (drop_bit 24 tag) AND 0xE0"

definition tag_num :: "u32 \<Rightarrow> nat" where
  "tag_num tag = unat (tag AND CBS_ASN1_TAG_NUMBER_MASK)"

definition make_tag :: "u8 \<Rightarrow> nat \<Rightarrow> u32" where
  "make_tag c n = push_bit 24 (ucast c AND 0xE0) OR word_of_nat n"

definition der_tag :: "u32 \<Rightarrow> u8 list" where
  "der_tag tag =
     (if tag_num tag < 31 then [tag_class tag OR word_of_nat (tag_num tag)]
      else (tag_class tag OR 0x1F) # base128 (tag_num tag))"

lemma TAG_NUMBER_MASK: "CBS_ASN1_TAG_NUMBER_MASK = mask 29"
  by (simp add: asn1_tag_defs mask_eq_exp_minus_1)

lemma bit_0xE0_int [simp]: "bit (224 :: int) n \<longleftrightarrow> 5 \<le> n \<and> n < 8"
proof -
  have "bit (push_bit 5 7 :: int) n \<longleftrightarrow> 5 \<le> n \<and> n - 5 < 3"
    unfolding bit_push_bit_iff by simp
  then show ?thesis by auto
qed

lemma bit_class_mask_int [simp]: "bit (3758096384 :: int) n \<longleftrightarrow> 29 \<le> n \<and> n < 32"
proof -
  have "bit (push_bit 29 7 :: int) n \<longleftrightarrow> 29 \<le> n \<and> n - 29 < 3"
    unfolding bit_push_bit_iff by simp
  then show ?thesis by auto
qed

lemma tag_num_less: "tag_num tag < 2 ^ 29"
  using take_bit_eq_self_unat [of 29 "take_bit 29 tag"]
  by (simp add: tag_num_def TAG_NUMBER_MASK flip: take_bit_eq_mask)

lemma make_tag_split: "make_tag (tag_class tag) (tag_num tag) = tag"
proof (rule bit_word_eqI)
  fix n assume "n < LENGTH(32)"
  then show "bit (make_tag (tag_class tag) (tag_num tag)) n \<longleftrightarrow> bit tag n"
    by (auto simp: make_tag_def tag_class_def tag_num_def TAG_NUMBER_MASK bit_simps)
qed

lemma bit_word_of_nat_small:
  "n < 2 ^ k \<Longrightarrow> bit (word_of_nat n :: 'a::len word) i \<Longrightarrow> i < k"
  by (auto simp: bit_simps dest: bit_nat_less)

lemma tag_class_make: "n < 2 ^ 29 \<Longrightarrow> tag_class (make_tag c n) = c AND 0xE0"
  by (rule bit_word_eqI)
    (auto simp: make_tag_def tag_class_def bit_simps dest: bit_nat_less [where k = 29])

lemma tag_num_make: "n < 2 ^ 29 \<Longrightarrow> tag_num (make_tag c n) = n"
proof -
  assume n: "n < 2 ^ 29"
  have "make_tag c n AND mask 29 = (word_of_nat n :: u32)"
    by (rule bit_word_eqI) (auto simp: make_tag_def bit_simps dest: bit_nat_less [OF _ n])
  then show "tag_num (make_tag c n) = n"
    using n by (simp add: tag_num_def TAG_NUMBER_MASK unat_of_nat_32)
qed

lemma tag_byte_split: "(b AND 0xE0) OR (b AND 0x1F) = (b :: u8)"
  by (rule bit_word_eqI) (auto simp: bit_simps)

lemma unat_AND_1F: "unat (b AND 0x1F :: u8) < 32"
  using take_bit_eq_self_unat [of 5 "take_bit 5 b"]
  by (simp add: take_bit_eq_mask mask_eq_exp_minus_1)

lemma tag_byte_parts:
  assumes "n < 32"
  shows "(tag_class t OR word_of_nat n) AND 0xE0 = tag_class t"
    "(tag_class t OR word_of_nat n) AND 0x1F = word_of_nat n"
proof -
  have n: "bit n i \<Longrightarrow> i < 5" for i using bit_nat_less [of n i 5] assms by simp
  show "(tag_class t OR word_of_nat n) AND 0xE0 = tag_class t"
    by (rule bit_word_eqI) (auto simp: tag_class_def bit_simps dest: n)
  show "(tag_class t OR word_of_nat n) AND 0x1F = word_of_nat n"
    by (rule bit_word_eqI) (auto simp: tag_class_def bit_simps dest: n)
qed

lemma make_tag_class:
  assumes "c AND 0xE0 = tag_class t"
  shows "make_tag c n = make_tag (tag_class t) n"
proof -
  have "ucast x AND 0xE0 = (ucast (x AND 0xE0) :: u32)" for x :: u8
    by (rule bit_word_eqI) (auto simp: bit_simps)
  moreover have "tag_class t AND 0xE0 = tag_class t"
    by (simp add: tag_class_def)
  ultimately show ?thesis using assms by (simp add: make_tag_def)
qed

text \<open>The parser in terms of class and number.\<close>

lemma parse_asn1_tag_Cons:
  "parse_asn1_tag (b # s) =
    (if unat (b AND 0x1F) = 31 then
       p_then (parse_base128_integer s) (\<lambda>v s.
         if \<not> (31 \<le> unat v \<and> unat v < 2 ^ 29) then (None, s)
         else (Some (make_tag b (unat v)), s))
     else (Some (make_tag b (unat (b AND 0x1F))), s))"
proof -
  have m: "unat CBS_ASN1_TAG_NUMBER_MASK = 2 ^ 29 - 1"
    by (simp add: asn1_tag_defs)
  have v: "v > ucast CBS_ASN1_TAG_NUMBER_MASK \<or> v < 0x1f \<longleftrightarrow>
      \<not> (31 \<le> unat v \<and> unat v < 2 ^ 29)" for v :: u64
    by (auto simp: word_less_nat_alt m)
  have w: "(ucast v :: u32) = word_of_nat (unat v)" for v :: u64 by simp
  have t: "(ucast (b AND 0x1F) = (0x1F :: u32)) = (unat (b AND 0x1F) = 31)"
    using unat_AND_1F [of b] take_bit_nat_eq_self [of "unat (b AND 0x1F)" 32]
    by (simp add: word_unat_eq_iff unsigned_ucast_eq)
  show ?thesis
    unfolding parse_asn1_tag_def CBS_get_u8_simps p_then_simps Let_def v t
    by (simp add: make_tag_def CBS_ASN1_TAG_SHIFT_def cong: if_cong)
qed

interpretation tag: codec parse_asn1_tag der_tag "\<lambda>_. True"
proof
  fix s t s'
  have num: "unat (word_of_nat (tag_num t) :: u64) = tag_num t"
    using tag_num_less [of t] by (intro unat_of_nat_64) simp
  show "parse_asn1_tag s = (Some t, s') \<longleftrightarrow> True \<and> s = der_tag t @ s'"
  proof safe
    assume t: "parse_asn1_tag s = (Some t, s')"
    then obtain b r where s: "s = b # r" by (cases s) (auto simp: parse_asn1_tag_def)
    have b: "(b AND 0xE0) OR (b AND 0x1F) = b" by (rule tag_byte_split)
    show "s = der_tag t @ s'"
    proof (cases "unat (b AND 0x1F) = 31")
      case True
      then obtain v where v: "parse_base128_integer r = (Some v, s')" "31 \<le> unat v"
          "unat v < 2 ^ 29" "t = make_tag b (unat v)"
        using t by (auto simp: s parse_asn1_tag_Cons p_then_Some split: if_splits)
      then have "tag_num t = unat v" "tag_class t = b AND 0xE0"
        by (simp_all add: tag_num_make tag_class_make)
      moreover have "b AND 0x1F = 0x1F"
        using True by (intro word_unat_eq_iff [THEN iffD2]) simp
      ultimately show ?thesis
        using v b by (simp add: s der_tag_def b128.read_iff)
    next
      case False
      then have n: "unat (b AND 0x1F) < 31" using unat_AND_1F [of b] by linarith
      then have "t = make_tag b (unat (b AND 0x1F))" "s' = r"
        using t False by (auto simp: s parse_asn1_tag_Cons)
      then have "tag_num t = unat (b AND 0x1F)" "tag_class t = b AND 0xE0" "s' = r"
        using n by (simp_all add: tag_num_make tag_class_make)
      then show ?thesis
        using n b by (simp add: s der_tag_def)
    qed
  next
    have mk: "make_tag (tag_class t OR word_of_nat n) (tag_num t) = t" if "n < 32" for n
      using make_tag_class [OF tag_byte_parts(1) [OF that]] by (simp add: make_tag_split)
    show "parse_asn1_tag (der_tag t @ s') = (Some t, s')"
    proof (cases "tag_num t < 31")
      case True
      then have "unat ((tag_class t OR word_of_nat (tag_num t)) AND 0x1F) = tag_num t"
        using tag_byte_parts(2) [of "tag_num t" t] unat_of_nat_8 [of "tag_num t"] by simp
      then show ?thesis
        using True mk [of "tag_num t"] by (simp add: der_tag_def parse_asn1_tag_Cons)
    next
      case False
      have "unat ((tag_class t OR 0x1F) AND 0x1F) = 31"
        using tag_byte_parts(2) [of 31 t] by simp
      moreover have "parse_base128_integer (base128 (tag_num t) @ s') =
          (Some (word_of_nat (tag_num t)), s')"
        using b128.read_enc [of "word_of_nat (tag_num t)" s'] by (simp add: num)
      ultimately show ?thesis
        using False mk [of 31] tag_num_less [of t]
        by (simp add: der_tag_def parse_asn1_tag_Cons num)
    qed
  qed
qed

section \<open>Length octets\<close>

text \<open>The number of octets a length needs, and its encoding in the fewest octets.\<close>

fun len_bytes :: "nat \<Rightarrow> nat" where
  "len_bytes n = (if n < 256 then 1 else Suc (len_bytes (n div 256)))"

declare len_bytes.simps [simp del]

definition der_len :: "nat \<Rightarrow> u8 list" where
  "der_len n =
     (if n < 128 then [word_of_nat n]
      else word_of_nat (128 + len_bytes n) # be_bytes (len_bytes n) (word_of_nat n :: u64))"

definition der_element :: "u32 \<Rightarrow> u8 list \<Rightarrow> u8 list" where
  "der_element tag body = der_tag tag @ der_len (length body) @ body"

lemma len_bytes_pos: "0 < len_bytes n"
  by (subst len_bytes.simps) simp

lemma len_bytes_bounds: "n < 256 ^ len_bytes n \<and> (len_bytes n = 1 \<or> 256 ^ (len_bytes n - 1) \<le> n)"
proof (induction n rule: len_bytes.induct)
  case (1 n)
  show ?case
  proof (cases "n < 256")
    case True
    then show ?thesis by (simp add: len_bytes.simps)
  next
    case False
    define k where "k = len_bytes (n div 256)"
    have IH: "n div 256 < 256 ^ k" "k = 1 \<or> 256 ^ (k - 1) \<le> n div 256" "0 < k"
      using 1 False len_bytes_pos by (simp_all add: k_def)
    have "len_bytes n = Suc k" using False by (simp add: len_bytes.simps [of n] k_def)
    moreover have "n < 256 ^ Suc k"
      using IH(1) by (simp add: div_less_iff_less_mult mult.commute)
    moreover have "256 ^ k \<le> n"
      using IH(2,3) False by (cases k) (auto simp: less_eq_div_iff_mult_less_eq mult.commute)
    ultimately show ?thesis by simp
  qed
qed

lemma len_bytes_unique:
  assumes "0 < k" "n < 256 ^ k" "k = 1 \<or> 256 ^ (k - 1) \<le> n"
  shows "len_bytes n = k"
proof -
  have *: "a \<le> b" if "n < 256 ^ b" "a = 1 \<or> 256 ^ (a - 1) \<le> n" "0 < b" for a b :: nat
  proof (rule ccontr)
    assume "\<not> a \<le> b"
    then have "(256 :: nat) ^ b \<le> 256 ^ (a - 1)" by (intro power_increasing) auto
    moreover have "256 ^ (a - 1) \<le> n" using that \<open>\<not> a \<le> b\<close> by auto
    ultimately show False using that(1) by linarith
  qed
  show ?thesis
    using *[of k "len_bytes n"] *[of "len_bytes n" k] assms len_bytes_bounds [of n] len_bytes_pos
    by (simp add: antisym)
qed

lemma len_bytes_le_4: "n < 2 ^ 32 \<Longrightarrow> len_bytes n \<le> 4"
proof (rule ccontr)
  assume n: "n < 2 ^ 32" and "\<not> len_bytes n \<le> 4"
  then have "256 ^ (len_bytes n - 1) \<le> n" using len_bytes_bounds [of n] by auto
  moreover have "(256 :: nat) ^ 4 \<le> 256 ^ (len_bytes n - 1)"
    using \<open>\<not> len_bytes n \<le> 4\<close> by (intro power_increasing) auto
  moreover have "(256 :: nat) ^ 4 = 2 ^ 32" by simp
  ultimately show False using n by linarith
qed

lemma length_base128_hi: "n < 128 ^ k \<Longrightarrow> length (base128_hi n) \<le> k"
proof (induction k arbitrary: n)
  case (Suc k)
  then show ?case
    by (cases "n = 0") (simp_all add: base128_hi_step div_less_iff_less_mult mult.commute)
qed simp

lemma length_der_tag: "0 < length (der_tag t)" "length (der_tag t) \<le> 6"
  using length_base128_hi [of "tag_num t div 128" 4] tag_num_less [of t]
  by (auto simp: der_tag_def base128_def)

lemma der_tag_nonempty [simp]: "der_tag t \<noteq> []"
  using length_der_tag(1) [of t] by auto

lemma split_prefix:
  assumes "xs @ ys = e @ t" "length e = length xs + k"
  obtains b where "e = xs @ b" "ys = b @ t" "length b = k"
  using assms by (auto simp: append_eq_append_conv2)


section \<open>Elements\<close>

definition header_len :: "u32 \<Rightarrow> nat \<Rightarrow> nat" where
  "header_len tag n = length (der_tag tag) + length (der_len n)"

text \<open>What a reader of elements accepts: a DER element and, where BER is allowed, the header of a
  constructed element of indefinite length.\<close>

definition is_element :: "bool \<Rightarrow> u8 list \<times> u32 \<times> u64 \<Rightarrow> bool" where
  "is_element ber = (\<lambda>(e, tag, h).
     (\<exists>body. length body < 2 ^ 32 \<and> e = der_element tag body \<and>
        h = word_of_nat (header_len tag (length body))) \<or>
     ber \<and> tag AND CBS_ASN1_CONSTRUCTED \<noteq> 0 \<and> e = der_tag tag @ [0x80] \<and>
        h = word_of_nat (length e))"

lemma AND_7F_long: "\<not> unat (lb :: u8) < 128 \<Longrightarrow> unat (lb AND 0x7F) = unat lb - 128"
  using unat_lt_8 [of lb] by (simp add: unat_AND_7F mod_if)

text \<open>The reader after the first length octet: the length of the whole element and of its header.\<close>

inductive header :: "bool \<Rightarrow> u32 \<Rightarrow> u8 \<Rightarrow> u8 list \<Rightarrow> nat \<Rightarrow> nat \<Rightarrow> bool"
  for ber tag lb r where
  short: "unat lb < 128 \<Longrightarrow> header ber tag lb r 0 (unat lb)"
| indefinite: "lb = 0x80 \<Longrightarrow> ber \<Longrightarrow> tag AND CBS_ASN1_CONSTRUCTED \<noteq> 0 \<Longrightarrow> header ber tag lb r 0 0"
| long: "unat lb = 128 + length bs \<Longrightarrow> bs \<noteq> [] \<Longrightarrow> length bs \<le> 4 \<Longrightarrow> r = bs @ r' \<Longrightarrow>
    n = unat (be_word bs :: u64) \<Longrightarrow> 128 \<le> n \<Longrightarrow> len_bytes n = length bs \<Longrightarrow>
    header ber tag lb r (length bs) n"


definition finish :: "cbs \<Rightarrow> u64 \<Rightarrow> u32 \<Rightarrow> u64 \<Rightarrow> (cbs \<times> u32 \<times> u64) parse" where
  "finish s len tag h = p_then (CBS_get_bytes (unat len) s) (\<lambda>out cbs. (Some (out, tag, h), cbs))"

lemma finish_Some:
  "finish s len tag h = (Some (e, t, h'), s') \<longleftrightarrow> t = tag \<and> h' = h \<and> s = e @ s' \<and> length e = unat len"
  by (auto simp: finish_def p_then_Some CBS_get_bytes_Some)

lemma any_element_unfold:
  assumes tag: "parse_asn1_tag s = (Some tag, lb # r)"
  defines "T \<equiv> length (der_tag tag) + 1"
  shows "cbs_get_any_asn1_element ber s =
    (if unat lb < 128 then finish s (ucast lb + word_of_nat T) tag (word_of_nat T)
     else if ber \<and> tag AND CBS_ASN1_CONSTRUCTED \<noteq> 0 \<and> unat lb = 128
     then finish s (word_of_nat T) tag (word_of_nat T)
     else if unat lb = 128 \<or> unat lb > 132 then (None, s)
     else case cbs_get_u (unat lb - 128) r of (None, _) \<Rightarrow> (None, s)
       | (Some n, _) \<Rightarrow>
         if n < 128 \<or> drop_bit ((unat lb - 128 - 1) * 8) n = 0 then (None, s)
         else if n + word_of_nat T + word_of_nat (unat lb - 128) < n then (None, s)
         else finish s (n + (word_of_nat T + word_of_nat (unat lb - 128))) tag
                (word_of_nat T + word_of_nat (unat lb - 128)))"
proof -
  have s: "s = der_tag tag @ lb # r" using tag by (simp add: tag.read_iff)
  have T: "CBS_len s - CBS_len r = T"
    by (simp add: CBS_len_def s T_def)
  show ?thesis
    unfolding cbs_get_any_asn1_element_def Let_def tag prod.case option.case CBS_get_u8_simps
      finish_def [symmetric] T AND_80_eq_0
    by (auto simp: AND_7F_long split: option.split prod.split)
qed

lemma unat_be_word: "8 * length bs \<le> LENGTH('a) \<Longrightarrow> unat (be_word bs :: 'a::len word) < 256 ^ length bs"
  using be_word_iff [of "length bs" bs "be_word bs :: 'a word"]
  by (simp add: take_bit_eq_self_unat power_mult)

lemma drop_bit_8_eq_0: "drop_bit (m * 8) w = 0 \<longleftrightarrow> unat (w :: u64) < 256 ^ m"
proof -
  have "drop_bit (m * 8) w = 0 \<longleftrightarrow> unat (drop_bit (m * 8) w) = 0"
    by (simp add: unsigned_eq_0_iff)
  also have "\<dots> \<longleftrightarrow> unat w div 256 ^ m = 0"
    by (simp add: unat_drop_bit power_mult mult.commute [of m])
  finally have "drop_bit (m * 8) w = 0 \<longleftrightarrow> unat w div 256 ^ m = 0" .
  then show ?thesis by (simp add: div_eq_0_iff not_less)
qed

lemma len_bytes_iff:
  "0 < m \<Longrightarrow> n < 256 ^ m \<Longrightarrow> 128 \<le> n \<Longrightarrow> len_bytes n = m \<longleftrightarrow> 256 ^ (m - 1) \<le> n"
  using len_bytes_unique [of m n] len_bytes_bounds [of n] by (cases "m = 1") auto

inductive_simps header_simps: "header ber tag lb r k n"

lemma any_element_header:
  assumes tag: "parse_asn1_tag s = (Some tag, lb # r)"
  defines "T \<equiv> length (der_tag tag) + 1"
  shows "cbs_get_any_asn1_element ber s = (Some (e, t, h), s') \<longleftrightarrow>
    t = tag \<and> s = e @ s' \<and> (\<exists>k n. header ber tag lb r k n \<and> length e = T + k + n \<and>
      h = word_of_nat (T + k))"
proof -
  note unfold = any_element_unfold [OF tag, of ber, folded T_def]
  have T: "T \<le> 7" using length_der_tag [of tag] by (simp add: T_def)
  define m where "m = unat lb - 128"
  consider (short) "unat lb < 128" | (zero) "unat lb = 128" | (big) "unat lb > 132"
    | (long) "unat lb = 128 + m" "0 < m" "m \<le> 4"
    unfolding m_def by linarith
  then show ?thesis
  proof cases
    case short
    have "unat (ucast lb + word_of_nat T :: u64) = unat lb + T"
      using short T unat_add_64 [of "ucast lb" T] by (simp add: unsigned_ucast_eq take_bit_nat_eq_self)
    moreover have "lb \<noteq> 0x80" using short by auto
    ultimately show ?thesis
      using short by (auto simp: unfold finish_Some header_simps)
  next
    case zero
    then have "lb = 0x80" by (intro word_unat_eq_iff [THEN iffD2]) simp
    then show ?thesis
      using zero T by (auto simp: unfold finish_Some header_simps unat_of_nat_64)
  next
    case big
    then show ?thesis by (auto simp: unfold header_simps)
  next
    case long
    have nz: "\<not> unat lb < 128" "unat lb \<noteq> 128" "\<not> unat lb > 132" "unat lb - 128 = m" "lb \<noteq> 0x80"
      using long by auto
    show ?thesis
    proof (cases "fst (cbs_get_u m r)")
      case None
      then have "\<not> (\<exists>bs r'. length bs = m \<and> r = bs @ r')"
        by (metis cbs_get_u_Some fst_conv option.distinct(1))
      then show ?thesis
        using None nz by (cases "cbs_get_u m r") (auto simp: unfold header_simps)
    next
      case (Some w)
      then obtain r' where "cbs_get_u m r = (Some w, r')" by (cases "cbs_get_u m r") auto
      then obtain bs where bs: "length bs = m" "w = be_word bs" "r = bs @ r'"
        by (auto simp: cbs_get_u_Some)
      have lt: "unat w < 256 ^ m" using unat_be_word [of bs, where 'a = 64] bs long by simp
      moreover have "(256 :: nat) ^ m \<le> 256 ^ 4" using long by (intro power_increasing) auto
      ultimately have w32: "unat w < 2 ^ 32" by simp
      have add: "unat (w + (word_of_nat T + word_of_nat m)) = T + m + unat w"
        "\<not> w + word_of_nat T + word_of_nat m < w"
        using w32 T long unat_add_64 [of w "T + m"] word_of_nat_add_lt_64 [of w "T + m"]
        by (simp_all add: add.assoc)
      have "cbs_get_any_asn1_element ber s = (Some (e, t, h), s') \<longleftrightarrow>
          128 \<le> unat w \<and> 256 ^ (m - 1) \<le> unat w \<and>
          t = tag \<and> h = word_of_nat (T + m) \<and> s = e @ s' \<and> length e = T + m + unat w"
        using nz add \<open>cbs_get_u m r = _\<close>
        by (auto simp: unfold finish_Some drop_bit_8_eq_0 word_less_nat_alt split: if_splits)
      also have "\<dots> \<longleftrightarrow> t = tag \<and> s = e @ s' \<and> (\<exists>k n. header ber tag lb r k n \<and>
          length e = T + k + n \<and> h = word_of_nat (T + k))"
        using nz long bs lt len_bytes_iff [of m "unat w"]
        by (auto simp: header_simps)
      finally show ?thesis .
    qed
  qed
qed

lemma be_word_der_len:
  assumes "n < 2 ^ 32" "128 \<le> n"
  shows "be_word (be_bytes (len_bytes n) (word_of_nat n :: u64)) = (word_of_nat n :: u64)"
    "unat (word_of_nat n :: u64) = n"
proof -
  show *: "unat (word_of_nat n :: u64) = n" using assms by (intro unat_of_nat_64) simp
  have "take_bit (8 * len_bytes n) (word_of_nat n :: u64) = word_of_nat n"
    using len_bytes_bounds [of n] * by (simp add: take_bit_eq_self_unat power_mult)
  then show "be_word (be_bytes (len_bytes n) (word_of_nat n :: u64)) = (word_of_nat n :: u64)"
    by (simp add: be_word_be_bytes)
qed

lemma header_der_len:
  assumes "n < 2 ^ 32"
  obtains lb r where "der_len n @ s = lb # r" "header ber tag lb r (length (der_len n) - 1) n"
proof (cases "n < 128")
  case True
  then have "header ber tag (word_of_nat n) s 0 n"
    using unat_of_nat_8 [of n] short [of "word_of_nat n"] by simp
  then show ?thesis using True that by (simp add: der_len_def)
next
  case False
  let ?bs = "be_bytes (len_bytes n) (word_of_nat n :: u64)"
  have k: "len_bytes n \<le> 4" "0 < len_bytes n" using assms len_bytes_le_4 len_bytes_pos by auto
  then have "header ber tag (word_of_nat (128 + len_bytes n)) (?bs @ s) (length ?bs) n"
    using False be_word_der_len [of n] assms
    by (intro long [where r' = s]) (auto simp: unat_of_nat_8 simp del: of_nat_add simp flip: length_greater_0_conv)
  then show ?thesis using False that by (simp add: der_len_def)
qed

lemma header_is_element:
  assumes "header ber tag lb r k n" "der_tag tag @ lb # r = e @ s'"
    "length e = length (der_tag tag) + 1 + k + n"
  shows "is_element ber (e, tag, word_of_nat (length (der_tag tag) + 1 + k))"
proof -
  have split: "(der_tag tag @ [lb]) @ r = e @ s'" using assms(2) by simp
  obtain b where b: "e = der_tag tag @ lb # b" "r = b @ s'" "length b = k + n"
    using split_prefix [OF split, of "k + n"] assms(3) by auto
  show ?thesis
    using assms(1)
  proof cases
    case short
    then have "der_len (length b) = [lb]" "length b < 2 ^ 32"
      using b unat_lt_8 [of lb] by (simp_all add: der_len_def)
    then show ?thesis
      using short b unfolding is_element_def der_element_def header_len_def
      by (auto intro!: exI [of _ b])
  next
    case indefinite
    then show ?thesis using b by (auto simp: is_element_def)
  next
    case (long bs r')
    have "bs @ r' = b @ s'" "length b = length bs + n" using long b by simp_all
    then obtain body where body: "b = bs @ body" "length body = n"
      using split_prefix by blast
    have "unat lb \<le> 132" using long by simp
    have "n < 256 ^ length bs" using unat_be_word [of bs, where 'a = 64] long by simp
    moreover have "(256 :: nat) ^ length bs \<le> 256 ^ 4" using long by (intro power_increasing) auto
    ultimately have n: "n < 2 ^ 32" by simp
    have w: "be_word bs = (word_of_nat n :: u64)" using long by simp
    have "be_bytes (length bs) (be_word bs :: u64) = bs"
      using long by (intro be_bytes_be_word) auto
    moreover have "lb = word_of_nat (128 + length bs)"
      unfolding long(2) [symmetric] by simp
    ultimately have "der_len n = lb # bs"
      using long(7,8) unfolding w by (simp add: der_len_def)
    then have "e = der_element tag body" "header_len tag (length body) = length (der_tag tag) + 1 + k"
      using b(1) body long(1) by (simp_all add: der_element_def header_len_def)
    moreover have "length body < 2 ^ 32" using n body(2) by simp
    ultimately show ?thesis unfolding is_element_def prod.case by metis
  qed
qed

lemma any_element_iff:
  "cbs_get_any_asn1_element ber s = (Some (e, t, h), s') \<longleftrightarrow> is_element ber (e, t, h) \<and> s = e @ s'"
proof
  assume r: "cbs_get_any_asn1_element ber s = (Some (e, t, h), s')"
  then obtain tag hd where tag: "parse_asn1_tag s = (Some tag, hd)"
    by (auto simp: cbs_get_any_asn1_element_def split: option.splits prod.splits)
  have "hd \<noteq> []" using r tag by (auto simp: cbs_get_any_asn1_element_def)
  then obtain lb r where hd: "hd = lb # r" by (cases hd) auto
  show "is_element ber (e, t, h) \<and> s = e @ s'"
    using r any_element_header [OF tag [unfolded hd]] header_is_element
      tag [unfolded hd tag.read_iff] by fastforce
next
  assume e: "is_element ber (e, t, h) \<and> s = e @ s'"
  then consider (der) body where "length body < 2 ^ 32" "e = der_element t body"
      "h = word_of_nat (header_len t (length body))"
    | (indef) "ber" "t AND CBS_ASN1_CONSTRUCTED \<noteq> 0" "e = der_tag t @ [0x80]" "h = word_of_nat (length e)"
    by (auto simp: is_element_def)
  then show "cbs_get_any_asn1_element ber s = (Some (e, t, h), s')"
  proof cases
    case der
    obtain lb r where lb: "der_len (length body) @ body @ s' = lb # r"
        "header ber t lb r (length (der_len (length body)) - 1) (length body)"
      using header_der_len [OF der(1)] .
    have tag: "parse_asn1_tag s = (Some t, lb # r)"
      using e der lb(1) by (simp add: tag.read_iff der_element_def)
    have "0 < length (der_len (length body))" by (simp add: der_len_def)
    then have hl: "length (der_tag t) + 1 + (length (der_len (length body)) - 1) = header_len t (length body)"
      by (simp add: header_len_def)
    then have "length e = length (der_tag t) + 1 + (length (der_len (length body)) - 1) + length body"
      "h = word_of_nat (length (der_tag t) + 1 + (length (der_len (length body)) - 1))"
      unfolding hl by (simp_all add: der der_element_def header_len_def)
    then show ?thesis
      using e lb(2) by (subst any_element_header [OF tag]) blast
  next
    case indef
    have "parse_asn1_tag s = (Some t, 0x80 # s')"
      using e indef by (simp add: tag.read_iff)
    then show ?thesis
      using e indef by (auto simp: any_element_header header_simps)
  qed
qed

interpretation element: codec "cbs_get_any_asn1_element ber" fst "is_element ber" for ber
  by unfold_locales (auto simp: any_element_iff)

section \<open>Contents\<close>

lemma length_der_len: "n < 2 ^ 32 \<Longrightarrow> length (der_len n) \<le> 5"
  using len_bytes_le_4 [of n] by (simp add: der_len_def)

lemma unat_header_len: "n < 2 ^ 32 \<Longrightarrow> unat (word_of_nat (header_len t n) :: u64) = header_len t n"
  using length_der_len [of n] length_der_tag [of t]
  by (intro unat_of_nat_64) (simp add: header_len_def)

lemma skip_header:
  "length body < 2 ^ 32 \<Longrightarrow>
    CBS_skip (unat (word_of_nat (header_len t (length body)) :: u64)) (der_element t body) =
      (Some (), body)"
  by (simp add: unat_header_len CBS_skip_def cbs_get_def)
    (simp add: header_len_def der_element_def)

lemma is_element_DER:
  "is_element False (e, t, h) \<longleftrightarrow> (\<exists>body. length body < 2 ^ 32 \<and> e = der_element t body \<and>
     h = word_of_nat (header_len t (length body)))"
  by (simp add: is_element_def)

lemma der_element_iff:
  "CBS_get_any_asn1_element s = (Some (e, t, h), s') \<longleftrightarrow>
    (\<exists>body. length body < 2 ^ 32 \<and> e = der_element t body \<and>
       h = word_of_nat (header_len t (length body)) \<and> s = e @ s')"
  by (auto simp: CBS_get_any_asn1_element_def any_element_iff is_element_DER)

lemma read_element:
  "length body < 2 ^ 32 \<Longrightarrow> CBS_get_any_asn1_element (der_element t body @ s) =
    (Some (der_element t body, t, word_of_nat (header_len t (length body))), s)"
  by (auto simp: der_element_iff)

interpretation any_asn1: codec CBS_get_any_asn1 "\<lambda>(body, t). der_element t body"
  "\<lambda>(body, t). length body < 2 ^ 32"
proof (unfold_locales, rule iffI)
  fix s a s'
  show "(case a of (body, t) \<Rightarrow> length body < 2 ^ 32) \<and>
      s = (case a of (body, t) \<Rightarrow> der_element t body) @ s'" if "CBS_get_any_asn1 s = (Some a, s')"
    using that by (auto simp: CBS_get_any_asn1_def p_then_Some der_element_iff skip_header)
  show "CBS_get_any_asn1 s = (Some a, s')" if "(case a of (body, t) \<Rightarrow> length body < 2 ^ 32) \<and>
      s = (case a of (body, t) \<Rightarrow> der_element t body) @ s'"
    using that by (cases a) (simp add: CBS_get_any_asn1_def read_element skip_header)
qed

interpretation asn1: codec "CBS_get_asn1 t" "der_element t" "\<lambda>body. length body < 2 ^ 32" for t
proof (unfold_locales, rule iffI)
  fix s body s'
  show "length body < 2 ^ 32 \<and> s = der_element t body @ s'"
    if "CBS_get_asn1 t s = (Some body, s')"
    using that by (auto simp: CBS_get_asn1_def cbs_get_asn1_def p_then_Some der_element_iff
        skip_header split: if_splits)
  show "CBS_get_asn1 t s = (Some body, s')" if "length body < 2 ^ 32 \<and> s = der_element t body @ s'"
    using that by (simp add: CBS_get_asn1_def cbs_get_asn1_def read_element skip_header)
qed

interpretation asn1_element: codec "CBS_get_asn1_element t" "\<lambda>e. e"
  "\<lambda>e. \<exists>body. length body < 2 ^ 32 \<and> e = der_element t body" for t
proof
  show "CBS_get_asn1_element t s = (Some e, s') \<longleftrightarrow>
      (\<exists>body. length body < 2 ^ 32 \<and> e = der_element t body) \<and> s = e @ s'"
    for s e s'
    by (auto simp: CBS_get_asn1_element_def cbs_get_asn1_def p_then_Some der_element_iff
        split: prod.splits option.splits if_splits)
qed

lemma peek_iff: "CBS_peek_asn1_tag s t \<longleftrightarrow> (\<exists>r. s = der_tag t @ r)"
proof -
  have "CBS_peek_asn1_tag s t \<longleftrightarrow> (\<exists>r. parse_asn1_tag s = (Some t, r))"
    by (cases s) (auto simp: CBS_peek_asn1_tag_def CBS_len_def parse_asn1_tag_def
        split: prod.splits option.splits)
  then show ?thesis by (simp add: tag.read_iff)
qed

end
