(* ===== verification/Cbs_Values.thy ===== *)
theory Cbs_Values
  imports Cbs_Der
begin

text \<open>
  ASN.1 values in DER elements: INTEGERs are minimal two's complement (\<open>der_int\<close>), read into unsigned
  and signed 64-bit integers; BOOLEANs; optional elements; bit strings.
\<close>

section \<open>Two's complement\<close>

function der_int :: "int \<Rightarrow> u8 list" where
  "der_int i = (if -128 \<le> i \<and> i < 128 then [word_of_int i]
     else der_int (i div 256) @ [word_of_int i])"
  by auto
termination
  by (relation "measure (\<lambda>i. nat \<bar>i\<bar>)") auto

declare der_int.simps [simp del]

text \<open>The value of octets, unsigned and signed, and the condition of X.690 section 8.3.2.\<close>

definition be_val :: "u8 list \<Rightarrow> int" where
  "be_val bs = foldl (\<lambda>v b. v * 256 + uint b) 0 bs"

definition negative :: "u8 list \<Rightarrow> bool" where
  "negative bs = (128 \<le> uint (hd bs))"

definition tc_val :: "u8 list \<Rightarrow> int" where
  "tc_val bs = be_val bs - (if negative bs then 256 ^ length bs else 0)"

definition minimal :: "u8 list \<Rightarrow> bool" where
  "minimal bs \<longleftrightarrow> bs \<noteq> [] \<and>
     \<not> (1 < length bs \<and> bs ! 0 = 0 \<and> bs ! 1 AND 0x80 = 0) \<and>
     \<not> (1 < length bs \<and> bs ! 0 = 0xFF \<and> bs ! 1 AND 0x80 \<noteq> 0)"

lemma be_val_Nil [simp]: "be_val [] = 0"
  by (simp add: be_val_def)

lemma be_val_snoc [simp]: "be_val (bs @ [b]) = be_val bs * 256 + uint b"
  by (simp add: be_val_def)

lemma be_val_append: "be_val (as @ bs) = be_val as * 256 ^ length bs + be_val bs"
proof (induction bs rule: rev_induct)
  case (snoc b bs)
  then show ?case
    by (simp add: algebra_simps flip: append_assoc)
qed simp

lemma be_val_single [simp]: "be_val [b] = uint b"
  by (simp add: be_val_def)

lemma be_val_Cons: "be_val (b # bs) = uint b * 256 ^ length bs + be_val bs"
  using be_val_append [of "[b]" bs] by simp

lemma uint_lt_8: "uint (b :: u8) < 256"
  using unsigned_less [of b] by simp

lemma be_val_bounds: "0 \<le> be_val bs \<and> be_val bs < 256 ^ length bs"
proof (induction bs rule: rev_induct)
  case (snoc b bs)
  then show ?case using uint_lt_8 [of b] by simp
qed simp

lemma foldl_be_val: "foldl (\<lambda>v b. v * 256 + uint b) v bs = v * 256 ^ length bs + be_val bs"
proof (induction bs rule: rev_induct)
  case (snoc b bs)
  then show ?case by (simp add: algebra_simps)
qed simp

lemma tc_val_bounds:
  assumes "bs \<noteq> []"
  shows "if negative bs then - (128 * 256 ^ (length bs - 1)) \<le> tc_val bs \<and> tc_val bs < 0
    else 0 \<le> tc_val bs \<and> tc_val bs < 128 * 256 ^ (length bs - 1)"
proof -
  obtain b cs where bs: "bs = b # cs" using assms by (cases bs) auto
  have c: "0 \<le> be_val cs" "be_val cs < 256 ^ length cs" using be_val_bounds by auto
  have v: "be_val bs = uint b * 256 ^ length cs + be_val cs" by (simp add: bs be_val_Cons)
  define X where "X = uint b * (256 :: int) ^ length cs"
  define Y where "Y = (256 :: int) ^ length cs"
  have Y: "0 < Y" by (simp add: Y_def)
  have tc: "tc_val bs = X + be_val cs - (if 128 \<le> uint b then 256 * Y else 0)"
    by (simp add: tc_val_def negative_def bs be_val_Cons X_def Y_def)
  show ?thesis
  proof (cases "128 \<le> uint b")
    case True
    then have "128 * Y \<le> X" "X \<le> 255 * Y"
      using uint_lt_8 [of b] unfolding X_def Y_def by (simp_all add: mult_right_mono)
    then have "- (128 * Y) \<le> tc_val bs \<and> tc_val bs < 0"
      using True c unfolding tc Y_def [symmetric] by simp
    then show ?thesis using True by (simp add: negative_def bs Y_def)
  next
    case False
    then have "X \<le> 127 * Y" unfolding X_def Y_def by (intro mult_right_mono) auto
    moreover have "0 \<le> X" by (simp add: X_def)
    ultimately have "0 \<le> tc_val bs \<and> tc_val bs < 128 * Y"
      using False c unfolding tc Y_def [symmetric] by simp
    then show ?thesis using False by (simp add: negative_def bs Y_def)
  qed
qed

lemma tc_val_snoc: "bs \<noteq> [] \<Longrightarrow> tc_val (bs @ [b]) = tc_val bs * 256 + uint b"
  by (simp add: tc_val_def negative_def algebra_simps)

lemma tc_val_single: "tc_val [b] = uint b - (if 128 \<le> uint b then 256 else 0)"
  by (simp add: tc_val_def negative_def)

lemma AND_80_uint: "b AND 0x80 = (0 :: u8) \<longleftrightarrow> uint b < 128"
  using AND_80_eq_0 [of b] by (simp add: uint_nat del: of_nat_unat)

lemma tc_val_pair: "tc_val [a, b] = tc_val [a] * 256 + uint b"
  using tc_val_snoc [of "[a]" b] by simp

lemma word_of_int_low: "word_of_int (x * 256 + uint b) = (b :: u8)"
  using uint_lt_8 [of b]
  by (simp add: word_uint_eq_iff uint_word_of_int mod_pos_pos_trivial del: of_int_add of_int_mult)

lemma uint_8_ge: "- 128 \<le> uint (b :: u8)"
  using uint_ge_0 [of b] by linarith

lemma tc_pair_range:
  fixes x y z :: int
  assumes "0 \<le> x" "x < 256" "0 \<le> y" "y < 256"
    and z: "z = (if 128 \<le> x then x - 256 else x) * 256 + y"
  shows "\<not> (x = 0 \<and> y < 128) \<and> \<not> (x = 255 \<and> \<not> y < 128) \<longleftrightarrow> \<not> (- 128 \<le> z \<and> z < 128)"
proof -
  consider "x = 0" | "x = 255" | "1 \<le> x" "x < 128" | "128 \<le> x" "x \<le> 254"
    using assms(1,2) by linarith
  then show ?thesis
  proof cases
    case 1
    then show ?thesis using z assms(3,4) by simp
  next
    case 2
    then have "z = y - 256" using z by simp
    then show ?thesis using 2 assms(3,4) by auto
  next
    case 3
    then have "256 \<le> z" "x \<noteq> 0" "x \<noteq> 255" using z assms(3,4) by simp_all
    then show ?thesis by simp
  next
    case 4
    then have "z < - 256" "x \<noteq> 0" "x \<noteq> 255" using z assms(3,4) by simp_all
    then show ?thesis by simp
  qed
qed

lemma minimal_snoc:
  assumes "bs \<noteq> []"
  shows "minimal (bs @ [b]) \<longleftrightarrow> minimal bs \<and>
    (length bs = 1 \<longrightarrow> \<not> (-128 \<le> tc_val (bs @ [b]) \<and> tc_val (bs @ [b]) < 128))"
proof (cases "length bs = 1")
  case True
  then obtain a where a: "bs = [a]" by (cases bs) auto
  have eq: "a = 0 \<longleftrightarrow> uint a = 0" "a = 0xFF \<longleftrightarrow> uint a = 255"
    by (simp_all add: word_uint_eq_iff)
  show ?thesis
  proof -
    define x y where "x = uint a" and "y = uint b"
    have "0 \<le> x" "x < 256" "0 \<le> y" "y < 256"
      using uint_lt_8 [of a] uint_lt_8 [of b] by (simp_all add: x_def y_def)
    moreover have "tc_val ([a] @ [b]) = (if 128 \<le> x then x - 256 else x) * 256 + y"
      by (simp add: tc_val_pair tc_val_single x_def y_def)
    ultimately have "\<not> (x = 0 \<and> y < 128) \<and> \<not> (x = 255 \<and> \<not> y < 128) \<longleftrightarrow>
        \<not> (- 128 \<le> tc_val ([a] @ [b]) \<and> tc_val ([a] @ [b]) < 128)"
      by (rule tc_pair_range)
    moreover have "minimal ([a] @ [b]) \<longleftrightarrow>
        \<not> (a = 0 \<and> uint b < 128) \<and> \<not> (a = 0xFF \<and> \<not> uint b < 128)"
      by (simp add: minimal_def AND_80_uint)
    ultimately show ?thesis
      unfolding a eq x_def [symmetric] y_def [symmetric] by (simp add: minimal_def)
  qed
next
  case False
  then have "1 < length bs" using assms by (cases bs) auto
  then show ?thesis using assms False by (simp add: minimal_def nth_append)
qed

lemma word_of_tc_val: "bs \<noteq> [] \<Longrightarrow> word_of_int (tc_val bs) = last bs"
proof -
  assume "bs \<noteq> []"
  then obtain cs b where bs: "bs = cs @ [b]" by (metis rev_exhaust)
  show ?thesis
    using word_of_int_low [of "- 1" b] word_of_int_low [of 0 b] word_of_int_low [of "tc_val cs" b]
    by (cases "cs = []") (auto simp: bs tc_val_snoc tc_val_single simp del: of_int_add of_int_mult of_int_diff)
qed

lemma small_single:
  assumes "minimal bs"
  shows "-128 \<le> tc_val bs \<and> tc_val bs < 128 \<longleftrightarrow> length bs = 1"
  using assms
proof (induction bs rule: rev_induct)
  case (snoc b bs)
  show ?case
  proof (cases "bs = []")
    case True
    then show ?thesis using uint_lt_8 [of b] uint_8_ge [of b] by (simp add: tc_val_single)
  next
    case False
    then have m: "minimal bs" and
      *: "length bs = 1 \<Longrightarrow> \<not> (-128 \<le> tc_val (bs @ [b]) \<and> tc_val (bs @ [b]) < 128)"
      using snoc.prems minimal_snoc by auto
    then have "length bs \<noteq> 1 \<Longrightarrow> \<not> (-128 \<le> tc_val bs \<and> tc_val bs < 128)"
      using snoc.IH by simp
    then have "\<not> (-128 \<le> tc_val (bs @ [b]) \<and> tc_val (bs @ [b]) < 128)"
    proof (cases "length bs = 1")
      case True
      then show ?thesis using * by simp
    next
      case False
      then have "tc_val bs < -128 \<or> 128 \<le> tc_val bs"
        using \<open>length bs \<noteq> 1 \<Longrightarrow> _\<close> by linarith
      then show ?thesis
        using \<open>bs \<noteq> []\<close> uint_lt_8 [of b] uint_ge_0 [of b] unfolding tc_val_snoc [OF \<open>bs \<noteq> []\<close>]
        by linarith
    qed
    then show ?thesis using False by simp
  qed
qed (simp add: minimal_def)

lemma der_int_tc_val: "minimal bs \<Longrightarrow> der_int (tc_val bs) = bs"
proof (induction bs rule: rev_induct)
  case (snoc b bs)
  have w: "word_of_int (tc_val (bs @ [b])) = b" using word_of_tc_val [of "bs @ [b]"] by simp
  show ?case
  proof (cases "bs = []")
    case True
    then have "-128 \<le> tc_val [b] \<and> tc_val [b] < 128" using small_single snoc.prems by simp
    then show ?thesis using True w by (subst der_int.simps) simp
  next
    case False
    then have "minimal bs" using snoc.prems minimal_snoc by auto
    moreover have "\<not> (-128 \<le> tc_val (bs @ [b]) \<and> tc_val (bs @ [b]) < 128)"
      using small_single [OF snoc.prems] False by simp
    moreover have "tc_val (bs @ [b]) div 256 = tc_val bs"
      using False uint_lt_8 [of b] by (simp add: tc_val_snoc)
    ultimately show ?thesis using w snoc.IH by (subst der_int.simps) auto
  qed
qed (simp add: minimal_def)

lemma der_int_unfold:
  "-128 \<le> i \<Longrightarrow> i < 128 \<Longrightarrow> der_int i = [word_of_int i]"
  "\<not> (-128 \<le> i \<and> i < 128) \<Longrightarrow> der_int i = der_int (i div 256) @ [word_of_int i]"
  by (subst der_int.simps, simp)+

lemma minimal_single: "minimal [b]"
  by (simp add: minimal_def)

lemma tc_val_word_of_int: "-128 \<le> i \<Longrightarrow> i < 128 \<Longrightarrow> tc_val [word_of_int i] = i"
proof -
  assume i: "-128 \<le> i" "i < 128"
  have "uint (word_of_int i :: u8) = i mod 256" by (simp add: uint_word_of_int)
  also have "\<dots> = (if i < 0 then i + 256 else i)"
  proof (cases "i < 0")
    case True
    have "i mod 256 = (i + 256) mod 256" by simp
    also have "\<dots> = i + 256" using True i by (intro mod_pos_pos_trivial) auto
    finally show ?thesis using True by simp
  qed (use i in simp)
  finally show ?thesis using i by (simp add: tc_val_single)
qed

lemma der_int_minimal: "minimal (der_int i) \<and> tc_val (der_int i) = i"
proof (induction i rule: der_int.induct)
  case (1 i)
  show ?case
  proof (cases "-128 \<le> i \<and> i < 128")
    case True
    then show ?thesis by (simp add: der_int_unfold(1) minimal_single tc_val_word_of_int)
  next
    case False
    let ?d = "der_int (i div 256)"
    have IH: "minimal ?d" "tc_val ?d = i div 256" using 1 False by auto
    then have ne: "?d \<noteq> []" by (auto simp: minimal_def)
    have tc: "tc_val (?d @ [word_of_int i]) = i"
      using IH ne by (simp add: tc_val_snoc uint_word_of_int)
    have "minimal (?d @ [word_of_int i])"
      using IH ne tc False minimal_snoc [OF ne] by simp
    then show ?thesis using tc der_int_unfold(2) [OF False] by simp
  qed
qed

section \<open>Unsigned 64-bit integers\<close>

text \<open>The loop computes the unsigned value of the octets and fails exactly when it does not fit.\<close>

lemma be_val_acc_mono: "0 \<le> v \<Longrightarrow> v \<le> foldl (\<lambda>v b. v * 256 + uint (b :: u8)) v bs"
proof (induction bs arbitrary: v)
  case (Cons b bs)
  have "v \<le> v * 256 + uint b" using Cons.prems uint_ge_0 [of b] by linarith
  moreover have "v * 256 + uint b \<le> foldl (\<lambda>v b. v * 256 + uint b) (v * 256 + uint b) bs"
    using Cons.IH Cons.prems by simp
  ultimately have "v \<le> foldl (\<lambda>v b. v * 256 + uint b) (v * 256 + uint b) bs" by (rule order_trans)
  then show ?case by simp
qed simp

lemma asn1_uint64_loop_val:
  "asn1_uint64_loop out bs = Some v \<longleftrightarrow> foldl (\<lambda>v b. v * 256 + uint b) (uint out) bs = uint v"
proof (induction bs arbitrary: out)
  case Nil
  then show ?case by (auto simp: word_uint_eq_iff)
next
  case (Cons b bs)
  show ?case
  proof (cases "drop_bit 56 out = 0")
    case True
    then have "unat out < 2 ^ 56" using unat_drop_bit [of 56 out] by simp
    then have "unat (push_bit 8 out OR ucast b) = unat out * 256 + unat b"
      using unat_or_shift [of "ucast b :: u64" 8 out] unat_lt_8 [of b]
      by (simp add: unsigned_ucast_eq take_bit_nat_eq_self)
    then have "uint (push_bit 8 out OR ucast b) = uint out * 256 + uint b"
      by (simp add: uint_nat del: of_nat_unat)
    then show ?thesis using True Cons.IH by simp
  next
    case False
    then have "2 ^ 56 \<le> unat out"
      using unat_drop_bit [of 56 out] by (metis div_less leI unsigned_0 unsigned_word_eqI)
    then have "2 ^ 56 \<le> uint out" by (simp add: uint_nat del: of_nat_unat)
    then have "2 ^ 64 \<le> uint out * 256 + uint b" 
    proof -
      have "(2 :: int) ^ 64 = 2 ^ 56 * 256" by simp
      then show ?thesis using \<open>2 ^ 56 \<le> uint out\<close> uint_ge_0 [of b] by linarith
    qed
    also have "\<dots> \<le> foldl (\<lambda>v b. v * 256 + uint b) (uint out * 256 + uint b) bs"
      by (rule be_val_acc_mono) simp
    finally have "foldl (\<lambda>v b. v * 256 + uint b) (uint out) (b # bs) \<noteq> uint v"
      using unsigned_less [of v, where 'a = int] by simp
    then show ?thesis using False by simp
  qed
qed

lemma hd_nth_0: "bs \<noteq> [] \<Longrightarrow> bs ! 0 = hd bs"
  by (simp add: hd_conv_nth)

lemma negative_iff: "bs \<noteq> [] \<Longrightarrow> bs ! 0 AND 0x80 \<noteq> 0 \<longleftrightarrow> tc_val bs < 0"
  using tc_val_bounds [of bs]
  by (auto simp: AND_80_uint negative_def hd_conv_nth split: if_splits)

text \<open>The checks on the contents of an INTEGER, as the code orders them.\<close>

lemma uint64_content:
  "(if length bs = 0 then None
    else if bs ! 0 AND 0x80 \<noteq> 0 then None
    else if bs ! 0 = 0 \<and> length bs > 1 \<and> bs ! 1 AND 0x80 = 0 then None
    else asn1_uint64_loop 0 bs) = Some v \<longleftrightarrow> bs = der_int (uint v)"
proof
  assume *: "(if length bs = 0 then None
    else if bs ! 0 AND 0x80 \<noteq> 0 then None
    else if bs ! 0 = 0 \<and> length bs > 1 \<and> bs ! 1 AND 0x80 = 0 then None
    else asn1_uint64_loop 0 bs) = Some v"
  then have ne: "bs \<noteq> []" and nn: "bs ! 0 AND 0x80 = 0"
    and l: "asn1_uint64_loop 0 bs = Some v" by (auto split: if_splits)
  have "bs ! 0 \<noteq> 0xFF" using nn by auto
  then have "minimal bs" using * ne by (auto simp: minimal_def split: if_splits)
  moreover have "tc_val bs = uint v"
    using l nn by (simp add: asn1_uint64_loop_val tc_val_def negative_def AND_80_uint hd_nth_0 [OF ne]
        flip: be_val_def)
  ultimately show "bs = der_int (uint v)" using der_int_tc_val by metis
next
  assume bs: "bs = der_int (uint v)"
  then have m: "minimal bs" "tc_val bs = uint v" using der_int_minimal by auto
  then have ne: "bs \<noteq> []" by (simp add: minimal_def)
  have nn: "bs ! 0 AND 0x80 = 0" using negative_iff [OF ne] m(2) uint_ge_0 [of v] by force
  then have "be_val bs = uint v"
    using m by (simp add: tc_val_def negative_def AND_80_uint hd_nth_0 [OF ne])
  then have "asn1_uint64_loop 0 bs = Some v"
    by (simp add: asn1_uint64_loop_val flip: be_val_def)
  then show "(if length bs = 0 then None
    else if bs ! 0 AND 0x80 \<noteq> 0 then None
    else if bs ! 0 = 0 \<and> length bs > 1 \<and> bs ! 1 AND 0x80 = 0 then None
    else asn1_uint64_loop 0 bs) = Some v"
    using ne nn m(1) by (auto simp: minimal_def)
qed

lemma length_der_int:
  "- (128 * 256 ^ k) \<le> i \<Longrightarrow> i < 128 * 256 ^ k \<Longrightarrow> length (der_int i) \<le> Suc k"
proof (induction k arbitrary: i)
  case (Suc k)
  then have "- (128 * 256 ^ k) \<le> i div 256" "i div 256 < 128 * 256 ^ k" by auto
  then show ?case
    using Suc.IH by (cases "-128 \<le> i \<and> i < 128") (auto simp: der_int_unfold)
qed (simp add: der_int_unfold)

lemma length_der_uint64: "length (der_int (uint (v :: u64))) \<le> 9"
proof -
  have "uint v < 2 ^ 64" using unsigned_less [of v, where 'a = int] by simp
  then have "uint v < 128 * 256 ^ 8" by simp
  moreover have "- (128 * 256 ^ 8) \<le> uint v" by (rule order_trans [OF _ uint_ge_0]) simp
  ultimately have "length (der_int (uint v)) \<le> Suc 8" by (intro length_der_int)
  then show ?thesis by simp
qed

interpretation asn1_uint64: codec CBS_get_asn1_uint64
  "\<lambda>v. der_element CBS_ASN1_INTEGER (der_int (uint v))" "\<lambda>_. True"
proof
  show "CBS_get_asn1_uint64 s = (Some v, s') \<longleftrightarrow>
      True \<and> s = der_element CBS_ASN1_INTEGER (der_int (uint v)) @ s'" for s v s'
  proof -
    have "CBS_get_asn1_uint64 s = (Some v, s') \<longleftrightarrow>
      (\<exists>bs. CBS_get_asn1 CBS_ASN1_INTEGER s = (Some bs, s') \<and> bs = der_int (uint v))"
      unfolding uint64_content [symmetric]
      by (auto simp: CBS_get_asn1_uint64_def p_then_Some CBS_data_def CBS_len_def Let_def
          split: if_splits)
    then show ?thesis
      using length_der_uint64 [of v] by (auto simp: asn1.read_iff)
  qed
qed


section \<open>Signed 64-bit integers\<close>

lemma int64_fill_take:
  "i \<le> length data \<Longrightarrow> length data \<le> length u \<Longrightarrow>
    int64_fill i data u = take i u @ rev (take (length data - i) data) @ drop (length data) u"
proof (induction "length data - i" arbitrary: i u)
  case 0
  then show ?case by (subst int64_fill.simps) simp
next
  case (Suc n)
  then have i: "i < length data" by simp
  let ?b = "data ! (length data - i - 1)"
  have "take (length data - i) data = take (length data - Suc i) data @ [?b]"
    using i take_Suc_conv_app_nth [of "length data - Suc i" data] by (simp add: Suc_diff_Suc)
  moreover have "take (Suc i) (u[i := ?b]) = take i u @ [?b]"
    using i Suc.prems by (simp add: take_Suc_conv_app_nth)
  ultimately show ?case
    using i Suc.hyps(1) [of "Suc i" "u[i := ?b]"] Suc.hyps(2) Suc.prems
    by (subst int64_fill.simps) simp
qed

lemma uint_be_word: "8 * length bs \<le> LENGTH('a) \<Longrightarrow> uint (be_word bs :: 'a::len word) = be_val bs"
proof (induction bs rule: rev_induct)
  case (snoc b bs)
  let ?w = "be_word bs :: 'a word"
  have l: "8 * length bs + 8 \<le> LENGTH('a)" using snoc.prems by simp
  have b: "unat (ucast b :: 'a word) = unat b"
    using l unat_lt_8 [of b] order_less_le_trans [of "unat b" 256 "2 ^ LENGTH('a)"]
      power_increasing [of 8 "LENGTH('a)" "2 :: nat"]
    by (simp add: unsigned_ucast_eq take_bit_nat_eq_self)
  have "unat ?w < 2 ^ (8 * length bs)"
    using unat_be_word [of bs, where 'a = 'a] l by (simp add: power_mult)
  then have "unat ?w * 2 ^ 8 < 2 ^ (8 * length bs + 8)" by (simp add: power_add)
  also have "\<dots> \<le> 2 ^ LENGTH('a)" using l by (intro power_increasing) auto
  finally have "unat (push_bit 8 ?w OR ucast b) = unat ?w * 256 + unat b"
    using unat_or_shift [of "ucast b :: 'a word" 8 ?w] b unat_lt_8 [of b] by simp
  then have "uint (push_bit 8 ?w OR ucast b) = uint ?w * 256 + uint b"
    by (simp add: uint_nat del: of_nat_unat)
  then show ?case using snoc l by (simp add: be_word_snoc or.commute)
qed simp

lemma be_val_replicate: "be_val (replicate k 0) = 0" "be_val (replicate k 0xFF) = 256 ^ k - 1"
  by (induction k) (simp_all flip: replicate_append_same)

lemma sint_64: "sint (w :: u64) = (if uint w < 2 ^ 63 then uint w else uint w - 2 ^ 64)"
proof -
  have "sint w = signed_take_bit 63 (uint w)" by (simp add: sint_uint)
  also have "\<dots> = (if uint w < 2 ^ 63 then uint w else uint w - 2 ^ 64)"
  proof (cases "uint w < 2 ^ 63")
    case True
    then show ?thesis
      by (simp add: signed_take_bit_eq_take_bit_shift take_bit_eq_mod mod_pos_pos_trivial)
  next
    case False
    have "uint w < 2 ^ 64" using unsigned_less [of w, where 'a = int] by simp
    then have "(uint w - 2 ^ 63) mod 2 ^ 64 = uint w - 2 ^ 63"
      using False by (intro mod_pos_pos_trivial) auto
    moreover have "(uint w + 2 ^ 63) mod 2 ^ 64 = (uint w - 2 ^ 63 + 2 ^ 64) mod 2 ^ 64"
      by (simp add: algebra_simps)
    ultimately have "(uint w + 2 ^ 63) mod 2 ^ 64 = uint w - 2 ^ 63"
      by (simp only: mod_add_self2)
    then show ?thesis using False
      by (simp add: signed_take_bit_eq_take_bit_shift take_bit_eq_mod)
  qed
  finally show ?thesis .
qed

lemma int64_value:
  assumes "bs \<noteq> []" "length bs \<le> 8"
  defines "u \<equiv> replicate 8 (if bs ! 0 AND 0x80 \<noteq> 0 then 0xFF else 0 :: u8)"
  shows "sint (le_word (int64_fill 0 bs u) :: u64) = tc_val bs"
proof -
  define x where "x = (if bs ! 0 AND 0x80 \<noteq> 0 then 0xFF else 0 :: u8)"
  let ?k = "8 - length bs"
  have "int64_fill 0 bs u = rev (replicate ?k x @ bs)"
    using assms(2) int64_fill_take [of 0 bs u] by (simp add: u_def x_def)
  then have "uint (le_word (int64_fill 0 bs u) :: u64) = be_val (replicate ?k x @ bs)"
    using uint_be_word [of "replicate ?k x @ bs", where 'a = 64] assms(2)
    by (simp add: be_word_def)
  also have "\<dots> = be_val (replicate ?k x) * 256 ^ length bs + be_val bs"
    by (rule be_val_append)
  also have "\<dots> = (if negative bs then 2 ^ 64 + tc_val bs else tc_val bs)"
  proof -
    have "(256 :: int) ^ ?k * 256 ^ length bs = 256 ^ 8"
      using assms(2) by (simp flip: power_add)
    moreover have "x = (if negative bs then 0xFF else 0)"
      using assms(1) by (simp add: x_def AND_80_uint negative_def hd_conv_nth)
    ultimately show ?thesis
      by (simp add: be_val_replicate tc_val_def algebra_simps)
  qed
  finally have u: "uint (le_word (int64_fill 0 bs u) :: u64) =
      (if negative bs then 2 ^ 64 + tc_val bs else tc_val bs)" .
  have "(256 :: int) ^ (length bs - 1) \<le> 256 ^ 7"
    using assms(2) by (intro power_increasing) auto
  then have "128 * (256 :: int) ^ (length bs - 1) \<le> 2 ^ 63" by simp
  then have "if negative bs then - (2 ^ 63) \<le> tc_val bs \<and> tc_val bs < 0
      else 0 \<le> tc_val bs \<and> tc_val bs < 2 ^ 63"
    using tc_val_bounds [OF assms(1)] by (auto split: if_splits)
  then show ?thesis using u by (simp add: sint_64 split: if_splits)
qed


lemma sint_inject: "sint v = sint w \<longleftrightarrow> v = (w :: u64)"
  by (metis uint_sint word_uint_eq_iff)

lemma length_der_int64: "length (der_int (sint (v :: u64))) \<le> 8"
proof -
  have "- (2 ^ 63) \<le> sint v \<and> sint v < 2 ^ 63"
    using sint_ge [of v] sint_lt [of v] by simp
  moreover have "(128 :: int) * 256 ^ 7 = 2 ^ 63" by simp
  ultimately have "length (der_int (sint v)) \<le> Suc 7"
    by (intro length_der_int) (simp_all only:)
  then show ?thesis by simp
qed

lemma int64_content:
  "(if length bs = 0 \<or> length bs > 8 then None
    else if length bs > 1 \<and> bs ! 0 = 0 \<and> bs ! 1 AND 0x80 = 0 then None
    else if length bs > 1 \<and> bs ! 0 = 0xff \<and> bs ! 1 AND 0x80 \<noteq> 0 then None
    else Some (le_word (int64_fill 0 bs (replicate 8 (if bs ! 0 AND 0x80 \<noteq> 0 then 0xff else 0)))))
    = Some (v :: u64) \<longleftrightarrow> bs = der_int (sint v)"  (is "?r = _ \<longleftrightarrow> _")
proof -
  define w where "w = (le_word (int64_fill 0 bs
    (replicate 8 (if bs ! 0 AND 0x80 \<noteq> 0 then 0xff else 0))) :: u64)"
  have w: "bs \<noteq> [] \<Longrightarrow> length bs \<le> 8 \<Longrightarrow> sint w = tc_val bs"
    unfolding w_def by (rule int64_value)
  have "?r = Some v \<longleftrightarrow> minimal bs \<and> length bs \<le> 8 \<and> w = v"
    unfolding w_def [symmetric] by (auto simp: minimal_def not_less)
  also have "\<dots> \<longleftrightarrow> minimal bs \<and> length bs \<le> 8 \<and> tc_val bs = sint v"
    using w sint_inject [of w v] by (auto simp: minimal_def)
  also have "\<dots> \<longleftrightarrow> bs = der_int (sint v)"
    using der_int_tc_val [of bs] der_int_minimal [of "sint v"] length_der_int64 [of v] by auto
  finally show ?thesis .
qed

interpretation asn1_int64: codec CBS_get_asn1_int64
  "\<lambda>v. der_element CBS_ASN1_INTEGER (der_int (sint v))" "\<lambda>_. True"
proof
  show "CBS_get_asn1_int64 s = (Some v, s') \<longleftrightarrow>
      True \<and> s = der_element CBS_ASN1_INTEGER (der_int (sint v)) @ s'" for s v s'
  proof -
    have "CBS_get_asn1_int64 s = (Some v, s') \<longleftrightarrow>
      (\<exists>bs. CBS_get_asn1 CBS_ASN1_INTEGER s = (Some bs, s') \<and> bs = der_int (sint v))"
      unfolding int64_content [symmetric]
      by (auto simp: CBS_get_asn1_int64_def p_then_Some CBS_data_def CBS_len_def Let_def
          split: if_splits)
    then show ?thesis
      using length_der_int64 [of v] by (auto simp: asn1.read_iff)
  qed
qed

section \<open>Booleans\<close>

interpretation asn1_bool: codec CBS_get_asn1_bool
  "\<lambda>v. der_element CBS_ASN1_BOOLEAN [if v = 1 then 0xFF else 0]" "\<lambda>v. v = 0 \<or> v = 1"
proof (unfold_locales, rule iffI)
  fix s v s'
  show "(v = 0 \<or> v = 1) \<and> s = der_element CBS_ASN1_BOOLEAN [if v = 1 then 0xFF else 0] @ s'"
    if "CBS_get_asn1_bool s = (Some v, s')"
    using that by (auto simp: CBS_get_asn1_bool_def p_then_Some CBS_data_def CBS_len_def Let_def
        asn1.read_iff length_Suc_conv split: if_splits)
  show "CBS_get_asn1_bool s = (Some v, s')"
    if "(v = 0 \<or> v = 1) \<and> s = der_element CBS_ASN1_BOOLEAN [if v = 1 then 0xFF else 0] @ s'"
    using that by (auto simp: CBS_get_asn1_bool_def CBS_data_def CBS_len_def asn1.read_enc)
qed

section \<open>Optional elements\<close>

text \<open>\<open>present t s\<close>: the input starts with the identifier octets of \<open>t\<close>.\<close>

definition present :: "u32 \<Rightarrow> cbs \<Rightarrow> bool" where
  "present t s \<longleftrightarrow> (\<exists>r. s = der_tag t @ r)"

lemma optional_then:
  "p_then (CBS_get_optional_asn1 t s) k = (Some x, s') \<longleftrightarrow>
    (if present t s then
       \<exists>body s1. length body < 2 ^ 32 \<and> s = der_element t body @ s1 \<and> k (Some body) s1 = (Some x, s')
     else k None s = (Some x, s'))"
  by (auto simp: CBS_get_optional_asn1_def peek_iff p_then_Some asn1.read_iff present_def
      split: option.splits)

lemma optional_octet_iff:
  "CBS_get_optional_asn1_octet_string t s = (Some (out, pres), s') \<longleftrightarrow>
    pres = present t s \<and>
    (if pres then length out < 2 ^ 32 \<and> length (der_element CBS_ASN1_OCTETSTRING out) < 2 ^ 32 \<and>
       s = der_element t (der_element CBS_ASN1_OCTETSTRING out) @ s'
     else out = [] \<and> s' = s)"
  unfolding CBS_get_optional_asn1_octet_string_def optional_then
  by (auto simp: CBS_init_def asn1.read_whole [where f = "\<lambda>out. (out, True)"])

lemma optional_uint64_iff:
  "CBS_get_optional_asn1_uint64 t d s = (Some v, s') \<longleftrightarrow>
    (if present t s then s = der_element t (der_element CBS_ASN1_INTEGER (der_int (uint v))) @ s'
     else v = d \<and> s' = s)"
proof -
  have "length (der_element CBS_ASN1_INTEGER (der_int (uint v))) < 2 ^ 32"
    using length_der_uint64 [of v] length_der_tag [of CBS_ASN1_INTEGER]
      length_der_len [of "length (der_int (uint v))"] by (simp add: der_element_def)
  then show ?thesis
    unfolding CBS_get_optional_asn1_uint64_def optional_then
    by (auto simp: asn1_uint64.read_whole [where f = "\<lambda>v. v"])
qed

section \<open>Bit strings\<close>

lemma valid_bitstring_iff:
  "CBS_is_valid_asn1_bitstring s \<longleftrightarrow>
    (\<exists>u data. s = u # data \<and> unat u \<le> 7 \<and>
       (u = 0 \<or> data \<noteq> [] \<and> (\<forall>i<unat u. \<not> bit (last data) i)))"
proof (cases s)
  case (Cons u data)
  have m: "last data AND (push_bit n 1 - 1) = 0 \<longleftrightarrow> (\<forall>i<n. \<not> bit (last data) i)"
    if "n \<le> 7" for n
  proof -
    have "push_bit n 1 - 1 = (mask n :: u8)"
      by (simp add: mask_eq_exp_minus_1 push_bit_eq_mult)
    moreover have "i < 8" if "i < n" for i using that \<open>n \<le> 7\<close> by simp
    ultimately show ?thesis
      by (auto simp: bit_eq_iff bit_simps bit_mask_iff simp flip: mask_eq_exp_minus_1)
  qed
  have "u > 7 \<longleftrightarrow> \<not> unat u \<le> 7" by (auto simp: word_less_nat_alt)
  then show ?thesis
    using m [of "unat u"]
    by (auto simp: CBS_is_valid_asn1_bitstring_def Cons CBS_get_last_u8_def last_conv_nth)
qed (simp add: CBS_is_valid_asn1_bitstring_def)

lemma has_bit_iff:
  "CBS_asn1_bitstring_has_bit s n \<longleftrightarrow>
    CBS_is_valid_asn1_bitstring s \<and> unat n div 8 < length (tl s) \<and>
    bit (tl s ! (unat n div 8)) (7 - unat n mod 8)"
proof -
  have "n AND 7 = take_bit 3 n" by (simp add: take_bit_eq_mask mask_eq_exp_minus_1)
  then have m: "unat (n AND 7) = unat n mod 8"
    by (simp only: unsigned_take_bit_eq) (simp add: take_bit_eq_mod)
  have "unat (7 - (n AND 7)) = 7 - unat n mod 8"
    by (simp add: unat_sub word_le_nat_alt m)
  moreover have "unat (drop_bit 3 n + 1) = Suc (unat n div 8)"
    using unat_lt_32 [of n] by (simp add: unat_word_ariths unat_drop_bit)
  moreover have "x AND push_bit k 1 \<noteq> 0 \<longleftrightarrow> bit x k" for x :: u8 and k
    using and_exp_eq_0_iff_not_bit [of x k] by (simp add: push_bit_eq_mult)
  ultimately show ?thesis
    by (cases s) (auto simp: CBS_asn1_bitstring_has_bit_def CBS_len_def CBS_data_def Let_def
        valid_bitstring_iff)
qed

end
