(* ===== verification/Cbb_Spec.thy ===== *)
theory Cbb_Spec
  imports Cbb Cbs_Values
begin

text \<open>
  What the writers of \<open>Cbb\<close> append. The contract is \<open>cbb_emits env id own f bs\<close>: on an open CBB \<open>id\<close>
  with room for \<open>bs\<close>, the operation \<open>f\<close> succeeds and leaves a state that a flush turns into the old
  contents followed by \<open>bs\<close>; it changes no CBB but \<open>id\<close> and the local variables \<open>own\<close>. Writers are
  composed in sequence and nested in length-prefixed and ASN.1 children.
\<close>

section \<open>The buffer\<close>

definition buf_ok :: "cbb_buffer \<Rightarrow> bool" where
  "buf_ok b \<longleftrightarrow> length (bb_buf b) = unat (bb_cap b) \<and> unat (bb_len b) \<le> unat (bb_cap b)"

definition contents :: "cbb_buffer \<Rightarrow> u8 list" where
  "contents b = take (unat (bb_len b)) (bb_buf b)"

text \<open>Room for \<open>n\<close> more bytes: in the buffer, or by growing it, when no allocation fails.\<close>

definition room :: "cbb_env \<Rightarrow> cbb_buffer \<Rightarrow> nat \<Rightarrow> bool" where
  "room env b n \<longleftrightarrow> unat (bb_len b) + n \<le> unat (bb_cap b) \<or>
     bb_can_resize b \<and> (\<forall>c. alloc env c) \<and> unat (bb_len b) + n < 2 ^ 64"

definition extends :: "cbb_env \<Rightarrow> u8 list \<Rightarrow> cbb_buffer \<Rightarrow> cbb_buffer \<Rightarrow> bool" where
  "extends env bs b b' \<longleftrightarrow> buf_ok b' \<and> \<not> bb_error b' \<and> contents b' = contents b @ bs \<and>
     bb_can_resize b' = bb_can_resize b \<and> unat (bb_cap b) \<le> unat (bb_cap b')"

lemma length_contents [simp]: "buf_ok b \<Longrightarrow> length (contents b) = unat (bb_len b)"
  by (simp add: contents_def buf_ok_def)

lemma room_mono: "room env b n \<Longrightarrow> m \<le> n \<Longrightarrow> room env b m"
  by (auto simp: room_def)

lemma extends_len: "extends env bs b b' \<Longrightarrow> buf_ok b \<Longrightarrow> unat (bb_len b') = unat (bb_len b) + length bs"
  unfolding extends_def by (metis length_append length_contents)

lemma extends_room:
  "extends env bs b b' \<Longrightarrow> buf_ok b \<Longrightarrow> room env b (length bs + m) \<Longrightarrow> room env b' m"
  using extends_len [of env bs b b'] by (auto simp: room_def extends_def)

lemma extends_trans:
  "extends env as b b' \<Longrightarrow> extends env bs b' b'' \<Longrightarrow> extends env (as @ bs) b b''"
  by (auto simp: extends_def)

lemma room_64: "room env b n \<Longrightarrow> buf_ok b \<Longrightarrow> unat (bb_len b) + n < 2 ^ 64"
  using unat_lt_64 [of "bb_cap b"] by (auto simp: room_def)

lemma unat_double: "unat (a * 2 :: u64) < unat a \<or> unat a \<le> unat (a * 2)"
  by linarith

text \<open>Growing by \<open>n\<close> bytes keeps the contents and leaves the new bytes to be written.\<close>

lemma buffer_add_ok:
  assumes ok: "buf_ok b" "\<not> bb_error b" and room: "room env b n"
  obtains b' where "cbb_buffer_add env (word_of_nat n) b = (True, b')" "buf_ok b'" "\<not> bb_error b'"
    "unat (bb_len b') = unat (bb_len b) + n" "take (unat (bb_len b)) (bb_buf b') = contents b"
    "bb_can_resize b' = bb_can_resize b" "unat (bb_cap b) \<le> unat (bb_cap b')"
proof -
  let ?n = "word_of_nat n :: u64" and ?len = "bb_len b"
  have lt: "unat ?len + n < 2 ^ 64" using room_64 [OF room ok(1)] .
  have new: "unat (?len + ?n) = unat ?len + n" using lt unat_add_64 by simp
  have no_wrap: "\<not> ?len + ?n < ?len" by (simp add: word_less_nat_alt new)
  show ?thesis
  proof (cases "?len + ?n > bb_cap b")
    case False
    then show ?thesis
      using ok new no_wrap that [of "b\<lparr>bb_len := ?len + ?n\<rparr>"]
      by (auto simp: cbb_buffer_add_def cbb_buffer_reserve_def Let_def buf_ok_def contents_def
          word_less_nat_alt)
  next
    case True
    then have grow: "bb_can_resize b" "alloc env c" for c
      using room by (auto simp: room_def word_less_nat_alt new)
    define cap where "cap = (if bb_cap b * 2 < bb_cap b \<or> bb_cap b * 2 < ?len + ?n
      then ?len + ?n else bb_cap b * 2)"
    have cap: "unat (?len + ?n) \<le> unat cap" "unat (bb_cap b) \<le> unat cap"
      using True by (auto simp: cap_def word_less_nat_alt not_less)
    show ?thesis
      using ok new no_wrap True grow cap
        that [of "b\<lparr>bb_buf := bb_buf b @ replicate (unat cap - length (bb_buf b)) (junk env),
          bb_cap := cap, bb_len := ?len + ?n\<rparr>"]
      by (auto simp: cbb_buffer_add_def cbb_buffer_reserve_def Let_def buf_ok_def contents_def
          simp flip: cap_def)
  qed
qed

lemma bb_write_eq:
  "p + length bs \<le> length (bb_buf b) \<Longrightarrow> bb_write p bs b =
     Some (b\<lparr>bb_buf := take p (bb_buf b) @ bs @ drop (p + length bs) (bb_buf b)\<rparr>)"
  by (simp add: bb_write_def)

text \<open>Writing the bytes that have just been added makes them the end of the contents.\<close>

lemma contents_write:
  assumes "buf_ok b'" "unat (bb_len b') = n + length bs" "take n (bb_buf b') = c" "length c = n"
  shows "contents (b'\<lparr>bb_buf := take n (bb_buf b') @ bs @ drop (n + length bs) (bb_buf b')\<rparr>) = c @ bs"
    "buf_ok (b'\<lparr>bb_buf := take n (bb_buf b') @ bs @ drop (n + length bs) (bb_buf b')\<rparr>)"
  using assms by (auto simp: contents_def buf_ok_def)

lemma extends_write:
  assumes ok: "buf_ok b" "\<not> bb_error b" and room: "room env b (length bs)"
  obtains b1 where "cbb_buffer_add env (word_of_nat (length bs)) b = (True, b1)"
    "unat (bb_len b) + length bs \<le> length (bb_buf b1)"
    "extends env bs b (b1\<lparr>bb_buf := take (unat (bb_len b)) (bb_buf b1) @ bs @
        drop (unat (bb_len b) + length bs) (bb_buf b1)\<rparr>)"
proof -
  obtain b1 where b1: "cbb_buffer_add env (word_of_nat (length bs)) b = (True, b1)" "buf_ok b1"
      "\<not> bb_error b1" "unat (bb_len b1) = unat (bb_len b) + length bs"
      "take (unat (bb_len b)) (bb_buf b1) = contents b" "bb_can_resize b1 = bb_can_resize b"
      "unat (bb_cap b) \<le> unat (bb_cap b1)"
    by (rule buffer_add_ok [OF ok room])
  have "unat (bb_len b) + length bs \<le> length (bb_buf b1)"
    using b1(2,4) by (simp add: buf_ok_def)
  moreover have "extends env bs b (b1\<lparr>bb_buf := take (unat (bb_len b)) (bb_buf b1) @ bs @
        drop (unat (bb_len b) + length bs) (bb_buf b1)\<rparr>)"
    using contents_write [OF b1(2,4,5)] b1(3,6,7) ok by (simp add: extends_def)
  ultimately show ?thesis using that b1(1) by blast
qed

lemma store_be_eq:
  "p + n \<le> length (bb_buf b) \<Longrightarrow> store_be p n v b = Some (drop_bit (8 * n) v,
     b\<lparr>bb_buf := take p (bb_buf b) @ be_bytes n v @ drop (p + n) (bb_buf b)\<rparr>)"
proof (induction n arbitrary: v b)
  case 0
  then show ?case by (simp add: be_bytes_def)
next
  case (Suc n)
  let ?B = "bb_buf b"
  have "drop (p + n) (take (p + n) ?B @ [ucast v] @ drop (Suc (p + n)) ?B) =
      [ucast v] @ drop (Suc (p + n)) ?B" "min (p + n) (length ?B) = p + n"
    using Suc.prems by simp_all
  then show ?case
    using Suc by (simp add: bb_write_def be_bytes_def drop_bit_drop_bit min_def add.commute [of 8])
qed

lemma add_u_ok:
  assumes ok: "buf_ok b" "\<not> bb_error b" and room: "room env b n" and v: "unat v < 2 ^ (8 * n)" "0 < n"
  obtains b' where "cbb_buffer_add_u env v n b = Some (True, b')" "extends env (be_bytes n v) b b'"
proof -
  let ?bs = "be_bytes n v" and ?p = "unat (bb_len b)"
  have room': "room env b (length ?bs)" using room by simp
  obtain b1 where b1: "cbb_buffer_add env (word_of_nat n) b = (True, b1)" "?p + n \<le> length (bb_buf b1)"
      "extends env ?bs b (b1\<lparr>bb_buf := take ?p (bb_buf b1) @ ?bs @ drop (?p + n) (bb_buf b1)\<rparr>)"
    using extends_write [OF ok room'] by (metis length_be_bytes)
  have "unat (drop_bit (8 * n) v) = 0" using v by (simp add: unat_drop_bit)
  then have "drop_bit (8 * n) v = 0" by (simp only: unsigned_eq_0_iff)
  then show ?thesis
    using b1 v(2) that by (simp add: cbb_buffer_add_u_def store_be_eq Let_def)
qed

section \<open>Writers\<close>

definition open_cbb :: "cbb_state \<Rightarrow> cbb_id \<Rightarrow> bool" where
  "open_cbb st i \<longleftrightarrow> cb_base (st_cbb st i) \<and> cb_child (st_cbb st i) = None \<and>
     \<not> bb_error (st_base st) \<and> buf_ok (st_base st)"

definition flush_first :: "cbb_env \<Rightarrow> cbb_id \<Rightarrow> cbb_op \<Rightarrow> bool" where
  "flush_first env i f \<longleftrightarrow>
     (\<forall>st st'. CBB_flush env i st = Some (True, st') \<and> open_cbb st' i \<longrightarrow> f st = f st')"

text \<open>What an operation leaves before the flush: the other CBBs as they were, and \<open>i\<close> up to its child.\<close>

definition cbb_pending :: "cbb_id \<Rightarrow> cbb_id set \<Rightarrow> cbb_state \<Rightarrow> cbb_state \<Rightarrow> bool" where
  "cbb_pending i own st st' \<longleftrightarrow> \<not> bb_error (st_base st') \<and>
     (\<forall>j. j \<notin> insert i own \<longrightarrow> st_cbb st' j = st_cbb st j) \<and>
     (\<exists>c. st_cbb st' i = (st_cbb st i)\<lparr>cb_child := c\<rparr>)"

definition cbb_emits :: "cbb_env \<Rightarrow> cbb_id \<Rightarrow> cbb_id set \<Rightarrow> cbb_op \<Rightarrow> u8 list \<Rightarrow> bool" where
  "cbb_emits env i own f bs \<longleftrightarrow> flush_first env i f \<and>
     (\<forall>st. open_cbb st i \<and> room env (st_base st) (length bs) \<longrightarrow>
       (\<exists>st1 st2. f st = Some (True, st1) \<and> cbb_pending i own st st1 \<and>
          CBB_flush env i st1 = Some (True, st2) \<and> open_cbb st2 i \<and>
          extends env bs (st_base st) (st_base st2) \<and>
          (\<forall>j. j \<notin> own \<longrightarrow> st_cbb st2 j = st_cbb st j)))"

lemma flush_open: "open_cbb st i \<Longrightarrow> CBB_flush env i st = Some (True, st)"
  by (subst CBB_flush.simps) (simp add: open_cbb_def)

lemma flush_first_and_then: "flush_first env i (\<lambda>st. and_then_opt (CBB_flush env i st) g)"
  by (auto simp: flush_first_def flush_open)

lemma flush_first_seq: "flush_first env i f \<Longrightarrow> flush_first env i (\<lambda>st. and_then_opt (f st) g)"
  unfolding flush_first_def by metis

text \<open>Operations that leave nothing pending.\<close>

definition appends :: "cbb_env \<Rightarrow> cbb_id \<Rightarrow> cbb_op \<Rightarrow> u8 list \<Rightarrow> bool" where
  "appends env i f bs \<longleftrightarrow>
     (\<forall>st. open_cbb st i \<and> room env (st_base st) (length bs) \<longrightarrow>
       (\<exists>b. f st = Some (True, set_base b st) \<and> extends env bs (st_base st) b))"

lemma appendsE:
  assumes "appends env i f bs" "open_cbb st i" "room env (st_base st) (length bs)"
  obtains b where "f st = Some (True, set_base b st)" "extends env bs (st_base st) b"
    "open_cbb (set_base b st) i"
  using assms unfolding appends_def open_cbb_def set_base_def extends_def by fastforce

lemma set_base_simps [simp]:
  "st_base (set_base b st) = b" "st_cbb (set_base b st) = st_cbb st"
  "set_base b (set_base b' st) = set_base b st"
  by (simp_all add: set_base_def)

lemma appends_seq:
  assumes f: "appends env i f as" and g: "appends env i g bs"
  shows "appends env i (\<lambda>st. and_then_opt (f st) g) (as @ bs)"
  unfolding appends_def
proof (intro allI impI, elim conjE)
  fix st assume st: "open_cbb st i" "room env (st_base st) (length (as @ bs))"
  then have ok: "buf_ok (st_base st)" by (simp add: open_cbb_def)
  have "room env (st_base st) (length as)" using st(2) by (rule room_mono) simp
  then obtain b where b: "f st = Some (True, set_base b st)" "extends env as (st_base st) b"
      "open_cbb (set_base b st) i"
    using appendsE [OF f st(1)] by blast
  have "room env b (length bs)" using extends_room [OF b(2) ok] st(2) by simp
  then obtain c where c: "g (set_base b st) = Some (True, set_base c (set_base b st))" "extends env bs b c"
    using appendsE [OF g b(3)] by auto
  have "extends env (as @ bs) (st_base st) c" using b(2) c(2) by (rule extends_trans)
  then show "\<exists>b. and_then_opt (f st) g = Some (True, set_base b st) \<and> extends env (as @ bs) (st_base st) b"
    using b(1) c(1) by auto
qed

lemma appends_emits:
  assumes f: "appends env i f bs" and ff: "flush_first env i f"
  shows "cbb_emits env i own f bs"
  unfolding cbb_emits_def
proof (intro conjI allI impI ff)
  fix st assume st: "open_cbb st i \<and> room env (st_base st) (length bs)"
  then obtain b where b: "f st = Some (True, set_base b st)" "extends env bs (st_base st) b"
      "open_cbb (set_base b st) i"
    using appendsE [OF f] by blast
  have "cbb_pending i own st (set_base b st)"
    using b(3) by (auto simp: cbb_pending_def open_cbb_def intro: exI [of _ "cb_child (st_cbb st i)"])
  then show "\<exists>st1 st2. f st = Some (True, st1) \<and>
      cbb_pending i own st st1 \<and> CBB_flush env i st1 = Some (True, st2) \<and> open_cbb st2 i \<and>
      extends env bs (st_base st) (st_base st2) \<and> (\<forall>j. j \<notin> own \<longrightarrow> st_cbb st2 j = st_cbb st j)"
    using flush_open [OF b(3)] b by auto
qed

text \<open>Operations on the buffer alone.\<close>

lemma appends_base:
  assumes "\<And>b. buf_ok b \<Longrightarrow> \<not> bb_error b \<Longrightarrow> room env b (length bs) \<Longrightarrow>
    \<exists>b'. g b = Some (True, b') \<and> extends env bs b b'"
  shows "appends env i (on_base g i) bs"
  using assms unfolding appends_def on_base_def open_cbb_def by fastforce

lemma appends_flush:
  "appends env i g bs \<Longrightarrow> appends env i (\<lambda>st. and_then_opt (CBB_flush env i st) g) bs"
  by (simp add: appends_def flush_open)

lemma appends_add_u:
  "unat v < 2 ^ (8 * n) \<Longrightarrow> 0 < n \<Longrightarrow> appends env i (cbb_add_u env i v n) (be_bytes n v)"
  unfolding cbb_add_u_def [abs_def]
  by (intro appends_flush appends_base) (metis add_u_ok length_be_bytes)

lemma appends_add_bytes: "appends env i (CBB_add_bytes env i data) data"
  unfolding CBB_add_bytes_def [abs_def]
proof (intro appends_flush appends_base)
  fix b assume b: "buf_ok b" "\<not> bb_error b" "room env b (length data)"
  show "\<exists>b'. (let dest = unat (bb_len b) in
     case cbb_buffer_add env (word_of_nat (length data)) b of
       (False, b) \<Rightarrow> Some (False, b)
     | (True, b) \<Rightarrow> (case bb_write dest data b of None \<Rightarrow> None | Some b \<Rightarrow> Some (True, b))) =
       Some (True, b') \<and> extends env data b b'"
    by (rule extends_write [OF b]) (simp add: bb_write_eq Let_def)
qed

lemma flush_first_add_u: "flush_first env i (cbb_add_u env i v n)"
  unfolding cbb_add_u_def [abs_def] by (rule flush_first_and_then)

lemma cbb_emits_add_u:
  "unat v < 2 ^ (8 * n) \<Longrightarrow> 0 < n \<Longrightarrow> cbb_emits env i own (cbb_add_u env i v n) (be_bytes n v)"
  by (intro appends_emits appends_add_u flush_first_add_u)

lemma cbb_emits_bytes: "cbb_emits env i own (CBB_add_bytes env i data) data"
  by (intro appends_emits appends_add_bytes)
    (simp add: CBB_add_bytes_def [abs_def] flush_first_and_then)

lemma cbb_emitsE:
  assumes "cbb_emits env i own f bs" "open_cbb st i" "room env (st_base st) (length bs)"
  obtains st1 st2 where "f st = Some (True, st1)" "cbb_pending i own st st1"
    "CBB_flush env i st1 = Some (True, st2)" "open_cbb st2 i"
    "extends env bs (st_base st) (st_base st2)" "\<And>j. j \<notin> own \<Longrightarrow> st_cbb st2 j = st_cbb st j"
  using assms unfolding cbb_emits_def by blast

lemma cbb_emitsI:
  assumes "flush_first env i f"
    "\<And>st. open_cbb st i \<Longrightarrow> room env (st_base st) (length bs) \<Longrightarrow>
       \<exists>st1 st2. f st = Some (True, st1) \<and> cbb_pending i own st st1 \<and>
          CBB_flush env i st1 = Some (True, st2) \<and> open_cbb st2 i \<and>
          extends env bs (st_base st) (st_base st2) \<and>
          (\<forall>j. j \<notin> own \<longrightarrow> st_cbb st2 j = st_cbb st j)"
  shows "cbb_emits env i own f bs"
  using assms by (auto simp: cbb_emits_def)

lemma cbb_pending_after:
  "cbb_pending i own st1 st2 \<Longrightarrow> (\<And>j. j \<notin> own \<Longrightarrow> st_cbb st1 j = st_cbb st j) \<Longrightarrow> i \<notin> own \<Longrightarrow>
    cbb_pending i own st st2"
  by (auto simp: cbb_pending_def)

lemma cbb_emits_seq:
  assumes f: "cbb_emits env i own f as" and g: "cbb_emits env i own g bs" and i: "i \<notin> own"
  shows "cbb_emits env i own (\<lambda>st. and_then_opt (f st) g) (as @ bs)"
proof (rule cbb_emitsI)
  show "flush_first env i (\<lambda>st. and_then_opt (f st) g)"
    using f by (intro flush_first_seq) (simp add: cbb_emits_def)
next
  fix st assume st: "open_cbb st i" "room env (st_base st) (length (as @ bs))"
  then have ok: "buf_ok (st_base st)" by (simp add: open_cbb_def)
  have "room env (st_base st) (length as)" using st(2) by (rule room_mono) simp
  then obtain st1 st2 where f1: "f st = Some (True, st1)" "CBB_flush env i st1 = Some (True, st2)"
      "open_cbb st2 i" "extends env as (st_base st) (st_base st2)"
      "\<And>j. j \<notin> own \<Longrightarrow> st_cbb st2 j = st_cbb st j"
    using cbb_emitsE [OF f st(1)] by blast
  have "room env (st_base st2) (length bs)"
    using extends_room [OF f1(4) ok] st(2) by simp
  then obtain st3 st4 where g1: "g st2 = Some (True, st3)" "cbb_pending i own st2 st3"
      "CBB_flush env i st3 = Some (True, st4)" "open_cbb st4 i"
      "extends env bs (st_base st2) (st_base st4)" "\<And>j. j \<notin> own \<Longrightarrow> st_cbb st4 j = st_cbb st2 j"
    using cbb_emitsE [OF g f1(3)] by blast
  have "g st1 = g st2"
    using g f1(2,3) by (simp add: cbb_emits_def flush_first_def)
  moreover have "cbb_pending i own st st3"
    using g1(2) f1(5) i by (rule cbb_pending_after)
  moreover have "extends env (as @ bs) (st_base st) (st_base st4)"
    using f1(4) g1(5) by (rule extends_trans)
  ultimately show "\<exists>st1 st2. and_then_opt (f st) g = Some (True, st1) \<and> cbb_pending i own st st1 \<and>
      CBB_flush env i st1 = Some (True, st2) \<and> open_cbb st2 i \<and>
      extends env (as @ bs) (st_base st) (st_base st2) \<and>
      (\<forall>j. j \<notin> own \<longrightarrow> st_cbb st2 j = st_cbb st j)"
    using f1 g1 by auto
qed

text \<open>Doing nothing, and a final flush.\<close>

lemma cbb_emits_mono: "cbb_emits env i own f bs \<Longrightarrow> own \<subseteq> own' \<Longrightarrow> cbb_emits env i own' f bs"
  unfolding cbb_emits_def cbb_pending_def insert_iff by (elim conjE, intro conjI) (assumption, fast)

lemma cbb_emits_flush:
  assumes f: "cbb_emits env i own f bs" and i: "i \<notin> own"
  shows "cbb_emits env i own (\<lambda>st. and_then_opt (f st) (CBB_flush env i)) bs"
proof (rule cbb_emitsI)
  show "flush_first env i (\<lambda>st. and_then_opt (f st) (CBB_flush env i))"
    using f by (intro flush_first_seq) (simp add: cbb_emits_def)
next
  fix st assume st: "open_cbb st i" "room env (st_base st) (length bs)"
  obtain st1 st2 where f1: "f st = Some (True, st1)" "cbb_pending i own st st1"
      "CBB_flush env i st1 = Some (True, st2)" "open_cbb st2 i"
      "extends env bs (st_base st) (st_base st2)" "\<And>j. j \<notin> own \<Longrightarrow> st_cbb st2 j = st_cbb st j"
    using cbb_emitsE [OF f st] by blast
  moreover have "cbb_pending i own st st2"
    using f1(2,4,6) i by (auto simp: cbb_pending_def open_cbb_def intro: exI [of _ "cb_child (st_cbb st i)"])
  ultimately show "\<exists>st1 st2. and_then_opt (f st) (CBB_flush env i) = Some (True, st1) \<and>
      cbb_pending i own st st1 \<and> CBB_flush env i st1 = Some (True, st2) \<and> open_cbb st2 i \<and>
      extends env bs (st_base st) (st_base st2) \<and> (\<forall>j. j \<notin> own \<longrightarrow> st_cbb st2 j = st_cbb st j)"
    using flush_open [OF f1(4)] by auto
qed

section \<open>Closing a child\<close>

lemma buf_split: "buf_ok b \<Longrightarrow> bb_buf b = contents b @ drop (unat (bb_len b)) (bb_buf b)"
  by (simp add: contents_def)

lemma contentsI: "bb_buf b = xs @ ys \<Longrightarrow> unat (bb_len b) = length xs \<Longrightarrow> contents b = xs"
  by (simp add: contents_def)

lemma asn1_len_len_short: "n < 128 \<Longrightarrow> asn1_len_len (word_of_nat n) = (1, word_of_nat n, 0)"
proof -
  assume n: "n < 128"
  then have u: "unat (word_of_nat n :: u64) = n" by (intro unat_of_nat_64) simp
  have "ucast (word_of_nat n :: u64) = (word_of_nat (unat (word_of_nat n :: u64)) :: u8)" by simp
  then show ?thesis using n by (simp add: asn1_len_len_def word_less_nat_alt u)
qed

lemma asn1_len_len_long:
  assumes "128 \<le> n" "n < 2 ^ 32"
  shows "asn1_len_len (word_of_nat n) =
    (word_of_nat (len_bytes n + 1), word_of_nat (128 + len_bytes n), word_of_nat n)"
proof -
  have u: "unat (word_of_nat n :: u64) = n" using assms by (intro unat_of_nat_64) simp
  consider "n < 256" | "256 \<le> n" "n < 65536" | "65536 \<le> n" "n < 16777216" | "16777216 \<le> n"
    by linarith
  then have "len_bytes n = (if n > 0xffffff then 4 else if n > 0xffff then 3 else if n > 0xff then 2 else 1)"
    using assms by cases (auto intro!: len_bytes_unique)
  then show ?thesis
    using assms by (auto simp: asn1_len_len_def word_less_nat_alt u)
qed

lemma flush_child:
  assumes "cb_base (st_cbb st i)" "\<not> bb_error (st_base st)" "cb_child (st_cbb st i) = Some k"
    and "cb_pending_len_len (st_cbb st k) = p" "p \<noteq> 0" "cb_offset (st_cbb st k) = o1"
    and fl: "CBB_flush env k st = Some (True, st2)" and "cb_offset (st_cbb st2 k) = o1"
    and "unat o1 + unat p \<le> unat (bb_len (st_base st2))"
  shows "CBB_flush env i st = flush_prefix env i k (o1 + ucast p) st2"
proof -
  have "unat (o1 + ucast p) = unat o1 + unat p"
    using assms(9) unat_lt_64 [of "bb_len (st_base st2)"]
    by (simp add: unat_word_ariths unsigned_ucast_eq take_bit_nat_eq_self)
  then have "\<not> o1 + ucast p < o1" "\<not> bb_len (st_base st2) < o1 + ucast p"
    using assms(9) by (auto simp: word_less_nat_alt)
  then show ?thesis
    using assms by (subst CBB_flush.simps) simp
qed

text \<open>The state after child \<open>k\<close> of \<open>i\<close> has been closed.\<close>

definition closed :: "cbb_id \<Rightarrow> cbb_id \<Rightarrow> cbb_state \<Rightarrow> cbb_state \<Rightarrow> u8 list \<Rightarrow> bool" where
  "closed i k st st' xs \<longleftrightarrow> contents (st_base st') = xs \<and> buf_ok (st_base st') \<and>
     \<not> bb_error (st_base st') \<and> bb_can_resize (st_base st') = bb_can_resize (st_base st) \<and>
     unat (bb_cap (st_base st)) \<le> unat (bb_cap (st_base st')) \<and>
     (\<forall>j. j \<noteq> k \<and> j \<noteq> i \<longrightarrow> st_cbb st' j = st_cbb st j) \<and>
     st_cbb st' i = (st_cbb st i)\<lparr>cb_child := None\<rparr>"

lemma closedI:
  assumes "i \<noteq> k" "contents b = xs" "buf_ok b" "\<not> bb_error b"
    "bb_can_resize b = bb_can_resize (st_base st)" "unat (bb_cap (st_base st)) \<le> unat (bb_cap b)"
  shows "closed i k st (set_cbb i ((st_cbb (set_cbb k c (set_base b st)) i)\<lparr>cb_child := None\<rparr>)
    (set_cbb k c (set_base b st))) xs"
  using assms by (simp add: closed_def set_cbb_def set_base_def)

text \<open>The loop that fills in the length: \<open>z\<close> is the room left for it.\<close>

lemma fill_length:
  assumes b: "buf_ok b" "contents b = pre @ z @ rest" and len: "unat len < 2 ^ (8 * length z)"
  obtains b' where "store_be (length pre) (length z) len b = Some (0, b')"
    "contents b' = pre @ be_bytes (length z) len @ rest" "buf_ok b'" "bb_error b' = bb_error b"
    "bb_can_resize b' = bb_can_resize b" "bb_cap b' = bb_cap b" "bb_len b' = bb_len b"
proof -
  define tail where "tail = drop (unat (bb_len b)) (bb_buf b)"
  have buf: "bb_buf b = pre @ z @ rest @ tail"
    using buf_split [OF b(1)] b(2) by (simp add: tail_def)
  have l: "unat (bb_len b) = length (pre @ z @ rest)"
    using length_contents [OF b(1)] b(2) by simp
  have "unat (drop_bit (8 * length z) len) = 0" using len by (simp add: unat_drop_bit)
  then have d: "drop_bit (8 * length z) len = 0" by (simp only: unsigned_eq_0_iff)
  let ?b = "b\<lparr>bb_buf := pre @ be_bytes (length z) len @ rest @ tail\<rparr>"
  have "store_be (length pre) (length z) len b = Some (0, ?b)"
    by (subst store_be_eq) (simp_all add: buf d)
  moreover have "contents ?b = pre @ be_bytes (length z) len @ rest"
    by (rule contentsI [of _ _ tail]) (simp_all add: l)
  moreover have "buf_ok ?b" using b(1) by (simp add: buf_ok_def buf)
  ultimately show ?thesis using that [of ?b] by simp
qed

lemma word_of_nat_eqI: "unat (w :: u64) = n \<Longrightarrow> word_of_nat n = w"
  by (metis word_nat_cases unat_of_nat_64 unat_lt_64 word_unat_eq_iff)

lemma body_len:
  assumes "buf_ok b" "contents b = pre @ z @ body" "unat o1 = length pre" "unat p = length z"
  shows "unat (o1 + ucast (p :: u8)) = length pre + length z"
    "bb_len b - (o1 + ucast p) = word_of_nat (length body)"
    "unat (word_of_nat (length body) :: u64) = length body"
proof -
  have l: "unat (bb_len b) = length pre + length z + length body"
    using length_contents [OF assms(1)] assms(2) by simp
  then have lt: "length pre + length z + length body < 2 ^ 64" using unat_lt_64 [of "bb_len b"] by simp
  show s: "unat (o1 + ucast p) = length pre + length z"
    using lt assms(3,4) by (simp add: unat_word_ariths unsigned_ucast_eq take_bit_nat_eq_self)
  have "unat (bb_len b - (o1 + ucast p)) = length body"
    using s l by (simp add: unat_sub word_le_nat_alt)
  then show "bb_len b - (o1 + ucast p) = word_of_nat (length body)" by (metis word_of_nat_eqI)
  show "unat (word_of_nat (length body) :: u64) = length body" using lt by (intro unat_of_nat_64) simp
qed

text \<open>A prefix of fixed width.\<close>

lemma close_prefix:
  assumes op: "open_cbb st k" and ik: "i \<noteq> k"
    and cb: "cb_offset (st_cbb st k) = o1" "cb_pending_len_len (st_cbb st k) = p"
      "\<not> cb_pending_is_asn1 (st_cbb st k)"
    and c: "contents (st_base st) = pre @ z @ body" "unat o1 = length pre" "unat p = length z"
    and n: "length body < 2 ^ (8 * length z)"
  obtains st' where "flush_prefix env i k (o1 + ucast p) st = Some (True, st')"
    "closed i k st st' (pre @ len_prefixed (length z) body)"
proof -
  have ok: "buf_ok (st_base st)" "\<not> bb_error (st_base st)" using op by (simp_all add: open_cbb_def)
  note bl = body_len [OF ok(1) c]
  let ?len = "word_of_nat (length body) :: u64"
  have "unat ?len < 2 ^ (8 * length z)" using bl(3) n by simp
  then obtain b' where b': "store_be (length pre) (length z) ?len (st_base st) = Some (0, b')"
      "contents b' = pre @ be_bytes (length z) ?len @ body" "buf_ok b'"
      "bb_error b' = bb_error (st_base st)" "bb_can_resize b' = bb_can_resize (st_base st)"
      "bb_cap b' = bb_cap (st_base st)"
    using fill_length [OF ok(1) c(1)] by metis
  have "flush_prefix env i k (o1 + ucast p) st = Some (True,
      set_cbb i ((st_cbb (set_cbb k ((st_cbb st k)\<lparr>cb_base := False\<rparr>) (set_base b' st)) i)\<lparr>cb_child := None\<rparr>)
        (set_cbb k ((st_cbb st k)\<lparr>cb_base := False\<rparr>) (set_base b' st)))"
    unfolding flush_prefix_def Let_def bl(2) using b'(1) cb c(2,3)
    by (simp add: set_base_def)
  moreover have "closed i k st (set_cbb i
      ((st_cbb (set_cbb k ((st_cbb st k)\<lparr>cb_base := False\<rparr>) (set_base b' st)) i)\<lparr>cb_child := None\<rparr>)
        (set_cbb k ((st_cbb st k)\<lparr>cb_base := False\<rparr>) (set_base b' st))) (pre @ len_prefixed (length z) body)"
    using b' ok by (intro closedI ik) (simp_all add: len_prefixed_def)
  ultimately show ?thesis by (rule that)
qed

text \<open>An ASN.1 prefix: one byte has been left for the length; a longer length moves the body.\<close>

lemma move_body:
  assumes ok: "buf_ok b" "\<not> bb_error b" and c: "contents b = pre @ [x] @ body"
    and e: "room env b e" "e \<le> 4"
  obtains b1 b2 z where "cbb_buffer_add env (word_of_nat e) b = (True, b1)"
    "bb_move (length pre + 1 + e) (length pre + 1) (length body) b1 = Some b2"
    "contents b2 = pre @ [x] @ z @ body" "length z = e" "buf_ok b2" "\<not> bb_error b2"
    "bb_can_resize b2 = bb_can_resize b" "unat (bb_cap b) \<le> unat (bb_cap b2)"
proof -
  obtain b1 where b1: "cbb_buffer_add env (word_of_nat e) b = (True, b1)" "buf_ok b1" "\<not> bb_error b1"
      "unat (bb_len b1) = unat (bb_len b) + e" "take (unat (bb_len b)) (bb_buf b1) = contents b"
      "bb_can_resize b1 = bb_can_resize b" "unat (bb_cap b) \<le> unat (bb_cap b1)"
    by (rule buffer_add_ok [OF ok e(1)])
  have l: "unat (bb_len b) = length pre + 1 + length body"
    using length_contents [OF ok(1)] c by simp
  define tail where "tail = drop (unat (bb_len b)) (bb_buf b1)"
  have buf: "bb_buf b1 = pre @ [x] @ body @ tail"
    using append_take_drop_id [of "unat (bb_len b)" "bb_buf b1"] b1(5) c by (simp add: tail_def)
  have t: "e \<le> length tail"
    using b1(2,4) l by (simp add: buf_ok_def buf)
  define z where "z = take e (body @ tail)"
  have z: "length z = e" using t by (simp add: z_def)
  let ?b2 = "b1\<lparr>bb_buf := (pre @ [x] @ z @ body) @ drop e tail\<rparr>"
  have "drop (e + length body) (body @ tail) = drop e tail" by simp
  then have mv: "bb_move (length pre + 1 + e) (length pre + 1) (length body) b1 = Some ?b2"
    using t by (simp add: bb_move_def bb_write_eq buf z_def)
  have "contents ?b2 = pre @ [x] @ z @ body"
    by (rule contentsI) (use b1(4) l z in simp_all)
  moreover have "buf_ok ?b2"
    using b1(2) t z by (simp add: buf_ok_def buf)
  ultimately show ?thesis using that [OF b1(1) mv] z b1 by simp
qed

lemma write_one:
  assumes ok: "buf_ok b" and c: "contents b = pre @ [x] @ rest"
  obtains b1 where "bb_write (length pre) [y] b = Some b1" "contents b1 = pre @ [y] @ rest"
    "buf_ok b1" "bb_error b1 = bb_error b" "bb_can_resize b1 = bb_can_resize b"
    "bb_cap b1 = bb_cap b"
proof -
  define tail where "tail = drop (unat (bb_len b)) (bb_buf b)"
  have buf: "bb_buf b = pre @ x # rest @ tail"
    using buf_split [OF ok] c by (simp add: tail_def)
  let ?b = "b\<lparr>bb_buf := (pre @ [y] @ rest) @ tail\<rparr>"
  have "bb_write (length pre) [y] b = Some ?b"
    by (simp add: bb_write_eq buf)
  moreover have "contents ?b = pre @ [y] @ rest"
    using length_contents [OF ok] c by (intro contentsI [of _ _ tail]) simp_all
  moreover have "buf_ok ?b" using ok by (simp add: buf_ok_def buf)
  ultimately show ?thesis using that [of ?b] by simp
qed

lemma close_asn1:
  assumes op: "open_cbb st k" and ik: "i \<noteq> k"
    and cb: "cb_offset (st_cbb st k) = o1" "cb_pending_len_len (st_cbb st k) = 1"
      "cb_pending_is_asn1 (st_cbb st k)"
    and c: "contents (st_base st) = pre @ [x] @ body" "unat o1 = length pre"
    and n: "length body < 2 ^ 32 - 1" and room: "room env (st_base st) (length (der_len (length body)) - 1)"
  obtains st' where "flush_prefix env i k (o1 + 1) st = Some (True, st')"
    "closed i k st st' (pre @ der_len (length body) @ body)"
proof -
  let ?b = "st_base st" and ?n = "length body"
  have ok: "buf_ok ?b" "\<not> bb_error ?b" using op by (simp_all add: open_cbb_def)
  have bl: "unat (o1 + 1) = length pre + 1" "bb_len ?b - (o1 + 1) = word_of_nat ?n"
      "unat (word_of_nat ?n :: u64) = ?n"
    using body_len [OF ok(1) c(1,2), of 1] by simp_all
  have big: "\<not> (word_of_nat ?n :: u64) > 0xfffffffe" using n bl(3) by (simp add: word_less_nat_alt)
  have o1s: "unat (o1 + 1) = Suc (length pre)" using bl(1) by simp
  show ?thesis
  proof (cases "?n < 128")
    case True
    obtain b1 where b1: "bb_write (length pre) [word_of_nat ?n] ?b = Some b1"
        "contents b1 = pre @ [word_of_nat ?n] @ body" "buf_ok b1" "bb_error b1 = bb_error ?b"
        "bb_can_resize b1 = bb_can_resize ?b" "bb_cap b1 = bb_cap ?b"
      by (rule write_one [OF ok(1) c(1)])
    let ?ch = "(st_cbb st k)\<lparr>cb_offset := o1 + 1, cb_pending_len_len := 0, cb_base := False\<rparr>"
    have "flush_prefix env i k (o1 + 1) st = Some (True,
        set_cbb i ((st_cbb (set_cbb k ?ch (set_base b1 st)) i)\<lparr>cb_child := None\<rparr>)
          (set_cbb k ?ch (set_base b1 st)))"
      unfolding flush_prefix_def Let_def bl(2) flush_asn1_def asn1_len_len_short [OF True]
      using b1(1) cb c(2) big by (simp add: set_base_def set_cbb_def)
    moreover have "closed i k st (set_cbb i ((st_cbb (set_cbb k ?ch (set_base b1 st)) i)\<lparr>cb_child := None\<rparr>)
          (set_cbb k ?ch (set_base b1 st))) (pre @ der_len ?n @ body)"
      using b1 ok True by (intro closedI ik) (simp_all add: der_len_def)
    ultimately show ?thesis by (rule that)
  next
    case False
    let ?e = "len_bytes ?n"
    have e: "?e \<le> 4" "0 < ?e" using len_bytes_le_4 [of ?n] n len_bytes_pos by auto
    have dl: "der_len ?n = word_of_nat (128 + ?e) # be_bytes ?e (word_of_nat ?n :: u64)"
      using False by (simp add: der_len_def)
    have "room env ?b ?e" using room by (simp add: dl)
    then obtain b1 b2 z where b2: "cbb_buffer_add env (word_of_nat ?e) ?b = (True, b1)"
        "bb_move (length pre + 1 + ?e) (length pre + 1) ?n b1 = Some b2"
        "contents b2 = pre @ [x] @ z @ body" "length z = ?e" "buf_ok b2" "\<not> bb_error b2"
        "bb_can_resize b2 = bb_can_resize ?b" "unat (bb_cap ?b) \<le> unat (bb_cap b2)"
      using move_body [OF ok c(1) _ e(1)] by metis
    obtain b3 where b3: "bb_write (length pre) [word_of_nat (128 + ?e)] b2 = Some b3"
        "contents b3 = pre @ [word_of_nat (128 + ?e)] @ z @ body" "buf_ok b3" "bb_error b3 = bb_error b2"
        "bb_can_resize b3 = bb_can_resize b2" "bb_cap b3 = bb_cap b2"
      by (rule write_one [OF b2(5,3)])
    have c3: "contents b3 = (pre @ [word_of_nat (128 + ?e)]) @ z @ body" using b3(2) by simp
    have "?n < 2 ^ (8 * length z)" using len_bytes_bounds [of ?n] b2(4) by (simp add: power_mult)
    then obtain b4 where b4: "store_be (Suc (length pre)) ?e (word_of_nat ?n) b3 = Some (0, b4)"
        "contents b4 = pre @ der_len ?n @ body" "buf_ok b4" "bb_error b4 = bb_error b3"
        "bb_can_resize b4 = bb_can_resize b3" "bb_cap b4 = bb_cap b3"
      using fill_length [OF b3(3) c3, of "word_of_nat ?n"] bl(3) b2(4) dl by (auto simp: dl)
    have n: "128 \<le> ?n" "?n < 2 ^ 32" using n False by auto
    have "unat (word_of_nat (?e + 1) :: u64) = ?e + 1" using e by (intro unat_of_nat_64) simp
    then have x: "(word_of_nat (?e + 1) :: u64) - 1 = word_of_nat ?e" "(word_of_nat (?e + 1) :: u64) \<noteq> 1"
      using e by (simp, metis add_cancel_left_left less_numeral_extra(3) unat_1)
    have "unat (o1 + 1 + word_of_nat ?e) = Suc (length pre + ?e)"
      using o1s e length_contents [OF b2(5)] b2(3,4) unat_lt_64 [of "bb_len b2"]
      by (subst unat_add_64) simp_all
    note un = this o1s bl(3)
    have u8: "unat (ucast (word_of_nat ?e :: u64) :: u8) = ?e"
      using e by (simp add: unsigned_ucast_eq unat_of_nat_64 take_bit_nat_eq_self)
    let ?ch = "(st_cbb st k)\<lparr>cb_offset := o1 + 1, cb_pending_len_len := ucast (word_of_nat ?e :: u64),
      cb_base := False\<rparr>"
    have mv: "bb_move (unat (o1 + 1 + word_of_nat ?e)) (unat (o1 + 1)) (unat (word_of_nat ?n :: u64)) b1 = Some b2"
      using b2(2) unfolding un by simp
    have "flush_prefix env i k (o1 + 1) st = Some (True,
        set_cbb i ((st_cbb (set_cbb k ?ch (set_base b4 st)) i)\<lparr>cb_child := None\<rparr>)
          (set_cbb k ?ch (set_base b4 st)))"
      unfolding flush_prefix_def Let_def bl(2) flush_asn1_def asn1_len_len_long [OF n] prod.case x
      using b2(1) mv b3(1) b4(1) cb c(2) big un u8 x by (simp add: set_base_def set_cbb_def)
    moreover have "closed i k st (set_cbb i ((st_cbb (set_cbb k ?ch (set_base b4 st)) i)\<lparr>cb_child := None\<rparr>)
          (set_cbb k ?ch (set_base b4 st))) (pre @ der_len ?n @ body)"
      using b4 b3 b2 by (intro closedI ik) simp_all
    ultimately show ?thesis by (rule that)
  qed
qed

section \<open>Children\<close>

lemma extends_contents: "extends env bs b b' \<Longrightarrow> contents b' = contents b @ bs"
  by (simp add: extends_def)

text \<open>A flush of the parent closes a child that has been started and written to.\<close>

lemma open_start_child:
  "open_cbb st i \<Longrightarrow> i \<noteq> k \<Longrightarrow> open_cbb (start_child i k o1 p a st) k"
  by (simp add: open_cbb_def start_child_def set_cbb_def zero_cbb_def)

lemma start_child_simps [simp]:
  "st_base (start_child i k o1 p a st) = st_base st"
  "i \<noteq> k \<Longrightarrow> cb_offset (st_cbb (start_child i k o1 p a st) k) = o1"
  "i \<noteq> k \<Longrightarrow> cb_pending_len_len (st_cbb (start_child i k o1 p a st) k) = p"
  "i \<noteq> k \<Longrightarrow> cb_pending_is_asn1 (st_cbb (start_child i k o1 p a st) k) = a"
  "i \<noteq> k \<Longrightarrow> st_cbb (start_child i k o1 p a st) i = (st_cbb st i)\<lparr>cb_child := Some k\<rparr>"
  "j \<noteq> k \<Longrightarrow> j \<noteq> i \<Longrightarrow> st_cbb (start_child i k o1 p a st) j = st_cbb st j"
  by (auto simp: start_child_def set_cbb_def zero_cbb_def)

lemma child_closes:
  assumes op: "open_cbb st0 i" and ik: "i \<noteq> k" "k \<notin> own" "i \<notin> own"
    and body: "cbb_emits env k own body bs"
    and c: "contents (st_base st0) = pre @ z" "unat o1 = length pre" "unat p = length z" "p \<noteq> 0"
    and room: "room env (st_base st0) (length bs + extra)"
    and close: "\<And>st. open_cbb st k \<Longrightarrow> cb_offset (st_cbb st k) = o1 \<Longrightarrow>
      cb_pending_len_len (st_cbb st k) = p \<Longrightarrow> cb_pending_is_asn1 (st_cbb st k) = a \<Longrightarrow>
      contents (st_base st) = pre @ z @ bs \<Longrightarrow> room env (st_base st) extra \<Longrightarrow>
      \<exists>st'. flush_prefix env i k (o1 + ucast p) st = Some (True, st') \<and> closed i k st st' (pre @ out)"
  obtains st1 st2 where "body (start_child i k o1 p a st0) = Some (True, st1)"
    "cbb_pending i (insert k own) st0 st1" "CBB_flush env i st1 = Some (True, st2)" "open_cbb st2 i"
    "contents (st_base st2) = pre @ out" "bb_can_resize (st_base st2) = bb_can_resize (st_base st0)"
    "unat (bb_cap (st_base st0)) \<le> unat (bb_cap (st_base st2))"
    "\<And>j. j \<notin> insert k own \<Longrightarrow> st_cbb st2 j = st_cbb st0 j"
proof -
  let ?st = "start_child i k o1 p a st0"
  have ok0: "buf_ok (st_base st0)" using op by (simp add: open_cbb_def)
  have "room env (st_base ?st) (length bs)" using room by (auto intro: room_mono)
  then obtain st1 st2 where b: "body ?st = Some (True, st1)" "cbb_pending k own ?st st1"
      "CBB_flush env k st1 = Some (True, st2)" "open_cbb st2 k"
      "extends env bs (st_base ?st) (st_base st2)" "\<And>j. j \<notin> own \<Longrightarrow> st_cbb st2 j = st_cbb ?st j"
    using cbb_emitsE [OF body open_start_child [OF op ik(1)]] by metis
  have k2: "cb_offset (st_cbb st2 k) = o1" "cb_pending_len_len (st_cbb st2 k) = p"
      "cb_pending_is_asn1 (st_cbb st2 k) = a"
    using b(6) [OF ik(2)] ik(1) by simp_all
  have c2: "contents (st_base st2) = pre @ z @ bs"
    using extends_contents [OF b(5)] c(1) by simp
  have "room env (st_base st2) extra"
    using extends_room [OF b(5)] ok0 room by simp
  then obtain st3 where st3: "flush_prefix env i k (o1 + ucast p) st2 = Some (True, st3)"
      "closed i k st2 st3 (pre @ out)"
    using close [OF b(4) k2 c2] by blast
  have k1: "cb_offset (st_cbb st1 k) = o1" "cb_pending_len_len (st_cbb st1 k) = p"
    using b(2) ik(1) unfolding cbb_pending_def by (metis cbb.select_convs cbb.update_convs cbb.surjective
        start_child_simps(2,3))+
  have i1: "st_cbb st1 i = (st_cbb st0 i)\<lparr>cb_child := Some k\<rparr>"
    using b(2) ik by (simp add: cbb_pending_def)
  have "unat o1 + unat p \<le> unat (bb_len (st_base st2))"
    using length_contents [of "st_base st2"] b(4) c2 c by (simp add: open_cbb_def)
  then have "CBB_flush env i st1 = flush_prefix env i k (o1 + ucast p) st2"
    using op b(2,3) i1 k1 k2 c(4) by (intro flush_child) (simp_all add: open_cbb_def cbb_pending_def)
  moreover have "cbb_pending i (insert k own) st0 st1"
    using b(2) ik i1 by (auto simp: cbb_pending_def)
  moreover have "open_cbb st3 i"
    using st3(2) b(6) [OF ik(3)] op ik by (simp add: closed_def open_cbb_def)
  moreover have "st_cbb st3 j = st_cbb st0 j" if "j \<notin> insert k own" for j
    using that st3(2) b(6) ik op by (cases "j = i") (auto simp: closed_def open_cbb_def)
  ultimately show ?thesis
    using that [OF b(1)] st3 b(5) by (simp add: closed_def extends_def)
qed

end
