(* ===== verification/Cbb_Emits.thy ===== *)
theory Cbb_Emits
  imports Cbb_Spec
begin

text \<open>
  The writers of integers, base-128 integers and identifier octets, and the two combinators for
  children: what \<open>body\<close> writes to a child ends up behind its length or its DER header.
\<close>

section \<open>Integers\<close>

lemma le_bytes_ucast:
  assumes "8 * n \<le> 64"
  shows "le_bytes n (ucast v :: u64) = le_bytes n (v :: 'a::len word)"
proof (rule nth_equalityI)
  fix k assume "k < length (le_bytes n (ucast v :: u64))"
  then have k: "k < n" by simp
  show "le_bytes n (ucast v :: u64) ! k = le_bytes n v ! k"
    unfolding nth_le_bytes [OF k]
    by (rule bit_word_eqI) (use assms k in \<open>auto simp: bit_simps\<close>)
qed simp

lemma be_bytes_ucast: "8 * n \<le> 64 \<Longrightarrow> be_bytes n (ucast v :: u64) = be_bytes n (v :: 'a::len word)"
  by (simp add: be_bytes_def le_bytes_ucast)

lemma unat_ucast_up: "LENGTH('a) \<le> 64 \<Longrightarrow> unat (ucast (v :: 'a::len word) :: u64) = unat v"
proof -
  assume "LENGTH('a) \<le> 64"
  then have "unat v < 2 ^ 64"
    using unsigned_less [of v, where 'a = nat] power_increasing [of "LENGTH('a)" 64 "2 :: nat"]
    by linarith
  then have "take_bit 64 (unat v) = unat v" by (rule take_bit_nat_eq_self)
  then show ?thesis by (simp add: unsigned_ucast_eq)
qed

lemma appends_add_ucast:
  "8 * n \<le> 64 \<Longrightarrow> 0 < n \<Longrightarrow> LENGTH('a) \<le> 64 \<Longrightarrow> unat v < 2 ^ (8 * n) \<Longrightarrow>
    appends env i (cbb_add_u env i (ucast (v :: 'a::len word)) n) (be_bytes n v)"
  using appends_add_u [of "ucast v" n env i] by (simp add: be_bytes_ucast unat_ucast_up)

lemma appends_u8: "appends env i (CBB_add_u8 env i v) [v]"
  using appends_add_ucast [of 1 v env i] unat_lt_8 [of v]
  by (simp add: CBB_add_u8_def be_bytes_def)

lemma flush_first_u8: "flush_first env i (CBB_add_u8 env i v)"
  unfolding CBB_add_u8_def by (rule flush_first_add_u)

lemma cbb_emits_ints:
  "cbb_emits env i own (CBB_add_u8 env i v8) [v8]"
  "cbb_emits env i own (CBB_add_u16 env i v16) (be_bytes 2 v16)"
  "cbb_emits env i own (CBB_add_u16le env i v16) (le_bytes 2 v16)"
  "unat v32 < 2 ^ 24 \<Longrightarrow> cbb_emits env i own (CBB_add_u24 env i v32) (be_bytes 3 v32)"
  "cbb_emits env i own (CBB_add_u32 env i v32) (be_bytes 4 v32)"
  "cbb_emits env i own (CBB_add_u32le env i v32) (le_bytes 4 v32)"
  "cbb_emits env i own (CBB_add_u64 env i v64) (be_bytes 8 v64)"
  "cbb_emits env i own (CBB_add_u64le env i v64) (le_bytes 8 v64)"
proof -
  show "cbb_emits env i own (CBB_add_u8 env i v8) [v8]"
    by (intro appends_emits appends_u8 flush_first_u8)
  show u16: "cbb_emits env i own (CBB_add_u16 env i v) (be_bytes 2 v)" for v
    using appends_add_ucast [of 2 v env i] unsigned_less [of v, where 'a = nat]
    by (auto simp: CBB_add_u16_def intro: appends_emits flush_first_add_u)
  show u32: "cbb_emits env i own (CBB_add_u32 env i v) (be_bytes 4 v)" for v
    using appends_add_ucast [of 4 v env i] unsigned_less [of v, where 'a = nat]
    by (auto simp: CBB_add_u32_def intro: appends_emits flush_first_add_u)
  show u64: "cbb_emits env i own (CBB_add_u64 env i v) (be_bytes 8 v)" for v
    using appends_add_u [of v 8 env i] unsigned_less [of v, where 'a = nat]
    by (auto simp: CBB_add_u64_def intro: appends_emits flush_first_add_u)
  show "cbb_emits env i own (CBB_add_u24 env i v32) (be_bytes 3 v32)" if "unat v32 < 2 ^ 24"
    using appends_add_ucast [of 3 v32 env i] that
    by (auto simp: CBB_add_u24_def intro: appends_emits flush_first_add_u)
  have swap: "be_bytes n (s w) = le_bytes n w"
    if "8 * n = LENGTH('a)" "\<And>xs. length xs = n \<Longrightarrow> s (le_word xs) = le_word (rev xs)"
    for s :: "'a::len word \<Rightarrow> 'a word" and w n
    using bswap_bytes(3) [OF that] .
  show "cbb_emits env i own (CBB_add_u16le env i v16) (le_bytes 2 v16)"
    using u16 [of "CRYPTO_bswap2 v16"] by (simp add: CBB_add_u16le_def swap bswap_le)
  show "cbb_emits env i own (CBB_add_u32le env i v32) (le_bytes 4 v32)"
    using u32 [of "CRYPTO_bswap4 v32"] by (simp add: CBB_add_u32le_def swap bswap_le)
  show "cbb_emits env i own (CBB_add_u64le env i v64) (le_bytes 8 v64)"
    using u64 [of "CRYPTO_bswap8 v64"] by (simp add: CBB_add_u64le_def swap bswap_le)
qed

section \<open>Base-128 integers and tags\<close>

definition group :: "nat \<Rightarrow> u64 \<Rightarrow> u8" where
  "group i v = (let b = ucast (drop_bit (7 * i) v) AND 0x7F in if i \<noteq> 0 then b OR 0x80 else b)"

definition groups :: "nat \<Rightarrow> u64 \<Rightarrow> u8 list" where
  "groups n v = map (\<lambda>i. group i v) (rev [0..<n])"

lemma appends_base128_loop: "appends env i (add_base128_loop env i v n) (groups n v)"
proof (induction n)
  case 0
  show ?case
    unfolding appends_def
  proof (intro allI impI)
    fix st assume "open_cbb st i \<and> room env (st_base st) (length (groups 0 v))"
    moreover have "st = set_base (st_base st) st" by (simp add: set_base_def)
    ultimately show "\<exists>b. add_base128_loop env i v 0 st = Some (True, set_base b st) \<and>
        extends env (groups 0 v) (st_base st) b"
      by (intro exI [of _ "st_base st"]) (simp add: extends_def groups_def open_cbb_def)
  qed
next
  case (Suc n)
  have *: "add_base128_loop env i v (Suc n) =
      (\<lambda>st. and_then_opt (CBB_add_u8 env i (group n v) st) (add_base128_loop env i v n))"
    by (simp add: group_def Let_def fun_eq_iff)
  show ?case
    using appends_seq [OF appends_u8 Suc, of "group n v"] by (simp add: * groups_def)
qed

lemma low7:
  "ucast v AND 0x7F = (word_of_nat (unat v mod 128) :: u8)"
  "(ucast v AND 0x7F) OR 0x80 = (word_of_nat (128 + unat v mod 128) :: u8)" for v :: u64
proof -
  have m: "unat (ucast v AND 0x7F :: u8) = unat v mod 128"
    by (simp add: unat_AND_7F unsigned_ucast_eq take_bit_eq_mod mod_mod_cancel)
  then show "ucast v AND 0x7F = (word_of_nat (unat v mod 128) :: u8)"
    using unat_of_nat_8 [of "unat v mod 128"] by (simp add: word_unat_eq_iff)
  have "unat (push_bit 7 (1 :: u8) OR (ucast v AND 0x7F)) = 128 + unat v mod 128"
    using unat_or_shift [of "ucast v AND 0x7F :: u8" 7 1] m by simp
  moreover have "unat (word_of_nat (128 + unat v mod 128) :: u8) = 128 + unat v mod 128"
    by (rule unat_of_nat_8) simp
  ultimately show "(ucast v AND 0x7F) OR 0x80 = (word_of_nat (128 + unat v mod 128) :: u8)"
    by (simp add: word_unat_eq_iff or.commute del: of_nat_add)
qed

lemma rev_upt_Suc: "rev [0..<Suc k] = map Suc (rev [0..<k]) @ [0]"
  by (simp add: upt_conv_Cons map_Suc_upt rev_map [symmetric] del: upt_Suc)

lemma base128_len_len_eq:
  "base128_len_len 0 = 0"
  "w \<noteq> 0 \<Longrightarrow> base128_len_len w = Suc (base128_len_len (drop_bit 7 w))"
  by (subst base128_len_len.simps, simp add: word_neq_0_conv)+

lemma groups_hi:
  "map (\<lambda>i. (ucast (drop_bit (7 * i) w) AND 0x7F) OR 0x80) (rev [0..<base128_len_len w]) =
    base128_hi (unat w)"
proof (induction w rule: base128_len_len.induct)
  case (1 w)
  show ?case
  proof (cases "w = 0")
    case False
    have hi: "base128_hi (unat w) = base128_hi (unat (drop_bit 7 w)) @ [word_of_nat (128 + unat w mod 128)]"
      using False by (simp add: base128_hi_step unat_gt_0 unat_drop_bit)
    have "drop_bit (7 * i) (drop_bit 7 w) = drop_bit (7 * Suc i) w" for i
      by (simp add: drop_bit_drop_bit add.commute)
    then show ?thesis
      using 1 False unfolding hi base128_len_len_eq(2) [OF False] rev_upt_Suc
      by (simp add: low7(2) o_def word_neq_0_conv del: of_nat_add)
  qed (simp add: base128_len_len_eq)
qed

lemma appends_base128: "appends env i (add_base128_integer env i v) (base128 (unat v))"
proof -
  define n where "n = base128_len_len (drop_bit 7 v)"
  have n: "(if base128_len_len v = 0 then 1 else base128_len_len v) = Suc n"
    by (cases "v = 0") (simp_all add: n_def base128_len_len_eq)
  have g: "group (Suc i) v = (ucast (drop_bit (7 * i) (drop_bit 7 v)) AND 0x7F) OR 0x80" for i
    by (simp add: group_def drop_bit_drop_bit add.commute)
  have "groups (Suc n) v = map (\<lambda>i. group (Suc i) v) (rev [0..<n]) @ [group 0 v]"
    unfolding groups_def rev_upt_Suc by simp
  also have "\<dots> = base128 (unat v)"
    unfolding g n_def groups_hi by (simp add: base128_def group_def unat_drop_bit low7)
  finally show ?thesis
    using appends_base128_loop [of env i v "Suc n"] unfolding add_base128_integer_def Let_def n
    by simp
qed


text \<open>The identifier octets, as \<open>CBB_add_asn1\<close> writes them.\<close>

definition add_tag :: "cbb_env \<Rightarrow> cbb_id \<Rightarrow> u32 \<Rightarrow> cbb_op" where
  "add_tag env i tag st =
     (let tag_bits = ucast (drop_bit CBS_ASN1_TAG_SHIFT tag) AND 0xE0 :: u8;
          tag_number = tag AND CBS_ASN1_TAG_NUMBER_MASK
      in if tag_number \<ge> 0x1F then
           and_then_opt (CBB_add_u8 env i (tag_bits OR 0x1F) st)
             (add_base128_integer env i (ucast tag_number))
         else CBB_add_u8 env i (tag_bits OR ucast tag_number) st)"

lemma appends_tag: "appends env i (add_tag env i tag) (der_tag tag)"
proof -
  let ?n = "tag AND CBS_ASN1_TAG_NUMBER_MASK"
  have c: "ucast (drop_bit CBS_ASN1_TAG_SHIFT tag) AND 0xE0 = tag_class tag"
    by (simp add: tag_class_def CBS_ASN1_TAG_SHIFT_def)
  have n: "unat (ucast ?n :: u64) = tag_num tag"
    by (simp only: unat_ucast_32_64 tag_num_def)
  have ge: "?n \<ge> 0x1F \<longleftrightarrow> \<not> tag_num tag < 31"
    by (simp add: word_le_nat_alt tag_num_def not_less)
  have u: "(ucast ?n :: u8) = word_of_nat (tag_num tag)" by (simp add: tag_num_def)
  show ?thesis
  proof (cases "tag_num tag < 31")
    case True
    have "add_tag env i tag = CBB_add_u8 env i (tag_class tag OR word_of_nat (tag_num tag))"
      using True unfolding add_tag_def [abs_def] Let_def c ge u by simp
    then show ?thesis using True appends_u8 by (simp add: der_tag_def)
  next
    case False
    have "add_tag env i tag = (\<lambda>st. and_then_opt (CBB_add_u8 env i (tag_class tag OR 0x1F) st)
        (add_base128_integer env i (ucast ?n)))"
      using False unfolding add_tag_def [abs_def] Let_def c ge by simp
    then show ?thesis
      using False appends_seq [OF appends_u8 appends_base128, of env i _ "ucast ?n"] n
      by (simp add: der_tag_def)
  qed
qed

lemma CBB_add_asn1_eq:
  "CBB_add_asn1 env i k tag st = and_then_opt (CBB_flush env i st) (\<lambda>st.
     and_then_opt (add_tag env i tag st) (\<lambda>st.
       let offset = bb_len (st_base st) in
       and_then_opt (CBB_add_u8 env i 0 st) (\<lambda>st.
         Some (True, start_child i k offset 1 True st))))"
  by (simp add: CBB_add_asn1_def add_tag_def Let_def)

lemma extends_open: "open_cbb st i \<Longrightarrow> extends env bs (st_base st) b \<Longrightarrow> open_cbb (set_base b st) i"
  by (simp add: open_cbb_def extends_def)

text \<open>An ASN.1 child whose contents \<open>body\<close> writes.\<close>

definition asn1_child :: "cbb_env \<Rightarrow> cbb_id \<Rightarrow> cbb_id \<Rightarrow> u32 \<Rightarrow> cbb_op \<Rightarrow> cbb_op" where
  "asn1_child env i k tag body st = and_then_opt (CBB_add_asn1 env i k tag st) body"

lemma cbb_emits_asn1_child:
  assumes body: "cbb_emits env k own body bs" and ik: "i \<noteq> k" "k \<notin> own" "i \<notin> own"
    and n: "length bs < 2 ^ 32 - 1"
  shows "cbb_emits env i (insert k own) (asn1_child env i k tag body) (der_element tag bs)"
proof (rule cbb_emitsI)
  show "flush_first env i (asn1_child env i k tag body)"
    unfolding asn1_child_def [abs_def] CBB_add_asn1_eq [abs_def]
    by (intro flush_first_seq flush_first_and_then)
next
  fix st assume op: "open_cbb st i" and room: "room env (st_base st) (length (der_element tag bs))"
  let ?dl = "der_len (length bs)"
  have len: "length (der_element tag bs) = length (der_tag tag) + 1 + (length bs + (length ?dl - 1))"
    by (simp add: der_element_def der_len_def)
  have ok: "buf_ok (st_base st)" using op by (simp add: open_cbb_def)
  have "room env (st_base st) (length (der_tag tag))" using room len by (auto intro: room_mono)
  then obtain b where b: "add_tag env i tag st = Some (True, set_base b st)"
      "extends env (der_tag tag) (st_base st) b" "open_cbb (set_base b st) i"
    using appendsE [OF appends_tag op] by blast
  have rb: "room env b (1 + (length bs + (length ?dl - 1)))"
    using extends_room [OF b(2) ok] room len by (simp add: add.assoc)
  then have "room env (st_base (set_base b st)) (length [0 :: u8])" by (auto intro: room_mono)
  then obtain c where c: "CBB_add_u8 env i 0 (set_base b st) = Some (True, set_base c st)"
      "extends env [0] b c" "open_cbb (set_base c st) i"
    using appendsE [OF appends_u8 b(3)] by auto
  have okb: "buf_ok b" using b(2) by (simp add: extends_def)
  have rc: "room env c (length bs + (length ?dl - 1))"
    using extends_room [OF c(2) okb, of "length bs + (length ?dl - 1)"] rb by simp
  let ?pre = "contents (st_base st) @ der_tag tag"
  have cc: "contents c = ?pre @ [0]" using b(2) c(2) by (simp add: extends_def)
  have ob: "unat (bb_len b) = length ?pre"
    using b(2) length_contents [OF okb] by (simp add: extends_def)
  obtain st1 st2 where s: "body (start_child i k (bb_len b) 1 True (set_base c st)) = Some (True, st1)"
    "cbb_pending i (insert k own) (set_base c st) st1" "CBB_flush env i st1 = Some (True, st2)"
    "open_cbb st2 i" "contents (st_base st2) = ?pre @ ?dl @ bs"
    "bb_can_resize (st_base st2) = bb_can_resize c" "unat (bb_cap c) \<le> unat (bb_cap (st_base st2))"
    "\<And>j. j \<notin> insert k own \<Longrightarrow> st_cbb st2 j = st_cbb st j"
  proof (rule child_closes [OF c(3) ik body, of ?pre "[0]" "bb_len b" 1 "length ?dl - 1" True "?dl @ bs"])
    fix st assume k: "open_cbb st k" "cb_offset (st_cbb st k) = bb_len b"
      "cb_pending_len_len (st_cbb st k) = 1" "cb_pending_is_asn1 (st_cbb st k) = True"
      "contents (st_base st) = ?pre @ [0] @ bs" "room env (st_base st) (length ?dl - 1)"
    then show "\<exists>st'. flush_prefix env i k (bb_len b + ucast (1 :: u8)) st = Some (True, st') \<and>
        closed i k st st' (?pre @ ?dl @ bs)"
      using close_asn1 [OF k(1) ik(1) k(2,3) _ k(5) ob n k(6)] by auto
  qed (use cc ob rc in simp_all)
  have "CBB_add_asn1 env i k tag st = Some (True, start_child i k (bb_len b) 1 True (set_base c st))"
    using op b(1) c(1) by (simp add: CBB_add_asn1_eq flush_open)
  then have "asn1_child env i k tag body st = Some (True, st1)" using s(1) by (simp add: asn1_child_def)
  moreover have "extends env (der_element tag bs) (st_base st) (st_base st2)"
    using s b(2) c(2) by (simp add: extends_def der_element_def open_cbb_def)
  moreover have "cbb_pending i (insert k own) st st1" using s(2) by (simp add: cbb_pending_def)
  ultimately show "\<exists>st1 st2. asn1_child env i k tag body st = Some (True, st1) \<and>
      cbb_pending i (insert k own) st st1 \<and> CBB_flush env i st1 = Some (True, st2) \<and> open_cbb st2 i \<and>
      extends env (der_element tag bs) (st_base st) (st_base st2) \<and>
      (\<forall>j. j \<notin> insert k own \<longrightarrow> st_cbb st2 j = st_cbb st j)"
    using s by blast
qed

text \<open>A child behind a length of \<open>p\<close> bytes.\<close>

definition prefixed_child :: "cbb_env \<Rightarrow> cbb_id \<Rightarrow> cbb_id \<Rightarrow> u8 \<Rightarrow> cbb_op \<Rightarrow> cbb_op" where
  "prefixed_child env i k p body st = and_then_opt (cbb_add_length_prefixed env i k p st) body"

lemma cbb_emits_prefixed_child:
  assumes body: "cbb_emits env k own body bs" and ik: "i \<noteq> k" "k \<notin> own" "i \<notin> own"
    and n: "length bs < 2 ^ (8 * unat p)" "p \<noteq> 0"
  shows "cbb_emits env i (insert k own) (prefixed_child env i k p body) (len_prefixed (unat p) bs)"
proof (rule cbb_emitsI)
  show "flush_first env i (prefixed_child env i k p body)"
    unfolding prefixed_child_def [abs_def] cbb_add_length_prefixed_def [abs_def]
    by (intro flush_first_seq flush_first_and_then)
next
  fix st assume op: "open_cbb st i" and room: "room env (st_base st) (length (len_prefixed (unat p) bs))"
  let ?b = "st_base st" and ?z = "replicate (unat p) (0 :: u8)"
  have ok: "buf_ok ?b" "\<not> bb_error ?b" using op by (simp_all add: open_cbb_def)
  have "room env ?b (length ?z)" using room by (auto intro: room_mono)
  then obtain b1 where b1: "cbb_buffer_add env (word_of_nat (unat p)) ?b = (True, b1)"
      "unat (bb_len ?b) + unat p \<le> length (bb_buf b1)"
      "extends env ?z ?b (b1\<lparr>bb_buf := take (unat (bb_len ?b)) (bb_buf b1) @ ?z @
          drop (unat (bb_len ?b) + unat p) (bb_buf b1)\<rparr>)"
    using extends_write [OF ok, of env ?z] by (metis length_replicate)
  define c where "c = b1\<lparr>bb_buf := take (unat (bb_len ?b)) (bb_buf b1) @ ?z @
          drop (unat (bb_len ?b) + unat p) (bb_buf b1)\<rparr>"
  note ext = b1(3) [folded c_def]
  have w: "bb_write (unat (bb_len ?b)) ?z b1 = Some c"
    using b1(2) by (simp add: bb_write_eq c_def)
  have opc: "open_cbb (set_base c st) i" using extends_open [OF op ext] .
  have rc: "room env c (length bs)" using extends_room [OF ext ok(1)] room by simp
  have cc: "contents c = contents ?b @ ?z" using ext by (simp add: extends_def)
  have ob: "unat (bb_len ?b) = length (contents ?b)" using length_contents [OF ok(1)] by simp
  obtain st1 st2 where s: "body (start_child i k (bb_len ?b) p False (set_base c st)) = Some (True, st1)"
    "cbb_pending i (insert k own) (set_base c st) st1" "CBB_flush env i st1 = Some (True, st2)"
    "open_cbb st2 i" "contents (st_base st2) = contents ?b @ len_prefixed (unat p) bs"
    "bb_can_resize (st_base st2) = bb_can_resize c" "unat (bb_cap c) \<le> unat (bb_cap (st_base st2))"
    "\<And>j. j \<notin> insert k own \<Longrightarrow> st_cbb st2 j = st_cbb st j"
  proof (rule child_closes [OF opc ik body, of "contents ?b" ?z "bb_len ?b" p 0 False "len_prefixed (unat p) bs"])
    fix st' assume k: "open_cbb st' k" "cb_offset (st_cbb st' k) = bb_len ?b"
      "cb_pending_len_len (st_cbb st' k) = p" "cb_pending_is_asn1 (st_cbb st' k) = False"
      "contents (st_base st') = contents ?b @ ?z @ bs"
    have z: "unat p = length ?z" "length bs < 2 ^ (8 * length ?z)" using n(1) by simp_all
    have na: "\<not> cb_pending_is_asn1 (st_cbb st' k)" using k(4) by simp
    obtain st'' where "flush_prefix env i k (bb_len ?b + ucast p) st' = Some (True, st'')"
        "closed i k st' st'' (contents ?b @ len_prefixed (length ?z) bs)"
      by (rule close_prefix [OF k(1) ik(1) k(2,3) na k(5) ob z])
    then show "\<exists>st''. flush_prefix env i k (bb_len ?b + ucast p) st' = Some (True, st'') \<and>
        closed i k st' st'' (contents ?b @ len_prefixed (unat p) bs)"
      by (simp only: length_replicate) blast
  qed (use cc ob rc n(2) in simp_all)
  have "cbb_add_length_prefixed env i k p st =
      Some (True, start_child i k (bb_len ?b) p False (set_base c st))"
    using op b1(1) w by (simp add: cbb_add_length_prefixed_def flush_open on_base_def)
      (simp add: open_cbb_def)
  then have "prefixed_child env i k p body st = Some (True, st1)" using s(1) by (simp add: prefixed_child_def)
  moreover have "extends env (len_prefixed (unat p) bs) ?b (st_base st2)"
    using s ext by (simp add: extends_def open_cbb_def)
  moreover have "cbb_pending i (insert k own) st st1" using s(2) by (simp add: cbb_pending_def)
  ultimately show "\<exists>st1 st2. prefixed_child env i k p body st = Some (True, st1) \<and>
      cbb_pending i (insert k own) st st1 \<and> CBB_flush env i st1 = Some (True, st2) \<and> open_cbb st2 i \<and>
      extends env (len_prefixed (unat p) bs) (st_base st) (st_base st2) \<and>
      (\<forall>j. j \<notin> insert k own \<longrightarrow> st_cbb st2 j = st_cbb st j)"
    using s by blast
qed

end
