(* ===== verification/Cbb_Values.thy ===== *)
theory Cbb_Values
  imports Cbb_Emits
begin

text \<open>
  The writers of ASN.1 values. The loops of the code are the byte-by-byte writer \<open>add_list\<close> on the
  minimal two's complement \<open>der_int\<close> of the value, so that writers and readers share one encoding.
\<close>

section \<open>Adding a list of bytes\<close>

fun add_list :: "cbb_env \<Rightarrow> cbb_id \<Rightarrow> u8 list \<Rightarrow> cbb_op" where
  "add_list env i [] st = Some (True, st)"
| "add_list env i (b # bs) st = and_then_opt (CBB_add_u8 env i b st) (add_list env i bs)"

lemma appends_nothing: "appends env i (\<lambda>st. Some (True, st)) []"
  unfolding appends_def
proof (intro allI impI)
  fix st assume "open_cbb st i \<and> room env (st_base st) (length ([] :: u8 list))"
  moreover have "st = set_base (st_base st) st" by (simp add: set_base_def)
  ultimately show "\<exists>b. Some (True, st) = Some (True, set_base b st) \<and> extends env [] (st_base st) b"
    by (intro exI [of _ "st_base st"]) (simp add: extends_def open_cbb_def)
qed

lemma appends_list: "appends env i (add_list env i bs) bs"
proof (induction bs)
  case Nil
  then show ?case using appends_nothing by (simp add: appends_def)
next
  case (Cons b bs)
  have "add_list env i (b # bs) = (\<lambda>st. and_then_opt (CBB_add_u8 env i b st) (add_list env i bs))"
    by auto
  then show ?case using appends_seq [OF appends_u8 Cons, of b] by simp
qed

lemma cbb_emits_list: "bs \<noteq> [] \<Longrightarrow> cbb_emits env i own (add_list env i bs) bs"
proof (intro appends_emits appends_list)
  assume "bs \<noteq> []"
  then obtain b cs where "bs = b # cs" by (cases bs) auto
  then have "add_list env i bs = (\<lambda>st. and_then_opt (CBB_add_u8 env i b st) (add_list env i cs))"
    by auto
  then show "flush_first env i (add_list env i bs)"
    using flush_first_seq [OF flush_first_u8] by simp
qed

lemma flush_first_if:
  "(c \<Longrightarrow> flush_first env i f) \<Longrightarrow> (\<not> c \<Longrightarrow> flush_first env i g) \<Longrightarrow>
    flush_first env i (\<lambda>st. if c then f st else g st)"
  by (cases c) simp_all

lemma flush_first_bytes: "flush_first env i (CBB_add_bytes env i data)"
  unfolding CBB_add_bytes_def [abs_def] by (rule flush_first_and_then)

text \<open>A value in an ASN.1 child, flushed.\<close>

definition add_value :: "cbb_env \<Rightarrow> cbb_id \<Rightarrow> cbb_id \<Rightarrow> u32 \<Rightarrow> cbb_op \<Rightarrow> cbb_op" where
  "add_value env i k tag body st = and_then_opt (asn1_child env i k tag body st) (CBB_flush env i)"

lemma cbb_emits_value:
  assumes "cbb_emits env k {} body bs" "i \<noteq> k" "length bs < 2 ^ 32 - 1"
  shows "cbb_emits env i {k} (add_value env i k tag body) (der_element tag bs)"
  unfolding add_value_def [abs_def]
  by (rule cbb_emits_flush) (use cbb_emits_asn1_child [OF assms(1,2) _ _ assms(3)] assms(2) in simp_all)

lemma and_then_opt_assoc:
  "and_then_opt (and_then_opt r f) g = and_then_opt r (\<lambda>s. and_then_opt (f s) g)"
  by (auto simp: and_then_opt_def split: option.splits prod.splits)

section \<open>INTEGER\<close>

lemma be_val_be_bytes: "be_val (be_bytes 8 (v :: u64)) = uint v"
proof -
  have "be_word (be_bytes 8 v) = v" by (simp add: be_word_be_bytes take_bit_word_eq_self)
  moreover have "uint (be_word (be_bytes 8 v) :: u64) = be_val (be_bytes 8 v)"
    by (rule uint_be_word) simp
  ultimately show ?thesis by metis
qed

lemma be_val_dropWhile: "be_val (dropWhile (\<lambda>b. b = 0) bs) = be_val bs"
  by (induction bs) (auto simp: be_val_Cons)

definition uint_content :: "u8 list \<Rightarrow> u8 list" where
  "uint_content bs = (let d = dropWhile (\<lambda>b. b = 0) bs in
     if d = [] then [0] else if hd d AND 0x80 \<noteq> 0 then 0 # d else d)"

lemma uint_content_der: "uint_content (be_bytes 8 (v :: u64)) = der_int (uint v)"
proof -
  define d where "d = dropWhile (\<lambda>b. b = 0) (be_bytes 8 v)"
  have d: "be_val d = uint v" by (simp add: d_def be_val_dropWhile be_val_be_bytes)
  have hd: "d \<noteq> [] \<Longrightarrow> hd d \<noteq> 0" using hd_dropWhile [of "\<lambda>b. b = 0"] by (auto simp: d_def)
  have "minimal (uint_content (be_bytes 8 v)) \<and> tc_val (uint_content (be_bytes 8 v)) = uint v"
  proof (cases d)
    case Nil
    then show ?thesis using d
      by (simp add: uint_content_def minimal_single tc_val_single flip: d_def)
  next
    case (Cons b cs)
    then show ?thesis using d hd
      by (auto simp: uint_content_def minimal_def tc_val_def negative_def AND_80_uint be_val_Cons Let_def
          simp flip: d_def)
  qed
  then show ?thesis using der_int_tc_val by metis
qed

lemma add_uint64_started:
  "add_uint64_loop env k v is True st =
    (case add_list env k (map (\<lambda>i. ucast (drop_bit (8 * (7 - i)) v)) is) st of
       None \<Rightarrow> None | Some (ok, st) \<Rightarrow> Some (if ok then Some True else None, st))"
  by (induction "is" arbitrary: st)
    (auto simp: Let_def and_then_opt_def split: option.splits prod.splits Option.bind_splits if_splits)

lemma add_uint64_body:
  "do {
     (r, st) \<leftarrow> add_uint64_loop env k v is False st;
     (case r of None \<Rightarrow> Some (False, st)
      | Some started \<Rightarrow> and_then_opt (if \<not> started then CBB_add_u8 env k 0 st else Some (True, st)) g)
   } = and_then_opt (add_list env k (uint_content (map (\<lambda>i. ucast (drop_bit (8 * (7 - i)) v)) is)) st) g"
proof (induction "is" arbitrary: st)
  case Nil
  then show ?case by (simp add: uint_content_def and_then_opt_assoc)
next
  case (Cons i "is")
  then show ?case
    by (auto simp: Let_def uint_content_def add_uint64_started and_then_opt_def split: option.splits prod.splits Option.bind_splits if_splits)
qed

lemma le_bytes_8: "le_bytes 8 (v :: u64) = map (\<lambda>i. ucast (drop_bit (8 * i) v)) [0, 1, 2, 3, 4, 5, 6, 7]"
  by (simp add: eval_nat_numeral)

lemma add_uint64_eq:
  "CBB_add_asn1_uint64 env i k v = add_value env i k CBS_ASN1_INTEGER (add_list env k (der_int (uint v)))"
proof
  fix st
  have bytes: "map (\<lambda>i. ucast (drop_bit (8 * (7 - i)) v)) [0, 1, 2, 3, 4, 5, 6, 7] = be_bytes 8 v"
    by (simp add: be_bytes_def le_bytes_8)
  show "CBB_add_asn1_uint64 env i k v st =
      add_value env i k CBS_ASN1_INTEGER (add_list env k (der_int (uint v))) st"
    unfolding CBB_add_asn1_uint64_def add_value_def asn1_child_def and_then_opt_assoc add_uint64_body
      bytes uint_content_der ..
qed

lemma add_bytes_down_eq: "n \<le> length bytes \<Longrightarrow>
    add_bytes_down env k bytes n st = add_list env k (rev (take n bytes)) st"
proof (induction n arbitrary: st)
  case (Suc n)
  then show ?case by (simp add: take_Suc_conv_app_nth and_then_opt_def split: option.split)
qed simp

lemma tc_val_be_bytes: "tc_val (be_bytes 8 v) = sint (v :: u64)"
proof -
  have "be_bytes 8 v \<noteq> []" "length (be_bytes 8 v) = 8" by (auto simp flip: length_0_conv)
  moreover have "tc_val (be_bytes 8 v) = uint v - (if negative (be_bytes 8 v) then 2 ^ 64 else 0)"
    by (simp add: tc_val_def be_val_be_bytes)
  ultimately show ?thesis
    using tc_val_bounds [of "be_bytes 8 v"] by (auto simp: sint_64 split: if_splits)
qed

lemma tc_val_sign: "128 \<le> uint x \<Longrightarrow> tc_val (0xFF # x # xs) = tc_val (x # xs)"
proof -
  assume x: "128 \<le> uint x"
  have "uint (0xFF :: u8) = 255" by simp
  then have "be_val (0xFF # x # xs) = 255 * 256 ^ Suc (length xs) + be_val (x # xs)"
    using be_val_Cons [of "0xFF" "x # xs"] by (simp del: uint_numeral)
  then show ?thesis using x by (simp add: tc_val_def negative_def)
qed

lemma int64_start_le: "int64_start bytes n \<le> n"
  by (induction n) (auto intro: le_SucI)

text \<open>Dropping redundant sign octets keeps the value and ends in a minimal encoding.\<close>

lemma int64_start_content:
  assumes "n < length bytes" "128 \<le> uint (bytes ! n)"
  shows "minimal (rev (take (Suc (int64_start bytes n)) bytes)) \<and>
    tc_val (rev (take (Suc (int64_start bytes n)) bytes)) = tc_val (rev (take (Suc n) bytes))"
  using assms
proof (induction n)
  case 0
  then show ?case by (cases bytes) (simp_all add: minimal_single)
next
  case (Suc n)
  have t: "rev (take (Suc (Suc n)) bytes) = bytes ! Suc n # bytes ! n # rev (take n bytes)"
    using Suc.prems by (simp add: take_Suc_conv_app_nth)
  have t': "rev (take (Suc n) bytes) = bytes ! n # rev (take n bytes)"
    using Suc.prems by (simp add: take_Suc_conv_app_nth)
  show ?case
  proof (cases "bytes ! Suc n = 0xFF \<and> bytes ! n AND 0x80 \<noteq> 0")
    case True
    then have "128 \<le> uint (bytes ! n)" by (simp add: AND_80_uint)
    then show ?thesis using True Suc t t' tc_val_sign by simp
  next
    case False
    have "bytes ! Suc n \<noteq> 0" using Suc.prems by auto
    then show ?thesis using False t by (auto simp: minimal_def)
  qed
qed

lemma add_int64_eq:
  "CBB_add_asn1_int64 env i k v = add_value env i k CBS_ASN1_INTEGER (add_list env k (der_int (sint v)))"
proof
  fix st
  show "CBB_add_asn1_int64 env i k v st =
      add_value env i k CBS_ASN1_INTEGER (add_list env k (der_int (sint v))) st"
  proof (cases "sint v \<ge> 0")
    case True
    then have "sint v = uint v" using unsigned_less [of v, where 'a = int] by (simp add: sint_64 split: if_splits)
    then show ?thesis using True by (simp add: CBB_add_asn1_int64_def add_uint64_eq)
  next
    case False
    let ?b = "le_bytes 8 v"
    have ne: "be_bytes 8 v \<noteq> []" by (simp flip: length_0_conv)
    have "negative (be_bytes 8 v)"
      using tc_val_bounds [OF ne] False by (simp add: tc_val_be_bytes split: if_splits)
    then have "128 \<le> uint (?b ! 7)"
      by (simp add: negative_def be_bytes_def le_bytes_8)
    then have c: "minimal (rev (take (Suc (int64_start ?b 7)) ?b))"
        "tc_val (rev (take (Suc (int64_start ?b 7)) ?b)) = sint v"
      using int64_start_content [of 7 ?b] tc_val_be_bytes [of v] by (simp_all add: be_bytes_def)
    then have "rev (take (Suc (int64_start ?b 7)) ?b) = der_int (sint v)"
      using der_int_tc_val by metis
    moreover have "Suc (int64_start ?b 7) \<le> length ?b" using int64_start_le [of ?b 7] by simp
    ultimately have "add_bytes_down env k ?b (int64_start ?b 7 + 1) = add_list env k (der_int (sint v))"
      by (simp add: fun_eq_iff add_bytes_down_eq del: add_bytes_down.simps)
    then show ?thesis using False
      by (simp del: add_bytes_down.simps add: CBB_add_asn1_int64_def Let_def add_value_def asn1_child_def and_then_opt_assoc
          add_bytes_down_eq)
  qed
qed

lemma der_int_nonempty: "der_int i \<noteq> []"
  using der_int_minimal [of i] by (auto simp: minimal_def)

lemma cbb_emits_int64:
  "i \<noteq> k \<Longrightarrow> cbb_emits env i {k} (CBB_add_asn1_int64 env i k v)
     (der_element CBS_ASN1_INTEGER (der_int (sint v)))"
  unfolding add_int64_eq using length_der_int64 [of v]
  by (intro cbb_emits_value cbb_emits_list der_int_nonempty) simp_all

lemma cbb_emits_uint64:
  "i \<noteq> k \<Longrightarrow> cbb_emits env i {k} (CBB_add_asn1_uint64 env i k v)
     (der_element CBS_ASN1_INTEGER (der_int (uint v)))"
  unfolding add_uint64_eq using length_der_uint64 [of v]
  by (intro cbb_emits_value cbb_emits_list der_int_nonempty) simp_all

section \<open>OCTET STRING and BOOLEAN\<close>

lemma cbb_emits_octet_string:
  "i \<noteq> k \<Longrightarrow> length data < 2 ^ 32 - 1 \<Longrightarrow>
     cbb_emits env i {k} (CBB_add_asn1_octet_string env i k data) (der_element CBS_ASN1_OCTETSTRING data)"
proof -
  have "CBB_add_asn1_octet_string env i k data = add_value env i k CBS_ASN1_OCTETSTRING (CBB_add_bytes env k data)"
    by (simp add: fun_eq_iff CBB_add_asn1_octet_string_def add_value_def asn1_child_def and_then_opt_assoc)
  then show "i \<noteq> k \<Longrightarrow> length data < 2 ^ 32 - 1 \<Longrightarrow> ?thesis"
    using cbb_emits_value [OF cbb_emits_bytes] by simp
qed

lemma cbb_emits_bool:
  "i \<noteq> k \<Longrightarrow> cbb_emits env i {k} (CBB_add_asn1_bool env i k v)
     (der_element CBS_ASN1_BOOLEAN [if v \<noteq> 0 then 0xFF else 0])"
proof -
  have "CBB_add_asn1_bool env i k v = add_value env i k CBS_ASN1_BOOLEAN
      (CBB_add_u8 env k (if v \<noteq> 0 then 0xFF else 0))"
    by (simp add: fun_eq_iff CBB_add_asn1_bool_def add_value_def asn1_child_def and_then_opt_assoc)
  then show "i \<noteq> k \<Longrightarrow> ?thesis"
    using cbb_emits_value [OF cbb_emits_ints(1)] by simp
qed

section \<open>From \<open>CBB_init\<close> to \<open>CBB_finish\<close>\<close>

text \<open>\<open>built env cap i f bs\<close>: a CBB of initial capacity \<open>cap\<close> to which \<open>f\<close> writes finishes with \<open>bs\<close>.\<close>

definition built :: "cbb_env \<Rightarrow> u64 \<Rightarrow> cbb_id \<Rightarrow> cbb_op \<Rightarrow> u8 list \<Rightarrow> bool" where
  "built env cap i f bs \<longleftrightarrow> (\<forall>st0. \<exists>st st1 st2 buf len.
     CBB_init env i cap st0 = (True, st) \<and> f st = Some (True, st1) \<and>
     CBB_finish env i True st1 = Some (Some (buf, len), st2) \<and>
     take (unat len) buf = bs \<and> unat len = length bs)"

lemma init_open:
  assumes "\<forall>c. alloc env c" "length bs < 2 ^ 64"
  obtains st where "CBB_init env i cap st0 = (True, st)" "open_cbb st i" "room env (st_base st) (length bs)"
    "contents (st_base st) = []" "\<not> cb_is_child (st_cbb st i)"
  using assms
  by (simp add: CBB_init_def Let_def cbb_init_def CBB_zero_def set_cbb_def set_base_def zero_cbb_def
      open_cbb_def buf_ok_def room_def contents_def)

lemma emits_built:
  assumes f: "cbb_emits env i own f bs" and a: "\<forall>c. alloc env c" "length bs < 2 ^ 64"
  shows "built env cap i f bs"
  unfolding built_def
proof
  fix st0
  obtain st where st: "CBB_init env i cap st0 = (True, st)" "open_cbb st i"
      "room env (st_base st) (length bs)" "contents (st_base st) = []" "\<not> cb_is_child (st_cbb st i)"
    by (rule init_open [OF a])
  obtain st1 st2 where f1: "f st = Some (True, st1)" "cbb_pending i own st st1"
      "CBB_flush env i st1 = Some (True, st2)" "open_cbb st2 i" "extends env bs (st_base st) (st_base st2)"
    using cbb_emitsE [OF f st(2,3)] by blast
  have c: "contents (st_base st2) = bs" using f1(5) st(4) by (simp add: extends_def)
  have nc: "\<not> cb_is_child (st_cbb st1 i)"
    using f1(2) st(5) by (auto simp: cbb_pending_def)
  have ok: "buf_ok (st_base st2)" using f1(4) by (simp add: open_cbb_def)
  have "CBB_finish env i True st1 =
      Some (Some (bb_buf (st_base st2), bb_len (st_base st2)), CBB_cleanup i st2)"
    using nc f1(3) by (simp add: CBB_finish_def)
  moreover have "take (unat (bb_len (st_base st2))) (bb_buf (st_base st2)) = bs"
    "unat (bb_len (st_base st2)) = length bs"
    using c length_contents [OF ok] by (simp_all add: contents_def)
  ultimately show "\<exists>st st1 st2 buf len. CBB_init env i cap st0 = (True, st) \<and> f st = Some (True, st1) \<and>
      CBB_finish env i True st1 = Some (Some (buf, len), st2) \<and>
      take (unat len) buf = bs \<and> unat len = length bs"
    using st(1) f1(1) by blast
qed

end
