(* ===== verification/Unicode.thy ===== *)
theory Unicode
  imports Cbb_Values
begin

text \<open>
  BoringSSL's \<open>crypto/bytestring/unicode.c\<close>: reading and writing one character in UTF-8, Latin-1,
  UCS-2 and UTF-32. \<open>utf8\<close> is the encoding of a number; reader and writer share it. In
  \<open>cbs_get_utf8\<close> the first byte selects the initial value, the number of bytes that follow and the
  least value such a sequence may have.
\<close>

section \<open>The code\<close>

definition is_valid_code_point :: "u32 \<Rightarrow> bool" where
  "is_valid_code_point v =
     (if v > 0x10ffff \<or> v AND 0xfffe = 0xfffe \<or> (v \<ge> 0xfdd0 \<and> v \<le> 0xfdef) \<or>
         (v \<ge> 0xd800 \<and> v \<le> 0xdfff)
      then False else True)"

definition BOTTOM_BITS :: "nat \<Rightarrow> u8" where
  "BOTTOM_BITS n = push_bit n 1 - 1"

definition TOP_BITS :: "nat \<Rightarrow> u8" where
  "TOP_BITS n = NOT (BOTTOM_BITS (8 - n))"

fun utf8_tail :: "nat \<Rightarrow> u32 \<Rightarrow> cbs \<Rightarrow> u32 parse" where
  "utf8_tail 0 v cbs = (Some v, cbs)"
| "utf8_tail (Suc len) v cbs =
     p_then (CBS_get_u8 cbs) (\<lambda>c cbs.
       if c AND TOP_BITS 2 \<noteq> TOP_BITS 1 then (None, cbs)
       else utf8_tail len (push_bit 6 v OR ucast (c AND BOTTOM_BITS 6)) cbs)"

definition cbs_get_utf8 :: "cbs \<Rightarrow> u32 parse" where
  "cbs_get_utf8 cbs =
     p_then (CBS_get_u8 cbs) (\<lambda>c cbs.
       if c \<le> 0x7f then (Some (ucast c), cbs)
       else case
         (if c AND TOP_BITS 3 = TOP_BITS 2 then Some (ucast (c AND BOTTOM_BITS 5), 1, 0x80)
          else if c AND TOP_BITS 4 = TOP_BITS 3 then Some (ucast (c AND BOTTOM_BITS 4), 2, 0x800)
          else if c AND TOP_BITS 5 = TOP_BITS 4 then Some (ucast (c AND BOTTOM_BITS 3), 3, 0x10000)
          else None) of
         None \<Rightarrow> (None, cbs)
       | Some (v, len, lower_bound) \<Rightarrow>
           p_then (utf8_tail len v cbs) (\<lambda>v cbs.
             if \<not> is_valid_code_point v \<or> v < lower_bound then (None, cbs)
             else (Some v, cbs)))"

definition cbs_get_latin1 :: "cbs \<Rightarrow> u32 parse" where
  "cbs_get_latin1 cbs = p_then (CBS_get_u8 cbs) (\<lambda>c cbs. (Some (ucast c), cbs))"

definition cbs_get_ucs2_be :: "cbs \<Rightarrow> u32 parse" where
  "cbs_get_ucs2_be cbs =
     p_then (CBS_get_u16 cbs) (\<lambda>c cbs.
       if \<not> is_valid_code_point (ucast c) then (None, cbs) else (Some (ucast c), cbs))"

definition cbs_get_utf32_be :: "cbs \<Rightarrow> u32 parse" where
  "cbs_get_utf32_be cbs =
     p_then (CBS_get_u32 cbs) (\<lambda>out cbs.
       if is_valid_code_point out then (Some out, cbs) else (None, cbs))"

definition cbb_get_utf8_len :: "u32 \<Rightarrow> nat" where
  "cbb_get_utf8_len u =
     (if u \<le> 0x7f then 1 else if u \<le> 0x7ff then 2 else if u \<le> 0xffff then 3 else 4)"

definition cbb_add_utf8 :: "cbb_env \<Rightarrow> cbb_id \<Rightarrow> u32 \<Rightarrow> cbb_op" where
  "cbb_add_utf8 env cbb u st =
     (let add = (\<lambda>b :: u32. CBB_add_u8 env cbb (ucast b));
          top = (\<lambda>n. ucast (TOP_BITS n) :: u32);
          low = (\<lambda>w :: u32. w AND ucast (BOTTOM_BITS 6))
      in if \<not> is_valid_code_point u then Some (False, st)
         else if u \<le> 0x7f then add u st
         else if u \<le> 0x7ff then
           and_then_opt (add (top 2 OR drop_bit 6 u) st)
             (add (top 1 OR low u))
         else if u \<le> 0xffff then
           and_then_opt (and_then_opt (add (top 3 OR drop_bit 12 u) st)
             (add (top 1 OR low (drop_bit 6 u))))
             (add (top 1 OR low u))
         else if u \<le> 0x10ffff then
           and_then_opt (and_then_opt (and_then_opt (add (top 4 OR drop_bit 18 u) st)
             (add (top 1 OR low (drop_bit 12 u))))
             (add (top 1 OR low (drop_bit 6 u))))
             (add (top 1 OR low u))
         else Some (False, st))"

definition cbb_add_latin1 :: "cbb_env \<Rightarrow> cbb_id \<Rightarrow> u32 \<Rightarrow> cbb_op" where
  "cbb_add_latin1 env cbb u st = (if u \<le> 0xff then CBB_add_u8 env cbb (ucast u) st else Some (False, st))"

definition cbb_add_ucs2_be :: "cbb_env \<Rightarrow> cbb_id \<Rightarrow> u32 \<Rightarrow> cbb_op" where
  "cbb_add_ucs2_be env cbb u st =
     (if u \<le> 0xffff \<and> is_valid_code_point u then CBB_add_u16 env cbb (ucast u) st
      else Some (False, st))"

definition cbb_add_utf32_be :: "cbb_env \<Rightarrow> cbb_id \<Rightarrow> u32 \<Rightarrow> cbb_op" where
  "cbb_add_utf32_be env cbb u st =
     (if is_valid_code_point u then CBB_add_u32 env cbb u st else Some (False, st))"

section \<open>Bytes as numbers\<close>

lemma BOTTOM_BITS_mask: "n \<le> 8 \<Longrightarrow> BOTTOM_BITS n = mask n"
  by (simp add: BOTTOM_BITS_def mask_eq_exp_minus_1 push_bit_eq_mult)

lemma unat_AND_mask: "unat (c AND mask n :: 'a::len word) = unat c mod 2 ^ n"
  unfolding take_bit_eq_mask [symmetric] unsigned_take_bit_eq by (rule take_bit_eq_mod)

lemma unat_AND_NOT_mask: "unat (c AND NOT (mask n) :: 'a::len word) = unat c div 2 ^ n * 2 ^ n"
proof -
  have "c AND NOT (mask n) = push_bit n (drop_bit n c)"
    by (rule bit_word_eqI) (auto simp: bit_simps)
  moreover have "unat c div 2 ^ n * 2 ^ n < 2 ^ LENGTH('a)"
    using unsigned_less [of c, where 'a = nat] order_le_less_trans [OF div_times_less_eq_dividend] by blast
  ultimately show ?thesis
    by (simp only: unsigned_push_bit_eq push_bit_eq_mult [where 'a = nat] unat_drop_bit take_bit_nat_eq_self)
qed

lemma unat_AND_BOTTOM: "n \<le> 8 \<Longrightarrow> unat (c AND BOTTOM_BITS n) = unat c mod 2 ^ n"
  by (simp add: BOTTOM_BITS_mask unat_AND_mask)

lemma top_bits_iff:
  assumes "n \<le> 7"
  shows "c AND TOP_BITS (Suc n) = TOP_BITS n \<longleftrightarrow> unat c div 2 ^ (7 - n) = 2 ^ Suc n - 2"
proof -
  have "n \<in> {0, 1, 2, 3, 4, 5, 6, 7}" using assms by auto
  moreover have "unat (c AND TOP_BITS (Suc n)) = unat c div 2 ^ (7 - n) * 2 ^ (7 - n)"
    using assms by (simp add: TOP_BITS_def BOTTOM_BITS_mask unat_AND_NOT_mask)
  ultimately show ?thesis
    by (auto simp: word_unat_eq_iff TOP_BITS_def BOTTOM_BITS_def)
qed

section \<open>The encoding\<close>

definition utf8 :: "nat \<Rightarrow> u8 list" where
  "utf8 n =
     (if n < 0x80 then [word_of_nat n]
      else if n < 0x800 then [word_of_nat (0xC0 + n div 64), word_of_nat (0x80 + n mod 64)]
      else if n < 0x10000 then
        [word_of_nat (0xE0 + n div 4096), word_of_nat (0x80 + n div 64 mod 64), word_of_nat (0x80 + n mod 64)]
      else [word_of_nat (0xF0 + n div 262144), word_of_nat (0x80 + n div 4096 mod 64),
        word_of_nat (0x80 + n div 64 mod 64), word_of_nat (0x80 + n mod 64)])"

lemma valid_bound: "is_valid_code_point v \<Longrightarrow> unat v \<le> 0x10ffff"
  by (auto simp: is_valid_code_point_def word_less_nat_alt not_less split: if_splits)

lemma byte_eq: "n < 256 \<Longrightarrow> b = (word_of_nat n :: u8) \<longleftrightarrow> unat b = n"
  by (auto simp: unat_of_nat_8)

lemma utf8_round:
  assumes "unat v < 2 ^ 26"
  shows "unat (push_bit 6 v OR ucast (c AND BOTTOM_BITS 6) :: u32) = unat v * 64 + unat c mod 64"
proof -
  have "unat (ucast (c AND BOTTOM_BITS 6) :: u32) = unat c mod 64"
    by (simp add: unsigned_ucast_eq unat_AND_BOTTOM take_bit_nat_eq_self)
  then show ?thesis
    using assms unat_or_shift [of "ucast (c AND BOTTOM_BITS 6) :: u32" 6 v] by simp
qed

definition utf8_acc :: "nat \<Rightarrow> u8 list \<Rightarrow> nat" where
  "utf8_acc a cs = foldl (\<lambda>a c. a * 64 + unat c mod 64) a cs"

lemma utf8_tail_Some:
  "k \<le> 4 \<Longrightarrow> unat v < 2 ^ (32 - 6 * k) \<Longrightarrow> utf8_tail k v s = (Some w, s') \<longleftrightarrow>
    (\<exists>cs. length cs = k \<and> s = cs @ s' \<and> (\<forall>c\<in>set cs. unat c div 64 = 2) \<and>
      unat w = utf8_acc (unat v) cs)"
proof (induction k arbitrary: v s)
  case 0
  then show ?case by (auto simp: utf8_acc_def word_unat_eq_iff)
next
  case (Suc k)
  have cont: "c AND TOP_BITS 2 = TOP_BITS 1 \<longleftrightarrow> unat c div 64 = 2" for c
    using top_bits_iff [of 1 c] unfolding One_nat_def [symmetric] Suc_1 by simp
  show ?case
  proof (cases s)
    case (Cons c t)
    have e: "32 - 6 * Suc k = 26 - 6 * k" by simp
    have lt: "unat v < 2 ^ (26 - 6 * k)" using Suc.prems(2) unfolding e .
    moreover have "(2 :: nat) ^ (26 - 6 * k) \<le> 2 ^ 26" by (intro power_increasing) auto
    ultimately have v: "unat v < 2 ^ 26" by linarith
    let ?v = "push_bit 6 v OR ucast (c AND BOTTOM_BITS 6) :: u32"
    have u: "unat ?v = unat v * 64 + unat c mod 64" by (rule utf8_round [OF v])
    have e: "32 - 6 * k = (26 - 6 * k) + 6" using Suc.prems(1) by simp
    have "(2 :: nat) ^ (32 - 6 * k) = 2 ^ (26 - 6 * k) * 64" unfolding e power_add by simp
    moreover have "unat v * 64 + unat c mod 64 < (unat v + 1) * 64" by simp
    moreover have "(unat v + 1) * 64 \<le> 2 ^ (26 - 6 * k) * 64"
      using lt by (intro mult_right_mono) auto
    ultimately have "unat ?v < 2 ^ (32 - 6 * k)" unfolding u by linarith
    then have IH: "utf8_tail k ?v t = (Some w, s') \<longleftrightarrow> (\<exists>cs. length cs = k \<and> t = cs @ s' \<and>
        (\<forall>c\<in>set cs. unat c div 64 = 2) \<and> unat w = utf8_acc (unat ?v) cs)"
      using Suc.prems by (intro Suc.IH) auto
    have acc: "utf8_acc (unat ?v) cs = utf8_acc (unat v) (c # cs)" for cs
      by (simp add: utf8_acc_def u)
    have "utf8_tail (Suc k) v s = (Some w, s') \<longleftrightarrow> unat c div 64 = 2 \<and> utf8_tail k ?v t = (Some w, s')"
      using cont [of c] by (simp add: Cons)
    also have "\<dots> \<longleftrightarrow> (\<exists>cs. length cs = Suc k \<and> s = cs @ s' \<and> (\<forall>c\<in>set cs. unat c div 64 = 2) \<and>
      unat w = utf8_acc (unat v) cs)"
      unfolding IH acc by (auto simp: Cons length_Suc_conv)
    finally show ?thesis .
  qed simp
qed

lemma div_iff_byte:
  assumes "k \<le> 8" "q < 2 ^ (8 - k)"
  shows "unat c div 2 ^ k = q \<longleftrightarrow> (\<exists>m < 2 ^ k. c = (word_of_nat (q * 2 ^ k + m) :: u8))"
proof -
  have "(q + 1) * 2 ^ k \<le> 2 ^ (8 - k) * 2 ^ k" using assms(2) by (intro mult_right_mono) auto
  also have "\<dots> = 256" using assms(1) by (simp flip: power_add)
  finally have lt: "q * 2 ^ k + m < 256" if "m < 2 ^ k" for m using that by simp
  show ?thesis
  proof
    assume q: "unat c div 2 ^ k = q"
    have "unat c = q * 2 ^ k + unat c mod 2 ^ k" using div_mult_mod_eq [of "unat c" "2 ^ k"] q by simp
    then show "\<exists>m < 2 ^ k. c = word_of_nat (q * 2 ^ k + m)"
      by (intro exI [of _ "unat c mod 2 ^ k"]) (metis byte_eq lt mod_less_divisor zero_less_power zero_less_numeral)
  next
    assume "\<exists>m < 2 ^ k. c = word_of_nat (q * 2 ^ k + m)"
    then show "unat c div 2 ^ k = q" using lt by (auto simp: unat_of_nat_8 simp del: of_nat_add)
  qed
qed

lemma cont_iff: "unat c div 64 = 2 \<longleftrightarrow> (\<exists>m<64. c = (word_of_nat (0x80 + m) :: u8))"
  using div_iff_byte [of 6 2 c] by simp

lemma top_bits:
  "c AND TOP_BITS 3 = TOP_BITS 2 \<longleftrightarrow> unat c div 32 = 6"
  "c AND TOP_BITS 4 = TOP_BITS 3 \<longleftrightarrow> unat c div 16 = 14"
  "c AND TOP_BITS 5 = TOP_BITS 4 \<longleftrightarrow> unat c div 8 = 30"
  using top_bits_iff [of 2 c] top_bits_iff [of 3 c] top_bits_iff [of 4 c]
  by (simp_all add: eval_nat_numeral(1)[symmetric])

lemma lead_iff:
  "c AND TOP_BITS 3 = TOP_BITS 2 \<longleftrightarrow> (\<exists>m<32. c = (word_of_nat (0xC0 + m) :: u8))"
  "c AND TOP_BITS 4 = TOP_BITS 3 \<longleftrightarrow> (\<exists>m<16. c = (word_of_nat (0xE0 + m) :: u8))"
  "c AND TOP_BITS 5 = TOP_BITS 4 \<longleftrightarrow> (\<exists>m<8. c = (word_of_nat (0xF0 + m) :: u8))"
  using div_iff_byte [of 5 6 c] div_iff_byte [of 4 14 c] div_iff_byte [of 3 30 c]
  by (simp_all add: top_bits)

text \<open>The sequences of two, three and four bytes.\<close>

lemma utf8_tails:
  "m < 32 \<Longrightarrow> utf8_tail 1 (word_of_nat m) t = (Some w, s') \<longleftrightarrow>
    (\<exists>m1<64. t = word_of_nat (0x80 + m1) # s' \<and> unat w = m * 64 + m1)"
  "m < 16 \<Longrightarrow> utf8_tail 2 (word_of_nat m) t = (Some w, s') \<longleftrightarrow>
    (\<exists>m1<64. \<exists>m2<64. t = word_of_nat (0x80 + m1) # word_of_nat (0x80 + m2) # s' \<and>
       unat w = (m * 64 + m1) * 64 + m2)"
  "m < 8 \<Longrightarrow> utf8_tail 3 (word_of_nat m) t = (Some w, s') \<longleftrightarrow>
    (\<exists>m1<64. \<exists>m2<64. \<exists>m3<64.
       t = word_of_nat (0x80 + m1) # word_of_nat (0x80 + m2) # word_of_nat (0x80 + m3) # s' \<and>
       unat w = ((m * 64 + m1) * 64 + m2) * 64 + m3)"
proof -
  have tail: "utf8_tail k (word_of_nat m) t = (Some w, s') \<longleftrightarrow>
    (\<exists>cs. length cs = k \<and> t = cs @ s' \<and> (\<forall>c\<in>set cs. \<exists>m<64. c = word_of_nat (0x80 + m)) \<and>
      unat w = utf8_acc m cs)" if "k \<le> 3" "m < 32" for k
  proof -
    have u: "unat (word_of_nat m :: u32) = m" using that by (intro unat_of_nat_32) simp
    have "(2 :: nat) ^ 14 \<le> 2 ^ (32 - 6 * k)" using that by (intro power_increasing) auto
    then have "m < 2 ^ (32 - 6 * k)" using that by simp
    then show ?thesis
      using that utf8_tail_Some [of k "word_of_nat m" t w s'] unfolding u cont_iff by simp
  qed
  have low: "unat (word_of_nat (0x80 + m) :: u8) mod 64 = m" if "m < 64" for m
  proof -
    have "(128 + m) mod 64 = m" using that mod_mult_self1 [of m 2 64] by (simp add: add.commute)
    then show ?thesis using that by (simp add: unat_of_nat_8 del: of_nat_add)
  qed
  have conv: "(\<exists>cs. length cs = 1 \<and> t = cs @ s' \<and> (\<forall>c\<in>set cs. \<exists>m<64. c = f m) \<and> P cs) \<longleftrightarrow>
      (\<exists>m1<64. t = f m1 # s' \<and> P [f m1])"
    "(\<exists>cs. length cs = 2 \<and> t = cs @ s' \<and> (\<forall>c\<in>set cs. \<exists>m<64. c = f m) \<and> P cs) \<longleftrightarrow>
      (\<exists>m1<64. \<exists>m2<64. t = f m1 # f m2 # s' \<and> P [f m1, f m2])"
    "(\<exists>cs. length cs = 3 \<and> t = cs @ s' \<and> (\<forall>c\<in>set cs. \<exists>m<64. c = f m) \<and> P cs) \<longleftrightarrow>
      (\<exists>m1<64. \<exists>m2<64. \<exists>m3<64. t = f m1 # f m2 # f m3 # s' \<and> P [f m1, f m2, f m3])"
    for f :: "nat \<Rightarrow> u8" and P
  proof -
    have len: "length cs = 1 \<longleftrightarrow> (\<exists>a. cs = [a])" "length cs = 2 \<longleftrightarrow> (\<exists>a b. cs = [a, b])"
      "length cs = 3 \<longleftrightarrow> (\<exists>a b c. cs = [a, b, c])" for cs :: "u8 list"
      by (auto simp: length_Suc_conv eval_nat_numeral)
    show "(\<exists>cs. length cs = 1 \<and> t = cs @ s' \<and> (\<forall>c\<in>set cs. \<exists>m<64. c = f m) \<and> P cs) \<longleftrightarrow>
      (\<exists>m1<64. t = f m1 # s' \<and> P [f m1])"
      "(\<exists>cs. length cs = 2 \<and> t = cs @ s' \<and> (\<forall>c\<in>set cs. \<exists>m<64. c = f m) \<and> P cs) \<longleftrightarrow>
      (\<exists>m1<64. \<exists>m2<64. t = f m1 # f m2 # s' \<and> P [f m1, f m2])"
      "(\<exists>cs. length cs = 3 \<and> t = cs @ s' \<and> (\<forall>c\<in>set cs. \<exists>m<64. c = f m) \<and> P cs) \<longleftrightarrow>
      (\<exists>m1<64. \<exists>m2<64. \<exists>m3<64. t = f m1 # f m2 # f m3 # s' \<and> P [f m1, f m2, f m3])"
      unfolding len by fastforce+
  qed
  show "m < 32 \<Longrightarrow> utf8_tail 1 (word_of_nat m) t = (Some w, s') \<longleftrightarrow>
    (\<exists>m1<64. t = word_of_nat (0x80 + m1) # s' \<and> unat w = m * 64 + m1)"
    using tail [of 1] low unfolding conv utf8_acc_def
    by (simp del: of_nat_add utf8_tail.simps cong: conj_cong)
  show "m < 16 \<Longrightarrow> utf8_tail 2 (word_of_nat m) t = (Some w, s') \<longleftrightarrow>
    (\<exists>m1<64. \<exists>m2<64. t = word_of_nat (0x80 + m1) # word_of_nat (0x80 + m2) # s' \<and>
       unat w = (m * 64 + m1) * 64 + m2)"
    using tail [of 2] low unfolding conv utf8_acc_def
    by (simp del: of_nat_add utf8_tail.simps cong: conj_cong)
  show "m < 8 \<Longrightarrow> utf8_tail 3 (word_of_nat m) t = (Some w, s') \<longleftrightarrow>
    (\<exists>m1<64. \<exists>m2<64. \<exists>m3<64.
       t = word_of_nat (0x80 + m1) # word_of_nat (0x80 + m2) # word_of_nat (0x80 + m3) # s' \<and>
       unat w = ((m * 64 + m1) * 64 + m2) * 64 + m3)"
    using tail [of 3] low unfolding conv utf8_acc_def
    by (simp del: of_nat_add utf8_tail.simps cong: conj_cong)
qed

lemma split64: "b < 64 \<Longrightarrow> (a * 64 + b) div 64 = a" "b < 64 \<Longrightarrow> (a * 64 + b) mod 64 = (b :: nat)"
  by simp_all

lemma utf8_forms:
  "n < 0x80 \<Longrightarrow> utf8 n = [word_of_nat n]"
  "m1 < 64 \<Longrightarrow> n = m * 64 + m1 \<Longrightarrow> m < 32 \<Longrightarrow> 0x80 \<le> n \<Longrightarrow>
     utf8 n = [word_of_nat (0xC0 + m), word_of_nat (0x80 + m1)]"
  "m1 < 64 \<Longrightarrow> m2 < 64 \<Longrightarrow> n = (m * 64 + m1) * 64 + m2 \<Longrightarrow> m < 16 \<Longrightarrow> 0x800 \<le> n \<Longrightarrow>
     utf8 n = [word_of_nat (0xE0 + m), word_of_nat (0x80 + m1), word_of_nat (0x80 + m2)]"
  "m1 < 64 \<Longrightarrow> m2 < 64 \<Longrightarrow> m3 < 64 \<Longrightarrow> n = ((m * 64 + m1) * 64 + m2) * 64 + m3 \<Longrightarrow> 0x10000 \<le> n \<Longrightarrow>
     utf8 n = [word_of_nat (0xF0 + m), word_of_nat (0x80 + m1), word_of_nat (0x80 + m2), word_of_nat (0x80 + m3)]"
proof -
  show "n < 0x80 \<Longrightarrow> utf8 n = [word_of_nat n]" by (simp add: utf8_def)
  show "m1 < 64 \<Longrightarrow> n = m * 64 + m1 \<Longrightarrow> m < 32 \<Longrightarrow> 0x80 \<le> n \<Longrightarrow>
     utf8 n = [word_of_nat (0xC0 + m), word_of_nat (0x80 + m1)]"
    by (simp add: utf8_def del: of_nat_add)
  show "m1 < 64 \<Longrightarrow> m2 < 64 \<Longrightarrow> n = (m * 64 + m1) * 64 + m2 \<Longrightarrow> m < 16 \<Longrightarrow> 0x800 \<le> n \<Longrightarrow>
     utf8 n = [word_of_nat (0xE0 + m), word_of_nat (0x80 + m1), word_of_nat (0x80 + m2)]"
  proof -
    assume *: "m1 < 64" "m2 < 64" "n = (m * 64 + m1) * 64 + m2" "m < 16" "0x800 \<le> n"
    then have "n div 64 = m * 64 + m1" "n mod 64 = m2" by (simp_all only: split64)
    moreover from this have "n div 4096 = m" "n div 64 mod 64 = m1"
      using *(1) div_mult2_eq [of n 64 64] by (simp_all add: split64)
    moreover have "n < 0x10000" using *(1,2,4) unfolding *(3) by simp
    ultimately show ?thesis using *(5) by (simp add: utf8_def del: of_nat_add)
  qed
  show "m1 < 64 \<Longrightarrow> m2 < 64 \<Longrightarrow> m3 < 64 \<Longrightarrow> n = ((m * 64 + m1) * 64 + m2) * 64 + m3 \<Longrightarrow> 0x10000 \<le> n \<Longrightarrow>
     utf8 n = [word_of_nat (0xF0 + m), word_of_nat (0x80 + m1), word_of_nat (0x80 + m2), word_of_nat (0x80 + m3)]"
  proof -
    assume *: "m1 < 64" "m2 < 64" "m3 < 64" "n = ((m * 64 + m1) * 64 + m2) * 64 + m3" "0x10000 \<le> n"
    then have "n div 64 = (m * 64 + m1) * 64 + m2" "n mod 64 = m3" by (simp_all only: split64)
    moreover from this have "n div 4096 = m * 64 + m1" "n div 64 mod 64 = m2"
      using *(2) div_mult2_eq [of n 64 64] split64 [of m2 "m * 64 + m1"] by simp_all
    moreover from this have "n div 262144 = m" "n div 4096 mod 64 = m1"
      using *(1) div_mult2_eq [of n 4096 64] by (simp_all add: split64)
    ultimately show ?thesis using *(5) by (simp add: utf8_def del: of_nat_add)
  qed
qed

text \<open>How the first byte directs the reader.\<close>

lemma utf8_leads:
  "unat c < 0x80 \<Longrightarrow> cbs_get_utf8 (c # t) = (Some (ucast c), t)"
  "m < 32 \<Longrightarrow> cbs_get_utf8 (word_of_nat (0xC0 + m) # t) = p_then (utf8_tail 1 (word_of_nat m) t) (\<lambda>v cbs.
     if \<not> is_valid_code_point v \<or> v < 0x80 then (None, cbs) else (Some v, cbs))"
  "m < 16 \<Longrightarrow> cbs_get_utf8 (word_of_nat (0xE0 + m) # t) = p_then (utf8_tail 2 (word_of_nat m) t) (\<lambda>v cbs.
     if \<not> is_valid_code_point v \<or> v < 0x800 then (None, cbs) else (Some v, cbs))"
  "m < 8 \<Longrightarrow> cbs_get_utf8 (word_of_nat (0xF0 + m) # t) = p_then (utf8_tail 3 (word_of_nat m) t) (\<lambda>v cbs.
     if \<not> is_valid_code_point v \<or> v < 0x10000 then (None, cbs) else (Some v, cbs))"
  "unat c < 0x80 \<or> (\<exists>m<32. c = word_of_nat (0xC0 + m)) \<or> (\<exists>m<16. c = word_of_nat (0xE0 + m)) \<or>
     (\<exists>m<8. c = word_of_nat (0xF0 + m)) \<or> cbs_get_utf8 (c # t) = (None, t)"
proof -
  have ascii: "c \<le> 0x7f \<longleftrightarrow> unat c < 0x80" for c :: u8 by (auto simp: word_le_nat_alt)
  have low: "ucast (word_of_nat (2 ^ k * q + m) AND BOTTOM_BITS k :: u8) = (word_of_nat m :: u32)"
    if "m < 2 ^ k" "k \<le> 8" "2 ^ k * q + m < 256" for k q m
  proof -
    have "unat (word_of_nat (2 ^ k * q + m) AND BOTTOM_BITS k :: u8) = m"
      using that by (simp add: unat_AND_BOTTOM unat_of_nat_8 del: of_nat_add)
    then have "ucast (word_of_nat (2 ^ k * q + m) AND BOTTOM_BITS k :: u8) = (word_of_nat m :: u32)"
      by (metis of_nat_unat)
    then show ?thesis .
  qed
  have div: "m < 32 \<Longrightarrow> (192 + m) div 32 = 6" "m < 16 \<Longrightarrow> (224 + m) div 32 = 7"
    "m < 16 \<Longrightarrow> (224 + m) div 16 = 14" "m < 8 \<Longrightarrow> (240 + m) div 32 = 7"
    "m < 8 \<Longrightarrow> (240 + m) div 16 = 15" "m < 8 \<Longrightarrow> (240 + m) div 8 = 30" for m :: nat
    by (rule div_nat_eqI; simp)+
  have unat: "unat (word_of_nat n :: u8) = n" if "n < 256" for n
    using that by (rule unat_of_nat_8)
  show "unat c < 0x80 \<Longrightarrow> cbs_get_utf8 (c # t) = (Some (ucast c), t)"
    by (simp add: cbs_get_utf8_def ascii)
  show "m < 32 \<Longrightarrow> cbs_get_utf8 (word_of_nat (0xC0 + m) # t) = p_then (utf8_tail 1 (word_of_nat m) t) (\<lambda>v cbs.
     if \<not> is_valid_code_point v \<or> v < 0x80 then (None, cbs) else (Some v, cbs))"
    using low [of m 5 6] by (simp add: cbs_get_utf8_def ascii top_bits unat div del: of_nat_add utf8_tail.simps)
  show "m < 16 \<Longrightarrow> cbs_get_utf8 (word_of_nat (0xE0 + m) # t) = p_then (utf8_tail 2 (word_of_nat m) t) (\<lambda>v cbs.
     if \<not> is_valid_code_point v \<or> v < 0x800 then (None, cbs) else (Some v, cbs))"
    using low [of m 4 14] by (simp add: cbs_get_utf8_def ascii top_bits unat div del: of_nat_add utf8_tail.simps)
  show "m < 8 \<Longrightarrow> cbs_get_utf8 (word_of_nat (0xF0 + m) # t) = p_then (utf8_tail 3 (word_of_nat m) t) (\<lambda>v cbs.
     if \<not> is_valid_code_point v \<or> v < 0x10000 then (None, cbs) else (Some v, cbs))"
    using low [of m 3 30] by (simp add: cbs_get_utf8_def ascii top_bits unat div del: of_nat_add utf8_tail.simps)
  show "unat c < 0x80 \<or> (\<exists>m<32. c = word_of_nat (0xC0 + m)) \<or> (\<exists>m<16. c = word_of_nat (0xE0 + m)) \<or>
     (\<exists>m<8. c = word_of_nat (0xF0 + m)) \<or> cbs_get_utf8 (c # t) = (None, t)"
    unfolding lead_iff [symmetric] by (simp add: cbs_get_utf8_def ascii)
qed

lemma unat_ucast_8_32: "unat (ucast (c :: u8) :: u32) = unat c"
  by (simp add: unsigned_ucast_eq) (rule take_bit_nat_eq_self, use unat_lt_8 [of c] in simp)

lemma valid_ascii:
  assumes "unat v < 0x80"
  shows "is_valid_code_point v"
proof -
  have "\<not> bit v 7" using bit_nat_less [of "unat v" 7 7] assms by (auto simp: bit_unsigned_iff)
  moreover have "bit (0xfffe :: u32) 7" by simp
  ultimately have "v AND 0xfffe \<noteq> 0xfffe" by (metis bit_and_iff)
  then show ?thesis using assms by (simp add: is_valid_code_point_def word_less_nat_alt word_le_nat_alt)
qed

lemma utf8_sound:
  assumes "cbs_get_utf8 s = (Some v, s')"
  shows "is_valid_code_point v \<and> s = utf8 (unat v) @ s'"
proof (cases s)
  case Nil
  then show ?thesis using assms by (simp add: cbs_get_utf8_def)
next
  case (Cons c t)
  consider "unat c < 0x80" | m where "m < 32" "c = word_of_nat (0xC0 + m)"
    | m where "m < 16" "c = word_of_nat (0xE0 + m)" | m where "m < 8" "c = word_of_nat (0xF0 + m)"
    using utf8_leads(5) [of c t] assms Cons by auto
  then show ?thesis
  proof cases
    case 1
    then show ?thesis using assms
      by (auto simp: Cons utf8_leads(1) utf8_forms(1) unat_ucast_8_32 intro: valid_ascii)
  next
    case 2
    then show ?thesis using assms utf8_forms(2)
      by (auto simp: Cons utf8_leads(2) p_then_Some utf8_tails(1) [unfolded One_nat_def] word_less_nat_alt not_less
          simp del: of_nat_add utf8_tail.simps split: if_splits)
  next
    case 3
    then show ?thesis using assms utf8_forms(3)
      by (auto simp: Cons utf8_leads(3) p_then_Some utf8_tails(2) word_less_nat_alt not_less
          simp del: of_nat_add utf8_tail.simps split: if_splits)
  next
    case 4
    then show ?thesis using assms utf8_forms(4)
      by (auto simp: Cons utf8_leads(4) p_then_Some utf8_tails(3) word_less_nat_alt not_less
          simp del: of_nat_add utf8_tail.simps split: if_splits)
  qed
qed

lemma digits64:
  "n div 64 * 64 + n mod 64 = n" "n div 4096 * 64 + n div 64 mod 64 = n div 64"
  "n div 262144 * 64 + n div 4096 mod 64 = (n :: nat) div 4096"
  using div_mult_mod_eq [of n 64] div_mult_mod_eq [of "n div 64" 64] div_mult_mod_eq [of "n div 4096" 64]
    div_mult2_eq [of n 64 64] div_mult2_eq [of n 4096 64] by simp_all

lemma utf8_complete:
  assumes "is_valid_code_point v"
  shows "cbs_get_utf8 (utf8 (unat v) @ s) = (Some v, s)"
proof -
  let ?n = "unat v"
  have n: "?n \<le> 0x10ffff" by (rule valid_bound [OF assms])
  consider "?n < 0x80" | "0x80 \<le> ?n" "?n < 0x800" | "0x800 \<le> ?n" "?n < 0x10000" | "0x10000 \<le> ?n" by linarith
  then show ?thesis
  proof cases
    case 1
    then have "unat (word_of_nat ?n :: u8) = ?n" by (intro unat_of_nat_8) simp
    moreover from this have "ucast (word_of_nat ?n :: u8) = v"
      by (simp add: word_unat_eq_iff unat_ucast_8_32)
    ultimately show ?thesis using 1 by (simp add: utf8_forms(1) utf8_leads(1))
  next
    case 2
    then have "?n div 64 < 32" by simp
    moreover have "utf8_tail 1 (word_of_nat (?n div 64)) (word_of_nat (0x80 + ?n mod 64) # s) = (Some v, s)"
      unfolding utf8_tails(1) [OF \<open>?n div 64 < 32\<close>] using digits64 [of ?n] by (intro exI [of _ "?n mod 64"]) simp
    ultimately show ?thesis using 2 assms
      by (simp add: utf8_def utf8_leads(2) word_less_nat_alt del: of_nat_add utf8_tail.simps)
  next
    case 3
    have "?n div 4096 < 16" using 3 by simp
    moreover have "utf8_tail 2 (word_of_nat (?n div 4096))
        (word_of_nat (0x80 + ?n div 64 mod 64) # word_of_nat (0x80 + ?n mod 64) # s) = (Some v, s)"
      unfolding utf8_tails(2) [OF \<open>?n div 4096 < 16\<close>]
      using digits64 [of ?n] by (intro exI [of _ "?n div 64 mod 64"] exI [of _ "?n mod 64"] conjI) simp_all
    ultimately show ?thesis using 3 assms
      by (simp add: utf8_def utf8_leads(3) word_less_nat_alt del: of_nat_add utf8_tail.simps)
  next
    case 4
    have "?n div 262144 < 8" using n by simp
    moreover have "utf8_tail 3 (word_of_nat (?n div 262144)) (word_of_nat (0x80 + ?n div 4096 mod 64) #
        word_of_nat (0x80 + ?n div 64 mod 64) # word_of_nat (0x80 + ?n mod 64) # s) = (Some v, s)"
      unfolding utf8_tails(3) [OF \<open>?n div 262144 < 8\<close>]
      using digits64 [of ?n]
      by (intro exI [of _ "?n div 4096 mod 64"] exI [of _ "?n div 64 mod 64"] exI [of _ "?n mod 64"] conjI)
        simp_all
    ultimately show ?thesis using 4 assms
      by (simp add: utf8_def utf8_leads(4) word_less_nat_alt del: of_nat_add utf8_tail.simps)
  qed
qed

interpretation utf8: codec cbs_get_utf8 "\<lambda>v. utf8 (unat v)" is_valid_code_point
  by unfold_locales (use utf8_sound utf8_complete in blast)

lemma ucast_8_iff: "ucast c = (v :: u32) \<longleftrightarrow> v \<le> 0xff \<and> c = (word_of_nat (unat v) :: u8)"
proof
  assume "ucast c = v"
  then have "unat v = unat c" using unat_ucast_8_32 [of c] by simp
  then show "v \<le> 0xff \<and> c = word_of_nat (unat v)"
    using unat_lt_8 [of c] by (simp add: word_le_nat_alt)
next
  assume v: "v \<le> 0xff \<and> c = word_of_nat (unat v)"
  then have "unat c = unat v" by (simp only: word_le_nat_alt) (intro unat_of_nat_8, simp)
  then show "ucast c = v" by (simp add: word_unat_eq_iff unat_ucast_8_32)
qed

lemma unat_lt_16: "unat (w :: u16) < 65536"
  using unsigned_less [of w, where 'a = nat] by simp

lemma ucast_16_iff: "ucast w = (v :: u32) \<longleftrightarrow> v \<le> 0xffff \<and> w = (ucast v :: u16)"
proof -
  have w: "unat (ucast w :: u32) = unat w" for w :: u16
    using unat_lt_16 [of w] by (simp add: unsigned_ucast_eq take_bit_nat_eq_self)
  have v: "unat (ucast v :: u16) = unat v" if "v \<le> 0xffff"
    using that by (simp add: unsigned_ucast_eq take_bit_nat_eq_self word_le_nat_alt)
  show ?thesis
    using unat_lt_16 [of w] w [of w] v by (auto simp: word_unat_eq_iff word_le_nat_alt)
qed

interpretation latin1: codec cbs_get_latin1 "\<lambda>v. [word_of_nat (unat v)]" "\<lambda>v. v \<le> 0xff"
  by unfold_locales (auto simp: cbs_get_latin1_def p_then_Some u8.read_iff ucast_8_iff simp del: of_nat_unat)

interpretation ucs2: codec cbs_get_ucs2_be "\<lambda>v. be_bytes 2 (ucast v :: u16)"
  "\<lambda>v. v \<le> 0xffff \<and> is_valid_code_point v"
proof
  show "cbs_get_ucs2_be s = (Some v, s') \<longleftrightarrow>
      (v \<le> 0xffff \<and> is_valid_code_point v) \<and> s = be_bytes 2 (ucast v :: u16) @ s'" for s v s'
  proof -
    have "cbs_get_ucs2_be s = (Some v, s') \<longleftrightarrow>
        (\<exists>w. s = be_bytes 2 (w :: u16) @ s' \<and> is_valid_code_point v \<and> ucast w = v)"
      by (auto simp: cbs_get_ucs2_be_def p_then_Some u16.read_iff split: if_splits)
    then show ?thesis by (auto simp: ucast_16_iff)
  qed
qed

interpretation utf32: codec cbs_get_utf32_be "be_bytes 4" is_valid_code_point
  by unfold_locales (auto simp: cbs_get_utf32_be_def p_then_Some u32.read_iff split: if_splits)

section \<open>Writing\<close>

lemma or_byte:
  assumes "unat w < 2 ^ k" "q * 2 ^ k + unat w < 256"
  shows "ucast (word_of_nat (q * 2 ^ k) OR w :: u32) = (word_of_nat (q * 2 ^ k + unat w) :: u8)"
proof -
  have "q \<le> q * 2 ^ k" by simp
  then have "q < 256" using assms(2) by linarith
  then have q: "unat (word_of_nat q :: u32) = q" by (intro unat_of_nat_32) simp
  have "word_of_nat (q * 2 ^ k) = (push_bit k (word_of_nat q) :: u32)"
    by (simp add: push_bit_eq_mult)
  then have "unat (word_of_nat (q * 2 ^ k) OR w) = q * 2 ^ k + unat w"
    using unat_or_shift [of w k "word_of_nat q"] assms q by simp
  then show ?thesis using assms(2)
    by (simp only: word_unat_eq_iff unsigned_ucast_eq) (simp add: unat_of_nat_8 take_bit_nat_eq_self del: of_nat_add)
qed

lemma top_bytes:
  "unat w < 32 \<Longrightarrow> ucast (ucast (TOP_BITS 2) OR w :: u32) = (word_of_nat (0xC0 + unat w) :: u8)"
  "unat w < 16 \<Longrightarrow> ucast (ucast (TOP_BITS 3) OR w :: u32) = (word_of_nat (0xE0 + unat w) :: u8)"
  "unat w < 8 \<Longrightarrow> ucast (ucast (TOP_BITS 4) OR w :: u32) = (word_of_nat (0xF0 + unat w) :: u8)"
  using or_byte [of w 5 6] or_byte [of w 4 14] or_byte [of w 3 30]
  by (simp_all add: TOP_BITS_def BOTTOM_BITS_def)

lemma cont_byte:
  "ucast (ucast (TOP_BITS 1) OR (w AND ucast (BOTTOM_BITS 6)) :: u32) = (word_of_nat (0x80 + unat w mod 64) :: u8)"
proof -
  define x where "x = w AND ucast (BOTTOM_BITS 6)"
  have "x = w AND mask 6" by (simp add: x_def BOTTOM_BITS_def mask_eq_exp_minus_1)
  then have u: "unat x = unat w mod 64" using unat_AND_mask [of w 6] by simp
  have "(ucast (TOP_BITS 1) :: u32) = word_of_nat (2 * 2 ^ 6)" by (simp add: TOP_BITS_def BOTTOM_BITS_def)
  then show ?thesis using or_byte [of x 6 2] u by (simp add: x_def [symmetric] del: of_nat_add)
qed

lemma appends_utf8:
  assumes "is_valid_code_point u"
  shows "appends env i (cbb_add_utf8 env i u) (utf8 (unat u))"
proof -
  let ?n = "unat u"
  have n: "?n \<le> 0x10ffff" by (rule valid_bound [OF assms])
  have seq: "appends env i (CBB_add_u8 env i a) [a]"
    "appends env i (\<lambda>st. and_then_opt (CBB_add_u8 env i a st) (CBB_add_u8 env i b)) [a, b]"
    "appends env i (\<lambda>st. and_then_opt (and_then_opt (CBB_add_u8 env i a st) (CBB_add_u8 env i b))
       (CBB_add_u8 env i c)) [a, b, c]"
    "appends env i (\<lambda>st. and_then_opt (and_then_opt (and_then_opt (CBB_add_u8 env i a st)
       (CBB_add_u8 env i b)) (CBB_add_u8 env i c)) (CBB_add_u8 env i d)) [a, b, c, d]" for a b c d
  proof -
    show 1: "appends env i (CBB_add_u8 env i a) [a]" for a by (rule appends_u8)
    show 2: "appends env i (\<lambda>st. and_then_opt (CBB_add_u8 env i a st) (CBB_add_u8 env i b)) [a, b]"
      using appends_seq [OF 1 1, of a b] by simp
    show 3: "appends env i (\<lambda>st. and_then_opt (and_then_opt (CBB_add_u8 env i a st) (CBB_add_u8 env i b))
       (CBB_add_u8 env i c)) [a, b, c]"
      using appends_seq [OF 2 1, of c] by simp
    show "appends env i (\<lambda>st. and_then_opt (and_then_opt (and_then_opt (CBB_add_u8 env i a st)
       (CBB_add_u8 env i b)) (CBB_add_u8 env i c)) (CBB_add_u8 env i d)) [a, b, c, d]"
      using appends_seq [OF 3 1, of d] by simp
  qed
  consider "?n < 0x80" | "0x80 \<le> ?n" "?n < 0x800" | "0x800 \<le> ?n" "?n < 0x10000" | "0x10000 \<le> ?n" by linarith
  then show ?thesis
  proof cases
    case 1
    then have "ucast u = (word_of_nat ?n :: u8)" by simp
    then have "cbb_add_utf8 env i u = CBB_add_u8 env i (word_of_nat ?n)"
      using 1 assms by (simp add: fun_eq_iff cbb_add_utf8_def word_le_nat_alt del: of_nat_unat)
    then show ?thesis using seq(1) 1 by (simp add: utf8_def)
  next
    case 2
    then have "cbb_add_utf8 env i u = (\<lambda>st. and_then_opt (CBB_add_u8 env i (word_of_nat (0xC0 + ?n div 64)) st)
        (CBB_add_u8 env i (word_of_nat (0x80 + ?n mod 64))))"
      using assms top_bytes(1) [of "drop_bit 6 u"]
      by (simp add: fun_eq_iff cbb_add_utf8_def word_le_nat_alt cont_byte [unfolded One_nat_def] unat_drop_bit del: of_nat_unat of_nat_add)
    then show ?thesis using seq(2) 2 by (simp add: utf8_def del: of_nat_add)
  next
    case 3
    then have "cbb_add_utf8 env i u = (\<lambda>st. and_then_opt (and_then_opt
        (CBB_add_u8 env i (word_of_nat (0xE0 + ?n div 4096)) st)
        (CBB_add_u8 env i (word_of_nat (0x80 + ?n div 64 mod 64))))
        (CBB_add_u8 env i (word_of_nat (0x80 + ?n mod 64))))"
      using assms top_bytes(2) [of "drop_bit 12 u"]
      by (simp add: fun_eq_iff cbb_add_utf8_def word_le_nat_alt cont_byte [unfolded One_nat_def] unat_drop_bit del: of_nat_unat of_nat_add)
    then show ?thesis using seq(3) 3 by (simp add: utf8_def del: of_nat_add)
  next
    case 4
    then have "cbb_add_utf8 env i u = (\<lambda>st. and_then_opt (and_then_opt (and_then_opt
        (CBB_add_u8 env i (word_of_nat (0xF0 + ?n div 262144)) st)
        (CBB_add_u8 env i (word_of_nat (0x80 + ?n div 4096 mod 64))))
        (CBB_add_u8 env i (word_of_nat (0x80 + ?n div 64 mod 64))))
        (CBB_add_u8 env i (word_of_nat (0x80 + ?n mod 64))))"
      using assms n top_bytes(3) [of "drop_bit 18 u"]
      by (simp add: fun_eq_iff cbb_add_utf8_def word_le_nat_alt cont_byte [unfolded One_nat_def] unat_drop_bit del: of_nat_unat of_nat_add)
    then show ?thesis using seq(4) 4 by (simp add: utf8_def del: of_nat_add)
  qed
qed

lemma flush_first_utf8:
  assumes "is_valid_code_point u"
  shows "flush_first env i (cbb_add_utf8 env i u)"
proof -
  have "u \<le> 0x10ffff" using valid_bound [OF assms] by (simp add: word_le_nat_alt)
  then show ?thesis
    using assms unfolding cbb_add_utf8_def [abs_def] Let_def
    by (intro flush_first_if flush_first_seq flush_first_u8) simp_all
qed

lemma cbb_emits_utf8: "is_valid_code_point u \<Longrightarrow> cbb_emits env i own (cbb_add_utf8 env i u) (utf8 (unat u))"
  by (intro appends_emits appends_utf8 flush_first_utf8)

lemma cbb_get_utf8_len_eq: "is_valid_code_point u \<Longrightarrow> cbb_get_utf8_len u = length (utf8 (unat u))"
  by (simp add: cbb_get_utf8_len_def utf8_def word_le_nat_alt)

lemma code_point_iff:
  "is_valid_code_point v \<longleftrightarrow> unat v \<le> 0x10ffff \<and> unat v mod 0x10000 < 0xfffe \<and>
     \<not> (0xfdd0 \<le> unat v \<and> unat v \<le> 0xfdef) \<and> \<not> (0xd800 \<le> unat v \<and> unat v \<le> 0xdfff)"
proof -
  have "(v AND 0xfffe) = (v AND mask 16) AND NOT (mask 1)"
    by (simp add: mask_eq_exp_minus_1 and.assoc)
  then have "unat (v AND 0xfffe) = unat v mod 0x10000 div 2 * 2"
    using unat_AND_NOT_mask [of "v AND mask 16" 1] unat_AND_mask [of v 16] by simp
  then have "v AND 0xfffe = 0xfffe \<longleftrightarrow> unat v mod 0x10000 div 2 * 2 = 0xfffe"
    by (simp add: word_unat_eq_iff)
  also have "\<dots> \<longleftrightarrow> 0xfffe \<le> unat v mod 0x10000"
  proof -
    have "x div 2 * 2 = 0xfffe \<longleftrightarrow> 0xfffe \<le> x" if "x < 0x10000" for x :: nat using that by auto
    then show ?thesis by simp
  qed
  finally show ?thesis
    by (auto simp: is_valid_code_point_def word_le_nat_alt word_less_nat_alt not_le not_less)
qed

end
