(* ===== verification/Oid.thy ===== *)
theory Oid
  imports Cbb_Values
begin

text \<open>
  Object identifiers: \<open>CBS_asn1_oid_to_text\<close> of \<open>cbs.c\<close> and \<open>CBB_add_asn1_oid_from_text\<close> of \<open>cbb.c\<close>,
  with the routines for decimal numbers. The two are inverse on the identifiers (\<open>valid_oid\<close>) whose
  components the code can hold, and accept nothing else.
\<close>

section \<open>The code\<close>

text \<open>\<open>add_decimal\<close> prints with \<open>%PRIu64\<close> into a buffer of \<open>DECIMAL_SIZE\<close> characters and the NUL;
  \<open>decimal\<close> is what the format produces.\<close>

definition DECIMAL_SIZE :: "nat \<Rightarrow> nat" where
  "DECIMAL_SIZE sizeof = (sizeof * 8 + 2) div 3 + 1"

fun decimal :: "nat \<Rightarrow> u8 list" where
  "decimal n = (if n < 10 then [word_of_nat (48 + n)] else decimal (n div 10) @ [word_of_nat (48 + n mod 10)])"

declare decimal.simps [simp del]

definition add_decimal :: "cbb_env \<Rightarrow> cbb_id \<Rightarrow> u64 \<Rightarrow> cbb_op" where
  "add_decimal env out v =
     (let buf = take (DECIMAL_SIZE 8) (decimal (unat v))
      in CBB_add_bytes env out (take (strlen buf) buf))"

text \<open>The loops of the two conversions take at least a byte of their input in every round.\<close>

lemma parse_base128_shorter: "parse_base128_integer s = (Some v, s') \<Longrightarrow> length s' < length s"
  using b128.consumes [of s v s'] by (simp add: base128_def)

function oid_to_text_loop :: "cbb_env \<Rightarrow> cbb_id \<Rightarrow> cbs \<Rightarrow> cbb_op" where
  "oid_to_text_loop env cbb copy st =
     (if CBS_len copy \<noteq> 0 then
        (case parse_base128_integer copy of (None, copy) \<Rightarrow> Some (False, st)
         | (Some v, copy) \<Rightarrow>
             and_then_opt (and_then_opt (CBB_add_u8 env cbb 46 st) (add_decimal env cbb v))
               (\<lambda>st. oid_to_text_loop env cbb copy st))
      else Some (True, st))"
  by auto
termination
  by (relation "measure (\<lambda>(env, cbb, copy, st). length copy)") (auto dest: parse_base128_shorter [OF sym])

declare oid_to_text_loop.simps [simp del]

definition CBS_asn1_oid_to_text ::
  "cbb_env \<Rightarrow> cbb_id \<Rightarrow> cbs \<Rightarrow> cbb_state \<Rightarrow> (u8 list option \<times> cbb_state) option" where
  "CBS_asn1_oid_to_text env cbb cbs st =
     (let err = (\<lambda>st. Some (None, CBB_cleanup cbb st)) in
      case CBB_init env cbb 32 st of (False, st) \<Rightarrow> err st
      | (True, st) \<Rightarrow>
          (case parse_base128_integer cbs of (None, copy) \<Rightarrow> err st
           | (Some v, copy) \<Rightarrow> do {
               (ok, st) \<leftarrow>
                 (if v \<ge> 80 then
                    and_then_opt (CBB_add_bytes env cbb [50, 46] st) (add_decimal env cbb (v - 80))
                  else
                    and_then_opt (and_then_opt (add_decimal env cbb (v div 40) st)
                      (CBB_add_u8 env cbb 46)) (add_decimal env cbb (v mod 40)));
               if \<not> ok then err st else do {
               (ok, st) \<leftarrow> and_then_opt (oid_to_text_loop env cbb copy st) (CBB_add_u8 env cbb 0);
               if \<not> ok then err st else do {
               (r, st) \<leftarrow> CBB_finish env cbb True st;
               (case r of None \<Rightarrow> err st | Some (txt, txt_len) \<Rightarrow> Some (Some txt, st)) }}}))"

fun dotted_loop :: "bool \<Rightarrow> u64 \<Rightarrow> cbs \<Rightarrow> u64 parse" where
  "dotted_loop seen_digit out [] = (if seen_digit then Some out else None, [])"
| "dotted_loop seen_digit out (u # cbs) =
     (if u = 46 \<and> CBS_len cbs > 0 then (if seen_digit then Some out else None, cbs)
      else if u < 48 \<or> u > 57 \<or> seen_digit \<and> out = 0 \<or> out > (- 1) div 10 \<or>
        out * 10 > (- 1) - (ucast u - 48) then (None, cbs)
      else dotted_loop True (out * 10 + (ucast u - 48)) cbs)"

definition parse_dotted_decimal :: "cbs \<Rightarrow> u64 parse" where
  "parse_dotted_decimal cbs = dotted_loop False 0 cbs"

lemma dotted_loop_shorter: "s \<noteq> [] \<Longrightarrow> length (snd (dotted_loop seen v s)) < length s"
  by (induction seen v s rule: dotted_loop.induct) (force simp: le_Suc_eq less_Suc_eq)+

lemma parse_dotted_shorter: "parse_dotted_decimal s = (Some v, s') \<Longrightarrow> length s' < length s"
  using dotted_loop_shorter [of s False 0] by (cases s) (auto simp: parse_dotted_decimal_def)

function oid_from_text_loop :: "cbb_env \<Rightarrow> cbb_id \<Rightarrow> cbs \<Rightarrow> cbb_op" where
  "oid_from_text_loop env cbb cbs st =
     (if CBS_len cbs > 0 then
        (case parse_dotted_decimal cbs of (None, cbs) \<Rightarrow> Some (False, st)
         | (Some a, cbs) \<Rightarrow>
             and_then_opt (add_base128_integer env cbb a st) (\<lambda>st. oid_from_text_loop env cbb cbs st))
      else Some (True, st))"
  by auto
termination
  by (relation "measure (\<lambda>(env, cbb, cbs, st). length cbs)") (auto dest: parse_dotted_shorter [OF sym])

declare oid_from_text_loop.simps [simp del]

definition CBB_add_asn1_oid_from_text :: "cbb_env \<Rightarrow> cbb_id \<Rightarrow> u8 list \<Rightarrow> cbb_op" where
  "CBB_add_asn1_oid_from_text env cbb text st =
     and_then_opt (CBB_flush env cbb st) (\<lambda>st.
       case parse_dotted_decimal (CBS_init text) of (None, cbs) \<Rightarrow> Some (False, st)
       | (Some a, cbs) \<Rightarrow>
         (case parse_dotted_decimal cbs of (None, cbs) \<Rightarrow> Some (False, st)
          | (Some b, cbs) \<Rightarrow>
              if a > 2 \<or> a < 2 \<and> b > 39 \<or> b > (- 1) - 80 then Some (False, st)
              else and_then_opt (add_base128_integer env cbb (40 * a + b) st)
                     (oid_from_text_loop env cbb cbs)))"

section \<open>Decimal numbers\<close>

lemma decimal_step: "10 \<le> n \<Longrightarrow> decimal n = decimal (n div 10) @ [word_of_nat (48 + n mod 10)]"
  by (subst decimal.simps) simp

lemma decimal_digit: "n < 10 \<Longrightarrow> decimal n = [word_of_nat (48 + n)]"
  by (subst decimal.simps) simp

lemma decimal_nonempty [simp]: "decimal n \<noteq> []"
  by (subst decimal.simps) simp

lemma unat_digit: "n < 10 \<Longrightarrow> unat (word_of_nat (48 + n) :: u8) = 48 + n"
  by (rule unat_of_nat_8) simp

lemma length_decimal: "n < 10 ^ k \<Longrightarrow> 0 < k \<Longrightarrow> length (decimal n) \<le> k"
proof (induction k arbitrary: n)
  case (Suc k)
  show ?case
  proof (cases "n < 10")
    case False
    then have "0 < k" using Suc.prems(1) by (cases k) auto
    then show ?thesis using False Suc.prems Suc.IH [of "n div 10"] by (simp add: decimal_step)
  qed (simp add: decimal_digit)
qed simp

lemma decimal_digits: "c \<in> set (decimal n) \<Longrightarrow> 48 \<le> unat c \<and> unat c \<le> 57"
proof (induction n rule: decimal.induct)
  case (1 n)
  then show ?case
    by (cases "n < 10") (auto simp: decimal_digit decimal_step unat_digit simp del: of_nat_add)
qed

lemma strlen_no_zero: "0 \<notin> set s \<Longrightarrow> strlen (s @ 0 # t) = length s" "0 \<notin> set s \<Longrightarrow> strlen s = length s"
  by (induction s) auto

lemma appends_decimal: "appends env i (add_decimal env i v) (decimal (unat v))"
proof -
  have "length (decimal (unat v)) \<le> 20"
    using unat_lt_64 [of v] by (intro length_decimal) simp_all
  moreover have "0 \<notin> set (decimal (unat v))" using decimal_digits [of 0] by force
  ultimately show ?thesis
    using appends_add_bytes [of env i "decimal (unat v)"]
    by (simp add: add_decimal_def [abs_def] DECIMAL_SIZE_def strlen_no_zero(2))
qed

section \<open>Parsing decimal numbers\<close>

lemma dotted_step:
  "dotted_loop seen v (u # s) =
     (if u = 46 \<and> s \<noteq> [] then (if seen then Some v else None, s)
      else if unat u < 48 \<or> 57 < unat u \<or> seen \<and> v = 0 \<or> 2 ^ 64 \<le> unat v * 10 + (unat u - 48)
      then (None, s) else dotted_loop True (word_of_nat (unat v * 10 + (unat u - 48))) s)"
proof (cases "unat u < 48 \<or> 57 < unat u")
  case True
  then show ?thesis by (auto simp: word_less_nat_alt CBS_len_def)
next
  case False
  define d where "d = unat u - 48"
  have u: "\<not> u < 48" "\<not> u > 57" using False by (auto simp: word_less_nat_alt)
  have "(ucast u :: u64) = word_of_nat (unat u)" by simp
  moreover have "unat u = 48 + d" using False by (simp add: d_def)
  ultimately have d: "(ucast u - 48 :: u64) = word_of_nat d" by simp
  have d9: "d \<le> 9" using False unfolding d_def by linarith
  then have ud: "unat (word_of_nat d :: u64) = d" by (intro unat_of_nat_64) simp
  have m1: "unat (- 1 :: u64) = 2 ^ 64 - 1"
    by (simp add: unsigned_minus_1_eq_mask mask_eq_exp_minus_1)
  then have sub: "unat ((- 1) - word_of_nat d :: u64) = 2 ^ 64 - 1 - d"
    using d9 ud by (subst unat_sub) (simp_all add: word_le_nat_alt)
  have mul: "unat (v * 10) = unat v * 10" if "unat v \<le> (2 ^ 64 - 1) div 10"
    using that by (simp add: unat_word_ariths)
  have "v > (- 1) div 10 \<or> v * 10 > (- 1) - word_of_nat d \<longleftrightarrow> 2 ^ 64 \<le> unat v * 10 + d"
  proof (cases "unat v \<le> (2 ^ 64 - 1) div 10")
    case True
    then show ?thesis
      using d9 by (simp add: word_less_nat_alt sub mul unat_div_distrib) linarith
  next
    case False
    then show ?thesis by (simp add: word_less_nat_alt unat_div_distrib)
  qed
  moreover have "v * 10 + word_of_nat d = (word_of_nat (unat v * 10 + d) :: u64)" by simp
  ultimately show ?thesis
    using False u by (simp add: CBS_len_def d flip: d_def)
qed

declare dotted_loop.simps(2) [simp del]

lemma dotted_decimal:
  "n < 2 ^ 64 \<Longrightarrow> dotted_loop False 0 (decimal n @ s) = dotted_loop True (word_of_nat n) s"
proof (induction n arbitrary: s rule: less_induct)
  case (less n)
  have digit: "\<not> (word_of_nat (48 + d) :: u8) = 46" if "d < 10" for d
  proof
    assume a: "(word_of_nat (48 + d) :: u8) = 46"
    show False using unat_digit [OF that] unfolding a by simp
  qed
  show ?case
  proof (cases "n < 10")
    case True
    then show ?thesis using digit [of n]
      by (simp add: decimal_digit dotted_step unat_digit del: of_nat_add)
  next
    case False
    then have n: "unat (word_of_nat (n div 10) :: u64) = n div 10"
      using less.prems by (intro unat_of_nat_64) simp
    moreover from this have "word_of_nat (n div 10) \<noteq> (0 :: u64)" using False by auto
    moreover have "dotted_loop False 0 (decimal n @ s) =
        dotted_loop True (word_of_nat (n div 10)) (word_of_nat (48 + n mod 10) # s)"
      using False less by (simp add: decimal_step del: of_nat_add)
    moreover have "\<not> 9 < n mod 10" using mod_less_divisor [of 10 n] by linarith
    ultimately show ?thesis
      using less.prems digit [of "n mod 10"]
      by (simp add: dotted_step unat_digit del: of_nat_add of_nat_unat)
  qed
qed

text \<open>What ends a component: the end of the string, or a dot that is not the last character.\<close>

definition component_end :: "cbs \<Rightarrow> cbs \<Rightarrow> bool" where
  "component_end t s' \<longleftrightarrow> t = [] \<and> s' = [] \<or> t = 46 # s' \<and> s' \<noteq> []"

lemma dotted_loop_sound:
  "dotted_loop True v s = (Some w, s') \<Longrightarrow> \<exists>ds t. s = ds @ t \<and> component_end t s' \<and>
     (\<forall>n. decimal n = decimal (unat v) \<longrightarrow> decimal (unat w) = decimal n @ ds)"
proof (induction s arbitrary: v)
  case Nil
  then show ?case by (simp add: component_end_def)
next
  case (Cons u s)
  show ?case
  proof (cases "u = 46 \<and> s \<noteq> []")
    case True
    then show ?thesis using Cons.prems
      by (intro exI [of _ "[]"] exI [of _ "u # s"]) (auto simp: dotted_step component_end_def)
  next
    case False
    define k where "k = unat v * 10 + (unat u - 48)"
    have *: "48 \<le> unat u" "unat u \<le> 57" "v \<noteq> 0" "k < 2 ^ 64"
        "dotted_loop True (word_of_nat k) s = (Some w, s')"
      using Cons.prems False unfolding dotted_step k_def [symmetric] by (auto split: if_splits)
    have k: "unat (word_of_nat k :: u64) = k" using *(4) by (intro unat_of_nat_64) simp
    have v: "0 < unat v" using *(3) by (metis unsigned_eq_0_iff neq0_conv)
    obtain ds t where t: "s = ds @ t" "component_end t s'" "decimal (unat w) = decimal k @ ds"
      using Cons.IH [OF *(5)] unfolding k by blast
    have "unat u - 48 < 10" using *(2) by linarith
    then have "k mod 10 = unat u - 48" "k div 10 = unat v" "10 \<le> k"
      using v unfolding k_def by simp_all
    then have "decimal k = decimal (unat v) @ [u]"
      using *(1) by (simp add: decimal_step del: of_nat_add)
    then show ?thesis using t by (intro exI [of _ "u # ds"] exI [of _ t]) auto
  qed
qed

lemma parse_dotted_iff:
  "parse_dotted_decimal s = (Some v, s') \<longleftrightarrow> (\<exists>t. s = decimal (unat v) @ t \<and> component_end t s')"
proof
  assume "parse_dotted_decimal s = (Some v, s')"
  then have l: "dotted_loop False 0 s = (Some v, s')" by (simp add: parse_dotted_decimal_def)
  then obtain u r where s: "s = u # r" by (cases s) auto
  define k where "k = unat u - 48"
  have *: "48 \<le> unat u" "unat u \<le> 57" "dotted_loop True (word_of_nat k) r = (Some v, s')"
    using l unfolding s dotted_step by (auto simp: k_def split: if_splits)
  have k: "k < 10" "unat (word_of_nat k :: u64) = k"
    using *(2) by (simp add: k_def, intro unat_of_nat_64, simp add: k_def)
  obtain ds t where t: "r = ds @ t" "component_end t s'" "decimal (unat v) = decimal k @ ds"
    using dotted_loop_sound [OF *(3)] unfolding k(2) by blast
  have "decimal k = [u]" using *(1) k(1) by (simp add: decimal_digit k_def del: of_nat_add)
  then show "\<exists>t. s = decimal (unat v) @ t \<and> component_end t s'" using t s by auto
next
  assume "\<exists>t. s = decimal (unat v) @ t \<and> component_end t s'"
  then obtain t where "s = decimal (unat v) @ t" "component_end t s'" by blast
  then show "parse_dotted_decimal s = (Some v, s')"
    using dotted_decimal [of "unat v" t] unat_lt_64 [of v]
    by (auto simp: parse_dotted_decimal_def component_end_def dotted_step)
qed

section \<open>Object identifiers\<close>

text \<open>An object identifier is the list of its components; \<open>oid_text\<close> is its dotted notation and
  \<open>oid_der\<close> the contents of its DER element, X.690 section 8.19.\<close>

fun oid_text :: "nat list \<Rightarrow> u8 list" where
  "oid_text [] = []"
| "oid_text (a # as) = decimal a @ (if as = [] then [] else 46 # oid_text as)"

fun oid_der :: "nat list \<Rightarrow> u8 list" where
  "oid_der (a # b # cs) = base128 (40 * a + b) @ concat (map base128 cs)"
| "oid_der _ = []"

fun valid_oid :: "nat list \<Rightarrow> bool" where
  "valid_oid (a # b # cs) = (a \<le> 2 \<and> (a < 2 \<longrightarrow> b \<le> 39) \<and> b + 80 < 2 ^ 64 \<and> (\<forall>c\<in>set cs. c < 2 ^ 64))"
| "valid_oid _ = False"

lemma oid_text_eq_Nil [simp]: "oid_text as = [] \<longleftrightarrow> as = []"
  by (cases as) auto

text \<open>One component of the text, and the components behind it.\<close>

lemma parse_oid_text:
  "a < 2 ^ 64 \<Longrightarrow> parse_dotted_decimal (oid_text (a # as)) = (Some (word_of_nat a), oid_text as)"
  unfolding parse_dotted_iff component_end_def by (auto simp: unat_of_nat_64)

lemma oid_text_components:
  "s \<noteq> [] \<Longrightarrow> parse_dotted_decimal s = (Some v, s') \<Longrightarrow> s' = oid_text as \<Longrightarrow> s = oid_text (unat v # as)"
  unfolding parse_dotted_iff component_end_def by auto

subsection \<open>From text\<close>

lemma oid_from_text_loop_Nil [simp]: "oid_from_text_loop env i [] st = Some (True, st)"
  by (simp add: oid_from_text_loop.simps CBS_len_def)

lemma appends_oid_components:
  "\<forall>c\<in>set cs. c < 2 ^ 64 \<Longrightarrow>
    appends env i (oid_from_text_loop env i (oid_text cs)) (concat (map base128 cs))"
proof (induction cs)
  case Nil
  then show ?case using appends_nothing by (simp add: appends_def)
next
  case (Cons c cs)
  have "oid_from_text_loop env i (oid_text (c # cs)) = (\<lambda>st. and_then_opt
      (add_base128_integer env i (word_of_nat c) st) (oid_from_text_loop env i (oid_text cs)))"
  proof
    fix st
    have "parse_dotted_decimal (oid_text (c # cs)) = (Some (word_of_nat c), oid_text cs)"
      using Cons.prems by (intro parse_oid_text) simp
    moreover have "0 < CBS_len (oid_text (c # cs))"
      unfolding CBS_len_def length_greater_0_conv by (simp only: oid_text_eq_Nil) simp
    ultimately show "oid_from_text_loop env i (oid_text (c # cs)) st = and_then_opt
        (add_base128_integer env i (word_of_nat c) st) (oid_from_text_loop env i (oid_text cs))"
      by (subst oid_from_text_loop.simps) (simp del: oid_text.simps(2))
  qed
  moreover have "appends env i (add_base128_integer env i (word_of_nat c)) (base128 c)"
    using appends_base128 [of env i "word_of_nat c"] Cons.prems by (simp add: unat_of_nat_64)
  ultimately show ?case using appends_seq [OF _ Cons.IH] Cons.prems by simp
qed

lemma oid_from_text_loop_sound:
  "oid_from_text_loop env i s st = Some (True, st') \<Longrightarrow> \<exists>cs. s = oid_text cs \<and> (\<forall>c\<in>set cs. c < 2 ^ 64)"
proof (induction env i s st rule: oid_from_text_loop.induct)
  case (1 env i s st)
  show ?case
  proof (cases "s = []")
    case False
    then obtain v s1 st1 where v: "parse_dotted_decimal s = (Some v, s1)"
        "add_base128_integer env i v st = Some (True, st1)" "oid_from_text_loop env i s1 st1 = Some (True, st')"
      using 1(2) by (subst (asm) oid_from_text_loop.simps)
        (auto simp: CBS_len_def and_then_opt_True split: prod.splits option.splits)
    have "0 < CBS_len s" using False by (simp add: CBS_len_def)
    then have "\<exists>cs. s1 = oid_text cs \<and> (\<forall>c\<in>set cs. c < 2 ^ 64)"
      using 1(1) v(1,3) by metis
    then obtain cs where "s1 = oid_text cs" "\<forall>c\<in>set cs. c < 2 ^ 64" by blast
    then show ?thesis using oid_text_components [OF False v(1)] unat_lt_64 [of v]
      by (intro exI [of _ "unat v # cs"]) simp
  qed (auto intro: exI [of _ "[]"])
qed

lemma cbb_emits_oid:
  assumes "valid_oid arcs"
  shows "cbb_emits env i own (CBB_add_asn1_oid_from_text env i (oid_text arcs)) (oid_der arcs)"
proof -
  obtain a b cs where arcs: "arcs = a # b # cs" using assms by (cases arcs rule: valid_oid.cases) auto
  have ab: "a \<le> 2" "a < 2 \<longrightarrow> b \<le> 39" "b + 80 < 2 ^ 64" "\<forall>c\<in>set cs. c < 2 ^ 64"
    using assms by (simp_all add: arcs)
  define A B where "A = (word_of_nat a :: u64)" and "B = (word_of_nat b :: u64)"
  have u: "unat A = a" "unat B = b" unfolding A_def B_def using ab by (intro unat_of_nat_64; simp)+
  have sum: "40 * A + B = word_of_nat (40 * a + b)" by (simp add: A_def B_def)
  have "unat (40 * A + B) = 40 * a + b"
    unfolding sum using ab by (intro unat_of_nat_64, cases "a < 2") auto
  then have e: "appends env i (add_base128_integer env i (40 * A + B)) (base128 (40 * a + b))"
    using appends_base128 [of env i "40 * A + B"] by simp
  have m: "unat (- 1 - 80 :: u64) = 2 ^ 64 - 81" by simp
  have guards: "\<not> (A > 2 \<or> A < 2 \<and> B > 39 \<or> B > - 1 - 80)"
    using ab u unfolding word_less_nat_alt m by auto
  have p: "parse_dotted_decimal (oid_text arcs) = (Some A, oid_text (b # cs))"
    "parse_dotted_decimal (oid_text (b # cs)) = (Some B, oid_text cs)"
    unfolding arcs A_def B_def using ab by (intro parse_oid_text; simp)+
  have "CBB_add_asn1_oid_from_text env i (oid_text arcs) = (\<lambda>st. and_then_opt (CBB_flush env i st)
      (\<lambda>st. and_then_opt (add_base128_integer env i (40 * A + B) st) (oid_from_text_loop env i (oid_text cs))))"
    using guards by (cases "A < 2") (simp_all add: fun_eq_iff CBB_add_asn1_oid_from_text_def CBS_init_def p del: oid_text.simps(2))
  moreover have "appends env i (\<lambda>st. and_then_opt (CBB_flush env i st)
      (\<lambda>st. and_then_opt (add_base128_integer env i (40 * A + B) st) (oid_from_text_loop env i (oid_text cs))))
      (oid_der arcs)"
    using appends_seq [OF e appends_oid_components [OF ab(4)]] unfolding arcs by (intro appends_flush) simp
  ultimately show ?thesis using appends_emits flush_first_and_then by metis
qed

lemma oid_from_text_sound:
  assumes "CBB_add_asn1_oid_from_text env i text st = Some (True, st')"
  shows "\<exists>arcs. valid_oid arcs \<and> text = oid_text arcs"
proof -
  obtain a s1 b s2 st1 st2 where p: "parse_dotted_decimal text = (Some a, s1)"
      "parse_dotted_decimal s1 = (Some b, s2)" "\<not> (a > 2 \<or> a < 2 \<and> b > 39 \<or> b > - 1 - 80)"
      "oid_from_text_loop env i s2 st2 = Some (True, st')"
  proof (cases "parse_dotted_decimal text")
    case (Pair ra s1)
    then obtain a where a: "ra = Some a" using assms
      by (cases ra) (auto simp: CBB_add_asn1_oid_from_text_def and_then_opt_True CBS_init_def)
    obtain rb s2 where rb: "parse_dotted_decimal s1 = (rb, s2)" by (cases "parse_dotted_decimal s1")
    obtain b where b: "rb = Some b" using assms Pair a rb
      by (cases rb) (auto simp: CBB_add_asn1_oid_from_text_def and_then_opt_True CBS_init_def)
    then show ?thesis using that assms Pair a rb
      by (auto simp: CBB_add_asn1_oid_from_text_def and_then_opt_True CBS_init_def split: if_splits)
  qed
  obtain cs where cs: "s2 = oid_text cs" "\<forall>c\<in>set cs. c < 2 ^ 64"
    using oid_from_text_loop_sound [OF p(4)] by blast
  have "s1 \<noteq> []" "text \<noteq> []" using p(1,2) by (auto simp: parse_dotted_decimal_def)
  then have "text = oid_text (unat a # unat b # cs)"
    using oid_text_components p(1,2) cs(1) by metis
  moreover have "unat (- 1 - 80 :: u64) = 2 ^ 64 - 81" by simp
  then have "valid_oid (unat a # unat b # cs)"
    using p(3) cs(2) by (auto simp: word_less_nat_alt)
  ultimately show ?thesis by blast
qed

subsection \<open>To text\<close>

lemma appends_text_components:
  "\<forall>c\<in>set cs. c < 2 ^ 64 \<Longrightarrow> appends env i (oid_to_text_loop env i (concat (map base128 cs)))
     (concat (map (\<lambda>c. 46 # decimal c) cs))"
proof (induction cs)
  case Nil
  then show ?case using appends_nothing by (simp add: appends_def oid_to_text_loop.simps CBS_len_def)
next
  case (Cons c cs)
  define v where "v = (word_of_nat c :: u64)"
  have v: "unat v = c" unfolding v_def using Cons.prems by (intro unat_of_nat_64) simp
  have "parse_base128_integer (base128 c @ concat (map base128 cs)) = (Some v, concat (map base128 cs))"
    using b128.read_enc [of v] v by simp
  moreover have "base128 c \<noteq> []" by (simp add: base128_def)
  ultimately have "oid_to_text_loop env i (concat (map base128 (c # cs))) = (\<lambda>st. and_then_opt
      (and_then_opt (CBB_add_u8 env i 46 st) (add_decimal env i v)) (oid_to_text_loop env i (concat (map base128 cs))))"
    by (intro ext, subst oid_to_text_loop.simps) (simp add: CBS_len_def)
  moreover have seq: "appends env i (\<lambda>st. and_then_opt (CBB_add_u8 env i 46 st) (add_decimal env i v)) (46 # decimal c)"
    using appends_seq [OF appends_u8 appends_decimal, of env i 46 v] v by simp
  ultimately show ?case using appends_seq [OF seq Cons.IH] Cons.prems by simp
qed

lemma oid_text_dots: "oid_text (a # as) = decimal a @ concat (map (\<lambda>c. 46 # decimal c) as)"
  by (induction as arbitrary: a) auto

lemma no_zero_decimal: "0 \<notin> set (decimal n)"
  using decimal_digits [of 0 n] by auto

lemma no_zero_oid_text: "0 \<notin> set (oid_text as)"
  by (induction as) (auto simp: no_zero_decimal)

text \<open>The first two components.\<close>

definition first_arcs :: "cbb_env \<Rightarrow> cbb_id \<Rightarrow> u64 \<Rightarrow> cbb_op" where
  "first_arcs env i v st =
     (if v \<ge> 80 then and_then_opt (CBB_add_bytes env i [50, 46] st) (add_decimal env i (v - 80))
      else and_then_opt (and_then_opt (add_decimal env i (v div 40) st) (CBB_add_u8 env i 46))
             (add_decimal env i (v mod 40)))"

lemma appends_first_arcs:
  assumes "a \<le> 2" "a < 2 \<longrightarrow> b \<le> 39" "unat v = 40 * a + b"
  shows "appends env i (first_arcs env i v) (decimal a @ 46 # decimal b)"
proof (cases "a < 2")
  case True
  have "unat (v div 40) = a" "unat (v mod 40) = b"
    using assms True by (simp_all add: unat_div_distrib unat_mod_distrib)
  moreover have "\<not> v \<ge> 80" using assms True by (simp add: word_le_nat_alt)
  moreover have "appends env i (\<lambda>st. and_then_opt (and_then_opt (add_decimal env i (v div 40) st) (CBB_add_u8 env i 46))
      (add_decimal env i (v mod 40))) ((decimal (unat (v div 40)) @ [46]) @ decimal (unat (v mod 40)))"
    by (intro appends_seq appends_decimal appends_u8)
  ultimately show ?thesis by (simp add: first_arcs_def [abs_def])
next
  case False
  then have a: "a = 2" using assms(1) by simp
  have ge: "v \<ge> 80" using assms a by (simp add: word_le_nat_alt)
  then have "unat (v - 80) = b" using assms a by (simp add: unat_sub)
  moreover have "decimal 2 = [50]" by (simp add: decimal_digit)
  moreover have "appends env i (\<lambda>st. and_then_opt (CBB_add_bytes env i [50, 46] st) (add_decimal env i (v - 80)))
      ([50, 46] @ decimal (unat (v - 80)))"
    by (intro appends_seq appends_decimal appends_add_bytes)
  ultimately show ?thesis using ge a by (simp add: first_arcs_def [abs_def])
qed

lemma flush_first_first_arcs: "flush_first env i (first_arcs env i v)"
  unfolding first_arcs_def [abs_def] add_decimal_def Let_def
  by (intro flush_first_if flush_first_seq flush_first_bytes)

lemma oid_to_text_ok:
  assumes a: "\<forall>c. alloc env c" and v: "valid_oid arcs" and len: "length (oid_text arcs) < 2 ^ 64 - 1"
  shows "\<exists>txt st'. CBS_asn1_oid_to_text env i (oid_der arcs) st = Some (Some txt, st') \<and>
    take (strlen txt) txt = oid_text arcs"
proof -
  obtain a b cs where arcs: "arcs = a # b # cs" using v by (cases arcs rule: valid_oid.cases) auto
  have ab: "a \<le> 2" "a < 2 \<longrightarrow> b \<le> 39" "b + 80 < 2 ^ 64" "\<forall>c\<in>set cs. c < 2 ^ 64"
    using v by (simp_all add: arcs)
  define w where "w = (word_of_nat (40 * a + b) :: u64)"
  have w: "unat w = 40 * a + b"
    unfolding w_def using ab by (intro unat_of_nat_64, cases "a < 2") auto
  define rest where "rest = concat (map base128 cs)"
  define op where "op st = and_then_opt (first_arcs env i w st)
    (\<lambda>st. and_then_opt (oid_to_text_loop env i rest st) (CBB_add_u8 env i 0))" for st
  have p: "parse_base128_integer (oid_der arcs) = (Some w, rest)"
    using b128.read_enc [of w] by (simp add: arcs w rest_def)
  have "appends env i op (oid_text arcs @ [0])"
    using appends_seq [OF appends_first_arcs [OF ab(1,2) w] appends_seq [OF appends_text_components [OF ab(4)] appends_u8]]
    by (simp add: op_def [abs_def] rest_def arcs oid_text_dots del: oid_text.simps(2))
  moreover have "flush_first env i op"
    unfolding op_def [abs_def] by (intro flush_first_seq flush_first_first_arcs)
  ultimately have "built env 32 i op (oid_text arcs @ [0])"
    using len by (intro emits_built [OF appends_emits a]) simp_all
  then obtain st1 st2 st3 buf l where f: "CBB_init env i 32 st = (True, st1)" "op st1 = Some (True, st2)"
      "CBB_finish env i True st2 = Some (Some (buf, l), st3)" "take (unat l) buf = oid_text arcs @ [0]"
    unfolding built_def by blast
  have "CBS_asn1_oid_to_text env i (oid_der arcs) st = Some (Some buf, st3)"
    using f(1-3) p by (auto simp: CBS_asn1_oid_to_text_def op_def and_then_opt_True first_arcs_def [symmetric])
  moreover have "take (strlen buf) buf = oid_text arcs"
  proof -
    have "buf = oid_text arcs @ 0 # drop (unat l) buf"
      using append_take_drop_id [of "unat l" buf] f(4) by simp
    then show ?thesis using strlen_no_zero(1) [OF no_zero_oid_text] by (metis append_eq_conv_conj)
  qed
  ultimately show ?thesis by blast
qed

text \<open>What is turned into text is an object identifier.\<close>

lemma oid_to_text_loop_sound:
  "oid_to_text_loop env i s st = Some (True, st') \<Longrightarrow>
    \<exists>cs. s = concat (map base128 cs) \<and> (\<forall>c\<in>set cs. c < 2 ^ 64)"
proof (induction env i s st rule: oid_to_text_loop.induct)
  case (1 env i s st)
  show ?case
  proof (cases "s = []")
    case False
    then have len: "CBS_len s \<noteq> 0" by (simp add: CBS_len_def)
    obtain r s1 where p: "parse_base128_integer s = (r, s1)" by (cases "parse_base128_integer s")
    then obtain v where r: "r = Some v"
      using 1(2) len by (cases r) (auto simp: oid_to_text_loop.simps [of env i s])
    then obtain st1 where "oid_to_text_loop env i s1 st1 = Some (True, st')"
      using 1(2) len p by (auto simp: oid_to_text_loop.simps [of env i s] and_then_opt_True)
    then obtain cs where cs: "s1 = concat (map base128 cs)" "\<forall>c\<in>set cs. c < 2 ^ 64"
      using 1(1) len p r by metis
    have "s = base128 (unat v) @ s1" using p r b128.read_iff by simp
    then show ?thesis using cs unat_lt_64 [of v] by (intro exI [of _ "unat v # cs"]) simp
  qed (auto intro: exI [of _ "[]"])
qed

lemma first_arcs_split:
  fixes v :: u64
  obtains a b where "unat v = 40 * a + b" "a \<le> 2" "a < 2 \<longrightarrow> b \<le> 39" "b + 80 < 2 ^ 64"
proof (cases "unat v < 80")
  case True
  have "unat v mod 40 < 40" by simp
  then have "unat v mod 40 \<le> 39" by linarith
  moreover from this have "unat v mod 40 + 80 < 2 ^ 64" by simp
  moreover have "unat v div 40 \<le> 2" using True by linarith
  ultimately show ?thesis using that [of "unat v div 40" "unat v mod 40"] by simp
next
  case False
  then show ?thesis using that [of 2 "unat v - 80"] unat_lt_64 [of v] by simp
qed

lemma oid_to_text_sound:
  assumes "CBS_asn1_oid_to_text env i s st = Some (Some txt, st')"
  shows "\<exists>arcs. valid_oid arcs \<and> s = oid_der arcs"
proof -
  obtain st1 where st1: "CBB_init env i 32 st = (True, st1)"
    using assms by (auto simp: CBS_asn1_oid_to_text_def split: prod.splits bool.splits)
  obtain r copy where p: "parse_base128_integer s = (r, copy)" by (cases "parse_base128_integer s")
  then obtain v where r: "r = Some v"
    using assms st1 by (cases r) (auto simp: CBS_asn1_oid_to_text_def)
  obtain st2 st3 where "oid_to_text_loop env i copy st2 = Some (True, st3)"
    using assms st1 p r
    by (auto simp: CBS_asn1_oid_to_text_def first_arcs_def [symmetric] and_then_opt_True
        elim!: and_then_opt_SomeE split: if_splits Option.bind_splits prod.splits)
  then obtain cs where cs: "copy = concat (map base128 cs)" "\<forall>c\<in>set cs. c < 2 ^ 64"
    using oid_to_text_loop_sound by blast
  obtain a b where ab: "unat v = 40 * a + b" "a \<le> 2" "a < 2 \<longrightarrow> b \<le> 39" "b + 80 < 2 ^ 64"
    by (rule first_arcs_split)
  have "s = base128 (unat v) @ copy" using p r b128.read_iff by simp
  then show ?thesis using cs ab by (intro exI [of _ "a # b # cs"]) simp
qed

end
