(* ===== verification/Cbb_Set_Of.thy ===== *)
theory Cbb_Set_Of
  imports Cbb_Values "HOL-Library.List_Lexorder"
begin

text \<open>
  \<open>CBB_flush_asn1_set_of\<close> of \<open>cbb.c\<close>, which sorts the elements of a SET OF. \<open>qsort\<close> is the C library's:
  with a comparison under which only equal strings are equal, every sorting algorithm gives the same
  result, and the model inserts. A failed assertion is \<open>None\<close>.
\<close>

section \<open>The code\<close>

fun memcmp :: "u8 list \<Rightarrow> u8 list \<Rightarrow> nat \<Rightarrow> int" where
  "memcmp (a # as) (b # bs) (Suc n) = (if a \<noteq> b then uint a - uint b else memcmp as bs n)"
| "memcmp _ _ _ = 0"

definition compare_set_of_element :: "cbs \<Rightarrow> cbs \<Rightarrow> int" where
  "compare_set_of_element a b =
     (let a_len = CBS_len a; b_len = CBS_len b;
          min_len = (if a_len < b_len then a_len else b_len);
          ret = memcmp (CBS_data a) (CBS_data b) min_len
      in if ret \<noteq> 0 then ret
         else if a_len = b_len then 0
         else if a_len < b_len then - 1 else 1)"

fun insert_elem :: "('a \<Rightarrow> 'a \<Rightarrow> int) \<Rightarrow> 'a \<Rightarrow> 'a list \<Rightarrow> 'a list" where
  "insert_elem cmp x [] = [x]"
| "insert_elem cmp x (y # ys) = (if cmp x y \<le> 0 then x # y # ys else y # insert_elem cmp x ys)"

definition qsort :: "('a \<Rightarrow> 'a \<Rightarrow> int) \<Rightarrow> 'a list \<Rightarrow> 'a list" where
  "qsort cmp xs = foldr (insert_elem cmp) xs []"

lemma get_element_shorter: "CBS_get_any_asn1_element s = (Some x, s') \<Longrightarrow> length s' < length s"
  by (cases x) (auto simp: der_element_iff der_element_def)

function count_elements :: "nat \<Rightarrow> cbs \<Rightarrow> nat option" where
  "count_elements num_children cbs =
     (if CBS_len cbs \<noteq> 0 then
        (case CBS_get_any_asn1_element cbs of (None, cbs) \<Rightarrow> None
         | (Some _, cbs) \<Rightarrow> count_elements (num_children + 1) cbs)
      else Some num_children)"
  by auto
termination
  by (relation "measure (\<lambda>(n, cbs). length cbs)") (auto dest: get_element_shorter [OF sym])

declare count_elements.simps [simp del]

fun get_children :: "nat \<Rightarrow> cbs \<Rightarrow> cbs list option" where
  "get_children 0 cbs = Some []"
| "get_children (Suc n) cbs =
     (case CBS_get_any_asn1_element cbs of (None, cbs) \<Rightarrow> None
      | (Some (child, _, _), cbs) \<Rightarrow> map_option (\<lambda>cs. child # cs) (get_children n cbs))"

fun add_children :: "cbb_env \<Rightarrow> cbb_id \<Rightarrow> cbs list \<Rightarrow> cbb_op" where
  "add_children env cbb [] st = Some (True, st)"
| "add_children env cbb (c # cs) st =
     and_then_opt (CBB_add_bytes env cbb (CBS_data c) st) (add_children env cbb cs)"

definition CBB_flush_asn1_set_of :: "cbb_env \<Rightarrow> cbb_id \<Rightarrow> cbb_op" where
  "CBB_flush_asn1_set_of env cbb st =
     and_then_opt (CBB_flush env cbb st) (\<lambda>st.
       case count_elements 0 (CBS_init (CBB_data cbb st)) of None \<Rightarrow> Some (False, st)
       | Some num_children \<Rightarrow>
           if num_children < 2 then Some (True, st)
           else if num_children > (2 ^ 64 - 1) div 16 then Some (False, st)
           else
             let buf_len = CBB_len cbb st;
                 buf = OPENSSL_memdup (alloc env buf_len) (CBB_data cbb st) in
             (case buf of None \<Rightarrow> Some (False, st)
              | Some buf \<Rightarrow>
                  if \<not> alloc env (word_of_nat (num_children * 16)) then Some (False, st)
                  else (case get_children num_children (CBS_init buf) of None \<Rightarrow> Some (False, st)
                    | Some children \<Rightarrow>
                        let children = qsort compare_set_of_element children;
                            c = st_cbb st cbb;
                            st = set_base ((st_base st)\<lparr>bb_len :=
                              cb_offset c + ucast (cb_pending_len_len c)\<rparr>) st
                        in and_then_opt (add_children env cbb children st) (\<lambda>st.
                             if CBB_len cbb st = buf_len then Some (True, st) else None))))"

section \<open>The order of the elements\<close>

lemma memcmp_lex:
  "(let r = memcmp a b (min (length a) (length b)); c = (if r \<noteq> 0 then r else int (length a) - int (length b))
    in (c < 0 \<longleftrightarrow> a < b) \<and> (c = 0 \<longleftrightarrow> a = b))"
proof (induction a b rule: list_induct2')
  case (4 x xs y ys)
  then show ?case
    by (auto simp: Let_def word_less_def word_uint_eq_iff split: if_splits)
qed (auto simp: Let_def)

lemma compare_lex:
  "compare_set_of_element a b < 0 \<longleftrightarrow> a < b" "compare_set_of_element a b = 0 \<longleftrightarrow> a = b"
  "compare_set_of_element a b \<le> 0 \<longleftrightarrow> a \<le> b"
proof -
  show l: "compare_set_of_element a b < 0 \<longleftrightarrow> a < b" and e: "compare_set_of_element a b = 0 \<longleftrightarrow> a = b"
    using memcmp_lex [of a b]
    by (auto simp: compare_set_of_element_def Let_def CBS_len_def CBS_data_def min_def split: if_splits)
  show "compare_set_of_element a b \<le> 0 \<longleftrightarrow> a \<le> b"
    using l e by (auto simp: order_le_less)
qed

lemma qsort_sort: "qsort compare_set_of_element xs = sort xs"
proof -
  have "insert_elem compare_set_of_element = insort"
    by (intro ext, rename_tac x ys, induct_tac ys) (simp_all add: compare_lex)
  then show ?thesis by (simp add: qsort_def sort_key_def)
qed

text \<open>A DER element, whole.\<close>

definition der_elements :: "u8 list list \<Rightarrow> bool" where
  "der_elements es \<longleftrightarrow> (\<forall>e\<in>set es. \<exists>tag body. e = der_element tag body \<and> length body < 2 ^ 32)"

lemma der_elements_simps [simp]:
  "der_elements []"
  "der_elements (e # es) \<longleftrightarrow> (\<exists>tag body. e = der_element tag body \<and> length body < 2 ^ 32) \<and> der_elements es"
  by (simp_all add: der_elements_def)

lemma get_element_iff:
  "(\<exists>t h. CBS_get_any_asn1_element s = (Some (e, t, h), s')) \<longleftrightarrow>
    (\<exists>tag body. e = der_element tag body \<and> length body < 2 ^ 32) \<and> s = e @ s'"
  by (auto simp: der_element_iff)

lemma count_elements_concat: "der_elements es \<Longrightarrow> count_elements n (concat es) = Some (n + length es)"
proof (induction es arbitrary: n)
  case (Cons e es)
  then obtain t h where "CBS_get_any_asn1_element (e @ concat es) = (Some (e, t, h), concat es)"
    using get_element_iff [of "e @ concat es" e "concat es"] by auto
  moreover from this have "e \<noteq> []" using get_element_shorter by fastforce
  ultimately show ?case using Cons by (subst count_elements.simps) (simp add: CBS_len_def)
qed (simp add: count_elements.simps CBS_len_def)

lemma count_elements_sound:
  "count_elements n s = Some m \<Longrightarrow> \<exists>es. der_elements es \<and> s = concat es \<and> m = n + length es"
proof (induction n s rule: count_elements.induct)
  case (1 n s)
  show ?case
  proof (cases "s = []")
    case False
    obtain r s1 where g: "CBS_get_any_asn1_element s = (r, s1)" by (cases "CBS_get_any_asn1_element s")
    then obtain e t h where r: "r = Some (e, t, h)" and c: "count_elements (n + 1) s1 = Some m"
      using 1(2) False by (cases r) (auto simp: count_elements.simps [of n s] CBS_len_def)
    obtain es where "der_elements es" "s1 = concat es" "m = n + 1 + length es"
      using 1(1) False g r c by (auto simp: CBS_len_def)
    moreover have "(\<exists>tag body. e = der_element tag body \<and> length body < 2 ^ 32) \<and> s = e @ s1"
      using get_element_iff g r by blast
    ultimately show ?thesis by (intro exI [of _ "e # es"]) simp
  qed (use 1(2) in \<open>auto simp: count_elements.simps CBS_len_def intro: exI [of _ "[]"]\<close>)
qed

lemma get_children_concat: "der_elements es \<Longrightarrow> get_children (length es) (concat es) = Some es"
proof (induction es)
  case (Cons e es)
  then obtain t h where "CBS_get_any_asn1_element (e @ concat es) = (Some (e, t, h), concat es)"
    using get_element_iff [of "e @ concat es" e "concat es"] by auto
  then show ?case using Cons by simp
qed simp

lemma appends_children: "appends env i (add_children env i cs) (concat cs)"
proof (induction cs)
  case Nil
  then show ?case using appends_nothing by (simp add: appends_def)
next
  case (Cons c cs)
  have "add_children env i (c # cs) = (\<lambda>st. and_then_opt (CBB_add_bytes env i c st) (add_children env i cs))"
    by (simp add: fun_eq_iff CBS_data_def)
  then show ?case using appends_seq [OF appends_add_bytes Cons, of c] by simp
qed

section \<open>The flush\<close>

definition body_start :: "cbb \<Rightarrow> nat" where
  "body_start c = unat (cb_offset c + ucast (cb_pending_len_len c))"

text \<open>A flushed CBB whose contents begin at \<open>body_start\<close>, behind \<open>pre\<close>.\<close>

definition holds :: "cbb_id \<Rightarrow> u8 list \<Rightarrow> u8 list \<Rightarrow> cbb_state \<Rightarrow> bool" where
  "holds i pre body st \<longleftrightarrow> open_cbb st i \<and> contents (st_base st) = pre @ body \<and>
     length pre = body_start (st_cbb st i)"

lemma holds_data: "holds i pre body st \<Longrightarrow> CBB_data i st = body"
  by (simp add: holds_def CBB_data_def body_start_def flip: contents_def)

lemma holds_len: "holds i pre body st \<Longrightarrow> CBB_len i st = word_of_nat (length body)"
proof -
  assume h: "holds i pre body st"
  then have "unat (bb_len (st_base st)) = length pre + length body"
    using length_contents [of "st_base st"] by (simp add: holds_def open_cbb_def)
  then have "bb_len (st_base st) = word_of_nat (length pre + length body)" by (metis of_nat_unat ucast_id)
  moreover have "cb_offset (st_cbb st i) + ucast (cb_pending_len_len (st_cbb st i)) = word_of_nat (length pre)"
    using h by (simp add: holds_def body_start_def)
  ultimately show ?thesis by (simp add: CBB_len_def diff_diff_add)
qed

lemma length_concat_sort: "length (concat (sort es)) = length (concat (es :: u8 list list))"
proof (induction es)
  case (Cons e es)
  have "length (concat (insort e xs)) = length e + length (concat xs)" for xs :: "u8 list list"
    by (induction xs) auto
  then show ?case using Cons by simp
qed simp

lemma flush_set_of_sorts:
  assumes h: "holds i pre (concat es) st" and es: "der_elements es" and a: "\<forall>c. alloc env c"
    and len: "length es \<le> (2 ^ 64 - 1) div 16"
  shows "\<exists>st'. CBB_flush_asn1_set_of env i st = Some (True, st') \<and> holds i pre (concat (sort es)) st'"
proof -
  have op: "open_cbb st i" using h by (simp add: holds_def)
  have count: "count_elements 0 (CBS_init (CBB_data i st)) = Some (length es)"
    using count_elements_concat [OF es] by (simp add: CBS_init_def holds_data [OF h])
  show ?thesis
  proof (cases "length es < 2")
    case True
    then have "sort es = es" by (cases es) (auto simp: length_Suc_conv numeral_2_eq_2)
    then show ?thesis using True count h by (simp add: CBB_flush_asn1_set_of_def flush_open [OF op])
  next
    case False
    define start where "start = cb_offset (st_cbb st i) + ucast (cb_pending_len_len (st_cbb st i))"
    define b where "b = (st_base st)\<lparr>bb_len := start\<rparr>"
    have ok: "buf_ok (st_base st)" using op by (simp add: open_cbb_def)
    have l: "unat (bb_len (st_base st)) = length pre + length (concat es)" "unat start = length pre"
      using h length_contents [OF ok] by (simp_all add: holds_def body_start_def start_def)
    have b: "buf_ok b" "\<not> bb_error b" "contents b = pre"
    proof -
      show "buf_ok b" "\<not> bb_error b" using ok op l by (simp_all add: buf_ok_def b_def open_cbb_def)
      have "contents b = take (length pre) (contents (st_base st))"
        using l by (simp add: contents_def b_def min_def)
      then show "contents b = pre" using h by (simp add: holds_def)
    qed
    have lensort: "length (concat (sort es)) = length (concat es)"
      by (rule length_concat_sort)
    have room: "room env b (length (concat (sort es)))"
      using ok l unfolding lensort room_def by (simp add: b_def buf_ok_def)
    have "open_cbb (set_base b st) i" using op b by (simp add: open_cbb_def)
    then obtain b' where b': "add_children env i (sort es) (set_base b st) = Some (True, set_base b' st)"
        "extends env (concat (sort es)) b b'" "open_cbb (set_base b' st) i"
      using appendsE [OF appends_children, of "set_base b st" i env "sort es"] room by auto
    have h': "holds i pre (concat (sort es)) (set_base b' st)"
      using b'(2,3) b(3) h by (simp add: holds_def extends_def)
    have "concat es \<noteq> []" using False es by (cases es) (auto simp: der_element_def)
    then have dup: "OPENSSL_memdup (alloc env (CBB_len i st)) (CBB_data i st) = Some (concat es)"
      using a by (simp add: OPENSSL_memdup_def holds_data [OF h])
    have "CBB_flush_asn1_set_of env i st = Some (True, set_base b' st)"
      using False count len a b'(1) es dup
      by (simp add: CBB_flush_asn1_set_of_def flush_open [OF op] Let_def get_children_concat CBS_init_def
          qsort_sort holds_len [OF h] holds_len [OF h'] lensort start_def [symmetric] b_def [symmetric])
    then show ?thesis using h' by blast
  qed
qed

lemma flush_set_of_rejects:
  assumes h: "holds i pre body st" and no: "\<nexists>es. der_elements es \<and> body = concat es"
  shows "CBB_flush_asn1_set_of env i st = Some (False, st)"
proof -
  have "count_elements 0 body = None" using no count_elements_sound [of 0 body] by (cases "count_elements 0 body") auto
  then show ?thesis
    using h flush_open [of st i env]
    by (simp add: CBB_flush_asn1_set_of_def CBS_init_def holds_data [OF h] holds_def)
qed

end
