(* ===== verification/Bytestring_Theorems.thy ===== *)
theory Bytestring_Theorems
  imports Unicode Oid Cbb_Set_Of
begin

text \<open>
  The properties of the byte-string readers and writers, each with a witness. \<open>no_oom\<close> is an
  environment in which every allocation succeeds.
\<close>

definition no_oom :: cbb_env where
  "no_oom = \<lparr>alloc = (\<lambda>_. True), junk = 0xAA\<rparr>"

lemma no_oom_alloc [simp]: "alloc no_oom c"
  by (simp add: no_oom_def)

section \<open>DER\<close>

text \<open>C19. \<open>CBS_get_any_asn1_element\<close> succeeds on a string if and only if it starts with a DER element
  with contents of less than 2 ^ 32 bytes: the identifier octets of the tag in their only form, the
  length in the fewest octets, the contents. It returns that element, its tag and the length of its
  header, and leaves exactly what follows. So no two encodings of an element are accepted. Tag numbers
  from 31 to 2 ^ 29 - 1 are accepted in the high-tag-number form with the fewest octets, although a
  comment in \<open>parse_asn1_tag\<close> says that the parser only supports tag numbers less than 31.\<close>

theorem der_element_exact:
  "CBS_get_any_asn1_element s = (Some (e, t, h), s') \<longleftrightarrow>
    (\<exists>body. length body < 2 ^ 32 \<and> e = der_tag t @ der_len (length body) @ body \<and>
       h = word_of_nat (length (der_tag t) + length (der_len (length body))) \<and> s = e @ s')"
  unfolding der_element_iff der_element_def header_len_def ..

text \<open>C20. \<open>CBS_get_asn1_int64\<close> and \<open>CBS_get_asn1_uint64\<close> accept exactly the minimal two's complement
  encoding of the value in an INTEGER element: redundant leading octets, empty contents, values out of
  range and, for the unsigned reader, negative values fail.\<close>

theorem asn1_integer_exact:
  "(CBS_get_asn1_int64 s = (Some v, s') \<longleftrightarrow>
     s = der_element CBS_ASN1_INTEGER (der_int (sint v)) @ s') \<and>
   (CBS_get_asn1_uint64 s = (Some v, s') \<longleftrightarrow>
     s = der_element CBS_ASN1_INTEGER (der_int (uint v)) @ s')"
  using asn1_int64.read_iff asn1_uint64.read_iff by simp

text \<open>C21. What \<open>CBB_add_asn1_int64\<close> and \<open>CBB_add_asn1_uint64\<close> write to a new CBB of any capacity is
  returned by \<open>CBB_finish\<close> and read back by the CBS readers as the same value, whatever follows.\<close>

theorem asn1_int_roundtrip:
  assumes "\<forall>c. alloc env c" "i \<noteq> k"
  shows "(\<exists>bs. built env cap i (CBB_add_asn1_int64 env i k v) bs \<and>
      (\<forall>rest. CBS_get_asn1_int64 (bs @ rest) = (Some v, rest))) \<and>
    (\<exists>bs. built env cap i (CBB_add_asn1_uint64 env i k v) bs \<and>
      (\<forall>rest. CBS_get_asn1_uint64 (bs @ rest) = (Some v, rest)))"
proof
  have len: "length (der_element CBS_ASN1_INTEGER (der_int j)) < 2 ^ 64" if "length (der_int j) \<le> 9" for j
    using that length_der_tag [of CBS_ASN1_INTEGER] length_der_len [of "length (der_int j)"]
    by (simp add: der_element_def)
  show "\<exists>bs. built env cap i (CBB_add_asn1_int64 env i k v) bs \<and>
      (\<forall>rest. CBS_get_asn1_int64 (bs @ rest) = (Some v, rest))"
    using emits_built [OF cbb_emits_int64 [OF assms(2), of env v] assms(1) len] length_der_int64 [of v]
      asn1_int64.read_enc [of v] by (intro exI [of _ "der_element CBS_ASN1_INTEGER (der_int (sint v))"]) simp
  show "\<exists>bs. built env cap i (CBB_add_asn1_uint64 env i k v) bs \<and>
      (\<forall>rest. CBS_get_asn1_uint64 (bs @ rest) = (Some v, rest))"
    using emits_built [OF cbb_emits_uint64 [OF assms(2), of env v] assms(1) len] length_der_uint64 [of v]
      asn1_uint64.read_enc [of v] by (intro exI [of _ "der_element CBS_ASN1_INTEGER (der_int (uint v))"]) simp
qed

theorem asn1_int_roundtrip_witness:
  "(\<exists>bs. built no_oom 4 1 (CBB_add_asn1_int64 no_oom 1 2 (- 129)) bs \<and>
      (\<forall>rest. CBS_get_asn1_int64 (bs @ rest) = (Some (- 129), rest)))"
  using asn1_int_roundtrip [of no_oom 1 2 4 "- 129"] by simp

text \<open>C22. Whatever a routine writes to the child of \<open>CBB_add_asn1\<close> is, after the parent has been
  finished, the contents of an element with that tag, behind the shortest length, also when the length
  needs more than the one byte reserved for it and the contents are moved.\<close>

theorem asn1_child_roundtrip:
  assumes "\<forall>c. alloc env c" "cbb_emits env k own body bs" "i \<noteq> k" "k \<notin> own" "i \<notin> own"
    "length bs < 2 ^ 32 - 1"
  shows "built env cap i (\<lambda>st. and_then_opt (CBB_add_asn1 env i k tag st) body) (der_element tag bs) \<and>
    CBS_get_asn1 tag (der_element tag bs @ rest) = (Some bs, rest)"
proof
  have "length (der_element tag bs) < 2 ^ 64"
    using assms(6) length_der_tag [of tag] length_der_len [of "length bs"]
    by (simp add: der_element_def)
  then show "built env cap i (\<lambda>st. and_then_opt (CBB_add_asn1 env i k tag st) body) (der_element tag bs)"
    using emits_built [OF cbb_emits_asn1_child [OF assms(2-6)] assms(1)]
    by (simp add: asn1_child_def [abs_def])
  show "CBS_get_asn1 tag (der_element tag bs @ rest) = (Some bs, rest)"
    using assms(6) by (intro asn1.read_enc) simp
qed

theorem asn1_child_roundtrip_witness:
  "built no_oom 0 1 (\<lambda>st. and_then_opt (CBB_add_asn1 no_oom 1 2 CBS_ASN1_SEQUENCE st)
      (CBB_add_bytes no_oom 2 (replicate 200 7))) (der_element CBS_ASN1_SEQUENCE (replicate 200 7))"
  using asn1_child_roundtrip [of no_oom 2 "{}" "CBB_add_bytes no_oom 2 (replicate 200 7)"
      "replicate 200 7" 1 0 CBS_ASN1_SEQUENCE "[]"] cbb_emits_bytes
  by simp

text \<open>A child behind a length of one, two or three bytes comes back as the same string from the
  reader of that width.\<close>

theorem length_prefixed_roundtrip:
  assumes "\<forall>c. alloc env c" "cbb_emits env k own body bs" "i \<noteq> k" "k \<notin> own" "i \<notin> own"
    "length bs < 2 ^ 8"
  shows "built env cap i (\<lambda>st. and_then_opt (CBB_add_u8_length_prefixed env i k st) body)
      (len_prefixed 1 bs) \<and>
    built env cap i (\<lambda>st. and_then_opt (CBB_add_u16_length_prefixed env i k st) body)
      (len_prefixed 2 bs) \<and>
    built env cap i (\<lambda>st. and_then_opt (CBB_add_u24_length_prefixed env i k st) body)
      (len_prefixed 3 bs) \<and>
    CBS_get_u8_length_prefixed (len_prefixed 1 bs @ rest) = (Some bs, rest) \<and>
    CBS_get_u16_length_prefixed (len_prefixed 2 bs @ rest) = (Some bs, rest) \<and>
    CBS_get_u24_length_prefixed (len_prefixed 3 bs @ rest) = (Some bs, rest)"
proof (intro conjI)
  have b: "built env cap i (\<lambda>st. and_then_opt (cbb_add_length_prefixed env i k p st) body)
      (len_prefixed (unat p) bs)" if "1 \<le> unat p" "unat p \<le> 3" for p :: u8
  proof -
    have "(2 :: nat) ^ 8 \<le> 2 ^ (8 * unat p)" using that by (intro power_increasing) auto
    then have "length bs < 2 ^ (8 * unat p)" using assms(6) by linarith
    moreover have "p \<noteq> 0" "length (len_prefixed (unat p) bs) < 2 ^ 64" using that assms(6) by auto
    ultimately show ?thesis
      using emits_built [OF cbb_emits_prefixed_child [OF assms(2-5)] assms(1)]
      by (simp add: prefixed_child_def [abs_def])
  qed
  show "built env cap i (\<lambda>st. and_then_opt (CBB_add_u8_length_prefixed env i k st) body) (len_prefixed 1 bs)"
    "built env cap i (\<lambda>st. and_then_opt (CBB_add_u16_length_prefixed env i k st) body) (len_prefixed 2 bs)"
    "built env cap i (\<lambda>st. and_then_opt (CBB_add_u24_length_prefixed env i k st) body) (len_prefixed 3 bs)"
    using b [of 1] b [of 2] b [of 3]
    by (simp_all add: CBB_add_u8_length_prefixed_def CBB_add_u16_length_prefixed_def
        CBB_add_u24_length_prefixed_def)
  show "CBS_get_u8_length_prefixed (len_prefixed 1 bs @ rest) = (Some bs, rest)"
    "CBS_get_u16_length_prefixed (len_prefixed 2 bs @ rest) = (Some bs, rest)"
    "CBS_get_u24_length_prefixed (len_prefixed 3 bs @ rest) = (Some bs, rest)"
    using assms(6) by (intro u8_prefixed.read_enc u16_prefixed.read_enc u24_prefixed.read_enc; simp)+
qed

theorem length_prefixed_roundtrip_witness:
  "CBS_get_u16_length_prefixed (len_prefixed 2 [1, 2, 3] @ [9]) = (Some [1, 2, 3], [9])"
  using length_prefixed_roundtrip [of no_oom 2 "{}" "CBB_add_bytes no_oom 2 [1, 2, 3]" "[1, 2, 3]" 1 0 "[9]"]
    cbb_emits_bytes
  by simp

section \<open>Object identifiers and SET OF\<close>

text \<open>C24. The text of an object identifier whose components fit (the first at most 2, the second at most
  39 below the first two, the others 64-bit numbers) is written as its DER contents, and those contents
  are turned back into that text. Nothing else is accepted in either direction: text with leading
  zeros, empty components or components that overflow, and contents with padded or truncated numbers,
  fail.\<close>

theorem oid_text_roundtrip:
  assumes "\<forall>c. alloc env c" "valid_oid arcs" "length (oid_text arcs) < 2 ^ 64 - 1"
    "length (oid_der arcs) < 2 ^ 64"
  shows "built env cap i (CBB_add_asn1_oid_from_text env i (oid_text arcs)) (oid_der arcs) \<and>
    (\<exists>txt st'. CBS_asn1_oid_to_text env k (oid_der arcs) st = Some (Some txt, st') \<and>
      take (strlen txt) txt = oid_text arcs)"
  using emits_built [OF cbb_emits_oid [OF assms(2)] assms(1,4)] oid_to_text_ok [OF assms(1-3)]
  by blast

theorem oid_text_roundtrip_witness:
  "oid_text [1, 2, 840] = map (\<lambda>n. word_of_nat n) [49, 46, 50, 46, 56, 52, 48] \<and>
   built no_oom 0 1 (CBB_add_asn1_oid_from_text no_oom 1 (oid_text [1, 2, 840])) (oid_der [1, 2, 840])"
  using oid_text_roundtrip [of no_oom "[1, 2, 840]" 0 1]
  by (simp add: decimal_digit decimal_step base128_def base128_hi_step)

text \<open>C25. Only identifiers are accepted: text that the writer takes is the dotted notation of a valid
  identifier, and contents that are turned into text are its DER contents.\<close>

theorem oid_exact:
  "(CBB_add_asn1_oid_from_text env i text st = Some (True, st') \<longrightarrow>
      (\<exists>arcs. valid_oid arcs \<and> text = oid_text arcs)) \<and>
   (CBS_asn1_oid_to_text env i der st = Some (Some txt, st') \<longrightarrow>
      (\<exists>arcs. valid_oid arcs \<and> der = oid_der arcs))"
  using oid_from_text_sound oid_to_text_sound by blast

theorem oid_exact_witness:
  "\<exists>arcs. valid_oid arcs \<and> [42, 3] = oid_der arcs"
proof -
  have "oid_der [1, 2, 3] = [42, 3]" by (simp add: base128_def)
  moreover have "valid_oid [1, 2, 3]" "length (oid_text [1, 2, 3]) < 2 ^ 64 - 1"
    by (simp_all add: decimal_digit)
  ultimately obtain s st' where "CBS_asn1_oid_to_text no_oom 1 [42, 3]
      \<lparr>st_base = \<lparr>bb_buf = [], bb_len = 0, bb_cap = 0, bb_can_resize = False, bb_error = False\<rparr>,
        st_cbb = \<lambda>_. zero_cbb\<rparr> = Some (Some s, st')"
    using oid_to_text_ok [of no_oom "[1, 2, 3]" 1] by force
  then show ?thesis using oid_exact [of no_oom 1] by blast
qed

text \<open>C26. \<open>CBB_flush_asn1_set_of\<close> on a CBB that holds DER elements leaves the same elements in
  ascending order of their encodings, behind an unchanged prefix; on any other contents it fails and
  changes nothing.\<close>

theorem set_of_sorted:
  assumes "holds i pre body st" "\<forall>c. alloc env c"
  shows "(\<forall>es. der_elements es \<and> body = concat es \<and> length es \<le> (2 ^ 64 - 1) div 16 \<longrightarrow>
      (\<exists>st'. CBB_flush_asn1_set_of env i st = Some (True, st') \<and> holds i pre (concat (sort es)) st')) \<and>
    ((\<nexists>es. der_elements es \<and> body = concat es) \<longrightarrow>
      CBB_flush_asn1_set_of env i st = Some (False, st))"
  using flush_set_of_sorts [OF _ _ assms(2)] flush_set_of_rejects [OF assms(1)] assms(1) by blast

theorem set_of_sorted_witness:
  "\<exists>st'. CBB_flush_asn1_set_of no_oom 1
      \<lparr>st_base = \<lparr>bb_buf = [49, 0, 2, 1, 9, 2, 1, 5, 1], bb_len = 8, bb_cap = 9, bb_can_resize = True, bb_error = False\<rparr>,
        st_cbb = \<lambda>_. zero_cbb\<lparr>cb_base := True, cb_offset := 1, cb_pending_len_len := 1\<rparr>\<rparr> = Some (True, st') \<and>
    holds 1 [49, 0] [2, 1, 5, 2, 1, 9] st'"
proof -
  let ?st = "\<lparr>st_base = \<lparr>bb_buf = [49, 0, 2, 1, 9, 2, 1, 5, 1], bb_len = 8, bb_cap = 9, bb_can_resize = True,
      bb_error = False\<rparr>, st_cbb = \<lambda>_. zero_cbb\<lparr>cb_base := True, cb_offset := 1, cb_pending_len_len := 1\<rparr>\<rparr>"
  have e: "[2, 1, n] = der_element CBS_ASN1_INTEGER [n]" for n
    by (simp add: der_element_def der_tag_def der_len_def tag_class_def tag_num_def asn1_tag_defs)
  have small: "length [[2, 1, 9], [2, 1, 5 :: u8]] \<le> (2 ^ 64 - 1) div 16" by simp
  let ?es = "[[2, 1, 9], [2, 1, 5]] :: u8 list list"
  have es: "der_elements ?es" unfolding e by (auto intro!: exI [of _ CBS_ASN1_INTEGER] exI [of _ "[_]"])
  have "holds 1 [49, 0] (concat ?es) ?st"
    by (simp add: holds_def open_cbb_def buf_ok_def contents_def body_start_def zero_cbb_def)
  then have "\<exists>st'. CBB_flush_asn1_set_of no_oom 1 ?st = Some (True, st') \<and>
      holds 1 [49, 0] (concat (sort ?es)) st'"
    using set_of_sorted [of 1 "[49, 0]" "concat ?es" ?st no_oom] es by (metis (no_types) no_oom_alloc small)
  moreover have "concat (sort ?es) = [2, 1, 5, 2, 1, 9]" by simp
  ultimately show ?thesis by (simp only:)
qed

section \<open>Unicode\<close>

text \<open>C23. \<open>cbs_get_utf8\<close> reads exactly the shortest UTF-8 form of a valid code point: overlong forms,
  surrogates, permanently reserved code points, values above 0x10FFFF and truncated sequences fail.
  \<open>cbb_add_utf8\<close> writes that form, in \<open>cbb_get_utf8_len\<close> bytes, and refuses the other values.\<close>

theorem utf8_exact:
  "(cbs_get_utf8 s = (Some v, s') \<longleftrightarrow> is_valid_code_point v \<and> s = utf8 (unat v) @ s') \<and>
   (if is_valid_code_point v then cbb_emits env i own (cbb_add_utf8 env i v) (utf8 (unat v)) \<and>
      cbb_get_utf8_len v = length (utf8 (unat v))
    else cbb_add_utf8 env i v st = Some (False, st))"
  using utf8.read_iff cbb_emits_utf8 cbb_get_utf8_len_eq by (auto simp: cbb_add_utf8_def)

end
