(* ===== verification/Bio_Pair.thy ===== *)
theory Bio_Pair
  imports Crypto_Mem
begin

text \<open>
  BoringSSL's BIO pairs (\<open>crypto/bio/pair.c\<close>) and the part of \<open>crypto/bio/bio.c\<close> through which they are
  used. What one BIO writes into its ring buffer the other one reads. BIOs live in a heap; an address
  without a BIO, a failed assertion and an access outside a buffer are \<open>None\<close>. The error queue is
  the list \<open>bh_errors\<close>. In the read and write routines the flag or \<open>None\<close> stands for a NULL buffer.
\<close>

section \<open>State\<close>

type_synonym bio_id = nat

datatype bio_error = BIO_R_BROKEN_PIPE | BIO_R_IN_USE | BIO_R_UNINITIALIZED | ERR_R_MALLOC_FAILURE

record bio_bio_st =
  bp_peer :: "bio_id option"
  bp_closed :: bool
  bp_len :: u64
  bp_offset :: u64
  bp_size :: u64
  bp_buf :: "u8 list option"
  bp_request :: u64

record bio =
  bio_init :: bool
  bio_shutdown :: int
  bio_flags :: u32
  bio_retry_reason :: int
  bio_references :: u32
  bio_ptr :: "bio_bio_st option"
  bio_num_read :: u64
  bio_num_write :: u64

record bio_heap =
  bh_bios :: "bio_id \<rightharpoonup> bio"
  bh_errors :: "bio_error list"

definition put_bio :: "bio_id \<Rightarrow> bio \<Rightarrow> bio_heap \<Rightarrow> bio_heap" where
  "put_bio i b h = h\<lparr>bh_bios := (bh_bios h)(i \<mapsto> b)\<rparr>"

definition put_ptr :: "bio_id \<Rightarrow> bio_bio_st \<Rightarrow> bio_heap \<Rightarrow> bio_heap" where
  "put_ptr i p h = (case bh_bios h i of None \<Rightarrow> h | Some b \<Rightarrow> put_bio i (b\<lparr>bio_ptr := Some p\<rparr>) h)"

definition OPENSSL_PUT_ERROR :: "bio_error \<Rightarrow> bio_heap \<Rightarrow> bio_heap" where
  "OPENSSL_PUT_ERROR e h = h\<lparr>bh_errors := bh_errors h @ [e]\<rparr>"

section \<open>Flags\<close>

definition BIO_FLAGS_READ :: u32 where "BIO_FLAGS_READ = 0x01"
definition BIO_FLAGS_WRITE :: u32 where "BIO_FLAGS_WRITE = 0x02"
definition BIO_FLAGS_IO_SPECIAL :: u32 where "BIO_FLAGS_IO_SPECIAL = 0x04"
definition BIO_FLAGS_RWS :: u32 where
  "BIO_FLAGS_RWS = BIO_FLAGS_READ OR BIO_FLAGS_WRITE OR BIO_FLAGS_IO_SPECIAL"
definition BIO_FLAGS_SHOULD_RETRY :: u32 where "BIO_FLAGS_SHOULD_RETRY = 0x08"
definition kRetryFlags :: u32 where "kRetryFlags = BIO_FLAGS_RWS OR BIO_FLAGS_SHOULD_RETRY"

definition BIO_set_flags :: "u32 \<Rightarrow> bio \<Rightarrow> bio" where
  "BIO_set_flags flags bio = bio\<lparr>bio_flags := bio_flags bio OR flags\<rparr>"

definition BIO_test_flags :: "bio \<Rightarrow> u32 \<Rightarrow> u32" where
  "BIO_test_flags bio flags = bio_flags bio AND flags"

definition BIO_should_read :: "bio \<Rightarrow> u32" where
  "BIO_should_read bio = BIO_test_flags bio BIO_FLAGS_READ"

definition BIO_should_write :: "bio \<Rightarrow> u32" where
  "BIO_should_write bio = BIO_test_flags bio BIO_FLAGS_WRITE"

definition BIO_should_retry :: "bio \<Rightarrow> u32" where
  "BIO_should_retry bio = BIO_test_flags bio BIO_FLAGS_SHOULD_RETRY"

definition BIO_should_io_special :: "bio \<Rightarrow> u32" where
  "BIO_should_io_special bio = BIO_test_flags bio BIO_FLAGS_IO_SPECIAL"

definition BIO_clear_flags :: "u32 \<Rightarrow> bio \<Rightarrow> bio" where
  "BIO_clear_flags flags bio = bio\<lparr>bio_flags := bio_flags bio AND NOT flags\<rparr>"

definition BIO_set_retry_read :: "bio \<Rightarrow> bio" where
  "BIO_set_retry_read bio =
     bio\<lparr>bio_flags := bio_flags bio OR (BIO_FLAGS_READ OR BIO_FLAGS_SHOULD_RETRY)\<rparr>"

definition BIO_set_retry_write :: "bio \<Rightarrow> bio" where
  "BIO_set_retry_write bio =
     bio\<lparr>bio_flags := bio_flags bio OR (BIO_FLAGS_WRITE OR BIO_FLAGS_SHOULD_RETRY)\<rparr>"

definition BIO_get_retry_flags :: "bio \<Rightarrow> u32" where
  "BIO_get_retry_flags bio = bio_flags bio AND kRetryFlags"

definition BIO_clear_retry_flags :: "bio \<Rightarrow> bio" where
  "BIO_clear_retry_flags bio =
     bio\<lparr>bio_flags := bio_flags bio AND NOT kRetryFlags, bio_retry_reason := 0\<rparr>"

section \<open>Reading\<close>

partial_function (option) bio_read_loop ::
  "u64 \<Rightarrow> u8 list \<Rightarrow> bio_bio_st \<Rightarrow> (u8 list \<times> bio_bio_st) option" where
  "bio_read_loop rest out peer_b =
     (if \<not> rest \<le> bp_len peer_b then None
      else let chunk = (if bp_offset peer_b + rest \<le> bp_size peer_b then rest
                        else bp_size peer_b - bp_offset peer_b) in
        if \<not> bp_offset peer_b + chunk \<le> bp_size peer_b then None
        else case bp_buf peer_b of None \<Rightarrow> None
        | Some data \<Rightarrow>
          if length data < unat (bp_offset peer_b) + unat chunk then None
          else let out = out @ take (unat chunk) (drop (unat (bp_offset peer_b)) data);
                   peer_b = peer_b\<lparr>bp_len := bp_len peer_b - chunk\<rparr>;
                   rest' = rest - chunk in
            if bp_len peer_b \<noteq> 0 then
              let peer_b = peer_b\<lparr>bp_offset := bp_offset peer_b + chunk\<rparr> in
              if \<not> bp_offset peer_b \<le> bp_size peer_b then None
              else let peer_b = (if bp_offset peer_b = bp_size peer_b then peer_b\<lparr>bp_offset := 0\<rparr>
                                 else peer_b)
                   in if rest' \<noteq> 0 then bio_read_loop rest' out peer_b else Some (out, peer_b)
            else if chunk \<noteq> rest then None
            else let peer_b = peer_b\<lparr>bp_offset := 0\<rparr> in
                 if rest' \<noteq> 0 then bio_read_loop rest' out peer_b else Some (out, peer_b))"

definition bio_read :: "bio_id \<Rightarrow> bool \<Rightarrow> int \<Rightarrow> bio_heap \<Rightarrow> (int \<times> u8 list \<times> bio_heap) option" where
  "bio_read i buf size' h =
     (case bh_bios h i of None \<Rightarrow> None
      | Some bio \<Rightarrow>
        let size = word_of_int size' :: u64;
            bio = BIO_clear_retry_flags bio;
            h = put_bio i bio h
        in if \<not> bio_init bio then Some (0, [], h)
        else case bio_ptr bio of None \<Rightarrow> None
        | Some b \<Rightarrow> case bp_peer b of None \<Rightarrow> None
        | Some j \<Rightarrow> case bh_bios h j of None \<Rightarrow> None
        | Some peer \<Rightarrow> case bio_ptr peer of None \<Rightarrow> None
        | Some peer_b \<Rightarrow>
          if bp_buf peer_b = None then None
          else let peer_b = peer_b\<lparr>bp_request := 0\<rparr>; h = put_ptr j peer_b h in
            if \<not> buf \<or> size = 0 then Some (0, [], h)
            else if bp_len peer_b = 0 then
              if bp_closed peer_b then Some (0, [], h)
              else case bh_bios h i of None \<Rightarrow> None
                | Some bio \<Rightarrow>
                  let h = put_bio i (BIO_set_retry_read bio) h;
                      req = (if size \<le> bp_size peer_b then size else bp_size peer_b)
                  in Some (- 1, [], put_ptr j (peer_b\<lparr>bp_request := req\<rparr>) h)
            else let size = (if bp_len peer_b < size then bp_len peer_b else size) in
              case bio_read_loop size [] peer_b of None \<Rightarrow> None
              | Some (out, peer_b) \<Rightarrow> Some (sint (ucast size :: u32), out, put_ptr j peer_b h))"

section \<open>Writing\<close>

partial_function (option) bio_write_loop ::
  "u64 \<Rightarrow> u8 list \<Rightarrow> bio_bio_st \<Rightarrow> bio_bio_st option" where
  "bio_write_loop rest buf b =
     (if \<not> bp_len b + rest \<le> bp_size b then None
      else let write_offset = bp_offset b + bp_len b;
               write_offset = (if write_offset \<ge> bp_size b then write_offset - bp_size b else write_offset);
               chunk = (if write_offset + rest \<le> bp_size b then rest else bp_size b - write_offset)
        in case bp_buf b of None \<Rightarrow> None
        | Some data \<Rightarrow>
          if length buf < unat chunk \<or> length data < unat write_offset + unat chunk then None
          else let b = b\<lparr>bp_buf := Some (take (unat write_offset) data @ take (unat chunk) buf @
                         drop (unat write_offset + unat chunk) data), bp_len := bp_len b + chunk\<rparr>
            in if \<not> bp_len b \<le> bp_size b then None
               else let rest = rest - chunk; buf = drop (unat chunk) buf in
                 if rest \<noteq> 0 then bio_write_loop rest buf b else Some b)"

definition bio_write :: "bio_id \<Rightarrow> u8 list option \<Rightarrow> int \<Rightarrow> bio_heap \<Rightarrow> (int \<times> bio_heap) option" where
  "bio_write i buf num' h =
     (case bh_bios h i of None \<Rightarrow> None
      | Some bio \<Rightarrow>
        let num = word_of_int num' :: u64;
            bio = BIO_clear_retry_flags bio;
            h = put_bio i bio h
        in case buf of None \<Rightarrow> Some (0, h)
        | Some buf \<Rightarrow>
          if \<not> bio_init bio \<or> num = 0 then Some (0, h)
          else case bio_ptr bio of None \<Rightarrow> None
          | Some b \<Rightarrow>
            if bp_peer b = None \<or> bp_buf b = None then None
            else let b = b\<lparr>bp_request := 0\<rparr>; h = put_ptr i b h in
              if bp_closed b then Some (- 1, OPENSSL_PUT_ERROR BIO_R_BROKEN_PIPE h)
              else if \<not> bp_len b \<le> bp_size b then None
              else if bp_len b = bp_size b then
                Some (- 1, put_bio i (BIO_set_retry_write (bio\<lparr>bio_ptr := Some b\<rparr>)) h)
              else let num = (if num > bp_size b - bp_len b then bp_size b - bp_len b else num) in
                case bio_write_loop num buf b of None \<Rightarrow> None
                | Some b \<Rightarrow> Some (sint (ucast num :: u32), put_ptr i b h))"

section \<open>Making and breaking pairs\<close>

definition bio_new :: "bool \<Rightarrow> bio \<Rightarrow> bool \<times> bio" where
  "bio_new alloc bio =
     (if \<not> alloc then (False, bio)
      else let b = \<lparr>bp_peer = None, bp_closed = False, bp_len = 0, bp_offset = 0, bp_size = 17 * 1024,
             bp_buf = None, bp_request = 0\<rparr>
           in (True, bio\<lparr>bio_ptr := Some b\<rparr>))"

definition bio_destroy_pair :: "bio_id \<Rightarrow> bio_heap \<Rightarrow> bio_heap option" where
  "bio_destroy_pair i h =
     (case bh_bios h i of None \<Rightarrow> None
      | Some bio \<Rightarrow> (case bio_ptr bio of None \<Rightarrow> Some h
      | Some b \<Rightarrow> (case bp_peer b of None \<Rightarrow> Some h
      | Some j \<Rightarrow> (case bh_bios h j of None \<Rightarrow> None
      | Some peer_bio \<Rightarrow> (case bio_ptr peer_bio of None \<Rightarrow> None
      | Some peer_b \<Rightarrow>
          if bp_peer peer_b \<noteq> Some i \<or> bp_buf peer_b = None \<or> bp_buf b = None then None
          else let h = put_bio j (peer_bio\<lparr>bio_init := False,
                         bio_ptr := Some (peer_b\<lparr>bp_peer := None, bp_len := 0, bp_offset := 0\<rparr>)\<rparr>) h
               in Some (put_bio i (bio\<lparr>bio_init := False,
                         bio_ptr := Some (b\<lparr>bp_peer := None, bp_len := 0, bp_offset := 0\<rparr>)\<rparr>) h))))))"

text \<open>The buffer and the structure are freed; the pointer to it is left as it was in the code.\<close>

definition bio_free :: "bio_id option \<Rightarrow> bio_heap \<Rightarrow> (bool \<times> bio_heap) option" where
  "bio_free bio h =
     (case bio of None \<Rightarrow> Some (False, h)
      | Some i \<Rightarrow> (case bh_bios h i of None \<Rightarrow> None
      | Some bio \<Rightarrow> (case bio_ptr bio of None \<Rightarrow> None
      | Some b \<Rightarrow> do {
          h \<leftarrow> (if bp_peer b \<noteq> None then bio_destroy_pair i h else Some h);
          bio \<leftarrow> bh_bios h i;
          Some (True, put_bio i (bio\<lparr>bio_ptr := None\<rparr>) h)
        })))"

text \<open>\<open>alloc n\<close> says whether a request for \<open>n\<close> bytes succeeds; fresh memory holds \<open>junk\<close>. The first
  component is \<open>None\<close> when the allocation fails.\<close>

definition pair_buf :: "(u64 \<Rightarrow> bool) \<Rightarrow> u8 \<Rightarrow> u64 \<Rightarrow> bio_bio_st \<Rightarrow> bio_bio_st option \<times> bio_bio_st" where
  "pair_buf alloc junk writebuf_len b =
     (if bp_buf b \<noteq> None then (Some b, b)
      else let b = (if writebuf_len \<noteq> 0 then b\<lparr>bp_size := writebuf_len\<rparr> else b) in
        if \<not> alloc (bp_size b) then (None, b)
        else let b = b\<lparr>bp_buf := Some (replicate (unat (bp_size b)) junk), bp_len := 0, bp_offset := 0\<rparr>
             in (Some b, b))"

definition bio_make_pair ::
  "(u64 \<Rightarrow> bool) \<Rightarrow> u8 \<Rightarrow> bio_id \<Rightarrow> bio_id \<Rightarrow> u64 \<Rightarrow> u64 \<Rightarrow> bio_heap \<Rightarrow> (bool \<times> bio_heap) option" where
  "bio_make_pair alloc junk i j writebuf1_len writebuf2_len h = do {
     bio1 \<leftarrow> bh_bios h i;
     bio2 \<leftarrow> bh_bios h j;
     b1 \<leftarrow> bio_ptr bio1;
     b2 \<leftarrow> bio_ptr bio2;
     if bp_peer b1 \<noteq> None \<or> bp_peer b2 \<noteq> None then Some (False, OPENSSL_PUT_ERROR BIO_R_IN_USE h)
     else case pair_buf alloc junk writebuf1_len b1 of
       (None, b1) \<Rightarrow> Some (False, OPENSSL_PUT_ERROR ERR_R_MALLOC_FAILURE (put_ptr i b1 h))
     | (Some b1, _) \<Rightarrow>
       (case pair_buf alloc junk writebuf2_len b2 of
          (None, b2) \<Rightarrow> Some (False, OPENSSL_PUT_ERROR ERR_R_MALLOC_FAILURE (put_ptr j b2 (put_ptr i b1 h)))
        | (Some b2, _) \<Rightarrow>
          let b1 = b1\<lparr>bp_peer := Some j, bp_closed := False, bp_request := 0\<rparr>;
              b2 = b2\<lparr>bp_peer := Some i, bp_closed := False, bp_request := 0\<rparr>
          in Some (True, put_bio j (bio2\<lparr>bio_ptr := Some b2, bio_init := True\<rparr>)
               (put_bio i (bio1\<lparr>bio_ptr := Some b1, bio_init := True\<rparr>) h)))
   }"

section \<open>Control\<close>

definition BIO_CTRL_EOF :: int where "BIO_CTRL_EOF = 2"
definition BIO_CTRL_GET_CLOSE :: int where "BIO_CTRL_GET_CLOSE = 8"
definition BIO_CTRL_SET_CLOSE :: int where "BIO_CTRL_SET_CLOSE = 9"
definition BIO_CTRL_PENDING :: int where "BIO_CTRL_PENDING = 10"
definition BIO_CTRL_FLUSH :: int where "BIO_CTRL_FLUSH = 11"
definition BIO_CTRL_WPENDING :: int where "BIO_CTRL_WPENDING = 13"
definition BIO_C_GET_WRITE_BUF_SIZE :: int where "BIO_C_GET_WRITE_BUF_SIZE = 137"
definition BIO_C_GET_WRITE_GUARANTEE :: int where "BIO_C_GET_WRITE_GUARANTEE = 140"
definition BIO_C_GET_READ_REQUEST :: int where "BIO_C_GET_READ_REQUEST = 141"
definition BIO_C_SHUTDOWN_WR :: int where "BIO_C_SHUTDOWN_WR = 142"
definition BIO_C_RESET_READ_REQUEST :: int where "BIO_C_RESET_READ_REQUEST = 147"

lemmas bio_cmd_defs = BIO_CTRL_EOF_def BIO_CTRL_GET_CLOSE_def BIO_CTRL_SET_CLOSE_def
  BIO_CTRL_PENDING_def BIO_CTRL_FLUSH_def BIO_CTRL_WPENDING_def BIO_C_GET_WRITE_BUF_SIZE_def
  BIO_C_GET_WRITE_GUARANTEE_def BIO_C_GET_READ_REQUEST_def BIO_C_SHUTDOWN_WR_def
  BIO_C_RESET_READ_REQUEST_def

definition bio_ctrl :: "bio_id \<Rightarrow> int \<Rightarrow> int \<Rightarrow> bio_id option \<Rightarrow> bio_heap \<Rightarrow> (int \<times> bio_heap) option" where
  "bio_ctrl i cmd num ptr h = do {
     bio \<leftarrow> bh_bios h i;
     b \<leftarrow> bio_ptr bio;
     if cmd = BIO_C_GET_WRITE_BUF_SIZE then Some (sint (bp_size b), h)
     else if cmd = BIO_C_GET_WRITE_GUARANTEE then
       Some (if bp_peer b = None \<or> bp_closed b then 0 else sint (bp_size b - bp_len b), h)
     else if cmd = BIO_C_GET_READ_REQUEST then Some (sint (bp_request b), h)
     else if cmd = BIO_C_RESET_READ_REQUEST then Some (1, put_ptr i (b\<lparr>bp_request := 0\<rparr>) h)
     else if cmd = BIO_C_SHUTDOWN_WR then Some (1, put_ptr i (b\<lparr>bp_closed := True\<rparr>) h)
     else if cmd = BIO_CTRL_GET_CLOSE then Some (bio_shutdown bio, h)
     else if cmd = BIO_CTRL_SET_CLOSE then
       Some (1, put_bio i (bio\<lparr>bio_shutdown := sint (word_of_int num :: u32)\<rparr>) h)
     else if cmd = BIO_CTRL_PENDING then
       (case bp_peer b of None \<Rightarrow> Some (0, h)
        | Some j \<Rightarrow> do { peer \<leftarrow> bh_bios h j; peer_b \<leftarrow> bio_ptr peer; Some (sint (bp_len peer_b), h) })
     else if cmd = BIO_CTRL_WPENDING then
       Some (if bp_buf b \<noteq> None then sint (bp_len b) else 0, h)
     else if cmd = BIO_CTRL_FLUSH then Some (1, h)
     else if cmd = BIO_CTRL_EOF then
       (case ptr of None \<Rightarrow> Some (1, h)
        | Some j \<Rightarrow> do { other_bio \<leftarrow> bh_bios h j; other_b \<leftarrow> bio_ptr other_bio;
            Some (if bp_len other_b = 0 \<and> bp_closed other_b then 1 else 0, h) })
     else Some (0, h)
   }"

section \<open>The interface of \<open>bio.c\<close>\<close>

text \<open>Every BIO has the methods of a pair, and no BIO is chained to another. \<open>a\<close> is the address the
  allocation of the BIO returns, \<open>None\<close> for NULL, \<open>alloc\<close> whether that of its structure succeeds.\<close>

definition CRYPTO_REFCOUNT_MAX :: u32 where "CRYPTO_REFCOUNT_MAX = 0xffffffff"

definition CRYPTO_refcount_inc :: "u32 \<Rightarrow> u32" where
  "CRYPTO_refcount_inc count = (if count < CRYPTO_REFCOUNT_MAX then count + 1 else count)"

definition CRYPTO_refcount_dec_and_test_zero :: "u32 \<Rightarrow> (bool \<times> u32) option" where
  "CRYPTO_refcount_dec_and_test_zero count =
     (if count = 0 then None
      else let count = (if count < CRYPTO_REFCOUNT_MAX then count - 1 else count)
           in Some (count = 0, count))"

definition BIO_new :: "bio_id option \<Rightarrow> bool \<Rightarrow> bio_heap \<Rightarrow> bio_id option \<times> bio_heap" where
  "BIO_new a alloc h =
     (case a of None \<Rightarrow> (None, OPENSSL_PUT_ERROR ERR_R_MALLOC_FAILURE h)
      | Some i \<Rightarrow>
          (case bio_new alloc \<lparr>bio_init = False, bio_shutdown = 1, bio_flags = 0, bio_retry_reason = 0,
              bio_references = 1, bio_ptr = None, bio_num_read = 0, bio_num_write = 0\<rparr> of
             (False, bio) \<Rightarrow> (None, h\<lparr>bh_bios := (bh_bios h)(i := None)\<rparr>)
           | (True, bio) \<Rightarrow> (Some i, put_bio i bio h)))"

definition BIO_free :: "bio_id option \<Rightarrow> bio_heap \<Rightarrow> (bool \<times> bio_heap) option" where
  "BIO_free bio h =
     (case bio of None \<Rightarrow> Some (True, h)
      | Some i \<Rightarrow> do {
          b \<leftarrow> bh_bios h i;
          (zero, refs) \<leftarrow> CRYPTO_refcount_dec_and_test_zero (bio_references b);
          let h = put_bio i (b\<lparr>bio_references := refs\<rparr>) h;
          if \<not> zero then Some (False, h)
          else do {
            (_, h) \<leftarrow> bio_free (Some i) h;
            Some (True, h\<lparr>bh_bios := (bh_bios h)(i := None)\<rparr>)
          }
        })"

definition BIO_up_ref :: "bio_id \<Rightarrow> bio_heap \<Rightarrow> (bool \<times> bio_heap) option" where
  "BIO_up_ref i h = do {
     bio \<leftarrow> bh_bios h i;
     Some (True, put_bio i (bio\<lparr>bio_references := CRYPTO_refcount_inc (bio_references bio)\<rparr>) h)
   }"

definition BIO_read :: "bio_id \<Rightarrow> bool \<Rightarrow> int \<Rightarrow> bio_heap \<Rightarrow> (int \<times> u8 list \<times> bio_heap) option" where
  "BIO_read i buf len h = do {
     bio \<leftarrow> bh_bios h i;
     if \<not> bio_init bio then Some (- 2, [], OPENSSL_PUT_ERROR BIO_R_UNINITIALIZED h)
     else if len \<le> 0 then Some (0, [], h)
     else do {
       (ret, out, h) \<leftarrow> bio_read i buf len h;
       if ret > 0 then do {
         bio \<leftarrow> bh_bios h i;
         Some (ret, out, put_bio i (bio\<lparr>bio_num_read := bio_num_read bio + word_of_int ret\<rparr>) h)
       } else Some (ret, out, h)
     }
   }"

definition BIO_write :: "bio_id \<Rightarrow> u8 list option \<Rightarrow> int \<Rightarrow> bio_heap \<Rightarrow> (int \<times> bio_heap) option" where
  "BIO_write i inp inl h = do {
     bio \<leftarrow> bh_bios h i;
     if \<not> bio_init bio then Some (- 2, OPENSSL_PUT_ERROR BIO_R_UNINITIALIZED h)
     else if inl \<le> 0 then Some (0, h)
     else do {
       (ret, h) \<leftarrow> bio_write i inp inl h;
       if ret > 0 then do {
         bio \<leftarrow> bh_bios h i;
         Some (ret, put_bio i (bio\<lparr>bio_num_write := bio_num_write bio + word_of_int ret\<rparr>) h)
       } else Some (ret, h)
     }
   }"

partial_function (option) BIO_write_all ::
  "bio_id \<Rightarrow> u8 list \<Rightarrow> bio_heap \<Rightarrow> (bool \<times> bio_heap) option" where
  "BIO_write_all i data h =
     (if length data > 0 then
        Option.bind (BIO_write i (Some data)
            (if length data > 2147483647 then 2147483647 else int (length data)) h)
          (\<lambda>(ret, h). if ret \<le> 0 then Some (False, h) else BIO_write_all i (drop (nat ret) data) h)
      else Some (True, h))"

definition BIO_ctrl :: "bio_id option \<Rightarrow> int \<Rightarrow> int \<Rightarrow> bio_id option \<Rightarrow> bio_heap \<Rightarrow> (int \<times> bio_heap) option" where
  "BIO_ctrl bio cmd larg parg h =
     (case bio of None \<Rightarrow> Some (0, h) | Some i \<Rightarrow> bio_ctrl i cmd larg parg h)"

definition BIO_flush :: "bio_id option \<Rightarrow> bio_heap \<Rightarrow> (int \<times> bio_heap) option" where
  "BIO_flush bio = BIO_ctrl bio BIO_CTRL_FLUSH 0 None"

definition BIO_eof :: "bio_id option \<Rightarrow> bio_heap \<Rightarrow> (int \<times> bio_heap) option" where
  "BIO_eof bio = BIO_ctrl bio BIO_CTRL_EOF 0 None"

definition BIO_pending :: "bio_id option \<Rightarrow> bio_heap \<Rightarrow> (u64 \<times> bio_heap) option" where
  "BIO_pending bio h = do {
     (r, h) \<leftarrow> BIO_ctrl bio BIO_CTRL_PENDING 0 None h;
     if r < 0 then None else Some (word_of_int r, h)
   }"

definition BIO_wpending :: "bio_id option \<Rightarrow> bio_heap \<Rightarrow> (u64 \<times> bio_heap) option" where
  "BIO_wpending bio h = do {
     (r, h) \<leftarrow> BIO_ctrl bio BIO_CTRL_WPENDING 0 None h;
     if r < 0 then None else Some (word_of_int r, h)
   }"

definition BIO_set_close :: "bio_id option \<Rightarrow> int \<Rightarrow> bio_heap \<Rightarrow> (int \<times> bio_heap) option" where
  "BIO_set_close bio close_flag = BIO_ctrl bio BIO_CTRL_SET_CLOSE close_flag None"

definition BIO_new_bio_pair ::
  "(u64 \<Rightarrow> bool) \<Rightarrow> u8 \<Rightarrow> bio_id option \<times> bool \<Rightarrow> u64 \<Rightarrow> bio_id option \<times> bool \<Rightarrow> u64 \<Rightarrow> bio_heap \<Rightarrow>
     (bool \<times> bio_id option \<times> bio_id option \<times> bio_heap) option" where
  "BIO_new_bio_pair alloc junk a1 writebuf1_len a2 writebuf2_len h =
     (let (bio1, h) = BIO_new (fst a1) (snd a1) h;
          (bio2, h) = BIO_new (fst a2) (snd a2) h;
          err = (\<lambda>h. do {
            (_, h) \<leftarrow> BIO_free bio1 h;
            (_, h) \<leftarrow> BIO_free bio2 h;
            Some (False, None, None, h)
          })
      in case (bio1, bio2) of
        (Some i, Some j) \<Rightarrow> do {
          (ok, h) \<leftarrow> bio_make_pair alloc junk i j writebuf1_len writebuf2_len h;
          if ok then Some (True, bio1, bio2, h) else err h
        }
      | _ \<Rightarrow> err h)"

definition BIO_ctrl_get_read_request :: "bio_id option \<Rightarrow> bio_heap \<Rightarrow> (u64 \<times> bio_heap) option" where
  "BIO_ctrl_get_read_request bio h = do {
     (r, h) \<leftarrow> BIO_ctrl bio BIO_C_GET_READ_REQUEST 0 None h; Some (word_of_int r, h) }"

definition BIO_ctrl_get_write_guarantee :: "bio_id option \<Rightarrow> bio_heap \<Rightarrow> (u64 \<times> bio_heap) option" where
  "BIO_ctrl_get_write_guarantee bio h = do {
     (r, h) \<leftarrow> BIO_ctrl bio BIO_C_GET_WRITE_GUARANTEE 0 None h; Some (word_of_int r, h) }"

definition BIO_shutdown_wr :: "bio_id option \<Rightarrow> bio_heap \<Rightarrow> (int \<times> bio_heap) option" where
  "BIO_shutdown_wr bio = BIO_ctrl bio BIO_C_SHUTDOWN_WR 0 None"

end
