(* ===== verification/Bio_Pair_Spec.thy ===== *)
theory Bio_Pair_Spec
  imports Bio_Pair
begin

text \<open>
  A BIO pair is two bounded queues. \<open>ring_ok\<close> is the invariant of a ring buffer and \<open>ring_data\<close> its
  contents in order; the copying loops, of at most two rounds, take from and append to it. On a pair
  (\<open>paired\<close>) the interface refines \<open>queue_write\<close> and \<open>queue_read\<close>, and a run of calls at both ends
  (\<open>bio_run\<close>) loses, repeats and reorders nothing.
\<close>

section \<open>The ring buffer\<close>

definition ring_ok :: "bio_bio_st \<Rightarrow> bool" where
  "ring_ok b \<longleftrightarrow> (\<exists>l. bp_buf b = Some l \<and> length l = unat (bp_size b)) \<and> 0 < unat (bp_size b) \<and>
     unat (bp_size b) < 2 ^ 63 \<and> unat (bp_len b) \<le> unat (bp_size b) \<and>
     unat (bp_offset b) < unat (bp_size b)"

definition ring_data :: "bio_bio_st \<Rightarrow> u8 list" where
  "ring_data b = (case bp_buf b of None \<Rightarrow> []
     | Some l \<Rightarrow> take (unat (bp_len b)) (drop (unat (bp_offset b)) l @ take (unat (bp_offset b)) l))"

lemma ring_length: "ring_ok b \<Longrightarrow> length (ring_data b) = unat (bp_len b)"
  by (auto simp: ring_ok_def ring_data_def)

text \<open>Lists: reading from and writing into a rotated list.\<close>

lemma take_rot:
  assumes "c \<le> n" "c \<le> length l - p" "n \<le> length l" "p \<le> length l"
  shows "take c (drop p l) = take c (take n (drop p l @ take p l))"
    "take (n - c) (drop (p + c) l @ take (p + c) l) = drop c (take n (drop p l @ take p l))"
proof -
  show "take c (drop p l) = take c (take n (drop p l @ take p l))" using assms by (simp add: min_def)
  have "drop c (take n (drop p l @ take p l)) = take (n - c) (drop (p + c) l @ take p l)"
    using assms by (simp add: drop_take add.commute)
  also have "\<dots> = take (n - c) (drop (p + c) l @ take (p + c) l)"
    using assms by (simp add: take_add)
  finally show "take (n - c) (drop (p + c) l @ take (p + c) l) = drop c (take n (drop p l @ take p l))" ..
qed

lemma write_rot:
  assumes "length d \<le> length l - n" "n \<le> length l" "p < length l"
    "w = (if p + n \<ge> length l then p + n - length l else p + n)" "w + length d \<le> length l"
  defines "l' \<equiv> take w l @ d @ drop (w + length d) l"
  shows "take (n + length d) (drop p l' @ take p l') = take n (drop p l @ take p l) @ d"
proof (cases "p + n \<ge> length l")
  case True
  then have w: "w = p + n - length l" using assms(4) by simp
  then have "w + length d \<le> p" using assms(1,2) True by linarith
  then have "drop p l' = drop p l" "take p l' = take w l @ d @ take (p - w - length d) (drop (w + length d) l)"
    using assms(3,5) by (auto simp: l'_def min_def dest: le_antisym)
  moreover have "n = length l - p + w" using w True assms(3) by linarith
  ultimately show ?thesis using assms(3) \<open>w + length d \<le> p\<close> by simp
next
  case False
  then have w: "w = p + n" using assms(4) by simp
  have "drop p l' = take n (drop p l) @ d @ drop (w + length d) l"
    using False w assms(3) by (simp add: l'_def drop_take min_def)
  then show ?thesis using False w by simp
qed

text \<open>The loops take one or two rounds.\<close>

lemma ring_read_step:
  assumes ok: "ring_ok b" and c: "unat c \<le> unat (bp_len b)" "unat (bp_offset b) + unat c \<le> unat (bp_size b)"
    and off: "unat off = (if unat (bp_offset b) + unat c = unat (bp_size b) then 0 else unat (bp_offset b) + unat c)
      \<or> unat off = 0 \<and> unat c = unat (bp_len b)"
  shows "ring_ok (b\<lparr>bp_len := bp_len b - c, bp_offset := off\<rparr>)"
    "ring_data (b\<lparr>bp_len := bp_len b - c, bp_offset := off\<rparr>) = drop (unat c) (ring_data b)"
    "take (unat c) (drop (unat (bp_offset b)) (the (bp_buf b))) = take (unat c) (ring_data b)"
proof -
  obtain l where l: "bp_buf b = Some l" "length l = unat (bp_size b)" using ok by (auto simp: ring_ok_def)
  have len: "unat (bp_len b - c) = unat (bp_len b) - unat c" using c(1) by (simp add: unat_sub word_le_nat_alt)
  have b: "unat (bp_len b) \<le> length l" "unat (bp_offset b) < length l" using ok l(2) by (auto simp: ring_ok_def)
  have "unat off < unat (bp_size b)" using off c(2) ok by (auto simp: ring_ok_def split: if_splits)
  then show "ring_ok (b\<lparr>bp_len := bp_len b - c, bp_offset := off\<rparr>)"
    using ok len by (auto simp: ring_ok_def)
  have rot: "take (unat c) (drop (unat (bp_offset b)) l) = take (unat c) (ring_data b)"
      "take (unat (bp_len b) - unat c) (drop (unat (bp_offset b) + unat c) l @ take (unat (bp_offset b) + unat c) l) =
       drop (unat c) (ring_data b)"
    using take_rot [of "unat c" "unat (bp_len b)" l "unat (bp_offset b)"] b c l by (simp_all add: ring_data_def)
  then show "take (unat c) (drop (unat (bp_offset b)) (the (bp_buf b))) = take (unat c) (ring_data b)"
    using l(1) by simp
  show "ring_data (b\<lparr>bp_len := bp_len b - c, bp_offset := off\<rparr>) = drop (unat c) (ring_data b)"
    using off
  proof
    assume *: "unat off = (if unat (bp_offset b) + unat c = unat (bp_size b) then 0 else unat (bp_offset b) + unat c)"
    show ?thesis
    proof (cases "unat (bp_offset b) + unat c = unat (bp_size b)")
      case True
      then show ?thesis using * rot(2) l by (simp add: ring_data_def len)
    next
      case False
      then show ?thesis using * rot(2) l by (simp add: ring_data_def len)
    qed
  next
    assume *: "unat off = 0 \<and> unat c = unat (bp_len b)"
    then have "drop (unat c) (ring_data b) = []" using ring_length [OF ok] by simp
    then show ?thesis using * l by (simp only:) (simp add: ring_data_def len)
  qed
qed

definition same_ends :: "bio_bio_st \<Rightarrow> bio_bio_st \<Rightarrow> bool" where
  "same_ends b b' \<longleftrightarrow> bp_peer b' = bp_peer b \<and> bp_closed b' = bp_closed b \<and> bp_size b' = bp_size b \<and>
     bp_request b' = bp_request b"

lemma read_loop_one:
  assumes ok: "ring_ok b" and r: "0 < unat rest" "unat rest \<le> unat (bp_len b)"
    and fit: "unat (bp_offset b) + unat rest \<le> unat (bp_size b)"
  shows "\<exists>b'. bio_read_loop rest out b = Some (out @ take (unat rest) (ring_data b), b') \<and> ring_ok b' \<and>
    ring_data b' = drop (unat rest) (ring_data b) \<and> same_ends b b'"
proof -
  obtain l where l: "bp_buf b = Some l" "length l = unat (bp_size b)" using ok by (auto simp: ring_ok_def)
  have sum: "unat (bp_offset b + rest) = unat (bp_offset b) + unat rest"
    using fit unat_lt_64 [of "bp_size b"] by (simp add: unat_word_ariths)
  have le: "bp_offset b + rest \<le> bp_size b" using fit by (simp add: word_le_nat_alt sum)
  have len: "unat (bp_len b - rest) = unat (bp_len b) - unat rest" using r(2) by (simp add: unat_sub word_le_nat_alt)
  define off where "off = (if bp_len b - rest \<noteq> 0 \<and> bp_offset b + rest \<noteq> bp_size b then bp_offset b + rest else 0)"
  have off: "unat off = (if unat (bp_offset b) + unat rest = unat (bp_size b) then 0 else unat (bp_offset b) + unat rest)
      \<or> unat off = 0 \<and> unat rest = unat (bp_len b)"
    using r(2) len by (auto simp: off_def sum word_unat_eq_iff)
  note step = ring_read_step [OF ok r(2) fit off]
  have "bio_read_loop rest out b = Some (out @ take (unat rest) (ring_data b), b\<lparr>bp_len := bp_len b - rest, bp_offset := off\<rparr>)"
    using l fit le step(3) r(2) by (subst bio_read_loop.simps) (auto simp: Let_def off_def word_le_nat_alt)
  then show ?thesis using step(1,2) by (simp add: same_ends_def)
qed

lemma read_loop:
  assumes ok: "ring_ok b" and r: "0 < unat rest" "unat rest \<le> unat (bp_len b)"
  shows "\<exists>b'. bio_read_loop rest [] b = Some (take (unat rest) (ring_data b), b') \<and> ring_ok b' \<and>
    ring_data b' = drop (unat rest) (ring_data b) \<and> same_ends b b'"
proof (cases "unat (bp_offset b) + unat rest \<le> unat (bp_size b)")
  case True
  then show ?thesis using read_loop_one [OF ok r, where out = "[]"] by simp
next
  case False
  obtain l where l: "bp_buf b = Some l" "length l = unat (bp_size b)" using ok by (auto simp: ring_ok_def)
  define c where "c = bp_size b - bp_offset b"
  have bnd: "unat (bp_offset b) < unat (bp_size b)" "unat (bp_len b) \<le> unat (bp_size b)" "unat (bp_size b) < 2 ^ 63"
    using ok by (auto simp: ring_ok_def)
  have c: "unat c = unat (bp_size b) - unat (bp_offset b)" using bnd by (simp add: c_def unat_sub word_le_nat_alt)
  have sum: "unat (bp_offset b + rest) = unat (bp_offset b) + unat rest"
    using bnd r by (simp add: unat_word_ariths)
  have nle: "\<not> bp_offset b + rest \<le> bp_size b" using False by (simp add: word_le_nat_alt sum)
  have cr: "unat c < unat rest" "unat c \<le> unat (bp_len b)" "unat (bp_offset b) + unat c = unat (bp_size b)"
    using False r c bnd by linarith+
  define b1 where "b1 = b\<lparr>bp_len := bp_len b - c, bp_offset := 0\<rparr>"
  have step: "ring_ok b1" "ring_data b1 = drop (unat c) (ring_data b)"
      "take (unat c) (drop (unat (bp_offset b)) l) = take (unat c) (ring_data b)"
    using ring_read_step [OF ok cr(2), of 0] cr(3) l(1) by (simp_all add: b1_def)
  have len1: "unat (bp_len b1) = unat (bp_len b) - unat c" using cr(2) by (simp add: b1_def unat_sub word_le_nat_alt)
  have rest1: "unat (rest - c) = unat rest - unat c" using cr(1) by (simp add: unat_sub word_le_nat_alt)
  have "\<exists>b'. bio_read_loop (rest - c) (take (unat c) (ring_data b)) b1 =
      Some (take (unat c) (ring_data b) @ take (unat (rest - c)) (ring_data b1), b') \<and> ring_ok b' \<and>
    ring_data b' = drop (unat (rest - c)) (ring_data b1) \<and> same_ends b1 b'"
    by (rule read_loop_one [OF step(1)]) (use cr r len1 rest1 bnd in \<open>auto simp: b1_def\<close>)
  then obtain b' where b': "bio_read_loop (rest - c) (take (unat c) (ring_data b)) b1 =
      Some (take (unat c) (ring_data b) @ take (unat (rest - c)) (ring_data b1), b')" "ring_ok b'"
    "ring_data b' = drop (unat (rest - c)) (ring_data b1)" "same_ends b1 b'" by blast
  have "rest - c \<noteq> 0" "bp_len b - c \<noteq> 0" using rest1 len1 cr r by (auto simp: b1_def word_unat_eq_iff)
  moreover have "bp_offset b + c = bp_size b" by (simp add: c_def)
  moreover have "rest \<le> bp_len b" using r by (simp add: word_le_nat_alt)
  ultimately have "bio_read_loop rest [] b = bio_read_loop (rest - c) (take (unat c) (ring_data b)) b1"
    using l nle cr step(3) by (subst bio_read_loop.simps) (simp add: Let_def b1_def flip: c_def)
  moreover have "take (unat c) (ring_data b) @ take (unat (rest - c)) (ring_data b1) = take (unat rest) (ring_data b)"
    using take_add [of "unat c" "unat rest - unat c" "ring_data b"] cr(1) by (simp add: step(2) rest1)
  moreover have "drop (unat (rest - c)) (ring_data b1) = drop (unat rest) (ring_data b)"
    using cr(1) by (simp add: step(2) rest1)
  ultimately show ?thesis using b' by (intro exI [of _ b']) (auto simp: same_ends_def b1_def)
qed

text \<open>The index at which the next byte is written.\<close>

definition write_index :: "bio_bio_st \<Rightarrow> u64" where
  "write_index b = (let w = bp_offset b + bp_len b in if w \<ge> bp_size b then w - bp_size b else w)"

lemma write_index:
  assumes "ring_ok b"
  shows "unat (write_index b) = (if unat (bp_offset b) + unat (bp_len b) \<ge> unat (bp_size b)
      then unat (bp_offset b) + unat (bp_len b) - unat (bp_size b) else unat (bp_offset b) + unat (bp_len b))"
    "unat (write_index b) < unat (bp_size b)"
proof -
  have bnd: "unat (bp_offset b) < unat (bp_size b)" "unat (bp_len b) \<le> unat (bp_size b)" "unat (bp_size b) < 2 ^ 63"
    using assms by (auto simp: ring_ok_def)
  then have sum: "unat (bp_offset b + bp_len b) = unat (bp_offset b) + unat (bp_len b)"
    by (simp add: unat_word_ariths)
  show *: "unat (write_index b) = (if unat (bp_offset b) + unat (bp_len b) \<ge> unat (bp_size b)
      then unat (bp_offset b) + unat (bp_len b) - unat (bp_size b) else unat (bp_offset b) + unat (bp_len b))"
    by (simp add: write_index_def Let_def word_le_nat_alt sum unat_sub)
  show "unat (write_index b) < unat (bp_size b)" using * bnd by (auto split: if_splits)
qed

definition ring_put :: "u8 list \<Rightarrow> bio_bio_st \<Rightarrow> bio_bio_st" where
  "ring_put d b = (let w = unat (write_index b); l = the (bp_buf b) in
     b\<lparr>bp_buf := Some (take w l @ d @ drop (w + length d) l), bp_len := bp_len b + word_of_nat (length d)\<rparr>)"

lemma ring_put:
  assumes ok: "ring_ok b" and d: "length d \<le> unat (bp_size b) - unat (bp_len b)"
    and fit: "unat (write_index b) + length d \<le> unat (bp_size b)"
  shows "ring_ok (ring_put d b)" "ring_data (ring_put d b) = ring_data b @ d" "same_ends b (ring_put d b)"
    "unat (bp_len (ring_put d b)) = unat (bp_len b) + length d"
proof -
  obtain l where l: "bp_buf b = Some l" "length l = unat (bp_size b)" using ok by (auto simp: ring_ok_def)
  have bnd: "unat (bp_offset b) < unat (bp_size b)" "unat (bp_len b) \<le> unat (bp_size b)" "unat (bp_size b) < 2 ^ 63"
    using ok by (auto simp: ring_ok_def)
  show len: "unat (bp_len (ring_put d b)) = unat (bp_len b) + length d"
    using d bnd by (simp add: ring_put_def Let_def unat_add_64)
  have size: "length (take (unat (write_index b)) l @ d @ drop (unat (write_index b) + length d) l) = unat (bp_size b)"
    using fit l(2) by simp
  show "ring_ok (ring_put d b)"
    using ok len size d bnd by (simp add: ring_ok_def ring_put_def Let_def l(1))
  show "same_ends b (ring_put d b)" by (simp add: same_ends_def ring_put_def Let_def)
  have "take (unat (bp_len b) + length d) (drop (unat (bp_offset b))
        (take (unat (write_index b)) l @ d @ drop (unat (write_index b) + length d) l) @
      take (unat (bp_offset b)) (take (unat (write_index b)) l @ d @ drop (unat (write_index b) + length d) l)) =
    take (unat (bp_len b)) (drop (unat (bp_offset b)) l @ take (unat (bp_offset b)) l) @ d"
    by (rule write_rot) (use d bnd l(2) write_index [OF ok] fit in auto)
  then show "ring_data (ring_put d b) = ring_data b @ d"
    using len by (simp add: ring_data_def ring_put_def Let_def l(1))
qed

lemma bio_write_loop_unfold:
  "bp_buf b = Some l \<Longrightarrow> bio_write_loop rest buf b =
     (if \<not> bp_len b + rest \<le> bp_size b then None
      else let chunk = (if write_index b + rest \<le> bp_size b then rest else bp_size b - write_index b)
        in if length buf < unat chunk \<or> length l < unat (write_index b) + unat chunk then None
          else let b1 = b\<lparr>bp_buf := Some (take (unat (write_index b)) l @ take (unat chunk) buf @
                         drop (unat (write_index b) + unat chunk) l), bp_len := bp_len b + chunk\<rparr>
            in if \<not> bp_len b1 \<le> bp_size b1 then None
               else if rest - chunk \<noteq> 0 then bio_write_loop (rest - chunk) (drop (unat chunk) buf) b1
               else Some b1)"
  by (subst bio_write_loop.simps) (simp add: write_index_def Let_def)

lemma write_loop_round:
  assumes ok: "ring_ok b" and r: "0 < unat rest" "unat rest \<le> unat (bp_size b) - unat (bp_len b)"
    and buf: "unat rest \<le> length buf"
    and c: "c = (if unat (write_index b) + unat rest \<le> unat (bp_size b) then rest else bp_size b - write_index b)"
  shows "unat c \<le> unat rest" "0 < unat c" "unat (write_index b) + unat c \<le> unat (bp_size b)"
    "bio_write_loop rest buf b = (if rest - c \<noteq> 0 then bio_write_loop (rest - c) (drop (unat c) buf)
       (ring_put (take (unat c) buf) b) else Some (ring_put (take (unat c) buf) b))"
proof -
  obtain l where l: "bp_buf b = Some l" "length l = unat (bp_size b)" using ok by (auto simp: ring_ok_def)
  have bnd: "unat (bp_offset b) < unat (bp_size b)" "unat (bp_len b) \<le> unat (bp_size b)" "unat (bp_size b) < 2 ^ 63"
    using ok by (auto simp: ring_ok_def)
  have w: "unat (write_index b) < unat (bp_size b)" using write_index [OF ok] by simp
  have sub: "unat (bp_size b - write_index b) = unat (bp_size b) - unat (write_index b)"
    using w by (simp add: unat_sub word_le_nat_alt)
  show c': "unat c \<le> unat rest" "0 < unat c" "unat (write_index b) + unat c \<le> unat (bp_size b)"
    using c sub r w by (auto split: if_splits)
  have sum: "unat (write_index b + rest) = unat (write_index b) + unat rest"
    "unat (bp_len b + rest) = unat (bp_len b) + unat rest" "unat (bp_len b + c) = unat (bp_len b) + unat c"
    using w r bnd c'(1) by (simp_all add: unat_word_ariths)
  have le: "bp_len b + rest \<le> bp_size b" "bp_len b + c \<le> bp_size b"
    using r bnd c'(1) by (simp_all add: word_le_nat_alt sum)
  have chunk: "(if write_index b + rest \<le> bp_size b then rest else bp_size b - write_index b) = c"
    using c by (simp add: word_le_nat_alt sum)
  show "bio_write_loop rest buf b = (if rest - c \<noteq> 0 then bio_write_loop (rest - c) (drop (unat c) buf)
       (ring_put (take (unat c) buf) b) else Some (ring_put (take (unat c) buf) b))"
    using l le buf c' unfolding bio_write_loop_unfold [OF l(1)] chunk
    by (simp add: Let_def ring_put_def)
qed

lemma write_loop:
  assumes ok: "ring_ok b" and r: "0 < unat rest" "unat rest \<le> unat (bp_size b) - unat (bp_len b)"
    and buf: "unat rest \<le> length buf"
  shows "\<exists>b'. bio_write_loop rest buf b = Some b' \<and> ring_ok b' \<and>
    ring_data b' = ring_data b @ take (unat rest) buf \<and> same_ends b b'"
proof -
  define c where "c = (if unat (write_index b) + unat rest \<le> unat (bp_size b) then rest else bp_size b - write_index b)"
  note c = write_loop_round [OF ok r buf c_def]
  define b1 where "b1 = ring_put (take (unat c) buf) b"
  have len: "length (take (unat c) buf) = unat c" using c(1) buf by simp
  have b1: "ring_ok b1" "ring_data b1 = ring_data b @ take (unat c) buf" "same_ends b b1"
      "unat (bp_len b1) = unat (bp_len b) + unat c"
    using ring_put [OF ok, of "take (unat c) buf"] c(1,3) r(2) len by (simp_all add: b1_def)
  have rest: "unat (rest - c) = unat rest - unat c" using c(1) by (simp add: unat_sub word_le_nat_alt)
  show ?thesis
  proof (cases "rest - c = 0")
    case True
    then have "unat rest = unat c" using rest c(1) by simp
    then show ?thesis using True c(4) b1 by (simp flip: b1_def)
  next
    case False
    then have r1: "0 < unat (rest - c)" by (metis unsigned_eq_0_iff neq0_conv)
    then have nfit: "\<not> unat (write_index b) + unat rest \<le> unat (bp_size b)" using rest by (auto simp: c_def)
    have bnd: "unat (bp_offset b) < unat (bp_size b)" "unat (bp_len b) \<le> unat (bp_size b)" "unat (bp_size b) < 2 ^ 63"
      using ok by (auto simp: ring_ok_def)
    have "unat c = unat (bp_size b) - unat (write_index b)"
      using nfit write_index(2) [OF ok] by (simp add: c_def unat_sub word_le_nat_alt)
    moreover have "bp_size b1 = bp_size b" "bp_offset b1 = bp_offset b"
      using b1(3) by (simp_all add: same_ends_def) (simp add: b1_def ring_put_def Let_def)
    ultimately have wi: "unat (write_index b1) = 0"
      using write_index(1) [OF b1(1)] write_index [OF ok] b1(4) bnd nfit r(2) by (auto split: if_splits)
    have fit1: "unat (write_index b1) + unat (rest - c) \<le> unat (bp_size b1)"
      using wi rest r(2) b1(3) by (simp add: same_ends_def)
    have buf1: "unat (rest - c) \<le> length (drop (unat c) buf)" using rest buf by simp
    have r2: "unat (rest - c) \<le> unat (bp_size b1) - unat (bp_len b1)"
      using rest r(2) b1(3,4) by (simp add: same_ends_def)
    have "bio_write_loop (rest - c) (drop (unat c) buf) b1 = Some (ring_put (take (unat (rest - c)) (drop (unat c) buf)) b1)"
      using write_loop_round(4) [OF b1(1) r1 r2 buf1, of "rest - c"] fit1 by simp
    moreover have "ring_ok (ring_put (take (unat (rest - c)) (drop (unat c) buf)) b1)"
      "ring_data (ring_put (take (unat (rest - c)) (drop (unat c) buf)) b1) =
        ring_data b1 @ take (unat (rest - c)) (drop (unat c) buf)"
      "same_ends b1 (ring_put (take (unat (rest - c)) (drop (unat c) buf)) b1)"
      using ring_put [OF b1(1), of "take (unat (rest - c)) (drop (unat c) buf)"] fit1 r2 buf1 by simp_all
    moreover have "take (unat c) buf @ take (unat (rest - c)) (drop (unat c) buf) = take (unat rest) buf"
      using take_add [of "unat c" "unat rest - unat c" buf] c(1) rest by simp
    ultimately show ?thesis
      using False c(4) b1 by (auto simp: same_ends_def simp flip: b1_def)
  qed
qed

section \<open>The pair as two queues\<close>

definition bio_end :: "bio_heap \<Rightarrow> bio_id \<Rightarrow> bio \<Rightarrow> bio_bio_st \<Rightarrow> bool" where
  "bio_end h i x b \<longleftrightarrow> bh_bios h i = Some x \<and> bio_ptr x = Some b \<and> bio_init x \<and> ring_ok b"

definition paired :: "bio_heap \<Rightarrow> bio_id \<Rightarrow> bio_id \<Rightarrow> bool" where
  "paired h i j \<longleftrightarrow> i \<noteq> j \<and> (\<exists>x b y c. bio_end h i x b \<and> bio_end h j y c \<and>
     bp_peer b = Some j \<and> bp_peer c = Some i)"

definition bio_st :: "bio_heap \<Rightarrow> bio_id \<Rightarrow> bio_bio_st" where
  "bio_st h i = the (bio_ptr (the (bh_bios h i)))"

text \<open>What BIO \<open>i\<close> has written and its peer has not read, how much it can hold, whether it is closed.\<close>

definition sent :: "bio_heap \<Rightarrow> bio_id \<Rightarrow> u8 list" where "sent h i = ring_data (bio_st h i)"
definition capacity :: "bio_heap \<Rightarrow> bio_id \<Rightarrow> nat" where "capacity h i = unat (bp_size (bio_st h i))"
definition shut :: "bio_heap \<Rightarrow> bio_id \<Rightarrow> bool" where "shut h i = bp_closed (bio_st h i)"

lemma bio_end_st: "bio_end h i x b \<Longrightarrow> bio_st h i = b"
  by (simp add: bio_end_def bio_st_def)

lemma pairedI:
  "bio_end h i x b \<Longrightarrow> bio_end h j y c \<Longrightarrow> bp_peer b = Some j \<Longrightarrow> bp_peer c = Some i \<Longrightarrow> i \<noteq> j \<Longrightarrow>
    paired h i j"
  by (auto simp: paired_def)

lemma ring_data_closed [simp]:
  "ring_data (b\<lparr>bp_closed := v\<rparr>) = ring_data b" "ring_data (b\<lparr>bp_request := q\<rparr>) = ring_data b"
  by (simp_all add: ring_data_def split: option.split)

lemma paired_sym: "paired h i j \<Longrightarrow> paired h j i"
  by (auto simp: paired_def)

definition queue_write :: "nat \<Rightarrow> bool \<Rightarrow> u8 list \<Rightarrow> u8 list \<Rightarrow> int \<times> u8 list" where
  "queue_write cap closed q data =
     (if closed \<or> length q = cap then (- 1, q)
      else let k = min (length data) (cap - length q) in (int k, q @ take k data))"

definition queue_read :: "bool \<Rightarrow> u8 list \<Rightarrow> nat \<Rightarrow> int \<times> u8 list \<times> u8 list" where
  "queue_read closed q n =
     (if q = [] then (if closed then 0 else - 1, [], [])
      else let k = min n (length q) in (int k, take k q, drop k q))"

lemma put_simps [simp]:
  "bh_bios (put_bio i b h) = (bh_bios h)(i \<mapsto> b)"
  "bh_bios (OPENSSL_PUT_ERROR e h) = bh_bios h"
  "bh_bios h i = Some x \<Longrightarrow> bh_bios (put_ptr i p h) = (bh_bios h)(i \<mapsto> x\<lparr>bio_ptr := Some p\<rparr>)"
  by (simp_all add: put_bio_def OPENSSL_PUT_ERROR_def put_ptr_def)

lemma flag_simps [simp]:
  "bio_ptr (BIO_clear_retry_flags x) = bio_ptr x" "bio_init (BIO_clear_retry_flags x) = bio_init x"
  "bio_ptr (BIO_set_retry_read x) = bio_ptr x" "bio_init (BIO_set_retry_read x) = bio_init x"
  "bio_ptr (BIO_set_retry_write x) = bio_ptr x" "bio_init (BIO_set_retry_write x) = bio_init x"
  by (simp_all add: BIO_clear_retry_flags_def BIO_set_retry_read_def BIO_set_retry_write_def)

lemma int_result:
  assumes "unat n < 2 ^ 31"
  shows "sint (ucast (n :: u64) :: u32) = int (unat n)"
proof -
  have "uint (ucast n :: u32) = uint n"
    using assms by (simp add: unsigned_ucast_eq take_bit_nat_eq_self uint_nat del: of_nat_unat)
  moreover have "sint (ucast n :: u32) = signed_take_bit 31 (uint (ucast n :: u32))"
    by (simp add: sint_uint)
  moreover have "signed_take_bit 31 (int (unat n)) = int (unat n)"
  proof (rule signed_take_bit_int_eq_self)
    have "unat n < 2147483648" using assms by simp
    then have "int (unat n) < 2147483648" by linarith
    then show "int (unat n) < 2 ^ 31" by (simp del: of_nat_unat)
    show "- (2 ^ 31) \<le> int (unat n)" by (rule order_trans [of _ 0]) simp_all
  qed
  ultimately show ?thesis by (simp add: uint_nat del: of_nat_unat)
qed

text \<open>One write changes the writer's end alone.\<close>

lemma bio_write_end:
  assumes e: "bio_end h i x b" "bp_peer b \<noteq> None" and n: "0 < n" "n < 2 ^ 31" "n \<le> length data"
  shows "\<exists>r h' x' b'. bio_write i (Some data) (int n) h = Some (r, h') \<and>
    bh_bios h' = (bh_bios h)(i \<mapsto> x') \<and> bio_end h' i x' b' \<and> bp_peer b' = bp_peer b \<and>
    bp_closed b' = bp_closed b \<and> bp_size b' = bp_size b \<and>
    (r, ring_data b') = queue_write (unat (bp_size b)) (bp_closed b) (ring_data b) (take n data)"
proof -
  have x: "bh_bios h i = Some x" "bio_ptr x = Some b" "bio_init x" and ok: "ring_ok b"
    using e by (auto simp: bio_end_def)
  obtain l where l: "bp_buf b = Some l" using ok by (auto simp: ring_ok_def)
  define b0 where "b0 = b\<lparr>bp_request := 0\<rparr>"
  have b0: "ring_ok b0" "ring_data b0 = ring_data b" "bp_buf b0 = Some l" "bp_closed b0 = bp_closed b"
      "bp_size b0 = bp_size b" "bp_len b0 = bp_len b" "bp_peer b0 = bp_peer b"
    using ok l by (auto simp: b0_def ring_ok_def ring_data_def)
  have num: "unat (word_of_int (int n) :: u64) = n" "(word_of_int (int n) :: u64) \<noteq> 0"
  proof -
    show u: "unat (word_of_int (int n) :: u64) = n"
      using n(2) by (simp add: unat_of_nat_64)
    show "(word_of_int (int n) :: u64) \<noteq> 0" using u n(1) by force
  qed
  have len: "length (ring_data b) = unat (bp_len b)" by (rule ring_length [OF ok])
  have le: "bp_len b \<le> bp_size b" using ok by (simp add: ring_ok_def word_le_nat_alt)
  show ?thesis
  proof (cases "bp_closed b \<or> bp_len b = bp_size b")
    case True
    then show ?thesis
      using x e(2) b0 num le l
      by (cases "bp_closed b") (auto simp: bio_write_def Let_def queue_write_def len bio_end_def simp flip: b0_def)
  next
    case False
    define k where "k = (if word_of_nat n > bp_size b - bp_len b then bp_size b - bp_len b
      else word_of_nat n)"
    have free: "unat (bp_size b - bp_len b) = unat (bp_size b) - unat (bp_len b)" "0 < unat (bp_size b) - unat (bp_len b)"
      using le False by (auto simp: unat_sub word_le_nat_alt word_unat_eq_iff)
    have k: "unat k = min n (unat (bp_size b) - unat (bp_len b))"
      using num(1) free by (auto simp: k_def word_less_nat_alt)
    have "\<exists>b'. bio_write_loop k data b0 = Some b' \<and> ring_ok b' \<and>
        ring_data b' = ring_data b0 @ take (unat k) data \<and> same_ends b0 b'"
      by (rule write_loop) (use b0 k n(1,3) free in auto)
    then obtain b' where b': "bio_write_loop k data b0 = Some b'" "ring_ok b'"
        "ring_data b' = ring_data b @ take (unat k) data" "same_ends b0 b'" using b0 by auto
    have "sint (ucast k :: u32) = int (unat k)" using k n(2) by (intro int_result) auto
    then have "bio_write i (Some data) (int n) h = Some (int (unat k),
        put_ptr i b' (put_ptr i b0 (put_bio i (BIO_clear_retry_flags x) h)))"
      using x e(2) l num le False b'(1)
      by (simp add: bio_write_def Let_def b0_def [symmetric] b0(3-7) k_def [symmetric] cong: if_cong)
    then show ?thesis
      using x b' b0 False k len min_absorb2 [OF n(3)] by (auto simp: bio_end_def same_ends_def queue_write_def Let_def word_unat_eq_iff)
  qed
qed

text \<open>A read takes from the other end's buffer and records a request there when it finds nothing.\<close>

lemma bio_read_end:
  assumes p: "bio_end h i x b" "bp_peer b = Some j" "bio_end h j y c" "i \<noteq> j" and n: "0 < n" "n < 2 ^ 31"
  shows "\<exists>r out h' x' y' c'. bio_read i True (int n) h = Some (r, out, h') \<and>
    bh_bios h' = (bh_bios h)(i \<mapsto> x', j \<mapsto> y') \<and> bio_end h' i x' b \<and> bio_end h' j y' c' \<and>
    bp_peer c' = bp_peer c \<and> bp_closed c' = bp_closed c \<and> bp_size c' = bp_size c \<and>
    (r, out, ring_data c') = queue_read (bp_closed c) (ring_data c) n"
proof -
  have x: "bh_bios h i = Some x" "bio_ptr x = Some b" "bio_init x" "ring_ok b"
    and y: "bh_bios h j = Some y" "bio_ptr y = Some c" "bio_init y" and ok: "ring_ok c"
    using p by (auto simp: bio_end_def)
  obtain l where l: "bp_buf c = Some l" using ok by (auto simp: ring_ok_def)
  define c0 where "c0 = c\<lparr>bp_request := 0\<rparr>"
  have c0: "ring_ok c0" "ring_data c0 = ring_data c" "bp_buf c0 = Some l" "bp_closed c0 = bp_closed c"
      "bp_size c0 = bp_size c" "bp_len c0 = bp_len c" "bp_peer c0 = bp_peer c"
    using ok l by (auto simp: c0_def ring_ok_def ring_data_def)
  have num: "unat (word_of_nat n :: u64) = n" using n(2) by (simp add: unat_of_nat_64)
  then have nz: "(word_of_nat n :: u64) \<noteq> 0" using n(1) by force
  have len: "length (ring_data c) = unat (bp_len c)" by (rule ring_length [OF ok])
  then have empty: "ring_data c = [] \<longleftrightarrow> bp_len c = 0"
    by (metis length_0_conv unsigned_eq_0_iff)
  show ?thesis
  proof (cases "bp_len c = 0")
    case True
    have "ring_ok (c0\<lparr>bp_request := q\<rparr>)" "ring_data (c0\<lparr>bp_request := q\<rparr>) = ring_data c" for q
      using c0 by (auto simp: ring_ok_def ring_data_def)
    then show ?thesis
      using x y p(2,4) l c0 nz True empty
      by (cases "bp_closed c")
        (auto simp: bio_read_def Let_def queue_read_def bio_end_def simp flip: c0_def)
  next
    case False
    define k where "k = (if bp_len c < word_of_nat n then bp_len c else word_of_nat n)"
    have k: "unat k = min n (unat (bp_len c))" using num by (auto simp: k_def word_less_nat_alt)
    have pos: "0 < unat (bp_len c)" using False by (metis unsigned_eq_0_iff neq0_conv)
    have "\<exists>b'. bio_read_loop k [] c0 = Some (take (unat k) (ring_data c0), b') \<and> ring_ok b' \<and>
        ring_data b' = drop (unat k) (ring_data c0) \<and> same_ends c0 b'"
      by (rule read_loop) (use c0 k n(1) pos in auto)
    then obtain c' where c': "bio_read_loop k [] c0 = Some (take (unat k) (ring_data c), c')" "ring_ok c'"
        "ring_data c' = drop (unat k) (ring_data c)" "same_ends c0 c'" using c0 by auto
    have "sint (ucast k :: u32) = int (unat k)" using k n(2) by (intro int_result) auto
    then have "bio_read i True (int n) h = Some (int (unat k), take (unat k) (ring_data c),
        put_ptr j c' (put_ptr j c0 (put_bio i (BIO_clear_retry_flags x) h)))"
      using x y p(2,4) l nz False c'(1)
      by (simp add: bio_read_def Let_def c0_def [symmetric] c0(3-7) k_def [symmetric] cong: if_cong)
    then show ?thesis
      using x y p(4) c' c0 k len empty False
      by (auto simp: bio_end_def same_ends_def queue_read_def Let_def)
  qed
qed

section \<open>The interface on a pair\<close>

text \<open>What no transfer changes.\<close>

definition same_pair :: "bio_heap \<Rightarrow> bio_heap \<Rightarrow> bio_id \<Rightarrow> bio_id \<Rightarrow> bool" where
  "same_pair h h' i j \<longleftrightarrow> paired h' i j \<and> (\<forall>k\<in>{i, j}. capacity h' k = capacity h k \<and> shut h' k = shut h k)"

lemma pairedE:
  assumes "paired h i j"
  obtains x b y c where "bio_end h i x b" "bio_end h j y c" "bp_peer b = Some j" "bp_peer c = Some i" "i \<noteq> j"
  using assms unfolding paired_def by blast

lemma sent_capacity: "paired h i j \<Longrightarrow> length (sent h i) \<le> capacity h i"
proof (elim pairedE)
  fix x b
  assume "bio_end h i x b"
  moreover from this have "ring_ok b" by (simp add: bio_end_def)
  ultimately show ?thesis by (auto simp: sent_def capacity_def bio_end_st ring_length ring_ok_def)
qed

lemma BIO_write_pair:
  assumes p: "paired h i j" and n: "0 < n" "n < 2 ^ 31" "n \<le> length data"
  shows "\<exists>r h'. BIO_write i (Some data) (int n) h = Some (r, h') \<and> same_pair h h' i j \<and>
    (r, sent h' i) = queue_write (capacity h i) (shut h i) (sent h i) (take n data) \<and> sent h' j = sent h j"
proof -
  obtain x b y c where e: "bio_end h i x b" "bio_end h j y c" "bp_peer b = Some j" "bp_peer c = Some i" "i \<noteq> j"
    using p by (rule pairedE)
  obtain r h1 x' b' where w: "bio_write i (Some data) (int n) h = Some (r, h1)"
      "bh_bios h1 = (bh_bios h)(i \<mapsto> x')" "bio_end h1 i x' b'" "bp_peer b' = bp_peer b"
      "bp_closed b' = bp_closed b" "bp_size b' = bp_size b"
      "(r, ring_data b') = queue_write (unat (bp_size b)) (bp_closed b) (ring_data b) (take n data)"
    using bio_write_end [OF e(1) _ n] e(3) by auto
  define h' where "h' = (if r > 0 then put_bio i (x'\<lparr>bio_num_write := bio_num_write x' + word_of_int r\<rparr>) h1 else h1)"
  have x: "bh_bios h i = Some x" "bio_init x" "bh_bios h1 i = Some x'" using e(1) w(3) by (auto simp: bio_end_def)
  have "BIO_write i (Some data) (int n) h = Some (r, h')"
    using x w(1) n by (simp add: BIO_write_def h'_def)
  moreover have "\<exists>x2. bio_end h' i x2 b'" using w(3) by (auto simp: h'_def bio_end_def)
  moreover have "bio_end h' j y c" using w(2) e(2,5) by (auto simp: h'_def bio_end_def)
  ultimately show ?thesis
    using e w(4-7)
    by (intro exI [of _ r] exI [of _ h'])
      (auto intro: pairedI simp: same_pair_def sent_def capacity_def shut_def bio_end_st)
qed

lemma BIO_read_pair:
  assumes p: "paired h i j" and n: "0 < n" "n < 2 ^ 31"
  shows "\<exists>r out h'. BIO_read i True (int n) h = Some (r, out, h') \<and> same_pair h h' i j \<and>
    (r, out, sent h' j) = queue_read (shut h j) (sent h j) n \<and> sent h' i = sent h i"
proof -
  obtain x b y c where e: "bio_end h i x b" "bio_end h j y c" "bp_peer b = Some j" "bp_peer c = Some i" "i \<noteq> j"
    using p by (rule pairedE)
  obtain r out h1 x' y' c' where w: "bio_read i True (int n) h = Some (r, out, h1)"
      "bio_end h1 i x' b" "bio_end h1 j y' c'" "bp_peer c' = bp_peer c"
      "bp_closed c' = bp_closed c" "bp_size c' = bp_size c"
      "(r, out, ring_data c') = queue_read (bp_closed c) (ring_data c) n"
    using bio_read_end [OF e(1,3,2,5) n] by blast
  define h' where "h' = (if r > 0 then put_bio i (x'\<lparr>bio_num_read := bio_num_read x' + word_of_int r\<rparr>) h1 else h1)"
  have x: "bh_bios h i = Some x" "bio_init x" "bh_bios h1 i = Some x'" using e(1) w(2) by (auto simp: bio_end_def)
  have "BIO_read i True (int n) h = Some (r, out, h')"
    using x w(1) n by (simp add: BIO_read_def h'_def)
  moreover have "\<exists>x2. bio_end h' i x2 b" using w(2) by (auto simp: h'_def bio_end_def)
  moreover have "bio_end h' j y' c'" using w(3) e(5) by (auto simp: h'_def bio_end_def)
  ultimately show ?thesis
    using e w(4-7)
    by (intro exI [of _ r] exI [of _ out] exI [of _ h'])
      (auto intro: pairedI simp: same_pair_def sent_def capacity_def shut_def bio_end_st)
qed

lemma BIO_shutdown_wr_pair:
  assumes "paired h i j"
  shows "\<exists>h'. BIO_shutdown_wr (Some i) h = Some (1, h') \<and> paired h' i j \<and> shut h' i \<and> shut h' j = shut h j \<and>
    sent h' i = sent h i \<and> sent h' j = sent h j \<and> capacity h' i = capacity h i \<and> capacity h' j = capacity h j"
proof -
  obtain x b y c where e: "bio_end h i x b" "bio_end h j y c" "bp_peer b = Some j" "bp_peer c = Some i" "i \<noteq> j"
    using assms by (rule pairedE)
  define h' where "h' = put_ptr i (b\<lparr>bp_closed := True\<rparr>) h"
  have x: "bh_bios h i = Some x" "bio_ptr x = Some b" using e(1) by (auto simp: bio_end_def)
  have "BIO_shutdown_wr (Some i) h = Some (1, h')"
    using x by (simp add: BIO_shutdown_wr_def BIO_ctrl_def bio_ctrl_def bio_cmd_defs h'_def)
  moreover have "bio_end h' i (x\<lparr>bio_ptr := Some (b\<lparr>bp_closed := True\<rparr>)\<rparr>) (b\<lparr>bp_closed := True\<rparr>)"
    using e(1) by (auto simp: h'_def bio_end_def ring_ok_def)
  moreover have "bio_end h' j y c" using e x by (simp add: h'_def bio_end_def)
  ultimately show ?thesis
    using e by (intro exI [of _ h'])
      (auto intro: pairedI simp: sent_def capacity_def shut_def bio_end_st)
qed

text \<open>\<open>BIO_write_all\<close> returns, and succeeds when everything fits.\<close>

lemma BIO_write_all_pair:
  "paired h i j \<Longrightarrow> \<exists>ok h'. BIO_write_all i data h = Some (ok, h') \<and> same_pair h h' i j \<and>
    sent h' j = sent h j \<and>
    (ok \<longleftrightarrow> data = [] \<or> \<not> shut h i \<and> length (sent h i) + length data \<le> capacity h i) \<and>
    sent h' i = sent h i @ (if shut h i then [] else take (capacity h i - length (sent h i)) data)"
proof (induction "length data" arbitrary: data h rule: less_induct)
  case less
  show ?case
  proof (cases "data = []")
    case True
    then show ?thesis using less.prems by (subst BIO_write_all.simps) (auto simp: same_pair_def)
  next
    case False
    define d where "d = take 2147483647 data"
    have d: "0 < length d" "length d < 2 ^ 31" using False by (simp_all add: d_def)
    define n where "n = length d"
    have n: "0 < n" "n < 2 ^ 31" "n \<le> length data" "take n data = d"
      using False by (auto simp: n_def d_def min_def)
    have arg: "(if length data > 2147483647 then 2147483647 else int (length data)) = int n"
      by (auto simp: n_def d_def)
    obtain r h1 where w: "BIO_write i (Some data) (int n) h = Some (r, h1)" "same_pair h h1 i j"
        "(r, sent h1 i) = queue_write (capacity h i) (shut h i) (sent h i) d" "sent h1 j = sent h j"
      using BIO_write_pair [OF less.prems n(1-3)] n(4) by auto
    have cap: "length (sent h i) \<le> capacity h i" by (rule sent_capacity [OF less.prems])
    show ?thesis
    proof (cases "shut h i \<or> length (sent h i) = capacity h i")
      case True
      then have "BIO_write_all i data h = Some (False, h1)"
        using w(1,3) False arg by (subst BIO_write_all.simps) (auto simp: queue_write_def)
      moreover have "sent h1 i = sent h i" using w(3) True by (auto simp: queue_write_def)
      ultimately show ?thesis using True False w(2,4) by auto
    next
      case F: False
      define k where "k = min n (capacity h i - length (sent h i))"
      have k: "r = int k" "sent h1 i = sent h i @ take k d" "0 < k"
        using w(3) F n(1) cap by (auto simp: queue_write_def Let_def k_def n_def)
      have "BIO_write_all i data h = BIO_write_all i (drop k data) h1"
        using w(1) k(1,3) False arg by (subst BIO_write_all.simps) simp
      moreover have "length (drop k data) < length data" using k(3) False by simp
      moreover have "paired h1 i j" using w(2) by (simp add: same_pair_def)
      ultimately obtain ok h' where "BIO_write_all i data h = Some (ok, h')" "same_pair h1 h' i j"
          "sent h' j = sent h1 j"
          "ok \<longleftrightarrow> drop k data = [] \<or> \<not> shut h1 i \<and> length (sent h1 i) + length (drop k data) \<le> capacity h1 i"
          "sent h' i = sent h1 i @ (if shut h1 i then [] else take (capacity h1 i - length (sent h1 i)) (drop k data))"
        using less.hyps [of "drop k data" h1] by auto
      moreover have "shut h1 i = shut h i" "capacity h1 i = capacity h i" using w(2) by (auto simp: same_pair_def)
      moreover have "take k d = take k data" using n(4) by (metis k_def min.cobounded1 min_def take_take)
      moreover have "length (take k data) = k" using n(3) by (simp add: k_def)
      moreover have "take (capacity h i - length (sent h i)) data =
          take k data @ take (capacity h i - length (sent h i) - k) (drop k data)"
      proof -
        have "capacity h i - length (sent h i) = k + (capacity h i - length (sent h i) - k)" by (simp add: k_def)
        then show ?thesis by (metis take_add)
      qed
      ultimately show ?thesis
        using w(2,4) k(2) F cap n(3) \<open>length (drop k data) < length data\<close>
        by (intro exI [of _ ok] exI [of _ h']) (auto simp: same_pair_def)
    qed
  qed
qed

section \<open>Creating and breaking pairs\<close>

lemma pair_buf_new:
  assumes "bp_buf b = None" "alloc (if n = 0 then bp_size b else n)"
    "0 < unat (if n = 0 then bp_size b else n)" "unat (if n = 0 then bp_size b else n) < 2 ^ 63"
  shows "\<exists>b'. pair_buf alloc junk n b = (Some b', b') \<and> ring_ok b' \<and> ring_data b' = [] \<and>
    bp_size b' = (if n = 0 then bp_size b else n)"
  using assms by (auto simp: pair_buf_def Let_def ring_ok_def ring_data_def)

definition pair_size :: "u64 \<Rightarrow> u64" where
  "pair_size n = (if n = 0 then 17 * 1024 else n)"

lemma BIO_new_bio_pair_ok:
  assumes "i \<noteq> j" "alloc (pair_size n1)" "alloc (pair_size n2)" "unat n1 < 2 ^ 63" "unat n2 < 2 ^ 63"
  shows "\<exists>h'. BIO_new_bio_pair alloc junk (Some i, True) n1 (Some j, True) n2 h = Some (True, Some i, Some j, h') \<and>
    paired h' i j \<and> sent h' i = [] \<and> sent h' j = [] \<and> capacity h' i = unat (pair_size n1) \<and>
    capacity h' j = unat (pair_size n2) \<and> \<not> shut h' i \<and> \<not> shut h' j"
proof -
  define b where "b = \<lparr>bp_peer = None, bp_closed = False, bp_len = 0, bp_offset = 0, bp_size = 17 * 1024,
             bp_buf = None, bp_request = 0\<rparr>"
  define x where "x = \<lparr>bio_init = False, bio_shutdown = 1, bio_flags = 0, bio_retry_reason = 0,
              bio_references = 1, bio_ptr = Some b, bio_num_read = 0, bio_num_write = 0\<rparr>"
  have new: "BIO_new (Some k) True h = (Some k, put_bio k x h)" for k h
    by (simp add: BIO_new_def bio_new_def x_def b_def)
  have buf: "\<exists>b'. pair_buf alloc junk n b = (Some b', b') \<and> ring_ok b' \<and> ring_data b' = [] \<and> bp_size b' = pair_size n"
    if "alloc (pair_size n)" "unat n < 2 ^ 63" for n
  proof -
    have "0 < unat n" if "n \<noteq> 0" using that by (metis unsigned_eq_0_iff neq0_conv)
    then show ?thesis
      using pair_buf_new [of b alloc n junk] that by (auto simp: b_def pair_size_def split: if_splits)
  qed
  obtain b1 where b1: "pair_buf alloc junk n1 b = (Some b1, b1)" "ring_ok b1" "ring_data b1 = []" "bp_size b1 = pair_size n1"
    using buf [OF assms(2,4)] by blast
  obtain b2 where b2: "pair_buf alloc junk n2 b = (Some b2, b2)" "ring_ok b2" "ring_data b2 = []" "bp_size b2 = pair_size n2"
    using buf [OF assms(3,5)] by blast
  define c1 where "c1 = b1\<lparr>bp_peer := Some j, bp_closed := False, bp_request := 0\<rparr>"
  define c2 where "c2 = b2\<lparr>bp_peer := Some i, bp_closed := False, bp_request := 0\<rparr>"
  define h' where "h' = put_bio j (x\<lparr>bio_ptr := Some c2, bio_init := True\<rparr>)
    (put_bio i (x\<lparr>bio_ptr := Some c1, bio_init := True\<rparr>) (put_bio j x (put_bio i x h)))"
  have "bio_make_pair alloc junk i j n1 n2 (put_bio j x (put_bio i x h)) = Some (True, h')"
    using b1(1) b2(1) assms(1) by (simp add: bio_make_pair_def x_def Let_def b_def h'_def c1_def c2_def)
  then have "BIO_new_bio_pair alloc junk (Some i, True) n1 (Some j, True) n2 h = Some (True, Some i, Some j, h')"
    by (simp add: BIO_new_bio_pair_def new)
  moreover have "ring_ok c1" "ring_ok c2" "ring_data c1 = []" "ring_data c2 = []"
    using b1 b2 by (auto simp: c1_def c2_def ring_ok_def ring_data_def)
  then have "bio_end h' i (x\<lparr>bio_ptr := Some c1, bio_init := True\<rparr>) c1"
      "bio_end h' j (x\<lparr>bio_ptr := Some c2, bio_init := True\<rparr>) c2"
    using assms(1) by (auto simp: bio_end_def h'_def)
  moreover from this have "paired h' i j"
    by (rule pairedI) (use assms(1) in \<open>simp_all add: c1_def c2_def\<close>)
  ultimately show ?thesis
    using b1 b2 \<open>ring_data c1 = []\<close> \<open>ring_data c2 = []\<close>
    by (intro exI [of _ h']) (auto simp: sent_def capacity_def shut_def bio_end_st, simp_all add: c1_def c2_def)
qed

text \<open>Freeing the last reference to one end leaves the other one uninitialised.\<close>

lemma BIO_free_pair:
  assumes p: "paired h i j" and refs: "bio_references (the (bh_bios h i)) = 1"
  shows "\<exists>h'. BIO_free (Some i) h = Some (True, h') \<and> bh_bios h' i = None \<and>
    (\<forall>buf n. BIO_read j buf n h' = Some (- 2, [], OPENSSL_PUT_ERROR BIO_R_UNINITIALIZED h')) \<and>
    (\<forall>data n. BIO_write j data n h' = Some (- 2, OPENSSL_PUT_ERROR BIO_R_UNINITIALIZED h'))"
proof -
  obtain x b y c where e: "bio_end h i x b" "bio_end h j y c" "bp_peer b = Some j" "bp_peer c = Some i" "i \<noteq> j"
    using p by (rule pairedE)
  have x: "bh_bios h i = Some x" "bio_ptr x = Some b" "bio_references x = 1" "bp_buf b \<noteq> None"
    and y: "bh_bios h j = Some y" "bio_ptr y = Some c" "bp_buf c \<noteq> None"
    using e(1,2) refs by (auto simp: bio_end_def ring_ok_def)
  have dec: "CRYPTO_refcount_dec_and_test_zero 1 = Some (True, 0)"
    by (simp add: CRYPTO_refcount_dec_and_test_zero_def CRYPTO_REFCOUNT_MAX_def)
  have "\<exists>h' y'. BIO_free (Some i) h = Some (True, h') \<and> bh_bios h' i = None \<and> bh_bios h' j = Some y' \<and> \<not> bio_init y'"
    using x y e(3-5) by (auto simp: BIO_free_def dec bio_free_def bio_destroy_pair_def Let_def)
  then show ?thesis by (auto simp: BIO_read_def BIO_write_def)
qed

section \<open>Runs\<close>

text \<open>Any interleaving of writes, reads and shutdowns at the two ends, with what each call moved.\<close>

datatype bio_event = Wrote bio_id "u8 list" | Got bio_id "u8 list" | Shut bio_id

inductive bio_step :: "bio_heap \<Rightarrow> bio_event \<Rightarrow> bio_heap \<Rightarrow> bool" where
  step_write: "0 < n \<Longrightarrow> n < 2 ^ 31 \<Longrightarrow> n \<le> length data \<Longrightarrow> BIO_write k (Some data) (int n) h = Some (r, h') \<Longrightarrow>
     bio_step h (Wrote k (take (nat r) (take n data))) h'"
| step_read: "0 < n \<Longrightarrow> n < 2 ^ 31 \<Longrightarrow> BIO_read k True (int n) h = Some (r, out, h') \<Longrightarrow>
     bio_step h (Got k out) h'"
| step_shutdown: "BIO_shutdown_wr (Some k) h = Some (r, h') \<Longrightarrow> bio_step h (Shut k) h'"

inductive_cases bio_step_WroteE: "bio_step h (Wrote k d) h'"
inductive_cases bio_step_GotE: "bio_step h (Got k d) h'"
inductive_cases bio_step_ShutE: "bio_step h (Shut k) h'"

inductive bio_run :: "bio_heap \<Rightarrow> bio_event list \<Rightarrow> bio_heap \<Rightarrow> bool" where
  run_done: "bio_run h [] h"
| run_more: "bio_run h es h1 \<Longrightarrow> bio_step h1 e h2 \<Longrightarrow> bio_run h (es @ [e]) h2"

fun event_end :: "bio_event \<Rightarrow> bio_id" where
  "event_end (Wrote k d) = k"
| "event_end (Got k d) = k"
| "event_end (Shut k) = k"

definition written :: "bio_id \<Rightarrow> bio_event list \<Rightarrow> u8 list" where
  "written k es = concat (map (\<lambda>e. case e of Wrote k' d \<Rightarrow> if k' = k then d else [] | _ \<Rightarrow> []) es)"

definition received :: "bio_id \<Rightarrow> bio_event list \<Rightarrow> u8 list" where
  "received k es = concat (map (\<lambda>e. case e of Got k' d \<Rightarrow> if k' = k then d else [] | _ \<Rightarrow> []) es)"

lemma written_snoc [simp]: "written k (es @ [e]) = written k es @ written k [e]"
  and received_snoc [simp]: "received k (es @ [e]) = received k es @ received k [e]"
  by (simp_all add: written_def received_def)

lemma traffic_simps [simp]:
  "written k [] = []" "received k [] = []"
  "written k [Wrote k' d] = (if k' = k then d else [])" "written k [Got k' d] = []" "written k [Shut k'] = []"
  "received k [Got k' d] = (if k' = k then d else [])" "received k [Wrote k' d] = []" "received k [Shut k'] = []"
  by (simp_all add: written_def received_def)

text \<open>One step keeps the pair and the bytes in flight.\<close>

definition flows :: "bio_heap \<Rightarrow> bio_event list \<Rightarrow> bio_heap \<Rightarrow> bio_id \<Rightarrow> bio_id \<Rightarrow> bool" where
  "flows h es h' i j \<longleftrightarrow> sent h i @ written i es = received j es @ sent h' i"

lemma step_write_pair:
  assumes p: "paired h i j" and s: "bio_step h (Wrote i d) h'"
  shows "paired h' i j \<and> sent h' i = sent h i @ d \<and> sent h' j = sent h j \<and>
    capacity h' i = capacity h i \<and> capacity h' j = capacity h j"
proof -
  obtain n data r where 0: "0 < n" "n < 2147483648" "n \<le> length data" "d = take (min (nat r) n) data"
      "BIO_write i (Some data) (int n) h = Some (r, h')"
    using s by (rule bio_step_WroteE) (rule that; assumption)
  then have 1: "0 < n" "n < 2 ^ 31" "n \<le> length data" "d = take (nat r) (take n data)"
      "BIO_write i (Some data) (int n) h = Some (r, h')" by simp_all
  obtain r' h1 where w: "BIO_write i (Some data) (int n) h = Some (r', h1)" "same_pair h h1 i j"
      "(r', sent h1 i) = queue_write (capacity h i) (shut h i) (sent h i) (take n data)" "sent h1 j = sent h j"
    using BIO_write_pair [OF p 1(1-3)] by blast
  have eq: "r' = r" "h1 = h'" using w(1) 1(5) by simp_all
  have "sent h' i = sent h i @ d"
    using w(3) unfolding eq 1(4) queue_write_def Let_def by (auto split: if_splits)
  then show ?thesis using w(2,4) unfolding eq same_pair_def by simp
qed

lemma step_read_pair:
  assumes p: "paired h i j" and s: "bio_step h (Got i d) h'"
  shows "paired h' i j \<and> sent h j = d @ sent h' j \<and> sent h' i = sent h i \<and>
    capacity h' i = capacity h i \<and> capacity h' j = capacity h j"
proof -
  obtain n r where 0: "0 < n" "n < 2147483648" "BIO_read i True (int n) h = Some (r, d, h')"
    using s by (rule bio_step_GotE) (rule that; assumption)
  then have 1: "0 < n" "n < 2 ^ 31" "BIO_read i True (int n) h = Some (r, d, h')" by simp_all
  obtain r' out h1 where w: "BIO_read i True (int n) h = Some (r', out, h1)" "same_pair h h1 i j"
      "(r', out, sent h1 j) = queue_read (shut h j) (sent h j) n" "sent h1 i = sent h i"
    using BIO_read_pair [OF p 1(1,2)] by blast
  have eq: "r' = r" "out = d" "h1 = h'" using w(1) 1(3) by simp_all
  have "sent h j = d @ sent h' j"
    using w(3) unfolding eq queue_read_def Let_def by (auto split: if_splits)
  then show ?thesis using w(2,4) unfolding eq same_pair_def by simp
qed

lemma step_shut_pair:
  assumes p: "paired h i j" and s: "bio_step h (Shut i) h'"
  shows "paired h' i j \<and> sent h' i = sent h i \<and> sent h' j = sent h j \<and>
    capacity h' i = capacity h i \<and> capacity h' j = capacity h j"
  using s BIO_shutdown_wr_pair [OF p] by (auto elim: bio_step_ShutE)

lemma step_pair:
  assumes "paired h i j" "bio_step h e h'" "event_end e = i"
  shows "paired h' i j \<and> flows h [e] h' i j \<and> flows h [e] h' j i \<and>
    capacity h' i = capacity h i \<and> capacity h' j = capacity h j"
proof -
  have "i \<noteq> j" using assms(1) by (simp add: paired_def)
  then show ?thesis
    using assms step_write_pair [OF assms(1), of _ h'] step_read_pair [OF assms(1), of _ h']
      step_shut_pair [OF assms(1), of h']
    by (cases e) (simp_all add: flows_def)
qed

lemma run_pair:
  assumes "bio_run h es h'" "paired h i j" "\<forall>e\<in>set es. event_end e \<in> {i, j}"
  shows "paired h' i j \<and> flows h es h' i j \<and> flows h es h' j i \<and>
    capacity h' i = capacity h i \<and> capacity h' j = capacity h j"
  using assms
proof (induction rule: bio_run.induct)
  case (run_done h)
  then show ?case by (simp add: flows_def)
next
  case (run_more h es h1 e h2)
  then have IH: "paired h1 i j" "flows h es h1 i j" "flows h es h1 j i"
      "capacity h1 i = capacity h i" "capacity h1 j = capacity h j" by auto
  have "event_end e = i \<or> event_end e = j" using run_more.prems by simp
  then have "paired h2 i j \<and> flows h1 [e] h2 i j \<and> flows h1 [e] h2 j i \<and>
      capacity h2 i = capacity h1 i \<and> capacity h2 j = capacity h1 j"
    using step_pair [OF IH(1) run_more.hyps(2)] step_pair [OF paired_sym [OF IH(1)] run_more.hyps(2)] paired_sym
    by blast
  then show ?case using IH by (simp add: flows_def) (metis append_assoc)
qed

text \<open>The guarantee that a writer can ask for.\<close>

lemma write_guarantee:
  assumes "paired h i j"
  shows "BIO_ctrl_get_write_guarantee (Some i) h =
    Some (word_of_nat (if shut h i then 0 else capacity h i - length (sent h i)), h)"
proof -
  obtain x b y c where e: "bio_end h i x b" "bp_peer b = Some j" using assms by (rule pairedE)
  have x: "bh_bios h i = Some x" "bio_ptr x = Some b" and ok: "ring_ok b" using e(1) by (auto simp: bio_end_def)
  have "unat (bp_size b - bp_len b) = unat (bp_size b) - unat (bp_len b)"
    using ok by (simp add: unat_sub word_le_nat_alt ring_ok_def)
  then have "bp_size b - bp_len b = word_of_nat (unat (bp_size b) - unat (bp_len b))" by (metis of_nat_unat ucast_id)
  then show ?thesis
    using x e(2) ring_length [OF ok]
    by (simp add: BIO_ctrl_get_write_guarantee_def BIO_ctrl_def bio_ctrl_def bio_cmd_defs bio_end_st [OF e(1)]
        sent_def capacity_def shut_def)
qed

end
