(* ===== verification/Bio_Theorems.thy ===== *)
theory Bio_Theorems
  imports Bio_Pair_Spec
begin

text \<open>The properties of BIO pairs, each with a witness. \<open>bio_ok\<close> allocates every request.\<close>

text \<open>C30. A BIO pair is a pair of queues: from its creation, whatever writes, reads and shutdowns are made
  at the two ends in whatever order, the bytes accepted at one end are, in order, the bytes delivered
  at the other followed by those still in flight, which never exceed the buffer asked for.\<close>

theorem bio_pair_fifo:
  assumes "i \<noteq> j" "alloc (pair_size n1)" "alloc (pair_size n2)" "unat n1 < 2 ^ 63" "unat n2 < 2 ^ 63"
    "BIO_new_bio_pair alloc junk (Some i, True) n1 (Some j, True) n2 h0 = Some (ok, b1, b2, h)"
    "bio_run h es h'" "\<forall>e\<in>set es. event_end e \<in> {i, j}"
  shows "ok \<and> b1 = Some i \<and> b2 = Some j \<and>
    written i es = received j es @ sent h' i \<and> length (sent h' i) \<le> unat (pair_size n1) \<and>
    written j es = received i es @ sent h' j \<and> length (sent h' j) \<le> unat (pair_size n2)"
proof -
  obtain h1 where n: "BIO_new_bio_pair alloc junk (Some i, True) n1 (Some j, True) n2 h0 = Some (True, Some i, Some j, h1)"
      "paired h1 i j" "sent h1 i = []" "sent h1 j = []" "capacity h1 i = unat (pair_size n1)"
      "capacity h1 j = unat (pair_size n2)"
    using BIO_new_bio_pair_ok [OF assms(1-5)] by blast
  have eq: "h1 = h" "ok" "b1 = Some i" "b2 = Some j" using n(1) assms(6) by simp_all
  have r: "paired h' i j" "flows h es h' i j" "flows h es h' j i"
    "capacity h' i = capacity h i" "capacity h' j = capacity h j"
    using run_pair [OF assms(7) _ assms(8)] n(2) eq(1) by auto
  then show ?thesis
    using n eq sent_capacity [OF r(1)] sent_capacity [OF paired_sym [OF r(1)]]
    by (simp add: flows_def)
qed

theorem bio_pair_fifo_witness:
  "\<exists>es h. written 1 es = [7, 8, 9] \<and> received 2 es = [7, 8, 9] \<and> written 1 es = received 2 es @ sent h 1"
proof -
  define h0 where "h0 = \<lparr>bh_bios = Map.empty, bh_errors = []\<rparr>"
  obtain h where n: "BIO_new_bio_pair (\<lambda>_. True) 0 (Some 1, True) 4 (Some 2, True) 0 h0 = Some (True, Some 1, Some 2, h)"
      "paired h 1 2" "sent h 1 = []" "capacity h 1 = 4" "\<not> shut h 1"
    using BIO_new_bio_pair_ok [of 1 2 "\<lambda>_. True" 4 0 0 h0] by (auto simp: pair_size_def)
  obtain r h1 where w: "BIO_write 1 (Some [7, 8, 9]) (int 3) h = Some (r, h1)" "same_pair h h1 1 2"
      "(r, sent h1 1) = queue_write (capacity h 1) (shut h 1) (sent h 1) (take 3 [7, 8, 9])"
    using BIO_write_pair [OF n(2), of 3 "[7, 8, 9]"] by auto
  have w': "r = 3" "sent h1 1 = [7, 8, 9]" "paired h1 2 1"
    using w(2,3) n by (auto simp: queue_write_def same_pair_def intro: paired_sym)
  obtain r2 out h2 where rd: "BIO_read 2 True (int 3) h1 = Some (r2, out, h2)"
      "(r2, out, sent h2 1) = queue_read (shut h1 1) (sent h1 1) 3"
    using BIO_read_pair [OF w'(3), of 3] by auto
  have out: "out = [7, 8, 9]" using rd(2) w'(2) by (simp add: queue_read_def Let_def)
  have s1: "bio_step h (Wrote 1 [7, 8, 9]) h1" using step_write [OF _ _ _ w(1)] w'(1) by simp
  have s2: "bio_step h1 (Got 2 [7, 8, 9]) h2" using step_read [OF _ _ rd(1)] out by simp
  have run: "bio_run h [Wrote 1 [7, 8, 9], Got 2 [7, 8, 9]] h2"
    using run_more [OF run_more [OF run_done s1] s2] by simp
  have "written 1 [Wrote 1 [7, 8, 9], Got 2 [7, 8, 9]] =
      received 2 [Wrote 1 [7, 8, 9], Got 2 [7, 8, 9]] @ sent h2 1"
    using bio_pair_fifo [OF _ _ _ _ _ n(1) run] by simp
  then show ?thesis
    by (intro exI [of _ "[Wrote 1 [7, 8, 9], Got 2 [7, 8, 9]]"] exI [of _ h2] conjI)
      (simp_all add: written_def received_def)
qed

text \<open>C31. A pair does not get stuck: while an open end has something to write, either the write accepts at
  least one byte or the peer's next read delivers at least one; and the write accepts everything that
  the guarantee asked for beforehand promises.\<close>

theorem bio_pair_progress:
  assumes "paired h i j" "\<not> shut h i" "data \<noteq> []" "length data < 2 ^ 31" "0 < m" "m < 2 ^ 31"
  shows "((\<exists>r h'. BIO_write i (Some data) (int (length data)) h = Some (r, h') \<and> 0 < r) \<or>
      (\<exists>r out h'. BIO_read j True (int m) h = Some (r, out, h') \<and> 0 < r)) \<and>
    (\<exists>g. BIO_ctrl_get_write_guarantee (Some i) h = Some (g, h) \<and>
      (\<exists>r h'. BIO_write i (Some data) (int (length data)) h = Some (r, h') \<and>
         (if length data \<le> unat g then r = int (length data) else r < int (length data))))"
proof -
  obtain r h' where w: "BIO_write i (Some data) (int (length data)) h = Some (r, h')"
      "(r, sent h' i) = queue_write (capacity h i) False (sent h i) data"
    using BIO_write_pair [OF assms(1), of "length data" data] assms(2-4) by auto
  obtain r2 out h2 where rd: "BIO_read j True (int m) h = Some (r2, out, h2)"
      "(r2, out, sent h2 i) = queue_read False (sent h i) m"
    using BIO_read_pair [OF paired_sym [OF assms(1)] assms(5,6)] assms(2) by auto
  have cap: "length (sent h i) \<le> capacity h i" by (rule sent_capacity [OF assms(1)])
  have pos: "0 < capacity h i"
  proof (rule pairedE [OF assms(1)])
    fix x b
    assume "bio_end h i x b"
    moreover from this have "ring_ok b" by (simp add: bio_end_def)
    ultimately show ?thesis by (auto simp: capacity_def bio_end_st ring_ok_def)
  qed
  have "capacity h i < 2 ^ 64" using unat_lt_64 by (simp add: capacity_def)
  then have g: "unat (word_of_nat (capacity h i - length (sent h i)) :: u64) = capacity h i - length (sent h i)"
    by (intro unat_of_nat_64) simp
  have "0 < r \<or> 0 < r2"
  proof (cases "length (sent h i) = capacity h i")
    case True
    then have "sent h i \<noteq> []" using pos by auto
    then show ?thesis using rd(2) assms(5) by (simp add: queue_read_def Let_def)
  next
    case False
    then show ?thesis using w(2) assms(3) cap by (simp add: queue_write_def Let_def)
  qed
  moreover have "if length data \<le> capacity h i - length (sent h i) then r = int (length data) else r < int (length data)"
    using w(2) assms(3) cap by (auto simp: queue_write_def Let_def split: if_splits)
  ultimately show ?thesis
    using w(1) rd(1) write_guarantee [OF assms(1)] assms(2) g by auto
qed

theorem bio_pair_progress_witness:
  "\<exists>h r h'. paired h 1 2 \<and> BIO_write 1 (Some [5]) 1 h = Some (r, h') \<and>
    ((\<exists>r h'. BIO_write 1 (Some [5]) (int 1) h = Some (r, h') \<and> 0 < r) \<or>
      (\<exists>r out h'. BIO_read 2 True (int 1) h = Some (r, out, h') \<and> 0 < r))"
proof -
  obtain h where n: "paired h 1 2" "\<not> shut h 1"
    using BIO_new_bio_pair_ok [of 1 2 "\<lambda>_. True" 4 0 0 "\<lparr>bh_bios = Map.empty, bh_errors = []\<rparr>"]
    by (auto simp: pair_size_def)
  then show ?thesis using bio_pair_progress [OF n, of "[5]" 1] by fastforce
qed

end
