(* ===== verification/Lhash.thy ===== *)
theory Lhash
  imports Crypto_Mem
begin

text \<open>
  BoringSSL's chained hash table, \<open>crypto/lhash/lhash.c\<close>: the table is an array of chains, a
  chain the list of its items from the head on, and an item keeps the hash of its data. The
  \<open>LHASH_ITEM **\<close> that the searches return is the bucket and the position in its chain, where a
  position one past the end is the pointer to the NULL that ends the chain. The element type and
  its \<open>comp\<close> and \<open>hash\<close> callbacks belong to the caller, and \<open>alloc\<close> says which sizes
  \<open>OPENSSL_malloc\<close> grants in the call at hand. A result \<open>None\<close> is the failed assertion of
  \<open>lh_maybe_resize\<close>.
\<close>

section \<open>The table\<close>

record 'a LHASH_ITEM =
  item_data :: 'a
  item_hash :: u32

record 'a lhash_st =
  lh_items :: u64
  lh_buckets :: "'a LHASH_ITEM list list"
  lh_num_buckets :: u64
  lh_callback_depth :: u32
  lh_comp :: "'a \<Rightarrow> 'a \<Rightarrow> int"
  lh_hash :: "'a \<Rightarrow> u32"

definition kMinNumBuckets :: u64 where "kMinNumBuckets = 16"
definition kMaxAverageChainLength :: u64 where "kMaxAverageChainLength = 2"
definition kMinAverageChainLength :: u64 where "kMinAverageChainLength = 1"

definition lh_new :: "(u64 \<Rightarrow> bool) \<Rightarrow> ('a \<Rightarrow> u32) \<Rightarrow> ('a \<Rightarrow> 'a \<Rightarrow> int) \<Rightarrow> 'a lhash_st option" where
  "lh_new alloc hash cmp =
     (if \<not> alloc 48 then None
      else if \<not> alloc (8 * kMinNumBuckets) then None
      else Some \<lparr>lh_items = 0, lh_buckets = replicate (unat kMinNumBuckets) [],
        lh_num_buckets = kMinNumBuckets, lh_callback_depth = 0, lh_comp = cmp, lh_hash = hash\<rparr>)"

definition lh_num_items :: "'a lhash_st \<Rightarrow> u64" where
  "lh_num_items lh = lh_items lh"

definition bucket_of :: "u32 \<Rightarrow> u64 \<Rightarrow> nat" where
  "bucket_of hash n = unat (ucast hash mod n)"

fun chain_search :: "('a \<Rightarrow> bool) \<Rightarrow> 'a LHASH_ITEM list \<Rightarrow> nat" where
  "chain_search eq [] = 0"
| "chain_search eq (cur # next) = (if eq (item_data cur) then 0 else Suc (chain_search eq next))"

definition get_next_ptr_and_hash :: "'a lhash_st \<Rightarrow> 'a \<Rightarrow> u32 \<times> nat \<times> nat" where
  "get_next_ptr_and_hash lh data =
     (let hash = lh_hash lh data;
          b = bucket_of hash (lh_num_buckets lh)
      in (hash, b, chain_search (\<lambda>cur. lh_comp lh cur data = 0) (lh_buckets lh ! b)))"

definition get_next_ptr_by_key :: "'a lhash_st \<Rightarrow> 'k \<Rightarrow> u32 \<Rightarrow> ('k \<Rightarrow> 'a \<Rightarrow> int) \<Rightarrow> nat \<times> nat" where
  "get_next_ptr_by_key lh key key_hash cmp_key =
     (let b = bucket_of key_hash (lh_num_buckets lh)
      in (b, chain_search (\<lambda>cur. cmp_key key cur = 0) (lh_buckets lh ! b)))"

definition item_at :: "'a lhash_st \<Rightarrow> nat \<Rightarrow> nat \<Rightarrow> 'a LHASH_ITEM option" where
  "item_at lh b k =
     (if k < length (lh_buckets lh ! b) then Some (lh_buckets lh ! b ! k) else None)"

definition lh_retrieve :: "'a lhash_st \<Rightarrow> 'a \<Rightarrow> 'a option" where
  "lh_retrieve lh data =
     (let (_, b, k) = get_next_ptr_and_hash lh data in map_option item_data (item_at lh b k))"

definition lh_retrieve_key :: "'a lhash_st \<Rightarrow> 'k \<Rightarrow> u32 \<Rightarrow> ('k \<Rightarrow> 'a \<Rightarrow> int) \<Rightarrow> 'a option" where
  "lh_retrieve_key lh key key_hash cmp_key =
     (let (b, k) = get_next_ptr_by_key lh key key_hash cmp_key in map_option item_data (item_at lh b k))"

section \<open>Resizing\<close>

fun rebucket_chain :: "u64 \<Rightarrow> 'a LHASH_ITEM list \<Rightarrow> 'a LHASH_ITEM list list \<Rightarrow> 'a LHASH_ITEM list list" where
  "rebucket_chain n [] new_buckets = new_buckets"
| "rebucket_chain n (cur # next) new_buckets =
     (let new_bucket = bucket_of (item_hash cur) n
      in rebucket_chain n next (new_buckets[new_bucket := cur # new_buckets ! new_bucket]))"

fun rebucket_loop :: "u64 \<Rightarrow> 'a LHASH_ITEM list list \<Rightarrow> 'a LHASH_ITEM list list \<Rightarrow> 'a LHASH_ITEM list list" where
  "rebucket_loop n [] new_buckets = new_buckets"
| "rebucket_loop n (c # cs) new_buckets = rebucket_loop n cs (rebucket_chain n c new_buckets)"

definition lh_rebucket :: "(u64 \<Rightarrow> bool) \<Rightarrow> u64 \<Rightarrow> 'a lhash_st \<Rightarrow> 'a lhash_st" where
  "lh_rebucket alloc new_num_buckets lh =
     (let alloc_size = 8 * new_num_buckets in
      if alloc_size div 8 \<noteq> new_num_buckets then lh
      else if \<not> alloc alloc_size then lh
      else lh\<lparr>lh_num_buckets := new_num_buckets,
        lh_buckets := rebucket_loop new_num_buckets (lh_buckets lh)
          (replicate (unat new_num_buckets) [])\<rparr>)"

definition lh_maybe_resize :: "(u64 \<Rightarrow> bool) \<Rightarrow> 'a lhash_st \<Rightarrow> 'a lhash_st option" where
  "lh_maybe_resize alloc lh =
     (if lh_callback_depth lh > 0 then Some lh
      else if \<not> lh_num_buckets lh \<ge> kMinNumBuckets then None
      else let avg_chain_length = lh_items lh div lh_num_buckets lh in
        if avg_chain_length > kMaxAverageChainLength then
          (let new_num_buckets = lh_num_buckets lh * 2 in
           if new_num_buckets > lh_num_buckets lh then Some (lh_rebucket alloc new_num_buckets lh)
           else Some lh)
        else if avg_chain_length < kMinAverageChainLength \<and> lh_num_buckets lh > kMinNumBuckets then
          (let new_num_buckets = lh_num_buckets lh div 2;
               new_num_buckets = (if new_num_buckets < kMinNumBuckets then kMinNumBuckets
                                  else new_num_buckets)
           in Some (lh_rebucket alloc new_num_buckets lh))
        else Some lh)"

section \<open>Inserting and deleting\<close>

definition lh_insert :: "(u64 \<Rightarrow> bool) \<Rightarrow> 'a \<Rightarrow> 'a lhash_st \<Rightarrow> (bool \<times> 'a option \<times> 'a lhash_st) option" where
  "lh_insert alloc data lh =
     (let (hash, b, k) = get_next_ptr_and_hash lh data in
      case item_at lh b k of
        Some item \<Rightarrow>
          Some (True, Some (item_data item), lh\<lparr>lh_buckets := (lh_buckets lh)
            [b := (lh_buckets lh ! b)[k := item\<lparr>item_data := data\<rparr>]]\<rparr>)
      | None \<Rightarrow>
          if \<not> alloc 24 then Some (False, None, lh)
          else let item = \<lparr>item_data = data, item_hash = hash\<rparr>;
                   lh = lh\<lparr>lh_buckets := (lh_buckets lh)[b := lh_buckets lh ! b @ [item]],
                     lh_items := lh_items lh + 1\<rparr>
               in map_option (\<lambda>lh. (True, None, lh)) (lh_maybe_resize alloc lh))"

definition lh_delete :: "(u64 \<Rightarrow> bool) \<Rightarrow> 'a \<Rightarrow> 'a lhash_st \<Rightarrow> ('a option \<times> 'a lhash_st) option" where
  "lh_delete alloc data lh =
     (let (_, b, k) = get_next_ptr_and_hash lh data in
      case item_at lh b k of None \<Rightarrow> Some (None, lh)
      | Some item \<Rightarrow>
          let c = lh_buckets lh ! b;
              lh = lh\<lparr>lh_buckets := (lh_buckets lh)[b := take k c @ drop (Suc k) c],
                lh_items := lh_items lh - 1\<rparr>
          in map_option (\<lambda>lh. (Some (item_data item), lh)) (lh_maybe_resize alloc lh))"

text \<open>The callback of \<open>lh_doall_arg\<close> works on a state of its own; one that edits the table is
  not modelled.\<close>

definition UINT_MAX :: u32 where "UINT_MAX = 4294967295"

definition lh_doall_arg ::
  "(u64 \<Rightarrow> bool) \<Rightarrow> ('a \<Rightarrow> 's \<Rightarrow> 's) \<Rightarrow> 's \<Rightarrow> 'a lhash_st \<Rightarrow> ('s \<times> 'a lhash_st) option" where
  "lh_doall_arg alloc func arg lh =
     (let lh = (if lh_callback_depth lh < UINT_MAX then lh\<lparr>lh_callback_depth := lh_callback_depth lh + 1\<rparr> else lh);
          arg = fold (\<lambda>chain arg. fold (\<lambda>cur arg. func (item_data cur) arg) chain arg) (lh_buckets lh) arg;
          lh = (if lh_callback_depth lh < UINT_MAX then lh\<lparr>lh_callback_depth := lh_callback_depth lh - 1\<rparr> else lh)
      in map_option (\<lambda>lh. (arg, lh)) (lh_maybe_resize alloc lh))"

definition lh_strhash :: "u8 list option \<Rightarrow> u32" where
  "lh_strhash c = (case c of None \<Rightarrow> 0 | Some c \<Rightarrow> OPENSSL_hash32 (take (strlen c) c))"

end
