(* ===== verification/Obj.thy ===== *)
theory Obj
  imports Oid Cbb_Set_Of Lhash
begin

text \<open>
  BoringSSL's registry of object identifiers, \<open>crypto/obj/obj.c\<close>, with the object functions of
  \<open>crypto/asn1/a_object.c\<close> that it uses. A nid numbers an identifier; the built-in ones are in the
  arrays of \<open>obj_dat.h\<close>, which \<open>objects.go\<close> generates and which are the record \<open>obj_tables\<close> here, and
  the ones added at run time are in four hash tables over the same objects. An \<open>int\<close> is a
  \<open>32 word\<close> read with \<open>sint\<close>, a \<open>char *\<close> that may be NULL an option. The objects of the tables never
  change after they are added, so the tables hold them by value. \<open>env\<close> is the memory of \<open>Cbb\<close>: which
  requests succeed, and what fresh memory holds.

  A result \<open>None\<close> of \<open>obj_add_object\<close> is the call of \<open>lh_insert\<close> on a NULL table, in
  the others it comes from there or is a failed assertion of the tables. The locks are not modelled.
\<close>

section \<open>Objects\<close>

record ASN1_OBJECT =
  obj_sn :: "u8 list option"
  obj_ln :: "u8 list option"
  obj_nid :: u32
  obj_length :: u32
  obj_data :: "u8 list option"
  obj_flags :: u32

definition NID_undef :: u32 where "NID_undef = 0"
definition NUM_NID :: u32 where "NUM_NID = 962"
definition ASN1_OBJECT_FLAG_DYNAMIC :: u32 where "ASN1_OBJECT_FLAG_DYNAMIC = 0x01"
definition ASN1_OBJECT_FLAG_DYNAMIC_STRINGS :: u32 where "ASN1_OBJECT_FLAG_DYNAMIC_STRINGS = 0x04"
definition ASN1_OBJECT_FLAG_DYNAMIC_DATA :: u32 where "ASN1_OBJECT_FLAG_DYNAMIC_DATA = 0x08"

text \<open>An \<open>int\<close> passed where a \<open>size_t\<close> is expected, and the bytes that a pointer and such a length name.
  Reading past the memory gives zeros; the objects of the program have as many bytes as they say.\<close>

definition int_size :: "u32 \<Rightarrow> u64" where
  "int_size n = scast n"

definition bytes_of :: "u8 list option \<Rightarrow> u32 \<Rightarrow> u8 list" where
  "bytes_of p n =
     (let d = (case p of None \<Rightarrow> [] | Some d \<Rightarrow> d); n = unat (int_size n)
      in take n d @ replicate (n - length d) 0)"

definition ASN1_OBJECT_new :: "cbb_env \<Rightarrow> ASN1_OBJECT option" where
  "ASN1_OBJECT_new env =
     (if \<not> alloc env 40 then None
      else Some \<lparr>obj_sn = None, obj_ln = None, obj_nid = 0, obj_length = 0, obj_data = None,
        obj_flags = ASN1_OBJECT_FLAG_DYNAMIC\<rparr>)"

definition dup_string :: "cbb_env \<Rightarrow> u8 list option \<Rightarrow> u8 list option option" where
  "dup_string env s =
     (case s of None \<Rightarrow> Some None
      | Some s \<Rightarrow> map_option Some (OPENSSL_strdup (alloc env (word_of_nat (strlen s) + 1)) (Some s)))"

definition OBJ_dup :: "cbb_env \<Rightarrow> ASN1_OBJECT option \<Rightarrow> ASN1_OBJECT option" where
  "OBJ_dup env obj =
     (case obj of None \<Rightarrow> None
      | Some o' \<Rightarrow>
        if obj_flags o' AND ASN1_OBJECT_FLAG_DYNAMIC = 0 then Some o'
        else do {
          r \<leftarrow> ASN1_OBJECT_new env;
          if \<not> alloc env (int_size (obj_length o')) then None
          else do {
            let data = (if obj_data o' \<noteq> None then bytes_of (obj_data o') (obj_length o')
                        else replicate (unat (int_size (obj_length o'))) (junk env));
            let r = r\<lparr>obj_data := Some data, obj_length := obj_length o', obj_nid := obj_nid o'\<rparr>;
            ln \<leftarrow> dup_string env (obj_ln o');
            sn \<leftarrow> dup_string env (obj_sn o');
            Some (r\<lparr>obj_sn := sn, obj_ln := ln,
              obj_flags := obj_flags o' OR (ASN1_OBJECT_FLAG_DYNAMIC OR ASN1_OBJECT_FLAG_DYNAMIC_STRINGS OR
                ASN1_OBJECT_FLAG_DYNAMIC_DATA)\<rparr>)
          }})"

definition ASN1_OBJECT_create ::
  "cbb_env \<Rightarrow> u32 \<Rightarrow> u8 list option \<Rightarrow> u32 \<Rightarrow> u8 list option \<Rightarrow> u8 list option \<Rightarrow> ASN1_OBJECT option" where
  "ASN1_OBJECT_create env nid data len sn ln =
     OBJ_dup env (Some \<lparr>obj_sn = sn, obj_ln = ln, obj_nid = nid, obj_length = len, obj_data = data,
       obj_flags = ASN1_OBJECT_FLAG_DYNAMIC OR ASN1_OBJECT_FLAG_DYNAMIC_STRINGS OR
         ASN1_OBJECT_FLAG_DYNAMIC_DATA\<rparr>)"

definition OPENSSL_memcmp :: "u8 list option \<Rightarrow> u8 list option \<Rightarrow> u32 \<Rightarrow> int" where
  "OPENSSL_memcmp a b n = memcmp (bytes_of a n) (bytes_of b n) (unat (int_size n))"

definition OBJ_cmp :: "ASN1_OBJECT \<Rightarrow> ASN1_OBJECT \<Rightarrow> int" where
  "OBJ_cmp a b =
     (let ret = obj_length a - obj_length b in
      if ret \<noteq> 0 then sint ret else OPENSSL_memcmp (obj_data a) (obj_data b) (obj_length a))"

definition OBJ_get0_data :: "ASN1_OBJECT option \<Rightarrow> u8 list option" where
  "OBJ_get0_data obj = (case obj of None \<Rightarrow> None | Some o' \<Rightarrow> obj_data o')"

definition OBJ_length :: "ASN1_OBJECT option \<Rightarrow> u64" where
  "OBJ_length obj =
     (case obj of None \<Rightarrow> 0 | Some o' \<Rightarrow> if sint (obj_length o') < 0 then 0 else int_size (obj_length o'))"

section \<open>The keys of the hash tables\<close>

text \<open>The library's \<open>strcmp\<close> on non-NULL strings. The tables of names only hold objects that have that
  name, and look up templates that have it; for the totality of the comparison a NULL equals NULL only.\<close>

fun strcmp :: "u8 list \<Rightarrow> u8 list \<Rightarrow> int" where
  "strcmp a b =
     (if c_char a \<noteq> c_char b then uint (c_char a) - uint (c_char b)
      else case (a, b) of (c # as, _ # bs) \<Rightarrow> if c = 0 then 0 else strcmp as bs | _ \<Rightarrow> 0)"

declare strcmp.simps [simp del]

definition strcmp_ptr :: "u8 list option \<Rightarrow> u8 list option \<Rightarrow> int" where
  "strcmp_ptr a b =
     (case (a, b) of (Some a, Some b) \<Rightarrow> strcmp a b | (None, None) \<Rightarrow> 0 | (None, Some _) \<Rightarrow> -1 | (Some _, None) \<Rightarrow> 1)"

definition hash_nid :: "ASN1_OBJECT \<Rightarrow> u32" where
  "hash_nid obj = obj_nid obj"

definition cmp_nid :: "ASN1_OBJECT \<Rightarrow> ASN1_OBJECT \<Rightarrow> int" where
  "cmp_nid a b = sint (obj_nid a - obj_nid b)"

definition hash_data :: "ASN1_OBJECT \<Rightarrow> u32" where
  "hash_data obj = OPENSSL_hash32 (bytes_of (obj_data obj) (obj_length obj))"

definition cmp_data :: "ASN1_OBJECT \<Rightarrow> ASN1_OBJECT \<Rightarrow> int" where
  "cmp_data a b =
     (let i = obj_length a - obj_length b in
      if i \<noteq> 0 then sint i else OPENSSL_memcmp (obj_data a) (obj_data b) (obj_length a))"

definition hash_short_name :: "ASN1_OBJECT \<Rightarrow> u32" where
  "hash_short_name obj = lh_strhash (obj_sn obj)"

definition cmp_short_name :: "ASN1_OBJECT \<Rightarrow> ASN1_OBJECT \<Rightarrow> int" where
  "cmp_short_name a b = strcmp_ptr (obj_sn a) (obj_sn b)"

definition hash_long_name :: "ASN1_OBJECT \<Rightarrow> u32" where
  "hash_long_name obj = lh_strhash (obj_ln obj)"

definition cmp_long_name :: "ASN1_OBJECT \<Rightarrow> ASN1_OBJECT \<Rightarrow> int" where
  "cmp_long_name a b = strcmp_ptr (obj_ln a) (obj_ln b)"

section \<open>The registry\<close>

record obj_tables =
  kObjects :: "ASN1_OBJECT list"
  kNIDsInShortNameOrder :: "u16 list"
  kNIDsInLongNameOrder :: "u16 list"
  kNIDsInOIDOrder :: "u16 list"

record obj_state =
  global_added_by_data :: "ASN1_OBJECT lhash_st option"
  global_added_by_nid :: "ASN1_OBJECT lhash_st option"
  global_added_by_short_name :: "ASN1_OBJECT lhash_st option"
  global_added_by_long_name :: "ASN1_OBJECT lhash_st option"
  global_next_nid :: u32

definition obj_start :: obj_state where
  "obj_start = \<lparr>global_added_by_data = None, global_added_by_nid = None, global_added_by_short_name = None,
     global_added_by_long_name = None, global_next_nid = NUM_NID\<rparr>"

definition obj_next_nid :: "obj_state \<Rightarrow> u32 \<times> obj_state" where
  "obj_next_nid os = (global_next_nid os, os\<lparr>global_next_nid := global_next_nid os + 1\<rparr>)"

text \<open>The library's \<open>bsearch\<close>: \<open>cmp\<close> compares the key with an element.\<close>

function bsearch_range :: "('e \<Rightarrow> int) \<Rightarrow> 'e list \<Rightarrow> nat \<Rightarrow> nat \<Rightarrow> 'e option" where
  "bsearch_range cmp xs lo hi =
     (if lo < hi then
        let mid = (lo + hi) div 2; c = cmp (xs ! mid) in
        if c < 0 then bsearch_range cmp xs lo mid
        else if c > 0 then bsearch_range cmp xs (mid + 1) hi
        else Some (xs ! mid)
      else None)"
  by pat_completeness auto
termination by (relation "measure (\<lambda>(cmp, xs, lo, hi). hi - lo)") auto

declare bsearch_range.simps [simp del]

definition bsearch :: "('e \<Rightarrow> int) \<Rightarrow> 'e list \<Rightarrow> 'e option" where
  "bsearch cmp xs = bsearch_range cmp xs 0 (length xs)"

definition obj_cmp :: "obj_tables \<Rightarrow> ASN1_OBJECT \<Rightarrow> u16 \<Rightarrow> int" where
  "obj_cmp T a nid =
     (let b = kObjects T ! unat nid in
      if sint (obj_length a) < sint (obj_length b) then -1
      else if sint (obj_length a) > sint (obj_length b) then 1
      else OPENSSL_memcmp (obj_data a) (obj_data b) (obj_length a))"

definition short_name_cmp :: "obj_tables \<Rightarrow> u8 list \<Rightarrow> u16 \<Rightarrow> int" where
  "short_name_cmp T name nid = strcmp_ptr (Some name) (obj_sn (kObjects T ! unat nid))"

definition long_name_cmp :: "obj_tables \<Rightarrow> u8 list \<Rightarrow> u16 \<Rightarrow> int" where
  "long_name_cmp T name nid = strcmp_ptr (Some name) (obj_ln (kObjects T ! unat nid))"

text \<open>\<open>retrieve\<close> reads a table that may not exist yet, \<open>table_nid\<close> is the end of the three searches.\<close>

definition retrieve :: "ASN1_OBJECT lhash_st option \<Rightarrow> ASN1_OBJECT \<Rightarrow> ASN1_OBJECT option" where
  "retrieve lh obj = (case lh of None \<Rightarrow> None | Some lh \<Rightarrow> lh_retrieve lh obj)"

definition table_nid :: "obj_tables \<Rightarrow> u16 option \<Rightarrow> u32" where
  "table_nid T nid_ptr = (case nid_ptr of None \<Rightarrow> NID_undef | Some nid \<Rightarrow> obj_nid (kObjects T ! unat nid))"

definition blank_obj :: ASN1_OBJECT where
  "blank_obj = \<lparr>obj_sn = None, obj_ln = None, obj_nid = 0, obj_length = 0, obj_data = None, obj_flags = 0\<rparr>"

definition OBJ_obj2nid :: "obj_tables \<Rightarrow> obj_state \<Rightarrow> ASN1_OBJECT option \<Rightarrow> u32" where
  "OBJ_obj2nid T os obj =
     (case obj of None \<Rightarrow> NID_undef
      | Some obj \<Rightarrow>
        if obj_nid obj \<noteq> 0 then obj_nid obj
        else case retrieve (global_added_by_data os) obj of Some match \<Rightarrow> obj_nid match
        | None \<Rightarrow> table_nid T (bsearch (obj_cmp T obj) (kNIDsInOIDOrder T)))"

definition OBJ_cbs2nid :: "obj_tables \<Rightarrow> obj_state \<Rightarrow> cbs \<Rightarrow> u32" where
  "OBJ_cbs2nid T os cbs =
     (if CBS_len cbs > 2147483647 then NID_undef
      else OBJ_obj2nid T os (Some (blank_obj\<lparr>obj_data := Some (CBS_data cbs), obj_length := word_of_nat (CBS_len cbs)\<rparr>)))"

definition OBJ_sn2nid :: "obj_tables \<Rightarrow> obj_state \<Rightarrow> u8 list \<Rightarrow> u32" where
  "OBJ_sn2nid T os short_name =
     (case retrieve (global_added_by_short_name os) (blank_obj\<lparr>obj_sn := Some short_name\<rparr>) of
        Some match \<Rightarrow> obj_nid match
      | None \<Rightarrow> table_nid T (bsearch (short_name_cmp T short_name) (kNIDsInShortNameOrder T)))"

definition OBJ_ln2nid :: "obj_tables \<Rightarrow> obj_state \<Rightarrow> u8 list \<Rightarrow> u32" where
  "OBJ_ln2nid T os long_name =
     (case retrieve (global_added_by_long_name os) (blank_obj\<lparr>obj_ln := Some long_name\<rparr>) of
        Some match \<Rightarrow> obj_nid match
      | None \<Rightarrow> table_nid T (bsearch (long_name_cmp T long_name) (kNIDsInLongNameOrder T)))"

definition OBJ_nid2obj :: "obj_tables \<Rightarrow> obj_state \<Rightarrow> u32 \<Rightarrow> ASN1_OBJECT option" where
  "OBJ_nid2obj T os nid =
     (if 0 \<le> sint nid \<and> sint nid < sint NUM_NID then
        if nid \<noteq> NID_undef \<and> obj_nid (kObjects T ! unat nid) = NID_undef then None
        else Some (kObjects T ! unat nid)
      else retrieve (global_added_by_nid os) (blank_obj\<lparr>obj_nid := nid\<rparr>))"

definition OBJ_nid2sn :: "obj_tables \<Rightarrow> obj_state \<Rightarrow> u32 \<Rightarrow> u8 list option" where
  "OBJ_nid2sn T os nid = (case OBJ_nid2obj T os nid of None \<Rightarrow> None | Some obj \<Rightarrow> obj_sn obj)"

definition OBJ_nid2ln :: "obj_tables \<Rightarrow> obj_state \<Rightarrow> u32 \<Rightarrow> u8 list option" where
  "OBJ_nid2ln T os nid = (case OBJ_nid2obj T os nid of None \<Rightarrow> None | Some obj \<Rightarrow> obj_ln obj)"

definition OBJ_nid2cbb :: "cbb_env \<Rightarrow> obj_tables \<Rightarrow> obj_state \<Rightarrow> cbb_id \<Rightarrow> cbb_id \<Rightarrow> u32 \<Rightarrow> cbb_op" where
  "OBJ_nid2cbb env T os out oid nid st =
     (case OBJ_nid2obj T os nid of None \<Rightarrow> Some (False, st)
      | Some obj \<Rightarrow>
          and_then_opt (and_then_opt (CBB_add_asn1 env out oid CBS_ASN1_OBJECT st)
            (CBB_add_bytes env oid (bytes_of (obj_data obj) (obj_length obj))))
            (CBB_flush env out))"

section \<open>Identifiers from text and to text\<close>

text \<open>The local \<open>CBB\<close> has the identifier 0 in a store of its own.\<close>

definition local_cbb :: cbb_state where
  "local_cbb = \<lparr>st_base = \<lparr>bb_buf = [], bb_len = 0, bb_cap = 0, bb_can_resize = False, bb_error = False\<rparr>,
     st_cbb = \<lambda>_. zero_cbb\<rparr>"

definition create_object_with_text_oid ::
  "cbb_env \<Rightarrow> (obj_state \<Rightarrow> u32 \<times> obj_state) option \<Rightarrow> u8 list \<Rightarrow> u8 list option \<Rightarrow> u8 list option \<Rightarrow>
     obj_state \<Rightarrow> (ASN1_OBJECT option \<times> obj_state) option" where
  "create_object_with_text_oid env get_nid oid short_name long_name os = do {
     (ok, st) \<leftarrow> and_then_opt (Some (CBB_init env 0 32 local_cbb))
       (CBB_add_asn1_oid_from_text env 0 (take (strlen oid) oid));
     (r, st) \<leftarrow> (if ok then CBB_finish env 0 True st else Some (None, st));
     (case r of None \<Rightarrow> Some (None, os)
      | Some (buf, len) \<Rightarrow>
          let (nid, os) = (case get_nid of Some get_nid \<Rightarrow> get_nid os | None \<Rightarrow> (NID_undef, os))
          in Some (ASN1_OBJECT_create env nid (Some buf) (ucast len) short_name long_name, os))
   }"

definition OBJ_txt2obj ::
  "cbb_env \<Rightarrow> obj_tables \<Rightarrow> u8 list \<Rightarrow> bool \<Rightarrow> obj_state \<Rightarrow> (ASN1_OBJECT option \<times> obj_state) option" where
  "OBJ_txt2obj env T s dont_search_names os =
     (let nid = (if dont_search_names then NID_undef
                 else let nid = OBJ_sn2nid T os s in if nid = NID_undef then OBJ_ln2nid T os s else nid)
      in if nid \<noteq> NID_undef then Some (OBJ_nid2obj T os nid, os)
         else create_object_with_text_oid env None s None None os)"

definition OBJ_txt2nid :: "cbb_env \<Rightarrow> obj_tables \<Rightarrow> u8 list \<Rightarrow> obj_state \<Rightarrow> u32 option" where
  "OBJ_txt2nid env T s os =
     map_option (\<lambda>(obj, os). OBJ_obj2nid T os obj) (OBJ_txt2obj env T s False os)"

definition strlcpy_int :: "u8 list \<Rightarrow> u8 list \<Rightarrow> u32 \<Rightarrow> u32 \<times> u8 list" where
  "strlcpy_int dst src dst_size =
     (let n = (if sint dst_size < 0 then 0 else unat dst_size);
          (dst', ret) = OPENSSL_strlcpy (take n dst) src
      in (if ret > 2147483647 then - 1 else word_of_nat ret, dst' @ drop n dst))"

definition OBJ_obj2txt ::
  "cbb_env \<Rightarrow> obj_tables \<Rightarrow> obj_state \<Rightarrow> u8 list \<Rightarrow> u32 \<Rightarrow> ASN1_OBJECT option \<Rightarrow> bool \<Rightarrow> (u32 \<times> u8 list) option" where
  "OBJ_obj2txt env T os out out_len obj always_return_oid =
     (case obj of None \<Rightarrow> Some (strlcpy_int out [] out_len)
      | Some o' \<Rightarrow>
        if obj_length o' = 0 then Some (strlcpy_int out [] out_len)
        else
          let nid = (if always_return_oid then NID_undef else OBJ_obj2nid T os (Some o'));
              name = (if nid = NID_undef then None
                      else case OBJ_nid2ln T os nid of Some n \<Rightarrow> Some n | None \<Rightarrow> OBJ_nid2sn T os nid)
          in case name of Some name \<Rightarrow> Some (strlcpy_int out name out_len)
          | None \<Rightarrow> do {
              (r, st) \<leftarrow> CBS_asn1_oid_to_text env 0 (CBS_init (bytes_of (obj_data o') (obj_length o'))) local_cbb;
              (case r of None \<Rightarrow> Some (- 1, if sint out_len > 0 then out[0 := 0] else out)
               | Some text \<Rightarrow> Some (strlcpy_int out text out_len)) })"

definition i2t_ASN1_OBJECT ::
  "cbb_env \<Rightarrow> obj_tables \<Rightarrow> obj_state \<Rightarrow> u8 list \<Rightarrow> u32 \<Rightarrow> ASN1_OBJECT option \<Rightarrow> (u32 \<times> u8 list) option" where
  "i2t_ASN1_OBJECT env T os buf buf_len a = OBJ_obj2txt env T os buf buf_len a False"

section \<open>Adding objects\<close>

definition lh_insert_ptr ::
  "cbb_env \<Rightarrow> 'a \<Rightarrow> 'a lhash_st option \<Rightarrow> (bool \<times> 'a lhash_st option) option" where
  "lh_insert_ptr env obj lh =
     (case lh of None \<Rightarrow> None
      | Some lh \<Rightarrow> map_option (\<lambda>(ok, old_object, lh). (ok, Some lh)) (lh_insert (alloc env) obj lh))"

definition obj_add_object :: "cbb_env \<Rightarrow> ASN1_OBJECT \<Rightarrow> obj_state \<Rightarrow> (bool \<times> obj_state) option" where
  "obj_add_object env obj os =
     (let obj = obj\<lparr>obj_flags := obj_flags obj AND NOT (ASN1_OBJECT_FLAG_DYNAMIC OR
            ASN1_OBJECT_FLAG_DYNAMIC_STRINGS OR ASN1_OBJECT_FLAG_DYNAMIC_DATA)\<rparr>;
          os = (if global_added_by_nid os = None then
                  os\<lparr>global_added_by_nid := lh_new (alloc env) hash_nid cmp_nid,
                     global_added_by_data := lh_new (alloc env) hash_data cmp_data,
                     global_added_by_short_name := lh_new (alloc env) hash_short_name cmp_short_name,
                     global_added_by_long_name := lh_new (alloc env) hash_long_name cmp_long_name\<rparr>
                else os)
      in do {
        (ok1, by_nid) \<leftarrow> lh_insert_ptr env obj (global_added_by_nid os);
        (ok2, by_data) \<leftarrow> (if obj_length obj \<noteq> 0 \<and> obj_data obj \<noteq> None
           then lh_insert_ptr env obj (global_added_by_data os) else Some (True, global_added_by_data os));
        (ok3, by_sn) \<leftarrow> (if obj_sn obj \<noteq> None
           then lh_insert_ptr env obj (global_added_by_short_name os)
           else Some (True, global_added_by_short_name os));
        (ok4, by_ln) \<leftarrow> (if obj_ln obj \<noteq> None
           then lh_insert_ptr env obj (global_added_by_long_name os)
           else Some (True, global_added_by_long_name os));
        Some (ok1 \<and> ok2 \<and> ok3 \<and> ok4, os\<lparr>global_added_by_nid := by_nid, global_added_by_data := by_data,
          global_added_by_short_name := by_sn, global_added_by_long_name := by_ln\<rparr>)
      })"

definition OBJ_create ::
  "cbb_env \<Rightarrow> u8 list \<Rightarrow> u8 list option \<Rightarrow> u8 list option \<Rightarrow> obj_state \<Rightarrow> (u32 \<times> obj_state) option" where
  "OBJ_create env oid short_name long_name os = do {
     (op, os) \<leftarrow> create_object_with_text_oid env (Some obj_next_nid) oid short_name long_name os;
     (case op of None \<Rightarrow> Some (NID_undef, os)
      | Some op \<Rightarrow> do {
          (ok, os) \<leftarrow> obj_add_object env op os;
          Some (if ok then obj_nid op else NID_undef, os) })
   }"

end
