(* ===== verification/Lhash_Spec.thy ===== *)
theory Lhash_Spec
  imports Lhash "HOL-Library.Multiset"
begin

text \<open>
  What the hash table promises. \<open>lh_ok\<close> is its invariant: at least \<open>kMinNumBuckets\<close> buckets, every
  item in the bucket of its hash with the hash of its data, no two items with equal data, and an
  exact count. Under the laws of a key comparison (locale \<open>lhash_keys\<close>) the operations are those of
  a map from keys to data, whatever the allocator grants to the resizing in between.
\<close>

section \<open>Chains and arrays of chains\<close>

lemma chain_search_le: "chain_search eq c \<le> length c"
  by (induction c) auto

lemma chain_search_found:
  "chain_search eq c < length c \<Longrightarrow> eq (item_data (c ! chain_search eq c))"
  by (induction c) (auto split: if_splits)

lemma chain_search_before:
  "y \<in> set (take (chain_search eq c) c) \<Longrightarrow> \<not> eq (item_data y)"
  by (induction c) (auto split: if_splits)

lemma chain_search_none:
  "\<not> chain_search eq c < length c \<Longrightarrow> y \<in> set c \<Longrightarrow> \<not> eq (item_data y)"
  using chain_search_before [of y eq c] chain_search_le [of eq c] by (simp add: not_less)

lemma chain_split: "k < length c \<Longrightarrow> mset c = add_mset (c ! k) (mset (take k c @ drop (Suc k) c))"
  by (metis (no_types, lifting) id_take_nth_drop mset.simps(2) mset_append union_mset_add_mset_right)

lemma mset_concat_update:
  "b < length bs \<Longrightarrow> mset (concat (bs[b := c])) + mset (bs ! b) = mset (concat bs) + mset c"
proof (induction bs arbitrary: b)
  case (Cons x xs)
  then show ?case by (cases b) (auto simp: ac_simps)
qed simp

lemma filter_concat_only:
  assumes "b < length bs" "\<And>i y. i < length bs \<Longrightarrow> i \<noteq> b \<Longrightarrow> y \<in> set (bs ! i) \<Longrightarrow> \<not> P y"
  shows "filter P (concat bs) = filter P (bs ! b)"
  using assms
proof (induction bs arbitrary: b)
  case (Cons x xs)
  show ?case
  proof (cases b)
    case 0
    have "filter P (concat xs) = []"
      using Cons.prems(2) [of "Suc _"] 0 by (auto simp: filter_empty_conv in_set_conv_nth [of _ xs])
    then show ?thesis using 0 by simp
  next
    case (Suc b')
    have "filter P x = []" using Cons.prems(2) [of 0] Suc by (auto simp: filter_empty_conv)
    moreover have "filter P (concat xs) = filter P (xs ! b')"
      by (rule Cons.IH) (use Cons.prems Suc in \<open>fastforce\<close>)+
    ultimately show ?thesis using Suc by simp
  qed
qed simp

section \<open>The invariant and the contents\<close>

definition lh_data :: "'a lhash_st \<Rightarrow> 'a list" where
  "lh_data lh = map item_data (concat (lh_buckets lh))"

definition lh_class :: "'a lhash_st \<Rightarrow> 'a \<Rightarrow> 'a multiset" where
  "lh_class lh x = filter_mset (\<lambda>y. lh_comp lh y x = 0) (mset (lh_data lh))"

definition lh_map :: "'a lhash_st \<Rightarrow> 'a \<Rightarrow> 'a option" where
  "lh_map lh x = find (\<lambda>y. lh_comp lh y x = 0) (lh_data lh)"

definition buckets_ok :: "('a \<Rightarrow> u32) \<Rightarrow> u64 \<Rightarrow> 'a LHASH_ITEM list list \<Rightarrow> bool" where
  "buckets_ok hash n bs \<longleftrightarrow> length bs = unat n \<and>
     (\<forall>b < length bs. \<forall>it \<in> set (bs ! b).
        item_hash it = hash (item_data it) \<and> bucket_of (hash (item_data it)) n = b)"

definition lh_ok :: "'a lhash_st \<Rightarrow> bool" where
  "lh_ok lh \<longleftrightarrow> kMinNumBuckets \<le> lh_num_buckets lh \<and>
     buckets_ok (lh_hash lh) (lh_num_buckets lh) (lh_buckets lh) \<and>
     (\<forall>x. size (lh_class lh x) \<le> 1) \<and>
     lh_items lh = of_nat (length (lh_data lh)) \<and> length (lh_data lh) < 2 ^ 64"

lemma bucket_of_less: "0 < n \<Longrightarrow> bucket_of h n < unat n"
  unfolding bucket_of_def by (simp add: unat_mod word_less_nat_alt)

lemma find_mset:
  assumes "size (filter_mset P (mset xs)) \<le> 1"
  shows "find P xs = Some y \<longleftrightarrow> y \<in># filter_mset P (mset xs)"
  using assms
proof (induction xs)
  case (Cons x xs)
  show ?case
  proof (cases "P x")
    case True
    then have "filter_mset P (mset xs) = {#}" using Cons.prems by (simp add: size_eq_0_iff_empty)
    then show ?thesis using True by (auto simp del: filter_mset_eq_mempty_iff)
  qed (use Cons in auto)
qed simp

lemma lh_map_iff: "lh_ok lh \<Longrightarrow> lh_map lh x = Some y \<longleftrightarrow> y \<in># lh_class lh x"
  unfolding lh_map_def lh_class_def by (rule find_mset) (simp add: lh_ok_def lh_class_def)

lemma lh_map_None: "lh_map lh x = None \<longleftrightarrow> lh_class lh x = {#}"
  by (auto simp: lh_map_def lh_class_def find_None_iff filter_mset_eq_mempty_iff)


section \<open>Resizing keeps the contents\<close>

lemma rebucket_chain_mset:
  assumes "length bs = unat n" "0 < n"
  shows "mset (concat (rebucket_chain n c bs)) = mset (concat bs) + mset c"
  using assms
proof (induction c arbitrary: bs)
  case (Cons it c)
  let ?b = "bucket_of (item_hash it) n"
  have "mset (concat (bs[?b := it # bs ! ?b])) = mset (concat bs) + {#it#}"
    using mset_concat_update [of ?b bs "it # bs ! ?b"] Cons.prems bucket_of_less [of n "item_hash it"]
    by simp
  then show ?case using Cons by (simp add: Let_def)
qed simp

lemma rebucket_chain_length [simp]: "length (rebucket_chain n c bs) = length bs"
  by (induction c arbitrary: bs) (simp_all add: Let_def)

lemma rebucket_loop_mset:
  assumes "length bs = unat n" "0 < n"
  shows "mset (concat (rebucket_loop n cs bs)) = mset (concat bs) + mset (concat cs)"
  using assms by (induction cs arbitrary: bs) (simp_all add: rebucket_chain_mset)

lemma buckets_ok_update:
  assumes "buckets_ok hash n bs"
    and "\<And>it. it \<in> set c \<Longrightarrow> item_hash it = hash (item_data it) \<and> bucket_of (hash (item_data it)) n = b"
  shows "buckets_ok hash n (bs[b := c])"
proof (cases "b < length bs")
  case True
  then show ?thesis using assms by (auto simp: buckets_ok_def nth_list_update)
qed (use assms(1) in \<open>simp add: list_update_beyond\<close>)

lemma buckets_ok_nth:
  "buckets_ok hash n bs \<Longrightarrow> b < unat n \<Longrightarrow> it \<in> set (bs ! b) \<Longrightarrow>
     item_hash it = hash (item_data it) \<and> bucket_of (hash (item_data it)) n = b"
  by (simp add: buckets_ok_def)

lemma rebucket_chain_ok:
  assumes "buckets_ok hash n bs" "\<forall>it \<in> set c. item_hash it = hash (item_data it)"
  shows "buckets_ok hash n (rebucket_chain n c bs)"
  using assms
proof (induction c arbitrary: bs)
  case (Cons it c)
  let ?b = "bucket_of (item_hash it) n"
  have "0 < n \<or> n = 0" by (simp add: word_neq_0_conv [symmetric] disj_commute)
  then have "buckets_ok hash n (bs[?b := it # bs ! ?b])"
  proof
    assume n: "0 < n"
    show ?thesis
      by (rule buckets_ok_update [OF Cons.prems(1)])
        (use Cons.prems(2) buckets_ok_nth [OF Cons.prems(1) bucket_of_less [OF n]] in auto)
  qed (use Cons.prems(1) in \<open>simp add: buckets_ok_def\<close>)
  then show ?case using Cons by (simp add: Let_def)
qed simp

lemma rebucket_loop_ok:
  assumes "buckets_ok hash n bs" "\<forall>it \<in> set (concat cs). item_hash it = hash (item_data it)"
  shows "buckets_ok hash n (rebucket_loop n cs bs)"
  using assms by (induction cs arbitrary: bs) (simp_all add: rebucket_chain_ok ball_Un)

lemma buckets_ok_empty: "buckets_ok hash n (replicate (unat n) [])"
  by (simp add: buckets_ok_def)

lemma buckets_ok_hashes:
  "buckets_ok hash n bs \<Longrightarrow> \<forall>it \<in> set (concat bs). item_hash it = hash (item_data it)"
  unfolding buckets_ok_def by (auto simp: in_set_conv_nth [of _ bs])

text \<open>What the operations keep of the table beside its contents.\<close>

definition same_keys :: "'a lhash_st \<Rightarrow> 'a lhash_st \<Rightarrow> bool" where
  "same_keys lh lh' \<longleftrightarrow> lh_comp lh' = lh_comp lh \<and> lh_hash lh' = lh_hash lh \<and>
     lh_callback_depth lh' = lh_callback_depth lh"

definition same_contents :: "'a lhash_st \<Rightarrow> 'a lhash_st \<Rightarrow> bool" where
  "same_contents lh lh' \<longleftrightarrow> same_keys lh lh' \<and> lh_items lh' = lh_items lh \<and>
     mset (lh_data lh') = mset (lh_data lh)"

lemma same_contents_refl [simp]: "same_contents lh lh"
  by (simp add: same_contents_def same_keys_def)

lemma same_contents_class: "same_contents lh lh' \<Longrightarrow> lh_class lh' x = lh_class lh x"
  by (simp add: same_contents_def same_keys_def lh_class_def)

lemma lh_rebucket_ok:
  assumes "lh_ok lh" "kMinNumBuckets \<le> n"
  shows "lh_ok (lh_rebucket alloc n lh)"
    and "same_contents lh (lh_rebucket alloc n lh)"
proof -
  have n: "0 < n" using assms(2) by (simp add: kMinNumBuckets_def word_le_nat_alt word_less_nat_alt)
  let ?bs = "rebucket_loop n (lh_buckets lh) (replicate (unat n) [])"
  have bs: "buckets_ok (lh_hash lh) n ?bs"
    by (intro rebucket_loop_ok buckets_ok_empty buckets_ok_hashes [of _ "lh_num_buckets lh"])
      (use assms in \<open>simp add: lh_ok_def\<close>)
  have "mset (concat ?bs) = mset (concat (lh_buckets lh))"
    using rebucket_loop_mset [of "replicate (unat n) []" n "lh_buckets lh"] n by simp
  then have ms: "mset (map item_data (concat ?bs)) = mset (lh_data lh)"
    by (simp only: mset_map lh_data_def)
  then have len: "length (map item_data (concat ?bs)) = length (lh_data lh)"
    by (rule mset_eq_length)
  show c: "same_contents lh (lh_rebucket alloc n lh)"
    using ms by (simp add: lh_rebucket_def same_contents_def same_keys_def lh_data_def Let_def)
  show "lh_ok (lh_rebucket alloc n lh)"
    using assms bs len same_contents_class [OF c]
    by (simp add: lh_ok_def lh_rebucket_def Let_def lh_data_def)
qed

lemma lh_maybe_resize_ok:
  assumes "lh_ok lh"
  obtains lh' where "lh_maybe_resize alloc lh = Some lh'" "lh_ok lh'" "same_contents lh lh'"
proof -
  have min: "kMinNumBuckets \<le> lh_num_buckets lh" using assms by (simp add: lh_ok_def)
  have "\<exists>lh'. lh_maybe_resize alloc lh = Some lh' \<and> lh_ok lh' \<and> same_contents lh lh'"
    using min assms lh_rebucket_ok [OF assms]
    by (auto simp: lh_maybe_resize_def Let_def)
  then show ?thesis using that by blast
qed


section \<open>Searching\<close>

lemma mset_singleton: "y \<in># M \<Longrightarrow> size M \<le> 1 \<Longrightarrow> M = {#y#}"
  by (auto dest!: multi_member_split simp: size_eq_0_iff_empty)

locale lhash_keys =
  fixes cmp :: "'a \<Rightarrow> 'a \<Rightarrow> int" and hash :: "'a \<Rightarrow> u32"
  assumes cmp_refl [simp]: "cmp x x = 0"
    and cmp_sym: "cmp x y = 0 \<Longrightarrow> cmp y x = 0"
    and cmp_trans: "cmp x y = 0 \<Longrightarrow> cmp y z = 0 \<Longrightarrow> cmp x z = 0"
    and cmp_hash: "cmp x y = 0 \<Longrightarrow> hash x = hash y"
begin

definition lh_inv :: "'a lhash_st \<Rightarrow> bool" where
  "lh_inv lh \<longleftrightarrow> lh_ok lh \<and> lh_comp lh = cmp \<and> lh_hash lh = hash"

lemma cmp_cong: "cmp x y = 0 \<Longrightarrow> cmp z x = 0 \<longleftrightarrow> cmp z y = 0"
  using cmp_sym cmp_trans by blast

lemma inv_buckets:
  assumes "lh_inv lh"
  shows "buckets_ok hash (lh_num_buckets lh) (lh_buckets lh)" and "0 < lh_num_buckets lh"
    and "length (lh_buckets lh) = unat (lh_num_buckets lh)"
  using assms
  by (auto simp: lh_inv_def lh_ok_def buckets_ok_def kMinNumBuckets_def word_le_nat_alt word_less_nat_alt)

lemma chain_class:
  assumes "lh_inv lh"
  shows "lh_class lh x = mset (filter (\<lambda>y. cmp y x = 0)
     (map item_data (lh_buckets lh ! bucket_of (hash x) (lh_num_buckets lh))))"
proof -
  let ?n = "lh_num_buckets lh" and ?bs = "lh_buckets lh"
  let ?b = "bucket_of (hash x) ?n"
  note bs = inv_buckets(1) [OF assms(1)] and n = inv_buckets(2) [OF assms(1)]
  have "filter (\<lambda>it. cmp (item_data it) x = 0) (concat ?bs) = filter (\<lambda>it. cmp (item_data it) x = 0) (?bs ! ?b)"
  proof (rule filter_concat_only)
    show "?b < length ?bs" using bs bucket_of_less [OF n] by (simp add: buckets_ok_def)
    fix i it assume it: "i < length ?bs" "i \<noteq> ?b" "it \<in> set (?bs ! i)"
    then have "bucket_of (hash (item_data it)) ?n = i" using bs by (auto simp: buckets_ok_def)
    then show "cmp (item_data it) x \<noteq> 0" using it(2) cmp_hash [of "item_data it" x] by auto
  qed
  then show ?thesis
    using assms
    by (simp add: lh_class_def lh_inv_def lh_data_def filter_map comp_def del: mset_map mset_filter
      flip: mset_filter)
qed

text \<open>A search ends at the only item equal to the key, or shows that there is none.\<close>

lemma search_found:
  assumes "lh_inv lh" "get_next_ptr_and_hash lh x = (h, b, k)" "item_at lh b k = Some it"
  shows "lh_class lh x = {#item_data it#}" and "cmp (item_data it) x = 0" and "it = lh_buckets lh ! b ! k"
    and "k < length (lh_buckets lh ! b)" and "b < length (lh_buckets lh)"
    and "item_hash it = hash (item_data it)"
proof -
  let ?c = "lh_buckets lh ! b"
  have eq: "h = hash x" "b = bucket_of (hash x) (lh_num_buckets lh)"
      "k = chain_search (\<lambda>y. cmp y x = 0) ?c"
    using assms(1,2) by (auto simp: get_next_ptr_and_hash_def lh_inv_def Let_def)
  show k: "k < length ?c" and it: "it = ?c ! k" using assms(3) by (auto simp: item_at_def split: if_splits)
  show c0: "cmp (item_data it) x = 0" using chain_search_found [of "\<lambda>y. cmp y x = 0" ?c] k it eq by simp
  have "item_data it \<in># lh_class lh x" unfolding chain_class [OF assms(1)] using c0 k it eq by auto
  then show "lh_class lh x = {#item_data it#}"
    by (rule mset_singleton) (use assms(1) in \<open>simp add: lh_inv_def lh_ok_def\<close>)
  note bs = inv_buckets(1) [OF assms(1)] and n = inv_buckets(2) [OF assms(1)]
  show b: "b < length (lh_buckets lh)" using bs bucket_of_less [OF n] eq by (simp add: buckets_ok_def)
  show "item_hash it = hash (item_data it)" using bs b k it by (simp add: buckets_ok_def)
qed

lemma search_missing:
  assumes "lh_inv lh" "get_next_ptr_and_hash lh x = (h, b, k)" "item_at lh b k = None"
  shows "lh_class lh x = {#}" and "h = hash x" and "b = bucket_of (hash x) (lh_num_buckets lh)"
    and "b < length (lh_buckets lh)"
proof -
  let ?c = "lh_buckets lh ! b"
  have eq: "h = hash x" "b = bucket_of (hash x) (lh_num_buckets lh)"
      "k = chain_search (\<lambda>y. cmp y x = 0) ?c"
    using assms(1,2) by (auto simp: get_next_ptr_and_hash_def lh_inv_def Let_def)
  show "h = hash x" "b = bucket_of (hash x) (lh_num_buckets lh)" by fact+
  have "\<not> k < length ?c" using assms(3) by (auto simp: item_at_def split: if_splits)
  then have "\<forall>it \<in> set ?c. cmp (item_data it) x \<noteq> 0"
    using chain_search_none [of "\<lambda>y. cmp y x = 0" ?c] eq by simp
  then show "lh_class lh x = {#}" unfolding chain_class [OF assms(1)] using eq by auto
  note bs = inv_buckets(1) [OF assms(1)] and n = inv_buckets(2) [OF assms(1)]
  show "b < length (lh_buckets lh)" using bs bucket_of_less [OF n] eq by (simp add: buckets_ok_def)
qed

lemma class_singleton: "lh_inv lh \<Longrightarrow> lh_class lh x = {#y#} \<Longrightarrow> lh_map lh x = Some y"
  by (simp add: lh_map_iff lh_inv_def)

lemma lh_retrieve: "lh_inv lh \<Longrightarrow> lh_retrieve lh x = lh_map lh x"
  unfolding lh_retrieve_def
  using search_found(1) [of lh x] search_missing(1) [of lh x]
  by (cases "get_next_ptr_and_hash lh x", cases "item_at lh (fst (snd (get_next_ptr_and_hash lh x)))
      (snd (snd (get_next_ptr_and_hash lh x)))") (auto simp: class_singleton lh_map_None [symmetric])


lemma lh_retrieve_key:
  assumes "lh_inv lh" "\<And>y. cmp_key key y = 0 \<longleftrightarrow> cmp y x = 0" "key_hash = hash x"
  shows "lh_retrieve_key lh key key_hash cmp_key = lh_map lh x"
  using lh_retrieve [OF assms(1), of x] assms
  by (simp add: lh_retrieve_def lh_retrieve_key_def get_next_ptr_and_hash_def get_next_ptr_by_key_def
    Let_def lh_inv_def)

end

section \<open>Inserting and deleting\<close>

text \<open>The table as a map on its keys up to \<open>cmp\<close>, and what the two operations make of it.\<close>

definition map_put :: "('a \<Rightarrow> 'a \<Rightarrow> int) \<Rightarrow> 'a \<Rightarrow> ('a \<Rightarrow> 'a option) \<Rightarrow> 'a \<Rightarrow> 'a option" where
  "map_put cmp d m x = (if cmp d x = 0 then Some d else m x)"

definition map_drop :: "('a \<Rightarrow> 'a \<Rightarrow> int) \<Rightarrow> 'a \<Rightarrow> ('a \<Rightarrow> 'a option) \<Rightarrow> 'a \<Rightarrow> 'a option" where
  "map_drop cmp d m x = (if cmp d x = 0 then None else m x)"

lemma lh_map_by_class:
  assumes "lh_ok lh" "lh_ok lh'" "lh_class lh' x = lh_class lh x"
  shows "lh_map lh' x = lh_map lh x"
proof (cases "lh_map lh x")
  case None
  then show ?thesis using assms(3) lh_map_None [of lh x] lh_map_None [of lh' x] by simp
next
  case (Some y)
  then have "lh_map lh' x = Some y" using assms by (simp add: lh_map_iff)
  then show ?thesis using Some by simp
qed

lemma lh_data_update:
  fixes lh :: "'a lhash_st"
  assumes "b < length (lh_buckets lh)"
  obtains R where "mset (lh_data lh) = image_mset item_data (mset (lh_buckets lh ! b)) + R"
    and "\<And>(lh' :: 'a lhash_st) c. lh_buckets lh' = (lh_buckets lh)[b := c] \<Longrightarrow>
      mset (lh_data lh') = image_mset item_data (mset c) + R"
proof -
  let ?bs = "lh_buckets lh"
  let ?R = "image_mset item_data (mset (concat (take b ?bs)) + mset (concat (drop (Suc b) ?bs)))"
  have "mset (lh_data lh') = image_mset item_data (mset c) + ?R" if "lh_buckets lh' = ?bs[b := c]"
    for lh' :: "'a lhash_st" and c
    using that assms by (simp add: lh_data_def upd_conv_take_nth_drop)
  moreover from this [of lh "?bs ! b"]
  have "mset (lh_data lh) = image_mset item_data (mset (?bs ! b)) + ?R" by simp
  ultimately show ?thesis using that by blast
qed

lemma chain_update:
  "k < length c \<Longrightarrow> mset c = add_mset (c ! k) (mset (take k c @ drop (Suc k) c)) \<and>
     mset (c[k := it]) = add_mset it (mset (take k c @ drop (Suc k) c))"
  by (simp add: chain_split upd_conv_take_nth_drop)

context lhash_keys
begin

lemma class_cong: "lh_inv lh \<Longrightarrow> cmp d x = 0 \<Longrightarrow> lh_class lh x = lh_class lh d"
  by (simp add: lh_class_def lh_inv_def cmp_cong [of d x])

lemma lh_invI:
  assumes "lh_inv lh" "same_keys lh lh'"
    and "kMinNumBuckets \<le> lh_num_buckets lh'" "buckets_ok hash (lh_num_buckets lh') (lh_buckets lh')"
    and "\<And>x. size (lh_class lh' x) \<le> 1"
    and "lh_items lh' = of_nat (length (lh_data lh'))" "length (lh_data lh') < 2 ^ 64"
  shows "lh_inv lh'"
  using assms by (simp add: lh_inv_def lh_ok_def same_keys_def)

lemma lh_inv_resize:
  assumes "lh_inv lh"
  obtains lh' where "lh_maybe_resize alloc lh = Some lh'" "lh_inv lh'" "same_contents lh lh'"
    "lh_map lh' = lh_map lh"
proof -
  from assms have ok: "lh_ok lh" by (simp add: lh_inv_def)
  from lh_maybe_resize_ok [OF ok, of alloc] obtain lh'
    where l: "lh_maybe_resize alloc lh = Some lh'" "lh_ok lh'" "same_contents lh lh'" .
  show ?thesis
  proof (rule that [of lh'])
    show "lh_inv lh'" using l assms by (simp add: lh_inv_def same_contents_def same_keys_def)
    show "lh_map lh' = lh_map lh"
      by (rule ext, rule lh_map_by_class [OF ok l(2)]) (rule same_contents_class [OF l(3)])
  qed (fact l)+
qed

text \<open>What adding, exchanging and removing a datum makes of the classes and of the map.\<close>

lemma class_eq: "lh_comp lh = cmp \<Longrightarrow> lh_class lh x = filter_mset (\<lambda>y. cmp y x = 0) (mset (lh_data lh))"
  by (simp add: lh_class_def)

lemma class_exchange:
  assumes "lh_inv lh" "lh_comp lh' = cmp"
    and m: "mset (lh_data lh) = add_mset old R" "mset (lh_data lh') = add_mset d R"
    and old: "lh_class lh d = {#old#}" "cmp old d = 0"
  shows "lh_class lh' x = (if cmp d x = 0 then {#d#} else lh_class lh x)"
proof -
  have it_d: "cmp old x = 0 \<longleftrightarrow> cmp d x = 0" using old(2) cmp_sym cmp_trans by blast
  have "lh_class lh x = {#old#}" if "cmp d x = 0" using class_cong [OF assms(1) that] old(1) by simp
  then show ?thesis using it_d assms(1) by (auto simp: class_eq assms(2) m lh_inv_def)
qed

lemma class_add:
  assumes "lh_inv lh" "lh_comp lh' = cmp" "mset (lh_data lh') = add_mset d (mset (lh_data lh))"
    and old: "lh_class lh d = {#}"
  shows "lh_class lh' x = (if cmp d x = 0 then {#d#} else lh_class lh x)"
proof -
  have "lh_class lh x = {#}" if "cmp d x = 0" using class_cong [OF assms(1) that] old by simp
  then show ?thesis using assms(1) by (auto simp: class_eq assms(2,3) lh_inv_def)
qed

lemma class_remove:
  assumes "lh_inv lh" "lh_comp lh' = cmp" "mset (lh_data lh) = add_mset old (mset (lh_data lh'))"
    and old: "lh_class lh d = {#old#}" "cmp old d = 0"
  shows "lh_class lh' x = (if cmp d x = 0 then {#} else lh_class lh x)"
proof -
  have it_d: "cmp old x = 0 \<longleftrightarrow> cmp d x = 0" using old(2) cmp_sym cmp_trans by blast
  have "lh_class lh x = {#old#}" if "cmp d x = 0" using class_cong [OF assms(1) that] old(1) by simp
  then show ?thesis using it_d assms(1) by (auto simp: class_eq assms(2,3) lh_inv_def)
qed

lemma put_map:
  assumes "lh_inv lh" "lh_inv lh'" "\<And>x. lh_class lh' x = (if cmp d x = 0 then {#d#} else lh_class lh x)"
  shows "lh_map lh' = map_put cmp d (lh_map lh)"
proof
  fix x show "lh_map lh' x = map_put cmp d (lh_map lh) x"
    using assms lh_map_by_class [of lh lh' x] class_singleton [of lh' x d]
    by (cases "cmp d x = 0") (auto simp: map_put_def lh_inv_def)
qed

lemma drop_map:
  assumes "lh_inv lh" "lh_inv lh'" "\<And>x. lh_class lh' x = (if cmp d x = 0 then {#} else lh_class lh x)"
  shows "lh_map lh' = map_drop cmp d (lh_map lh)"
proof
  fix x show "lh_map lh' x = map_drop cmp d (lh_map lh) x"
    using assms lh_map_by_class [of lh lh' x] lh_map_None [of lh' x]
    by (cases "cmp d x = 0") (auto simp: map_drop_def lh_inv_def)
qed

text \<open>The three ways an operation edits a chain: replacing an item, appending one, removing one.\<close>

lemma edit_replace:
  assumes inv: "lh_inv lh" and s: "get_next_ptr_and_hash lh d = (h, b, k)" and it: "item_at lh b k = Some it"
    and lh': "lh' = lh\<lparr>lh_buckets := (lh_buckets lh)[b := (lh_buckets lh ! b)[k := it\<lparr>item_data := d\<rparr>]]\<rparr>"
  shows "lh_inv lh'" and "lh_map lh' = map_put cmp d (lh_map lh)"
    and "length (lh_data lh') = length (lh_data lh)"
proof -
  note f = search_found [OF inv s it]
  let ?c = "lh_buckets lh ! b" and ?c' = "(lh_buckets lh ! b)[k := it\<lparr>item_data := d\<rparr>]"
  have bs': "lh_buckets lh' = (lh_buckets lh)[b := ?c']" by (simp add: lh')
  from lh_data_update [OF f(5)] obtain R where
    R: "mset (lh_data lh) = image_mset item_data (mset ?c) + R"
    and R': "\<And>lh' c. lh_buckets lh' = (lh_buckets lh)[b := c] \<Longrightarrow>
      mset (lh_data lh') = image_mset item_data (mset c) + R" by blast
  let ?R = "image_mset item_data (mset (take k ?c @ drop (Suc k) ?c)) + R"
  have m: "mset (lh_data lh) = add_mset (item_data it) ?R"
    using R chain_update [OF f(4)] f(3) by simp
  have m': "mset (lh_data lh') = add_mset d ?R"
    using R' [OF bs'] chain_update [OF f(4), of "it\<lparr>item_data := d\<rparr>"] by simp
  have comp': "lh_comp lh' = cmp" using inv by (simp add: lh' lh_inv_def)
  note cls = class_exchange [OF inv comp' m m' f(1,2)]
  show len: "length (lh_data lh') = length (lh_data lh)"
    using arg_cong [OF m, of size] arg_cong [OF m', of size] by simp
  show i: "lh_inv lh'"
  proof (rule lh_invI [OF inv])
    note bs = inv_buckets(1) [OF inv]
    have "b < unat (lh_num_buckets lh)" using bs f(5) by (simp add: buckets_ok_def)
    note nth = buckets_ok_nth [OF bs this]
    show "buckets_ok hash (lh_num_buckets lh') (lh_buckets lh')"
    proof -
      have "buckets_ok hash (lh_num_buckets lh) (lh_buckets lh')" unfolding bs'
      proof (rule buckets_ok_update [OF bs])
        fix i assume "i \<in> set ?c'"
        then have "i = it\<lparr>item_data := d\<rparr> \<or> i \<in> set ?c" using set_update_subset_insert by fastforce
        moreover have "it \<in> set ?c" using f(3,4) by simp
        ultimately show "item_hash i = hash (item_data i) \<and> bucket_of (hash (item_data i)) (lh_num_buckets lh) = b"
          using nth [of it] nth [of i] cmp_hash [OF f(2)] by auto
      qed
      then show ?thesis by (simp add: lh')
    qed
  qed (use inv cls len in \<open>auto simp: lh' same_keys_def lh_inv_def lh_ok_def\<close>)
  show "lh_map lh' = map_put cmp d (lh_map lh)"
    by (rule put_map [OF inv i cls])
qed


lemma edit_append:
  assumes inv: "lh_inv lh" and s: "get_next_ptr_and_hash lh d = (h, b, k)" and it: "item_at lh b k = None"
    and lh': "lh' = lh\<lparr>lh_buckets := (lh_buckets lh)[b := lh_buckets lh ! b @ [\<lparr>item_data = d, item_hash = h\<rparr>]],
      lh_items := lh_items lh + 1\<rparr>"
    and size: "length (lh_data lh) < 2 ^ 64 - 1"
  shows "lh_inv lh'" and "lh_map lh' = map_put cmp d (lh_map lh)"
    and "length (lh_data lh') = Suc (length (lh_data lh))"
proof -
  note f = search_missing [OF inv s it]
  let ?c' = "lh_buckets lh ! b @ [\<lparr>item_data = d, item_hash = h\<rparr>]"
  have bs': "lh_buckets lh' = (lh_buckets lh)[b := ?c']" by (simp add: lh')
  from lh_data_update [OF f(4)] obtain R where
    R: "mset (lh_data lh) = image_mset item_data (mset (lh_buckets lh ! b)) + R"
    and R': "\<And>lh' c. lh_buckets lh' = (lh_buckets lh)[b := c] \<Longrightarrow>
      mset (lh_data lh') = image_mset item_data (mset c) + R" by blast
  have m: "mset (lh_data lh') = add_mset d (mset (lh_data lh))"
    using R R' [OF bs'] by simp
  have comp': "lh_comp lh' = cmp" using inv by (simp add: lh' lh_inv_def)
  note cls = class_add [OF inv comp' m f(1)]
  show len: "length (lh_data lh') = Suc (length (lh_data lh))"
    using arg_cong [OF m, of size] by simp
  show i: "lh_inv lh'"
  proof (rule lh_invI [OF inv])
    note bs = inv_buckets(1) [OF inv]
    have "b < unat (lh_num_buckets lh)" using bs f(4) by (simp add: buckets_ok_def)
    note nth = buckets_ok_nth [OF bs this]
    have "buckets_ok hash (lh_num_buckets lh) (lh_buckets lh')"
      unfolding bs' by (rule buckets_ok_update [OF bs]) (use nth f in auto)
    then show "buckets_ok hash (lh_num_buckets lh') (lh_buckets lh')" by (simp add: lh')
    show "lh_items lh' = of_nat (length (lh_data lh'))"
      using inv len by (simp add: lh' lh_inv_def lh_ok_def)
  qed (use inv cls len size in \<open>auto simp: lh' same_keys_def lh_inv_def lh_ok_def\<close>)
  show "lh_map lh' = map_put cmp d (lh_map lh)"
    by (rule put_map [OF inv i cls])
qed

lemma edit_remove:
  assumes inv: "lh_inv lh" and s: "get_next_ptr_and_hash lh d = (h, b, k)" and it: "item_at lh b k = Some it"
    and lh': "lh' = lh\<lparr>lh_buckets := (lh_buckets lh)[b := take k (lh_buckets lh ! b) @ drop (Suc k) (lh_buckets lh ! b)],
      lh_items := lh_items lh - 1\<rparr>"
  shows "lh_inv lh'" and "lh_map lh' = map_drop cmp d (lh_map lh)"
    and "length (lh_data lh) = Suc (length (lh_data lh'))"
proof -
  note f = search_found [OF inv s it]
  let ?c = "lh_buckets lh ! b" and ?c' = "take k (lh_buckets lh ! b) @ drop (Suc k) (lh_buckets lh ! b)"
  have bs': "lh_buckets lh' = (lh_buckets lh)[b := ?c']" by (simp add: lh')
  from lh_data_update [OF f(5)] obtain R where
    R: "mset (lh_data lh) = image_mset item_data (mset ?c) + R"
    and R': "\<And>lh' c. lh_buckets lh' = (lh_buckets lh)[b := c] \<Longrightarrow>
      mset (lh_data lh') = image_mset item_data (mset c) + R" by blast
  have m: "mset (lh_data lh) = add_mset (item_data it) (mset (lh_data lh'))"
    using R R' [OF bs'] chain_split [OF f(4)] f(3) by simp
  have comp': "lh_comp lh' = cmp" using inv by (simp add: lh' lh_inv_def)
  note cls = class_remove [OF inv comp' m f(1,2)]
  show len: "length (lh_data lh) = Suc (length (lh_data lh'))"
    using arg_cong [OF m, of size] by simp
  show i: "lh_inv lh'"
  proof (rule lh_invI [OF inv])
    note bs = inv_buckets(1) [OF inv]
    have "b < unat (lh_num_buckets lh)" using bs f(5) by (simp add: buckets_ok_def)
    note nth = buckets_ok_nth [OF bs this]
    have "buckets_ok hash (lh_num_buckets lh) (lh_buckets lh')"
      unfolding bs' by (rule buckets_ok_update [OF bs]) (use nth in \<open>auto dest: in_set_takeD in_set_dropD\<close>)
    then show "buckets_ok hash (lh_num_buckets lh') (lh_buckets lh')" by (simp add: lh')
    have "lh_items lh = of_nat (length (lh_data lh'))  + 1"
      using inv unfolding lh_inv_def lh_ok_def len by simp
    then have "lh_items lh - 1 = of_nat (length (lh_data lh'))" by simp
    moreover have "lh_items lh' = lh_items lh - 1" by (simp add: lh')
    ultimately show "lh_items lh' = of_nat (length (lh_data lh'))" by simp
  qed (use inv cls len in \<open>auto simp: lh' same_keys_def lh_inv_def lh_ok_def\<close>)
  show "lh_map lh' = map_drop cmp d (lh_map lh)"
    by (rule drop_map [OF inv i cls])
qed


lemma lh_insert:
  assumes inv: "lh_inv lh" and size: "length (lh_data lh) < 2 ^ 64 - 1"
  obtains lh' where "lh_inv lh'"
    and "lh_insert alloc d lh = Some (lh_map lh d \<noteq> None \<or> alloc 24, lh_map lh d, lh')"
    and "lh_map lh' = (if lh_map lh d \<noteq> None \<or> alloc 24 then map_put cmp d (lh_map lh) else lh_map lh)"
    and "length (lh_data lh') = (if lh_map lh d = None \<and> alloc 24 then Suc (length (lh_data lh))
      else length (lh_data lh))"
proof -
  obtain h b k where s: "get_next_ptr_and_hash lh d = (h, b, k)" by (metis prod_cases3)
  show ?thesis
  proof (cases "item_at lh b k")
    case (Some it)
    let ?lh = "lh\<lparr>lh_buckets := (lh_buckets lh)[b := (lh_buckets lh ! b)[k := it\<lparr>item_data := d\<rparr>]]\<rparr>"
    have m: "lh_map lh d = Some (item_data it)"
      by (rule class_singleton [OF inv search_found(1) [OF inv s Some]])
    show ?thesis
      by (rule that [of ?lh])
        (use edit_replace [OF inv s Some refl] m Some s in \<open>simp_all add: lh_insert_def\<close>)
  next
    case None
    have m: "lh_map lh d = None" using search_missing(1) [OF inv s None] by (simp add: lh_map_None)
    let ?lh = "lh\<lparr>lh_buckets := (lh_buckets lh)[b := lh_buckets lh ! b @ [\<lparr>item_data = d, item_hash = h\<rparr>]],
      lh_items := lh_items lh + 1\<rparr>"
    note e = edit_append [OF inv s None refl size]
    from lh_inv_resize [OF e(1), of alloc] obtain lh' where
      l: "lh_maybe_resize alloc ?lh = Some lh'" "lh_inv lh'" "same_contents ?lh lh'" "lh_map lh' = lh_map ?lh" .
    have len: "length (lh_data lh') = length (lh_data ?lh)"
      using l(3) by (auto simp: same_contents_def dest: mset_eq_length)
    show ?thesis
    proof (cases "alloc 24")
      case True
      show ?thesis
        by (rule that [of lh']) (use l e len m None s True in \<open>simp_all add: lh_insert_def\<close>)
    next
      case False
      show ?thesis
        by (rule that [of lh]) (use inv m None s False in \<open>simp_all add: lh_insert_def\<close>)
    qed
  qed
qed

lemma lh_delete:
  assumes inv: "lh_inv lh"
  obtains lh' where "lh_inv lh'" and "lh_delete alloc d lh = Some (lh_map lh d, lh')"
    and "lh_map lh' = map_drop cmp d (lh_map lh)"
    and "length (lh_data lh') = (if lh_map lh d = None then length (lh_data lh) else length (lh_data lh) - 1)"
proof -
  obtain h b k where s: "get_next_ptr_and_hash lh d = (h, b, k)" by (metis prod_cases3)
  show ?thesis
  proof (cases "item_at lh b k")
    case None
    have c: "lh_class lh d = {#}" by (rule search_missing(1) [OF inv s None])
    have "map_drop cmp d (lh_map lh) x = lh_map lh x" for x
      using class_cong [OF inv, of d x] c lh_map_None [of lh x] by (auto simp: map_drop_def)
    then have "lh_map lh = map_drop cmp d (lh_map lh)" by (simp add: fun_eq_iff)
    then show ?thesis
      using that [of lh] inv c None s lh_map_None [of lh d] by (simp add: lh_delete_def)
  next
    case (Some it)
    have m: "lh_map lh d = Some (item_data it)"
      by (rule class_singleton [OF inv search_found(1) [OF inv s Some]])
    let ?lh = "lh\<lparr>lh_buckets := (lh_buckets lh)[b := take k (lh_buckets lh ! b) @ drop (Suc k) (lh_buckets lh ! b)],
      lh_items := lh_items lh - 1\<rparr>"
    note e = edit_remove [OF inv s Some refl]
    from lh_inv_resize [OF e(1), of alloc] obtain lh' where
      l: "lh_maybe_resize alloc ?lh = Some lh'" "lh_inv lh'" "same_contents ?lh lh'" "lh_map lh' = lh_map ?lh" .
    have len: "length (lh_data lh') = length (lh_data ?lh)"
      using l(3) by (auto simp: same_contents_def dest: mset_eq_length)
    show ?thesis
      by (rule that [of lh']) (use l e len m Some s in \<open>simp_all add: lh_delete_def Let_def\<close>)
  qed
qed

lemma lh_new:
  assumes "lh_new alloc hash cmp = Some lh"
  shows "lh_inv lh" and "lh_map lh = (\<lambda>_. None)" and "lh_data lh = []"
  using assms
  by (auto simp: lh_new_def lh_inv_def lh_ok_def lh_data_def lh_map_def lh_class_def kMinNumBuckets_def
      buckets_ok_def split: if_splits)

end

end
