(* ===== verification/Lhash_Run.thy ===== *)
theory Lhash_Run
  imports Lhash_Spec
begin

text \<open>
  Sequences of operations on a hash table: their results are those of the map, and the average
  chain stays at most three long while the table shrinks with its contents.
\<close>

section \<open>The load of the table\<close>

definition lh_load_ok :: "'a lhash_st \<Rightarrow> bool" where
  "lh_load_ok lh \<longleftrightarrow> length (lh_data lh) < 3 * unat (lh_num_buckets lh) \<and>
     (lh_num_buckets lh = kMinNumBuckets \<or> unat (lh_num_buckets lh) \<le> length (lh_data lh))"

lemma lh_rebucket_num:
  assumes "unat n < 2 ^ 61" "alloc (8 * n)"
  shows "lh_num_buckets (lh_rebucket alloc n lh) = n"
proof -
  have "unat (8 * n) = 8 * unat n"
    using assms(1) unat_mult_lem [of "8 :: u64" n] by simp
  then have "unat (8 * n div 8) = unat n" by (simp add: unat_div)
  then have "8 * n div 8 = n" by (rule unsigned_word_eqI)
  then show ?thesis using assms(2) by (simp add: lh_rebucket_def Let_def)
qed

lemma resize_load:
  assumes "lh_ok lh" "lh_callback_depth lh = 0" "\<And>n. alloc n"
    and "length (lh_data lh) < 2 ^ 61" "length (lh_data lh) \<le> 3 * unat (lh_num_buckets lh)"
    and "lh_num_buckets lh = kMinNumBuckets \<or> unat (lh_num_buckets lh) \<le> Suc (length (lh_data lh))"
    and "lh_maybe_resize alloc lh = Some lh'"
  shows "lh_load_ok lh'"
proof -
  let ?n = "unat (lh_num_buckets lh)" and ?l = "length (lh_data lh)"
  have items: "unat (lh_items lh) = ?l" using assms(1) by (simp add: lh_ok_def unat_of_nat)
  have n: "16 \<le> ?n" using assms(1) by (simp add: lh_ok_def kMinNumBuckets_def word_le_nat_alt)
  have avg: "unat (lh_items lh div lh_num_buckets lh) = ?l div ?n"
    by (simp add: unat_div items)
  have l: "mset (lh_data (lh_rebucket alloc m lh)) = mset (lh_data lh)" if "kMinNumBuckets \<le> m" for m
    using lh_rebucket_ok(2) [OF assms(1) that] by (simp add: same_contents_def)
  have len: "length (lh_data (lh_rebucket alloc m lh)) = ?l" if "kMinNumBuckets \<le> m" for m
    using l [OF that] by (rule mset_eq_length)
  have resize: "lh_maybe_resize alloc lh =
      (if 2 < ?l div ?n then
         if lh_num_buckets lh < lh_num_buckets lh * 2 then Some (lh_rebucket alloc (lh_num_buckets lh * 2) lh)
         else Some lh
       else if ?l div ?n < 1 \<and> 16 < ?n then
         Some (lh_rebucket alloc (if lh_num_buckets lh div 2 < kMinNumBuckets then kMinNumBuckets
           else lh_num_buckets lh div 2) lh)
       else Some lh)"
  proof -
    have "kMaxAverageChainLength < lh_items lh div lh_num_buckets lh \<longleftrightarrow> 2 < ?l div ?n"
      and "lh_items lh div lh_num_buckets lh < kMinAverageChainLength \<longleftrightarrow> ?l div ?n < 1"
      and "kMinNumBuckets < lh_num_buckets lh \<longleftrightarrow> 16 < ?n"
      and "kMinNumBuckets \<le> lh_num_buckets lh"
      using n by (simp_all add: word_less_nat_alt word_le_nat_alt avg kMaxAverageChainLength_def
        kMinAverageChainLength_def kMinNumBuckets_def)
    then show ?thesis using assms(2) by (simp add: lh_maybe_resize_def Let_def)
  qed
  consider (grow) "?l div ?n > 2" | (shrink) "?l div ?n < 1" "16 < ?n" | (keep) "?l div ?n \<le> 2" "1 \<le> ?l div ?n \<or> ?n = 16"
    using n by linarith
  then show ?thesis
  proof cases
    case grow
    then have ln: "?l = 3 * ?n" using assms(5) n by (simp add: div_le_mono less_eq_div_iff_mult_less_eq Suc_le_eq [symmetric] numeral_3_eq_3)
    then have d: "unat (lh_num_buckets lh * 2) = 2 * ?n"
      using assms(4) unat_mult_lem [of "lh_num_buckets lh" 2] by simp
    then have "lh_num_buckets lh < lh_num_buckets lh * 2" and m: "kMinNumBuckets \<le> lh_num_buckets lh * 2"
      using n by (simp_all add: word_less_nat_alt word_le_nat_alt kMinNumBuckets_def)
    then have "lh' = lh_rebucket alloc (lh_num_buckets lh * 2) lh"
      using assms(7) grow by (simp add: resize)
    moreover have "lh_num_buckets (lh_rebucket alloc (lh_num_buckets lh * 2) lh) = lh_num_buckets lh * 2"
      by (rule lh_rebucket_num) (use d assms(3,4) ln in simp_all)
    ultimately show ?thesis using len [OF m] d ln n by (simp add: lh_load_ok_def)
  next
    case shrink
    then have ln: "Suc ?l = ?n"
      using assms(6) by (auto simp: div_eq_0_iff kMinNumBuckets_def)
    define m where "m = (if lh_num_buckets lh div 2 < kMinNumBuckets then kMinNumBuckets else lh_num_buckets lh div 2)"
    have m16: "kMinNumBuckets \<le> m" and um: "unat m = max 16 (?n div 2)"
      by (auto simp: m_def word_less_nat_alt word_le_nat_alt kMinNumBuckets_def unat_div)
    have "lh' = lh_rebucket alloc m lh"
      using assms(7) shrink by (simp add: resize m_def Let_def)
    moreover have "lh_num_buckets (lh_rebucket alloc m lh) = m"
      by (rule lh_rebucket_num) (use um assms(3,4) ln in auto)
    moreover have "m = kMinNumBuckets \<or> unat m = ?n div 2"
      using um by (auto simp: kMinNumBuckets_def max_def word_unat_eq_iff split: if_splits)
    ultimately show ?thesis using len [OF m16] um ln shrink by (auto simp: lh_load_ok_def)
  next
    case keep
    then have "lh' = lh" using assms(7) by (auto simp: resize)
    moreover have "?l < 3 * ?n"
      using keep(1) n div_less_iff_less_mult [of ?n ?l 3] by linarith
    moreover have "lh_num_buckets lh = kMinNumBuckets \<or> ?n \<le> ?l"
      using keep(2) n by (auto simp: kMinNumBuckets_def word_unat_eq_iff div_greater_zero_iff Suc_le_eq)
    ultimately show ?thesis by (simp add: lh_load_ok_def)
  qed
qed

section \<open>Runs of operations\<close>

datatype 'a lh_op = LhInsert 'a | LhDelete 'a | LhRetrieve 'a | LhNum

datatype 'a lh_res = Inserted bool "'a option" | Deleted "'a option" | Retrieved "'a option" | Counted u64

fun lh_apply :: "(u64 \<Rightarrow> bool) \<times> 'a lh_op \<Rightarrow> 'a lhash_st \<Rightarrow> ('a lh_res \<times> 'a lhash_st) option" where
  "lh_apply (alloc, LhInsert d) lh = map_option (\<lambda>(ok, old, lh). (Inserted ok old, lh)) (lh_insert alloc d lh)"
| "lh_apply (alloc, LhDelete d) lh = map_option (\<lambda>(old, lh). (Deleted old, lh)) (lh_delete alloc d lh)"
| "lh_apply (alloc, LhRetrieve d) lh = Some (Retrieved (lh_retrieve lh d), lh)"
| "lh_apply (alloc, LhNum) lh = Some (Counted (lh_num_items lh), lh)"

fun lh_run :: "((u64 \<Rightarrow> bool) \<times> 'a lh_op) list \<Rightarrow> 'a lhash_st \<Rightarrow> ('a lh_res list \<times> 'a lhash_st) option" where
  "lh_run [] lh = Some ([], lh)"
| "lh_run (p # ops) lh = (case lh_apply p lh of None \<Rightarrow> None
    | Some (r, lh) \<Rightarrow> map_option (\<lambda>(rs, lh). (r # rs, lh)) (lh_run ops lh))"

text \<open>The same operations on a map up to \<open>cmp\<close> and a count of its keys.\<close>

fun map_apply :: "('a \<Rightarrow> 'a \<Rightarrow> int) \<Rightarrow> (u64 \<Rightarrow> bool) \<times> 'a lh_op \<Rightarrow> ('a \<Rightarrow> 'a option) \<times> nat \<Rightarrow>
    'a lh_res \<times> ('a \<Rightarrow> 'a option) \<times> nat" where
  "map_apply cmp (alloc, LhInsert d) (m, n) =
     (if m d \<noteq> None then (Inserted True (m d), map_put cmp d m, n)
      else if alloc 24 then (Inserted True None, map_put cmp d m, Suc n)
      else (Inserted False None, m, n))"
| "map_apply cmp (alloc, LhDelete d) (m, n) =
     (Deleted (m d), map_drop cmp d m, if m d = None then n else n - 1)"
| "map_apply cmp (alloc, LhRetrieve d) (m, n) = (Retrieved (m d), m, n)"
| "map_apply cmp (alloc, LhNum) (m, n) = (Counted (of_nat n), m, n)"

fun map_run :: "('a \<Rightarrow> 'a \<Rightarrow> int) \<Rightarrow> ((u64 \<Rightarrow> bool) \<times> 'a lh_op) list \<Rightarrow>
    ('a \<Rightarrow> 'a option) \<times> nat \<Rightarrow> 'a lh_res list" where
  "map_run cmp [] st = []"
| "map_run cmp (p # ops) st = (let (r, st) = map_apply cmp p st in r # map_run cmp ops st)"

context lhash_keys
begin

lemma apply_refines:
  assumes inv: "lh_inv lh" and size: "length (lh_data lh) < 2 ^ 64 - 1"
  obtains r lh' where "lh_apply p lh = Some (r, lh')" "lh_inv lh'"
    "map_apply cmp p (lh_map lh, length (lh_data lh)) = (r, lh_map lh', length (lh_data lh'))"
proof -
  obtain alloc op where p: "p = (alloc, op)" by (cases p)
  show ?thesis
  proof (cases op)
    case (LhInsert d)
    from lh_insert [OF inv size, of alloc d] obtain lh' where
      "lh_inv lh'" "lh_insert alloc d lh = Some (lh_map lh d \<noteq> None \<or> alloc 24, lh_map lh d, lh')"
      "lh_map lh' = (if lh_map lh d \<noteq> None \<or> alloc 24 then map_put cmp d (lh_map lh) else lh_map lh)"
      "length (lh_data lh') = (if lh_map lh d = None \<and> alloc 24 then Suc (length (lh_data lh))
        else length (lh_data lh))" .
    then show ?thesis using p LhInsert by (intro that [of _ lh']) auto
  next
    case (LhDelete d)
    from lh_delete [OF inv, of alloc d] obtain lh' where
      "lh_inv lh'" "lh_delete alloc d lh = Some (lh_map lh d, lh')" "lh_map lh' = map_drop cmp d (lh_map lh)"
      "length (lh_data lh') = (if lh_map lh d = None then length (lh_data lh) else length (lh_data lh) - 1)" .
    then show ?thesis using p LhDelete by (intro that [of _ lh']) auto
  next
    case (LhRetrieve d)
    then show ?thesis using p inv by (intro that [of _ lh]) (auto simp: lh_retrieve)
  next
    case LhNum
    then show ?thesis using p inv
      by (intro that [of _ lh]) (auto simp: lh_num_items_def lh_inv_def lh_ok_def)
  qed
qed

lemma map_apply_count: "map_apply cmp p (m, n) = (r, m', n') \<Longrightarrow> n' \<le> Suc n"
  by (cases "(cmp, p, (m, n))" rule: map_apply.cases) (auto split: if_splits)

lemma run_refines:
  assumes "lh_inv lh" "length (lh_data lh) + length ops < 2 ^ 64"
  shows "\<exists>lh'. lh_run ops lh = Some (map_run cmp ops (lh_map lh, length (lh_data lh)), lh') \<and> lh_inv lh'"
  using assms
proof (induction ops arbitrary: lh)
  case (Cons p ops)
  have "length (lh_data lh) < 2 ^ 64 - 1" using Cons.prems(2) by simp
  from apply_refines [OF Cons.prems(1) this, of p] obtain r lh' where
    a: "lh_apply p lh = Some (r, lh')" "lh_inv lh'"
      "map_apply cmp p (lh_map lh, length (lh_data lh)) = (r, lh_map lh', length (lh_data lh'))" .
  have "length (lh_data lh') + length ops < 2 ^ 64"
    using map_apply_count [OF a(3)] Cons.prems(2) by simp
  from Cons.IH [OF a(2) this] show ?case by (auto simp: a)
qed simp


lemma insert_load:
  assumes inv: "lh_inv lh" and l: "lh_load_ok lh" and depth: "lh_callback_depth lh = 0"
    and size: "Suc (length (lh_data lh)) < 2 ^ 61" and alloc: "\<And>n. alloc n"
    and r: "lh_insert alloc d lh = Some (ok, old, lh')"
  shows "lh_load_ok lh'" and "lh_callback_depth lh' = 0"
proof -
  obtain h b k where s: "get_next_ptr_and_hash lh d = (h, b, k)" by (metis prod_cases3)
  have "lh_load_ok lh' \<and> lh_callback_depth lh' = 0"
  proof (cases "item_at lh b k")
    case (Some it)
    let ?lh = "lh\<lparr>lh_buckets := (lh_buckets lh)[b := (lh_buckets lh ! b)[k := it\<lparr>item_data := d\<rparr>]]\<rparr>"
    have "lh' = ?lh" using r s Some by (simp add: lh_insert_def)
    then show ?thesis using edit_replace(3) [OF inv s Some refl] l depth by (simp add: lh_load_ok_def)
  next
    case None
    let ?lh = "lh\<lparr>lh_buckets := (lh_buckets lh)[b := lh_buckets lh ! b @ [\<lparr>item_data = d, item_hash = h\<rparr>]],
      lh_items := lh_items lh + 1\<rparr>"
    have "length (lh_data lh) < 2 ^ 64 - 1" using size by simp
    note e = edit_append [OF inv s None refl this]
    have m: "lh_maybe_resize alloc ?lh = Some lh'"
      using r s None alloc by (auto simp: lh_insert_def)
    have ok: "lh_ok ?lh" using e(1) by (simp add: lh_inv_def)
    have "lh_load_ok lh'"
      by (rule resize_load [OF ok _ alloc _ _ _ m]) (use e(3) depth l size in \<open>auto simp: lh_load_ok_def\<close>)
    moreover from lh_maybe_resize_ok [OF ok, of alloc] have "same_contents ?lh lh'"
      using m by (metis option.inject)
    ultimately show ?thesis using depth by (simp add: same_contents_def same_keys_def)
  qed
  then show "lh_load_ok lh'" "lh_callback_depth lh' = 0" by simp_all
qed

lemma delete_load:
  assumes inv: "lh_inv lh" and l: "lh_load_ok lh" and depth: "lh_callback_depth lh = 0"
    and size: "length (lh_data lh) < 2 ^ 61" and alloc: "\<And>n. alloc n"
    and r: "lh_delete alloc d lh = Some (old, lh')"
  shows "lh_load_ok lh'" and "lh_callback_depth lh' = 0"
proof -
  obtain h b k where s: "get_next_ptr_and_hash lh d = (h, b, k)" by (metis prod_cases3)
  have "lh_load_ok lh' \<and> lh_callback_depth lh' = 0"
  proof (cases "item_at lh b k")
    case None
    then show ?thesis using r s l depth by (simp add: lh_delete_def)
  next
    case (Some it)
    let ?lh = "lh\<lparr>lh_buckets := (lh_buckets lh)[b := take k (lh_buckets lh ! b) @ drop (Suc k) (lh_buckets lh ! b)],
      lh_items := lh_items lh - 1\<rparr>"
    note e = edit_remove [OF inv s Some refl]
    have m: "lh_maybe_resize alloc ?lh = Some lh'"
      using r s Some by (auto simp: lh_delete_def Let_def)
    have ok: "lh_ok ?lh" using e(1) by (simp add: lh_inv_def)
    have "lh_load_ok lh'"
      by (rule resize_load [OF ok _ alloc _ _ _ m]) (use e(3) depth l size in \<open>auto simp: lh_load_ok_def\<close>)
    moreover from lh_maybe_resize_ok [OF ok, of alloc] have "same_contents ?lh lh'"
      using m by (metis option.inject)
    ultimately show ?thesis using depth by (simp add: same_contents_def same_keys_def)
  qed
  then show "lh_load_ok lh'" "lh_callback_depth lh' = 0" by simp_all
qed

lemma run_load:
  assumes "lh_inv lh" "lh_load_ok lh" "lh_callback_depth lh = 0" "length (lh_data lh) + length ops < 2 ^ 61"
    and "\<And>p n. p \<in> set ops \<Longrightarrow> fst p n" "lh_run ops lh = Some (rs, lh')"
  shows "lh_load_ok lh' \<and> lh_inv lh'"
  using assms
proof (induction ops arbitrary: lh rs)
  case (Cons p ops)
  obtain alloc op where p: "p = (alloc, op)" by (cases p)
  have alloc: "\<And>n. alloc n" using Cons.prems(5) [of p] p by simp
  have "length (lh_data lh) < 2 ^ 64 - 1" using Cons.prems(4) by simp
  from apply_refines [OF Cons.prems(1) this, of p] obtain r lh1 where
    a: "lh_apply p lh = Some (r, lh1)" "lh_inv lh1"
      "map_apply cmp p (lh_map lh, length (lh_data lh)) = (r, lh_map lh1, length (lh_data lh1))" .
  from Cons.prems(6) a(1) obtain rs' where rest: "lh_run ops lh1 = Some (rs', lh')"
    by (cases "lh_run ops lh1") auto
  have "lh_load_ok lh1 \<and> lh_callback_depth lh1 = 0"
    using a(1) Cons.prems(1-4) alloc insert_load [OF Cons.prems(1-3), where alloc = alloc] delete_load [OF Cons.prems(1-3), where alloc = alloc]
    by (cases op) (auto simp: p)
  moreover have "length (lh_data lh1) + length ops < 2 ^ 61"
    using map_apply_count [OF a(3)] Cons.prems(4) by simp
  ultimately show ?case using Cons.IH [OF a(2) _ _ _ _ rest] Cons.prems(5) by auto
qed simp

end

text \<open>The callback of \<open>lh_doall_arg\<close> sees every stored datum once, in the order of the chains.\<close>

lemma lh_doall_visits: "fold (\<lambda>chain s. fold (\<lambda>cur s. f (item_data cur) s) chain s) bs s = fold f (map item_data (concat bs)) s"
  by (induction bs arbitrary: s) (simp_all add: fold_map comp_def)

lemma lh_doall_arg:
  assumes "lh_ok lh" "lh_callback_depth lh = 0"
  obtains lh' where "lh_doall_arg alloc func arg lh = Some (fold func (lh_data lh) arg, lh')" "lh_ok lh'"
    "same_contents lh lh'"
proof -
  have "lh_doall_arg alloc func arg lh =
      map_option (\<lambda>lh'. (fold func (lh_data lh) arg, lh')) (lh_maybe_resize alloc lh)"
    using assms(2) by (cases lh) (simp add: lh_doall_arg_def Let_def lh_doall_visits lh_data_def UINT_MAX_def)
  then show ?thesis using lh_maybe_resize_ok [OF assms(1), of alloc] that by fastforce
qed

end
