(* ===== verification/Ordered.thy ===== *)
theory Ordered
  imports Cbb_Set_Of
begin

text \<open>
  Comparison functions, sorting with them and searching in sorted arrays: what \<open>qsort\<close>, \<open>bsearch\<close> and
  the binary search of a stack have in common.
\<close>

section \<open>Comparison functions\<close>

locale comparison =
  fixes cmp :: "'a \<Rightarrow> 'a \<Rightarrow> int"
  assumes cmp_swap: "cmp x y < 0 \<longleftrightarrow> cmp y x > 0"
    and cmp_trans: "cmp x y \<le> 0 \<Longrightarrow> cmp y z \<le> 0 \<Longrightarrow> cmp x z \<le> 0"
begin

lemma cmp_le: "cmp x y \<le> 0 \<longleftrightarrow> \<not> cmp y x < 0"
  using cmp_swap [of y x] by auto

lemma cmp_total: "cmp x y \<le> 0 \<or> cmp y x \<le> 0"
  using cmp_le [of x y] by auto

lemma insert_elem_set: "set (insert_elem cmp x ys) = insert x (set ys)"
  by (induction ys) auto

lemma insert_elem_sorted:
  "sorted_wrt (\<lambda>a b. cmp a b \<le> 0) ys \<Longrightarrow> sorted_wrt (\<lambda>a b. cmp a b \<le> 0) (insert_elem cmp x ys)"
proof (induction ys)
  case (Cons y ys)
  then show ?case using cmp_total [of x y] cmp_trans [of x y] by (auto simp: insert_elem_set)
qed simp

lemma qsort_sorted: "sorted_wrt (\<lambda>a b. cmp a b \<le> 0) (qsort cmp xs)"
  by (induction xs) (simp_all add: qsort_def insert_elem_sorted)

end

interpretation set_of_order: comparison compare_set_of_element
proof
  show "compare_set_of_element x y < 0 \<longleftrightarrow> compare_set_of_element y x > 0" for x y
    using compare_lex [of x y] compare_lex [of y x] by (metis linorder_less_linear not_less)
  show "compare_set_of_element x y \<le> 0 \<Longrightarrow> compare_set_of_element y z \<le> 0 \<Longrightarrow> compare_set_of_element x z \<le> 0" for x y z
    by (simp add: compare_lex)
qed

lemma length_qsort [simp]: "length (qsort cmp xs) = length xs"
proof -
  have "length (insert_elem cmp x ys) = Suc (length ys)" for x ys by (induction ys) auto
  then show ?thesis by (induction xs) (simp_all add: qsort_def)
qed

section \<open>Sorted arrays\<close>

text \<open>\<open>cmp\<close> compares a key with elements in ascending order: beyond an element above the key all are
  above it, and before one below the key all are below it.\<close>

definition ascending :: "('e \<Rightarrow> int) \<Rightarrow> 'e list \<Rightarrow> bool" where
  "ascending cmp xs \<longleftrightarrow> sorted_wrt (\<lambda>x y. (cmp x < 0 \<longrightarrow> cmp y < 0) \<and> (cmp y > 0 \<longrightarrow> cmp x > 0)) xs"

lemma ascending_nth:
  assumes "ascending cmp xs" "i \<le> j" "j < length xs"
  shows "cmp (xs ! i) < 0 \<Longrightarrow> cmp (xs ! j) < 0" and "cmp (xs ! j) > 0 \<Longrightarrow> cmp (xs ! i) > 0"
  using assms sorted_wrt_nth_less [of _ xs i j] by (cases "i = j"; fastforce simp: ascending_def)+

context comparison
begin

lemma sorted_ascending:
  assumes "sorted_wrt (\<lambda>a b. cmp a b \<le> 0) xs"
  shows "ascending (cmp p) xs"
  unfolding ascending_def
proof (rule sorted_wrt_mono_rel [OF _ assms])
  fix a b assume ab: "cmp a b \<le> 0"
  have "cmp p a > 0" if "cmp p b > 0"
    using cmp_trans [of p a b] ab that by (meson not_le)
  moreover have "cmp p b < 0" if "cmp p a < 0"
    using cmp_trans [of b p a] cmp_trans [of a b p] cmp_le [of a p] cmp_le [of b p] cmp_swap ab that by (meson not_le)
  ultimately show "(cmp p a < 0 \<longrightarrow> cmp p b < 0) \<and> (cmp p b > 0 \<longrightarrow> cmp p a > 0)" by blast
qed

end

end
