(* ===== verification/Obj_Spec.thy ===== *)
theory Obj_Spec
  imports Obj Lhash_Run Ordered "HOL-Library.List_Lexorder" "HOL-Library.Product_Lexorder"
begin

text \<open>
  The keys of the object registry and the searches of its built-in tables. The four hash tables are
  interpretations of \<open>lhash_keys\<close>; \<open>bsearch\<close> finds an element with the key if there is one,
  and under \<open>tables_ok\<close>, what the generator promises of its arrays, a search for a name or for the
  bytes of an identifier gives the nid of an object that has them, and fails only if there is none.
\<close>

section \<open>C strings\<close>

definition c_str :: "u8 list \<Rightarrow> u8 list" where
  "c_str s = take (strlen s) s"

lemma c_str_simps [simp]: "c_str [] = []" "c_str (c # s) = (if c = 0 then [] else c # c_str s)"
  by (simp_all add: c_str_def)

lemma strcmp_step:
  "strcmp [] [] = 0"
  "strcmp (c # s) [] = uint c"
  "strcmp [] (d # t) = - uint d"
  "strcmp (c # s) (d # t) = (if c \<noteq> d then uint c - uint d else if c = 0 then 0 else strcmp s t)"
  by (subst strcmp.simps, simp add: c_char_def)+

lemma strcmp_lex: "(strcmp a b < 0 \<longleftrightarrow> c_str a < c_str b) \<and> (strcmp a b = 0 \<longleftrightarrow> c_str a = c_str b)"
proof (induction a b rule: list_induct2')
  case (4 c s d t)
    have pos: "uint e \<noteq> 0 \<Longrightarrow> 0 < uint e" for e :: u8 by (simp add: order_less_le)
    show ?case using 4 pos by (auto simp: strcmp_step word_less_def word_uint_eq_iff)
qed (auto simp: strcmp_step word_uint_eq_iff order_less_le)

lemmas strcmp_less = strcmp_lex [THEN conjunct1] and strcmp_eq = strcmp_lex [THEN conjunct2]

lemma strcmp_greater: "strcmp a b > 0 \<longleftrightarrow> c_str b < c_str a"
proof -
  have "strcmp a b > 0 \<longleftrightarrow> \<not> strcmp a b < 0 \<and> strcmp a b \<noteq> 0" by auto
  also have "\<dots> \<longleftrightarrow> c_str b < c_str a" unfolding strcmp_less strcmp_eq by auto
  finally show ?thesis .
qed

text \<open>Optional strings are ordered with NULL first.\<close>

lemma strcmp_ptr_eq: "strcmp_ptr a b = 0 \<longleftrightarrow> map_option c_str a = map_option c_str b"
  by (cases a; cases b) (simp_all add: strcmp_ptr_def strcmp_eq)

lemma lh_strhash_c_str: "map_option c_str a = map_option c_str b \<Longrightarrow> lh_strhash a = lh_strhash b"
  by (cases a; cases b) (simp_all add: lh_strhash_def c_str_def)

section \<open>The four keys\<close>

definition data_key :: "ASN1_OBJECT \<Rightarrow> u32 \<times> u8 list" where
  "data_key obj = (obj_length obj, bytes_of (obj_data obj) (obj_length obj))"

lemma sint_eq_0: "sint (w :: u32) = 0 \<longleftrightarrow> w = 0"
  by (metis signed_0 signed_word_eqI)

lemma length_bytes_of [simp]: "length (bytes_of p n) = unat (int_size n)"
  by (simp add: bytes_of_def Let_def)

lemma memcmp_lex_eq: "length a = length b \<Longrightarrow> n = length b \<Longrightarrow>
    (memcmp a b n < 0 \<longleftrightarrow> a < b) \<and> (memcmp a b n = 0 \<longleftrightarrow> a = b)"
  using memcmp_lex [of a b] by (simp add: Let_def split: if_splits)

lemma OPENSSL_memcmp_lex:
  "OPENSSL_memcmp a b n < 0 \<longleftrightarrow> bytes_of a n < bytes_of b n"
  "OPENSSL_memcmp a b n = 0 \<longleftrightarrow> bytes_of a n = bytes_of b n"
  "OPENSSL_memcmp a b n > 0 \<longleftrightarrow> bytes_of b n < bytes_of a n"
proof -
  show l: "OPENSSL_memcmp a b n < 0 \<longleftrightarrow> bytes_of a n < bytes_of b n"
    and e: "OPENSSL_memcmp a b n = 0 \<longleftrightarrow> bytes_of a n = bytes_of b n"
    by (simp_all add: OPENSSL_memcmp_def memcmp_lex_eq)
  show "OPENSSL_memcmp a b n > 0 \<longleftrightarrow> bytes_of b n < bytes_of a n"
    using l e by (metis linorder_less_linear order_less_asym)
qed

lemma cmp_data_eq: "cmp_data a b = 0 \<longleftrightarrow> data_key a = data_key b"
  by (auto simp: cmp_data_def Let_def data_key_def sint_eq_0 OPENSSL_memcmp_lex)

lemma OBJ_cmp_eq: "OBJ_cmp a b = 0 \<longleftrightarrow> data_key a = data_key b"
  by (auto simp: OBJ_cmp_def Let_def data_key_def sint_eq_0 OPENSSL_memcmp_lex)

interpretation by_nid: lhash_keys cmp_nid hash_nid
proof
  show "cmp_nid x x = 0" for x by (simp add: cmp_nid_def)
  have eq: "cmp_nid x y = 0 \<longleftrightarrow> obj_nid x = obj_nid y" for x y by (simp add: cmp_nid_def sint_eq_0)
  then show "cmp_nid x y = 0 \<Longrightarrow> cmp_nid y x = 0" "cmp_nid x y = 0 \<Longrightarrow> cmp_nid y z = 0 \<Longrightarrow> cmp_nid x z = 0"
    "cmp_nid x y = 0 \<Longrightarrow> hash_nid x = hash_nid y" for x y z by (simp_all add: hash_nid_def)
qed

interpretation by_data: lhash_keys cmp_data hash_data
  by unfold_locales (auto simp: cmp_data_eq hash_data_def data_key_def)

interpretation by_short_name: lhash_keys cmp_short_name hash_short_name
  by unfold_locales (auto simp: cmp_short_name_def hash_short_name_def strcmp_ptr_eq intro: lh_strhash_c_str)

interpretation by_long_name: lhash_keys cmp_long_name hash_long_name
  by unfold_locales (auto simp: cmp_long_name_def hash_long_name_def strcmp_ptr_eq intro: lh_strhash_c_str)


section \<open>Binary search\<close>

lemma bsearch_range_sound: "bsearch_range cmp xs lo hi = Some x \<Longrightarrow> hi \<le> length xs \<Longrightarrow> x \<in> set xs \<and> cmp x = 0"
proof (induction cmp xs lo hi rule: bsearch_range.induct)
  case (1 cmp xs lo hi)
  from 1(3) show ?case
    by (subst (asm) bsearch_range.simps)
      (use 1(1,2,4) in \<open>auto simp: Let_def split: if_splits\<close>)
qed

lemma bsearch_range_complete:
  assumes "ascending cmp xs" "hi \<le> length xs" "bsearch_range cmp xs lo hi = None" "lo \<le> i" "i < hi"
  shows "cmp (xs ! i) \<noteq> 0"
  using assms
proof (induction cmp xs lo hi rule: bsearch_range.induct)
  case (1 cmp xs lo hi)
  define mid where "mid = (lo + hi) div 2"
  have mid: "mid < hi" "lo \<le> mid" using 1(6,7) by (auto simp: mid_def)
  have lt: "lo < hi" using 1(6,7) by simp
  from 1(5) lt have r: "cmp (xs ! mid) \<noteq> 0"
      "cmp (xs ! mid) < 0 \<Longrightarrow> bsearch_range cmp xs lo mid = None"
      "cmp (xs ! mid) > 0 \<Longrightarrow> bsearch_range cmp xs (mid + 1) hi = None"
    by (subst (asm) bsearch_range.simps, simp add: Let_def mid_def [symmetric] split: if_splits)+
  show ?case
  proof (cases "i = mid")
    case False
    show ?thesis
    proof (cases "cmp (xs ! mid) < 0")
      case True
      show ?thesis
      proof (cases "i < mid")
        case True
        then show ?thesis using 1(1) [OF lt mid_def refl] \<open>cmp (xs ! mid) < 0\<close> r(2) 1(3,4,6) mid by simp
      next
        case False
        then show ?thesis using ascending_nth(1) [OF 1(3), of mid i] \<open>cmp (xs ! mid) < 0\<close> 1(4,7) by auto
      qed
    next
      case F: False
      then have gt: "cmp (xs ! mid) > 0" using r(1) by simp
      show ?thesis
      proof (cases "mid < i")
        case True
        then show ?thesis using 1(2) [OF lt mid_def refl] gt F r(3) 1(3,4,7) by simp
      next
        case False
        then show ?thesis using ascending_nth(2) [OF 1(3), of i mid] gt 1(4) mid by auto
      qed
    qed
  qed (use r in simp)
qed

lemma bsearch_correct:
  assumes "ascending cmp xs"
  shows "case bsearch cmp xs of Some x \<Rightarrow> x \<in> set xs \<and> cmp x = 0 | None \<Rightarrow> \<forall>x \<in> set xs. cmp x \<noteq> 0"
proof (cases "bsearch cmp xs")
  case None
  then show ?thesis
    using bsearch_range_complete [OF assms le_refl, of 0] by (auto simp: bsearch_def in_set_conv_nth)
next
  case (Some x)
  then show ?thesis using bsearch_range_sound [of cmp xs 0 "length xs" x] by (simp add: bsearch_def)
qed


section \<open>The built-in tables\<close>

text \<open>What \<open>objects.go\<close> promises of one of its arrays: it has the nids of the objects that have the
  key, in ascending order. Two objects may share a key, as 1.3 (ORG and IDENTIFIED-ORGANIZATION) does.\<close>

abbreviation has_data :: "ASN1_OBJECT \<Rightarrow> bool" where
  "has_data obj \<equiv> obj_length obj \<noteq> 0 \<and> obj_data obj \<noteq> None"

definition order_ok :: "(ASN1_OBJECT \<Rightarrow> bool) \<Rightarrow> (ASN1_OBJECT \<Rightarrow> ASN1_OBJECT \<Rightarrow> bool) \<Rightarrow> ASN1_OBJECT list \<Rightarrow> u16 list \<Rightarrow> bool" where
  "order_ok keyed lt objs order \<longleftrightarrow>
     (\<forall>n \<in> set order. unat n < length objs \<and> keyed (objs ! unat n)) \<and>
     (\<forall>i < length objs. keyed (objs ! i) \<longrightarrow> i \<in> unat ` set order) \<and>
     sorted_wrt (\<lambda>m n. \<not> lt (objs ! unat n) (objs ! unat m)) order"

definition name_less :: "(ASN1_OBJECT \<Rightarrow> u8 list option) \<Rightarrow> ASN1_OBJECT \<Rightarrow> ASN1_OBJECT \<Rightarrow> bool" where
  "name_less name a b \<longleftrightarrow> strcmp_ptr (name a) (name b) < 0"

definition data_less :: "ASN1_OBJECT \<Rightarrow> ASN1_OBJECT \<Rightarrow> bool" where
  "data_less a b \<longleftrightarrow> sint (obj_length a) < sint (obj_length b) \<or>
     obj_length a = obj_length b \<and> OPENSSL_memcmp (obj_data a) (obj_data b) (obj_length a) < 0"

definition tables_ok :: "obj_tables \<Rightarrow> bool" where
  "tables_ok T \<longleftrightarrow> length (kObjects T) = unat NUM_NID \<and>
     (\<forall>i < length (kObjects T). obj_nid (kObjects T ! i) \<in> {NID_undef, word_of_nat i}) \<and>
     order_ok (\<lambda>x. obj_sn x \<noteq> None) (name_less obj_sn) (kObjects T) (kNIDsInShortNameOrder T) \<and>
     order_ok (\<lambda>x. obj_ln x \<noteq> None) (name_less obj_ln) (kObjects T) (kNIDsInLongNameOrder T) \<and>
     order_ok has_data data_less (kObjects T) (kNIDsInOIDOrder T)"

text \<open>The result of a search among the built-in objects: the nid of one that fits, or \<open>NID_undef\<close>.\<close>

definition built_in :: "(ASN1_OBJECT \<Rightarrow> bool) \<Rightarrow> obj_tables \<Rightarrow> u32 \<Rightarrow> bool" where
  "built_in P T nid \<longleftrightarrow>
     (if \<exists>x \<in> set (kObjects T). P x then \<exists>x \<in> set (kObjects T). P x \<and> nid = obj_nid x else nid = NID_undef)"

lemma table_search:
  assumes ok: "order_ok keyed lt (kObjects T) order"
    and asc: "ascending cmp order"
    and P: "\<And>n. n \<in> set order \<Longrightarrow> cmp n = 0 \<longleftrightarrow> P (kObjects T ! unat n)"
    and keyed: "\<And>x. P x \<Longrightarrow> keyed x"
  shows "built_in P T (table_nid T (bsearch cmp order))"
proof (cases "bsearch cmp order")
  case (Some n)
  then have n: "n \<in> set order" "cmp n = 0" using bsearch_correct [OF asc] by simp_all
  then have "P (kObjects T ! unat n)" "kObjects T ! unat n \<in> set (kObjects T)"
    using P ok by (auto simp: order_ok_def)
  then show ?thesis using Some by (auto simp: built_in_def table_nid_def)
next
  case None
  then have none: "\<forall>n \<in> set order. cmp n \<noteq> 0" using bsearch_correct [OF asc] by simp
  have "\<not> P x" if "x \<in> set (kObjects T)" for x
  proof
    assume "P x"
    from that obtain i where i: "i < length (kObjects T)" "x = kObjects T ! i" by (auto simp: in_set_conv_nth)
    with \<open>P x\<close> keyed ok obtain n where "n \<in> set order" "unat n = i" by (auto simp: order_ok_def)
    then show False using none P [of n] \<open>P x\<close> i by auto
  qed
  then show ?thesis using None by (auto simp: built_in_def table_nid_def)
qed

text \<open>The three comparisons are ascending in the order of their arrays.\<close>

definition named :: "(ASN1_OBJECT \<Rightarrow> u8 list option) \<Rightarrow> u8 list \<Rightarrow> ASN1_OBJECT \<Rightarrow> bool" where
  "named name s x \<longleftrightarrow> map_option c_str (name x) = Some (c_str s)"

lemma name_search:
  assumes ok: "order_ok (\<lambda>x. name x \<noteq> None) (name_less name) (kObjects T) order"
    and cmp: "\<And>n. cmp n = strcmp_ptr (Some s) (name (kObjects T ! unat n))"
  shows "built_in (named name s) T (table_nid T (bsearch cmp order))"
proof (rule table_search [OF ok])
  have "cmp n = strcmp s t" if "name (kObjects T ! unat n) = Some t" for n t
    using that by (simp add: cmp strcmp_ptr_def)
  moreover have "sorted_wrt (\<lambda>m n. \<exists>s t. name (kObjects T ! unat m) = Some s \<and> name (kObjects T ! unat n) = Some t \<and>
      c_str s \<le> c_str t) order"
  proof (rule sorted_wrt_mono_rel)
    show "sorted_wrt (\<lambda>m n. \<not> name_less name (kObjects T ! unat n) (kObjects T ! unat m)) order"
      using ok by (simp add: order_ok_def)
    fix m n assume "m \<in> set order" "n \<in> set order"
      and le: "\<not> name_less name (kObjects T ! unat n) (kObjects T ! unat m)"
    then have "name (kObjects T ! unat m) \<noteq> None" "name (kObjects T ! unat n) \<noteq> None"
      using ok by (simp_all add: order_ok_def)
    then obtain s t where "name (kObjects T ! unat m) = Some s" "name (kObjects T ! unat n) = Some t"
      by blast
    with le show "\<exists>s t. name (kObjects T ! unat m) = Some s \<and> name (kObjects T ! unat n) = Some t \<and> c_str s \<le> c_str t"
      by (simp add: name_less_def strcmp_ptr_def strcmp_less)
  qed
  ultimately show "ascending cmp order"
    unfolding ascending_def
    by (elim sorted_wrt_mono_rel [rotated]) (auto simp: strcmp_less strcmp_greater)
  show "cmp n = 0 \<longleftrightarrow> named name s (kObjects T ! unat n)" for n
    unfolding cmp strcmp_ptr_eq named_def by (metis option.map(2))
qed (auto simp: named_def)

text \<open>Identifiers are ordered by their length, then by their bytes.\<close>

definition data_rank :: "ASN1_OBJECT \<Rightarrow> int \<times> u8 list" where
  "data_rank obj = (sint (obj_length obj), bytes_of (obj_data obj) (obj_length obj))"

lemma sint_eq: "sint (a :: u32) = sint b \<longleftrightarrow> a = b"
  by (metis signed_word_eqI)

lemma data_rank_eq: "data_rank a = data_rank b \<longleftrightarrow> data_key a = data_key b"
  by (auto simp: data_rank_def data_key_def sint_eq)

lemma data_less_rank: "data_less a b \<longleftrightarrow> data_rank a < data_rank b"
  by (auto simp: data_less_def data_rank_def sint_eq OPENSSL_memcmp_lex less_prod_def)

lemma obj_cmp_rank:
  "obj_cmp T obj n < 0 \<longleftrightarrow> data_rank obj < data_rank (kObjects T ! unat n)"
  "obj_cmp T obj n > 0 \<longleftrightarrow> data_rank obj > data_rank (kObjects T ! unat n)"
proof -
  let ?b = "kObjects T ! unat n"
  consider "sint (obj_length obj) < sint (obj_length ?b)" | "sint (obj_length ?b) < sint (obj_length obj)"
    | "obj_length obj = obj_length ?b" using sint_eq by (metis linorder_less_linear)
  then have "(obj_cmp T obj n < 0 \<longleftrightarrow> data_rank obj < data_rank ?b) \<and>
    (obj_cmp T obj n > 0 \<longleftrightarrow> data_rank obj > data_rank ?b)"
    by cases (simp_all add: obj_cmp_def Let_def data_rank_def OPENSSL_memcmp_lex less_prod_def)
  then show "obj_cmp T obj n < 0 \<longleftrightarrow> data_rank obj < data_rank ?b"
    "obj_cmp T obj n > 0 \<longleftrightarrow> data_rank obj > data_rank ?b" by simp_all
qed

lemma data_search:
  assumes ok: "order_ok has_data data_less (kObjects T) (kNIDsInOIDOrder T)"
  shows "built_in (\<lambda>x. has_data x \<and> data_key x = data_key obj) T
    (table_nid T (bsearch (obj_cmp T obj) (kNIDsInOIDOrder T)))"
proof (rule table_search [OF ok])
  have "sorted_wrt (\<lambda>m n. data_rank (kObjects T ! unat m) \<le> data_rank (kObjects T ! unat n)) (kNIDsInOIDOrder T)"
    using ok by (simp add: order_ok_def data_less_rank not_less)
  then show "ascending (obj_cmp T obj) (kNIDsInOIDOrder T)"
    unfolding ascending_def obj_cmp_rank by (elim sorted_wrt_mono_rel [rotated]) auto
  have "obj_cmp T obj n = 0 \<longleftrightarrow> data_rank (kObjects T ! unat n) = data_rank obj" for n
    using obj_cmp_rank [of T obj n] by (metis linorder_less_linear order_less_irrefl)
  then show "obj_cmp T obj n = 0 \<longleftrightarrow> has_data (kObjects T ! unat n) \<and> data_key (kObjects T ! unat n) = data_key obj"
    if "n \<in> set (kNIDsInOIDOrder T)" for n
    using ok that by (simp add: data_rank_eq order_ok_def)
qed simp

end
