(* ===== verification/Obj_Registry.thy ===== *)
theory Obj_Registry
  imports Obj_Spec
begin

text \<open>
  The registry as the list of the objects added to it. Starting empty, every call of
  \<open>OBJ_create\<close> with the text of an identifier adds an object under the next nid, and
  every other text is refused without a trace; the lookups search the added objects, the latest
  first, and then the built-in ones. Then the conversions: text to object and back, and
  a nid to its DER element.
\<close>

section \<open>The tables of added objects\<close>

text \<open>A table over the added objects, the latest first: it knows those that \<open>keep\<close> puts into it, by
  their key, the latest of equal ones.\<close>

definition table_rel ::
  "('a \<Rightarrow> 'a \<Rightarrow> int) \<Rightarrow> ('a \<Rightarrow> u32) \<Rightarrow> ('a \<Rightarrow> bool) \<Rightarrow> 'a list \<Rightarrow> 'a lhash_st \<Rightarrow> bool" where
  "table_rel cmp hash keep objs lh \<longleftrightarrow> lh_ok lh \<and> lh_comp lh = cmp \<and> lh_hash lh = hash \<and>
     lh_map lh = (\<lambda>x. find (\<lambda>y. keep y \<and> cmp y x = 0) objs) \<and> length (lh_data lh) \<le> length objs"

context lhash_keys
begin

lemma table_inv: "table_rel cmp hash keep objs lh \<Longrightarrow> lh_inv lh"
  by (simp add: table_rel_def lh_inv_def)

lemma table_new: "lh_new al hash cmp = Some lh \<Longrightarrow> table_rel cmp hash keep [] lh"
  using lh_new [of al lh] by (simp add: table_rel_def lh_inv_def)

lemma table_insert:
  assumes t: "table_rel cmp hash keep objs lh" and "keep d" "\<And>n. al n" "length objs < 2 ^ 63"
  obtains lh' old where "lh_insert al d lh = Some (True, old, lh')" "table_rel cmp hash keep (d # objs) lh'"
proof -
  have "length (lh_data lh) < 2 ^ 64 - 1" using assms(4) t by (simp add: table_rel_def)
  from lh_insert [OF table_inv [OF t] this, of al d] obtain lh' where
    l: "lh_inv lh'" "lh_insert al d lh = Some (lh_map lh d \<noteq> None \<or> al 24, lh_map lh d, lh')"
    "lh_map lh' = (if lh_map lh d \<noteq> None \<or> al 24 then map_put cmp d (lh_map lh) else lh_map lh)"
    "length (lh_data lh') = (if lh_map lh d = None \<and> al 24 then Suc (length (lh_data lh))
        else length (lh_data lh))" .
  have "table_rel cmp hash keep (d # objs) lh'"
    using l(1,3,4) assms(2,3) t by (auto simp: table_rel_def lh_inv_def map_put_def fun_eq_iff)
  then show ?thesis using that [of "lh_map lh d" lh'] l(2) assms(3) by simp
qed

lemma table_skip: "table_rel cmp hash keep objs lh \<Longrightarrow> \<not> keep d \<Longrightarrow> table_rel cmp hash keep (d # objs) lh"
  by (simp add: table_rel_def)

lemma table_add:
  assumes "table_rel cmp hash keep objs lh" "\<And>n. alloc env n" "length objs < 2 ^ 63"
  obtains lh' where "(if keep d then lh_insert_ptr env d (Some lh) else Some (True, Some lh)) = Some (True, Some lh')"
    "table_rel cmp hash keep (d # objs) lh'"
proof (cases "keep d")
  case True
  from table_insert [OF assms(1) True assms(2,3)] obtain lh' old where
    "lh_insert (alloc env) d lh = Some (True, old, lh')" "table_rel cmp hash keep (d # objs) lh'" .
  then show ?thesis using that True by (simp add: lh_insert_ptr_def)
next
  case False
  show ?thesis by (rule that [of lh]) (use False table_skip [OF assms(1) False] in auto)
qed

lemma table_lookup:
  "table_rel cmp hash keep objs lh \<Longrightarrow> lh_retrieve lh x = find (\<lambda>y. keep y \<and> cmp y x = 0) objs"
  using lh_retrieve [OF table_inv, of keep objs lh x] by (simp add: table_rel_def)

end

definition tables_rel :: "obj_state \<Rightarrow> ASN1_OBJECT list \<Rightarrow> bool" where
  "tables_rel os objs \<longleftrightarrow> (\<exists>n d s l.
     global_added_by_nid os = Some n \<and> table_rel cmp_nid hash_nid (\<lambda>_. True) objs n \<and>
     global_added_by_data os = Some d \<and> table_rel cmp_data hash_data has_data objs d \<and>
     global_added_by_short_name os = Some s \<and>
     table_rel cmp_short_name hash_short_name (\<lambda>x. obj_sn x \<noteq> None) objs s \<and>
     global_added_by_long_name os = Some l \<and>
     table_rel cmp_long_name hash_long_name (\<lambda>x. obj_ln x \<noteq> None) objs l)"

definition registry :: "obj_state \<Rightarrow> ASN1_OBJECT list \<Rightarrow> bool" where
  "registry os objs \<longleftrightarrow> (if objs = [] then global_added_by_nid os = None \<and> global_added_by_data os = None \<and>
     global_added_by_short_name os = None \<and> global_added_by_long_name os = None else tables_rel os objs)"

lemma registry_start: "registry obj_start []"
  by (simp add: registry_def obj_start_def)

lemma add_to_registry:
  assumes "registry os objs" "\<And>n. alloc env n" "length objs < 2 ^ 63"
    and obj': "obj' = obj\<lparr>obj_flags := obj_flags obj AND NOT (ASN1_OBJECT_FLAG_DYNAMIC OR
            ASN1_OBJECT_FLAG_DYNAMIC_STRINGS OR ASN1_OBJECT_FLAG_DYNAMIC_DATA)\<rparr>"
  obtains os' where "obj_add_object env obj os = Some (True, os')" "registry os' (obj' # objs)"
    "global_next_nid os' = global_next_nid os"
proof -
  define os1 where "os1 = (if global_added_by_nid os = None then
                  os\<lparr>global_added_by_nid := lh_new (alloc env) hash_nid cmp_nid,
                     global_added_by_data := lh_new (alloc env) hash_data cmp_data,
                     global_added_by_short_name := lh_new (alloc env) hash_short_name cmp_short_name,
                     global_added_by_long_name := lh_new (alloc env) hash_long_name cmp_long_name\<rparr>
                else os)"
  have new: "\<exists>lh. lh_new (alloc env) h c = Some lh" for h and c :: "ASN1_OBJECT \<Rightarrow> ASN1_OBJECT \<Rightarrow> int"
    using assms(2) by (simp add: lh_new_def)
  have "tables_rel os1 objs"
  proof (cases "objs = []")
    case True
    then have "global_added_by_nid os = None" using assms(1) by (simp add: registry_def)
    moreover obtain n d s l where "lh_new (alloc env) hash_nid cmp_nid = Some n"
      "lh_new (alloc env) hash_data cmp_data = Some d"
      "lh_new (alloc env) hash_short_name cmp_short_name = Some s"
      "lh_new (alloc env) hash_long_name cmp_long_name = Some l"
      using new by metis
    ultimately show ?thesis using True
      by (auto simp: tables_rel_def os1_def by_nid.table_new by_data.table_new by_short_name.table_new
        by_long_name.table_new)
  next
    case False
    then have "tables_rel os objs" using assms(1) by (simp add: registry_def)
    then show ?thesis by (auto simp: tables_rel_def os1_def)
  qed
  then obtain n d s l where t: "global_added_by_nid os1 = Some n" "global_added_by_data os1 = Some d"
      "global_added_by_short_name os1 = Some s" "global_added_by_long_name os1 = Some l"
    and r: "table_rel cmp_nid hash_nid (\<lambda>_. True) objs n" "table_rel cmp_data hash_data has_data objs d"
      "table_rel cmp_short_name hash_short_name (\<lambda>x. obj_sn x \<noteq> None) objs s"
      "table_rel cmp_long_name hash_long_name (\<lambda>x. obj_ln x \<noteq> None) objs l"
    unfolding tables_rel_def by blast
  from by_nid.table_add [OF r(1) assms(2,3), of obj'] obtain n' where
    n': "(if True then lh_insert_ptr env obj' (Some n) else Some (True, Some n)) = Some (True, Some n')"
      "table_rel cmp_nid hash_nid (\<lambda>_. True) (obj' # objs) n'" .
  from by_data.table_add [OF r(2) assms(2,3), of obj'] obtain d' where
    d': "(if has_data obj' then lh_insert_ptr env obj' (Some d) else Some (True, Some d)) = Some (True, Some d')"
      "table_rel cmp_data hash_data has_data (obj' # objs) d'" .
  from by_short_name.table_add [OF r(3) assms(2,3), of obj'] obtain s' where
    s': "(if obj_sn obj' \<noteq> None then lh_insert_ptr env obj' (Some s) else Some (True, Some s)) = Some (True, Some s')"
      "table_rel cmp_short_name hash_short_name (\<lambda>x. obj_sn x \<noteq> None) (obj' # objs) s'" .
  from by_long_name.table_add [OF r(4) assms(2,3), of obj'] obtain l' where
    l': "(if obj_ln obj' \<noteq> None then lh_insert_ptr env obj' (Some l) else Some (True, Some l)) = Some (True, Some l')"
      "table_rel cmp_long_name hash_long_name (\<lambda>x. obj_ln x \<noteq> None) (obj' # objs) l'" .
  define os' where "os' = os1\<lparr>global_added_by_nid := Some n', global_added_by_data := Some d',
          global_added_by_short_name := Some s', global_added_by_long_name := Some l'\<rparr>"
  show ?thesis
  proof (rule that [of os'])
    show "obj_add_object env obj os = Some (True, os')"
      using n'(1) unfolding obj_add_object_def Let_def obj' [symmetric] os1_def [symmetric] t d'(1) s'(1) l'(1)
      by (simp add: os'_def d'(1) s'(1) l'(1))
    show "registry os' (obj' # objs)"
      using n'(2) d'(2) s'(2) l'(2) by (simp add: registry_def tables_rel_def os'_def)
    show "global_next_nid os' = global_next_nid os" by (simp add: os'_def os1_def)
  qed
qed


section \<open>The length of an identifier\<close>

lemma decimal_bound: "n < 10 ^ length (decimal n)"
proof (induction n rule: decimal.induct)
  case (1 n)
  show ?case
  proof (cases "n < 10")
    case False
    then have "n div 10 < 10 ^ length (decimal (n div 10))" using 1 by simp
    then have "n < 10 * 10 ^ length (decimal (n div 10))" by linarith
    then show ?thesis using False decimal_step [of n] by simp
  qed (simp add: decimal_digit)
qed

lemma length_base128: "n < 128 * 128 ^ k \<Longrightarrow> length (base128 n) \<le> Suc k"
  using length_base128_hi [of "n div 128" k] by (simp add: base128_def less_mult_imp_div_less mult.commute)

lemma length_base128_decimal:
  assumes "n \<le> 80 + m"
  shows "length (base128 n) \<le> length (decimal m)"
proof -
  obtain k where k: "length (decimal m) = Suc k" by (cases "length (decimal m)") auto
  have "m < 10 * 10 ^ k" using decimal_bound [of m] k by simp
  moreover have "(10 :: nat) ^ k \<le> 128 ^ k" by (rule power_mono) simp_all
  moreover have "(1 :: nat) \<le> 128 ^ k" by simp
  ultimately have "n < 128 * 128 ^ k" using assms by linarith
  then show ?thesis using length_base128 k by simp
qed

lemma oid_text_length: "as \<noteq> [] \<Longrightarrow> length (oid_text as) = (\<Sum>a\<leftarrow>as. length (decimal a)) + length as - 1"
proof (induction as)
  case (Cons a as)
  then show ?case by (cases as) auto
qed simp

lemma length_oid_der:
  assumes "valid_oid arcs"
  shows "length (oid_der arcs) \<le> length (oid_text arcs)" and "oid_der arcs \<noteq> []"
proof -
  obtain a b cs where arcs: "arcs = a # b # cs" using assms by (cases arcs rule: valid_oid.cases) auto
  have "40 * a + b \<le> 80 + b" using assms by (simp add: arcs)
  then have "length (base128 (40 * a + b)) \<le> length (decimal b)" by (rule length_base128_decimal)
  moreover have "length (concat (map base128 cs)) \<le> (\<Sum>a\<leftarrow>cs. length (decimal a))"
    using length_base128_decimal [of c c for c] by (induction cs) (auto intro: add_mono)
  ultimately show "length (oid_der arcs) \<le> length (oid_text arcs)"
    using oid_text_length [of arcs] by (simp add: arcs)
  show "oid_der arcs \<noteq> []" by (simp add: arcs base128_def)
qed

section \<open>Creating objects\<close>

lemma c_str_no_zero: "0 \<notin> set s \<Longrightarrow> c_str s = s"
  by (simp add: c_str_def strlen_no_zero(2))

lemma c_str_copy [simp]: "c_str (c_str s @ [0]) = c_str s"
  by (induction s) auto

lemma sint_of_nat: "n < 2 ^ 31 \<Longrightarrow> sint (word_of_nat n :: u32) = int n"
  by (simp add: signed_of_nat signed_take_bit_int_eq_self)

lemma int_size_of_nat: "n < 2 ^ 31 \<Longrightarrow> unat (int_size (word_of_nat n)) = n"
  by (simp add: int_size_def scast_eq sint_of_nat unat_of_nat take_bit_nat_eq_self)

text \<open>A new object has a copy of its names and of the bytes of its identifier.\<close>

definition new_object :: "u32 \<Rightarrow> u8 list \<Rightarrow> u8 list option \<Rightarrow> u8 list option \<Rightarrow> ASN1_OBJECT" where
  "new_object nid der sn ln = \<lparr>obj_sn = map_option (\<lambda>s. c_str s @ [0]) sn,
     obj_ln = map_option (\<lambda>s. c_str s @ [0]) ln, obj_nid = nid, obj_length = word_of_nat (length der),
     obj_data = Some der, obj_flags = 13\<rparr>"

lemma dup_string_ok: "(\<And>n. alloc env n) \<Longrightarrow> dup_string env s = Some (map_option (\<lambda>s. c_str s @ [0]) s)"
  by (cases s) (simp_all add: dup_string_def OPENSSL_strdup_def c_str_def)

lemma bytes_of_prefix:
  "take (length der) buf = der \<Longrightarrow> length der < 2 ^ 31 \<Longrightarrow> bytes_of (Some buf) (word_of_nat (length der)) = der"
  using length_take [of "length der" buf] by (simp add: bytes_of_def int_size_of_nat)

lemma ASN1_OBJECT_create_ok:
  assumes "\<And>n. alloc env n" "take (length der) buf = der" "length der < 2 ^ 31"
  shows "ASN1_OBJECT_create env nid (Some buf) (word_of_nat (length der)) sn ln = Some (new_object nid der sn ln)"
  using assms(1)
  by (simp add: ASN1_OBJECT_create_def OBJ_dup_def ASN1_OBJECT_new_def ASN1_OBJECT_FLAG_DYNAMIC_def
      ASN1_OBJECT_FLAG_DYNAMIC_STRINGS_def ASN1_OBJECT_FLAG_DYNAMIC_DATA_def dup_string_ok
      bytes_of_prefix [OF assms(2,3)] new_object_def)

text \<open>The outcome of \<open>create_object_with_text_oid\<close>: an object for the text of an identifier, else NULL
  and no nid taken.\<close>

lemma create_object_ok:
  assumes "\<And>n. alloc env n" "valid_oid arcs" "c_str oid = oid_text arcs" "length (oid_text arcs) < 2 ^ 31"
  shows "create_object_with_text_oid env get_nid oid sn ln os =
    (let (nid, os) = (case get_nid of Some get_nid \<Rightarrow> get_nid os | None \<Rightarrow> (NID_undef, os))
     in Some (Some (new_object nid (oid_der arcs) sn ln), os))"
proof -
  let ?der = "oid_der arcs"
  have len: "length ?der < 2 ^ 31" using length_oid_der(1) [OF assms(2)] assms(4) by simp
  then have "length ?der < 2 ^ 64" by simp
  from emits_built [OF cbb_emits_oid [OF assms(2)] _ this, of env 32 0]
  have "built env 32 0 (CBB_add_asn1_oid_from_text env 0 (oid_text arcs)) ?der" using assms(1) by simp
  then obtain st st1 st2 buf l where b: "CBB_init env 0 32 local_cbb = (True, st)"
    "CBB_add_asn1_oid_from_text env 0 (oid_text arcs) st = Some (True, st1)"
    "CBB_finish env 0 True st1 = Some (Some (buf, l), st2)" "take (unat l) buf = ?der" "unat l = length ?der"
    unfolding built_def by blast
  have l: "ucast l = (word_of_nat (length ?der) :: u32)"
    by (metis b(5) of_nat_unat ucast_eq uint_word_of_int_eq unsigned_ucast_eq word_of_nat_eq_0_iff)
  show ?thesis
    using b assms(3) ASN1_OBJECT_create_ok [OF assms(1) _ len, of buf]
    by (simp add: create_object_with_text_oid_def c_str_def and_then_opt_def l split: option.splits prod.splits)
qed

lemma create_object_bad:
  assumes "create_object_with_text_oid env get_nid oid sn ln os = Some (op, os')"
    and "\<nexists>arcs. valid_oid arcs \<and> c_str oid = oid_text arcs"
  shows "op = None \<and> os' = os"
proof -
  have "CBB_add_asn1_oid_from_text env 0 (take (strlen oid) oid) st \<noteq> Some (True, st')" for st st'
    using oid_from_text_sound [of env 0 "c_str oid" st st'] assms(2) by (auto simp: c_str_def)
  then have "and_then_opt (Some (CBB_init env 0 32 local_cbb))
      (CBB_add_asn1_oid_from_text env 0 (take (strlen oid) oid)) \<noteq> Some (True, st')" for st'
    by (auto simp: and_then_opt_True)
  then show ?thesis
    using assms(1) by (auto simp: create_object_with_text_oid_def bind_eq_Some_conv split: if_splits)
qed

text \<open>What \<open>OBJ_create\<close> adds: the object without its flags.\<close>

definition added_object :: "u32 \<Rightarrow> u8 list \<Rightarrow> u8 list option \<Rightarrow> u8 list option \<Rightarrow> ASN1_OBJECT" where
  "added_object nid der sn ln = (new_object nid der sn ln)\<lparr>obj_flags := 0\<rparr>"

lemma OBJ_create_ok:
  assumes "registry os objs" "\<And>n. alloc env n" "length objs < 2 ^ 63"
    and "valid_oid arcs" "c_str oid = oid_text arcs" "length (oid_text arcs) < 2 ^ 31"
  obtains os' where "OBJ_create env oid sn ln os = Some (global_next_nid os, os')"
    "registry os' (added_object (global_next_nid os) (oid_der arcs) sn ln # objs)"
    "global_next_nid os' = global_next_nid os + 1"
proof -
  let ?os = "os\<lparr>global_next_nid := global_next_nid os + 1\<rparr>"
  let ?op = "new_object (global_next_nid os) (oid_der arcs) sn ln"
  have r: "registry ?os objs" using assms(1) by (auto simp: registry_def tables_rel_def)
  have add: "added_object (global_next_nid os) (oid_der arcs) sn ln =
      ?op\<lparr>obj_flags := obj_flags ?op AND NOT (ASN1_OBJECT_FLAG_DYNAMIC OR
            ASN1_OBJECT_FLAG_DYNAMIC_STRINGS OR ASN1_OBJECT_FLAG_DYNAMIC_DATA)\<rparr>"
    by (simp add: added_object_def new_object_def ASN1_OBJECT_FLAG_DYNAMIC_def
      ASN1_OBJECT_FLAG_DYNAMIC_STRINGS_def ASN1_OBJECT_FLAG_DYNAMIC_DATA_def)
  from add_to_registry [OF r assms(2,3) add] obtain os' where
    os': "obj_add_object env ?op ?os = Some (True, os')"
    "registry os' (added_object (global_next_nid os) (oid_der arcs) sn ln # objs)"
    "global_next_nid os' = global_next_nid ?os" .
  show ?thesis
    by (rule that [of os'])
      (use os' create_object_ok [OF assms(2,4-6), of "Some obj_next_nid" sn ln os] in
        \<open>simp_all add: OBJ_create_def obj_next_nid_def new_object_def\<close>)
qed

lemma OBJ_create_bad:
  assumes "OBJ_create env oid sn ln os = Some (nid, os')"
    and "\<nexists>arcs. valid_oid arcs \<and> c_str oid = oid_text arcs"
  shows "nid = NID_undef \<and> os' = os"
  using assms(1) create_object_bad [OF _ assms(2)]
  by (fastforce simp: OBJ_create_def bind_eq_Some_conv split: option.splits)

section \<open>The registries of the program\<close>

text \<open>The states that calls of \<open>OBJ_create\<close> reach while memory is granted, with the objects they added.
  Identifiers of 2 ^ 31 characters and more are left out: their lengths do not fit an \<open>int\<close>.\<close>

inductive obj_reach :: "cbb_env \<Rightarrow> obj_state \<Rightarrow> ASN1_OBJECT list \<Rightarrow> bool" for env where
  obj_none: "obj_reach env obj_start []"
| obj_created: "obj_reach env os objs \<Longrightarrow> OBJ_create env oid sn ln os = Some (nid, os') \<Longrightarrow> nid \<noteq> NID_undef \<Longrightarrow>
    strlen oid < 2 ^ 31 \<Longrightarrow> valid_oid arcs \<Longrightarrow> c_str oid = oid_text arcs \<Longrightarrow>
    obj_reach env os' (added_object nid (oid_der arcs) sn ln # objs)"
| obj_refused: "obj_reach env os objs \<Longrightarrow> OBJ_create env oid sn ln os = Some (nid, os') \<Longrightarrow> nid = NID_undef \<Longrightarrow>
    strlen oid < 2 ^ 31 \<Longrightarrow> obj_reach env os' objs"

inductive_cases obj_reachE: "obj_reach env os objs"

lemma strlen_c_str: "strlen s = length (c_str s)"
  by (induction s) auto

text \<open>The nids of the added objects are those from \<open>NUM_NID\<close> on, in order.\<close>

definition numbered :: "ASN1_OBJECT list \<Rightarrow> bool" where
  "numbered objs \<longleftrightarrow> map obj_nid (rev objs) = map (\<lambda>i. NUM_NID + word_of_nat i) [0..<length objs]"

lemma reach_registry:
  assumes "obj_reach env os objs" "\<And>n. alloc env n" "length objs < 2 ^ 31"
  shows "registry os objs \<and> numbered objs \<and> global_next_nid os = NUM_NID + word_of_nat (length objs)"
  using assms
proof (induction rule: obj_reach.induct)
  case obj_none
  then show ?case by (simp add: registry_def numbered_def obj_start_def)
next
  case (obj_created os objs oid sn ln nid os' arcs)
  then have IH: "registry os objs" "numbered objs" "global_next_nid os = NUM_NID + word_of_nat (length objs)"
    and len: "length objs < 2 ^ 63" by simp_all
  have "length (oid_text arcs) < 2 ^ 31" using obj_created(4,6) by (simp add: strlen_c_str)
  from OBJ_create_ok [OF IH(1) obj_created.prems(1) len obj_created(5,6) this, of sn ln]
  obtain os'' where c: "OBJ_create env oid sn ln os = Some (global_next_nid os, os'')"
    "registry os'' (added_object (global_next_nid os) (oid_der arcs) sn ln # objs)"
    "global_next_nid os'' = global_next_nid os + 1" .
  have "nid = global_next_nid os" "os'' = os'" using c(1) obj_created(2) by simp_all
  then show ?case using c IH by (simp add: numbered_def added_object_def new_object_def)
next
  case (obj_refused os objs oid sn ln nid os')
  then have IH: "registry os objs" "numbered objs" "global_next_nid os = NUM_NID + word_of_nat (length objs)"
    and len: "length objs < 2 ^ 63" by simp_all
  have "\<nexists>arcs. valid_oid arcs \<and> c_str oid = oid_text arcs"
  proof
    assume "\<exists>arcs. valid_oid arcs \<and> c_str oid = oid_text arcs"
    then obtain arcs where a: "valid_oid arcs" "c_str oid = oid_text arcs" by blast
    then have "length (oid_text arcs) < 2 ^ 31" using obj_refused(4) by (simp add: strlen_c_str)
    from OBJ_create_ok [OF IH(1) obj_refused.prems(1) len a this, of sn ln]
    obtain os'' where "OBJ_create env oid sn ln os = Some (global_next_nid os, os'')" .
    then have "global_next_nid os = NID_undef" using obj_refused(2,3) by simp
    moreover have "unat (NUM_NID + word_of_nat (length objs)) = 962 + length objs"
      using obj_refused.prems(2) by (simp add: NUM_NID_def unat_word_ariths unat_of_nat take_bit_nat_eq_self)
    ultimately show False using IH(3) by (simp add: NID_undef_def)
  qed
  then show ?case using OBJ_create_bad [OF obj_refused(2)] IH by simp
qed


section \<open>Lookups\<close>

text \<open>The outcome of a lookup: the latest added object that fits, else a built-in one.\<close>

definition found :: "(ASN1_OBJECT \<Rightarrow> bool) \<Rightarrow> ASN1_OBJECT list \<Rightarrow> obj_tables \<Rightarrow> u32 \<Rightarrow> bool" where
  "found P objs T nid \<longleftrightarrow> (case find P objs of Some x \<Rightarrow> nid = obj_nid x | None \<Rightarrow> built_in P T nid)"

lemma named_fun:
  "named name s = (\<lambda>y. name y \<noteq> None \<and> strcmp_ptr (name y) (Some s) = 0)"
  by (auto simp: fun_eq_iff named_def strcmp_ptr_eq)

lemma registry_retrieve:
  assumes "registry os objs"
  shows "retrieve (global_added_by_nid os) x = find (\<lambda>y. obj_nid y = obj_nid x) objs"
    and "retrieve (global_added_by_data os) x = find (\<lambda>y. has_data y \<and> data_key y = data_key x) objs"
    and "retrieve (global_added_by_short_name os) x =
      find (\<lambda>y. obj_sn y \<noteq> None \<and> strcmp_ptr (obj_sn y) (obj_sn x) = 0) objs"
    and "retrieve (global_added_by_long_name os) x =
      find (\<lambda>y. obj_ln y \<noteq> None \<and> strcmp_ptr (obj_ln y) (obj_ln x) = 0) objs"
proof -
  have "cmp_nid y x = 0 \<longleftrightarrow> obj_nid y = obj_nid x" for y by (simp add: cmp_nid_def sint_eq_0)
  then show "retrieve (global_added_by_nid os) x = find (\<lambda>y. obj_nid y = obj_nid x) objs"
    using assms by (auto simp: registry_def tables_rel_def retrieve_def by_nid.table_lookup split: if_splits)
  show "retrieve (global_added_by_data os) x = find (\<lambda>y. has_data y \<and> data_key y = data_key x) objs"
    using assms by (auto simp: registry_def tables_rel_def retrieve_def by_data.table_lookup cmp_data_eq split: if_splits)
  show "retrieve (global_added_by_short_name os) x =
      find (\<lambda>y. obj_sn y \<noteq> None \<and> strcmp_ptr (obj_sn y) (obj_sn x) = 0) objs"
    "retrieve (global_added_by_long_name os) x =
      find (\<lambda>y. obj_ln y \<noteq> None \<and> strcmp_ptr (obj_ln y) (obj_ln x) = 0) objs"
    using assms
    by (auto simp: registry_def tables_rel_def retrieve_def by_short_name.table_lookup by_long_name.table_lookup
      cmp_short_name_def cmp_long_name_def split: if_splits)
qed

lemma OBJ_sn2nid_found:
  assumes "registry os objs" "tables_ok T"
  shows "found (named obj_sn s) objs T (OBJ_sn2nid T os s)"
proof -
  have "retrieve (global_added_by_short_name os) (blank_obj\<lparr>obj_sn := Some s\<rparr>) = find (named obj_sn s) objs"
    by (simp add: registry_retrieve(3) [OF assms(1)] blank_obj_def named_fun)
  moreover have "built_in (named obj_sn s) T (table_nid T (bsearch (short_name_cmp T s) (kNIDsInShortNameOrder T)))"
    by (rule name_search) (use assms(2) in \<open>simp_all add: tables_ok_def short_name_cmp_def\<close>)
  ultimately show ?thesis by (auto simp: OBJ_sn2nid_def found_def split: option.split)
qed

lemma OBJ_ln2nid_found:
  assumes "registry os objs" "tables_ok T"
  shows "found (named obj_ln s) objs T (OBJ_ln2nid T os s)"
proof -
  have "retrieve (global_added_by_long_name os) (blank_obj\<lparr>obj_ln := Some s\<rparr>) = find (named obj_ln s) objs"
    by (simp add: registry_retrieve(4) [OF assms(1)] blank_obj_def named_fun)
  moreover have "built_in (named obj_ln s) T (table_nid T (bsearch (long_name_cmp T s) (kNIDsInLongNameOrder T)))"
    by (rule name_search) (use assms(2) in \<open>simp_all add: tables_ok_def long_name_cmp_def\<close>)
  ultimately show ?thesis by (auto simp: OBJ_ln2nid_def found_def split: option.split)
qed

definition same_data :: "ASN1_OBJECT \<Rightarrow> ASN1_OBJECT \<Rightarrow> bool" where
  "same_data obj x \<longleftrightarrow> has_data x \<and> data_key x = data_key obj"

lemma OBJ_obj2nid_found:
  assumes "registry os objs" "tables_ok T" "obj_nid obj = 0"
  shows "found (same_data obj) objs T (OBJ_obj2nid T os (Some obj))"
proof -
  have "order_ok has_data data_less (kObjects T) (kNIDsInOIDOrder T)" using assms(2) by (simp only: tables_ok_def)
  from data_search [OF this, of obj]
  have "built_in (same_data obj) T (table_nid T (bsearch (obj_cmp T obj) (kNIDsInOIDOrder T)))"
    by (simp only: same_data_def [abs_def])
  moreover have "retrieve (global_added_by_data os) obj = find (same_data obj) objs"
    by (simp only: registry_retrieve(2) [OF assms(1)] same_data_def [abs_def])
  ultimately show ?thesis using assms(3) by (auto simp: OBJ_obj2nid_def found_def split: option.split)
qed

lemma numbered_nth:
  assumes "numbered objs" "i < length objs"
  shows "obj_nid (rev objs ! i) = NUM_NID + word_of_nat i"
proof -
  have "map obj_nid (rev objs) ! i = map (\<lambda>i. NUM_NID + word_of_nat i) [0..<length objs] ! i"
    using assms(1) by (simp only: numbered_def)
  then show ?thesis using assms(2) by simp
qed

lemma numbered_distinct:
  assumes "numbered objs" "length objs < 2 ^ 31"
  shows "distinct (map obj_nid objs)"
proof -
  have "inj_on (\<lambda>i. NUM_NID + word_of_nat i :: u32) {..<length objs}"
  proof (rule inj_onI)
    fix i j assume ij: "i \<in> {..<length objs}" "j \<in> {..<length objs}"
      and "NUM_NID + word_of_nat i = NUM_NID + (word_of_nat j :: u32)"
    then have "unat (word_of_nat i :: u32) = unat (word_of_nat j :: u32)" by simp
    then show "i = j" using ij assms(2) by (simp add: unat_of_nat take_bit_nat_eq_self)
  qed
  then have "distinct (map obj_nid (rev objs))"
    using assms(1) by (simp add: numbered_def distinct_map atLeast0LessThan)
  then show ?thesis by (metis distinct_rev rev_map)
qed

lemma find_distinct: "distinct (map f xs) \<Longrightarrow> x \<in> set xs \<Longrightarrow> find (\<lambda>y. f y = f x) xs = Some x"
  by (induction xs) (auto simp: image_iff)

lemma OBJ_nid2obj_added:
  assumes "registry os objs" "numbered objs" "length objs < 2 ^ 31 - 962" "x \<in> set objs"
  shows "OBJ_nid2obj T os (obj_nid x) = Some x"
proof -
  obtain i where i: "i < length objs" "x = rev objs ! i"
    using assms(4) by (metis in_set_conv_nth length_rev set_rev)
  have n: "obj_nid x = word_of_nat (962 + i)" using numbered_nth [OF assms(2) i(1)] i(2) by (simp add: NUM_NID_def)
  have "sint (word_of_nat (962 + i) :: u32) = int (962 + i)"
    using i(1) assms(3) by (intro sint_of_nat) simp
  then have "\<not> sint (obj_nid x) < sint NUM_NID" by (simp add: n NUM_NID_def)
  then show ?thesis
    using find_distinct [OF numbered_distinct [OF assms(2)] assms(4)] assms(3)
    by (simp add: OBJ_nid2obj_def registry_retrieve(1) [OF assms(1)] blank_obj_def)
qed

lemma OBJ_nid2obj_built_in:
  "tables_ok T \<Longrightarrow> i < 962 \<Longrightarrow> OBJ_nid2obj T os (word_of_nat i) =
     (if i \<noteq> 0 \<and> obj_nid (kObjects T ! i) = NID_undef then None else Some (kObjects T ! i))"
  using sint_of_nat [of i] word_of_nat_eq_0_iff [of i, where 'a = 32]
  by (auto simp: OBJ_nid2obj_def NID_undef_def NUM_NID_def unat_of_nat take_bit_nat_eq_self nat_dvd_not_less dest: dvd_imp_le)


section \<open>Text\<close>

text \<open>\<open>OPENSSL_strlcpy\<close> copies what fits, always with a NUL, and returns the length of the source.\<close>

lemma c_char_c_str: "c_char s \<noteq> 0 \<Longrightarrow> s = c_char s # tl s \<and> c_str s = c_char s # c_str (tl s)"
  by (cases s) (simp_all add: c_char_def)

lemma strlcpy_eq:
  "dst \<noteq> [] \<Longrightarrow> OPENSSL_strlcpy dst src =
     (take (length dst - 1) (c_str src) @ 0 # drop (Suc (strlen src)) dst, strlen src)"
proof (induction dst src rule: OPENSSL_strlcpy.induct)
  case (3 d d' dst src)
  show ?case
  proof (cases "c_char src = 0")
    case True
    then have "c_str src = []" by (cases src) (simp_all add: c_char_def)
    then show ?thesis using True strlen_c_str [of src] by simp
  next
    case False
    with c_char_c_str [OF this] strlen_c_str [of src] strlen_c_str [of "tl src"] 3 show ?thesis
      by simp
  qed
qed (simp_all add: strlen_c_str)

definition fits :: "u8 list \<Rightarrow> u8 list \<Rightarrow> u8 list \<Rightarrow> bool" where
  "fits text out out' \<longleftrightarrow> length out' = length out \<and>
     (out \<noteq> [] \<longrightarrow> c_str out' = take (length out - 1) text)"

lemma strlcpy_int_fits:
  assumes "c_str src = text" "length text < 2 ^ 31" "length out < 2 ^ 31" "0 \<notin> set text"
  shows "\<exists>out'. strlcpy_int out src (word_of_nat (length out)) = (word_of_nat (length text), out') \<and> fits text out out'"
proof (cases "out = []")
  case True
  then show ?thesis using assms strlen_c_str [of src] by (simp add: strlcpy_int_def fits_def Let_def)
next
  case False
  have n: "\<not> sint (word_of_nat (length out) :: u32) < 0" "unat (word_of_nat (length out) :: u32) = length out"
    using assms(3) sint_of_nat [of "length out"] by (simp_all add: unat_of_nat take_bit_nat_eq_self)
  have "c_str (take (length out - 1) text @ 0 # r) = take (length out - 1) text" for r
  proof -
    have "0 \<notin> set (take (length out - 1) text)" using assms(4) by (auto dest: in_set_takeD)
    from strlen_no_zero(1) [OF this, of r] show ?thesis
      unfolding c_str_def by (metis append_eq_conv_conj)
  qed
  then show ?thesis
    using False assms strlen_c_str [of src] n length_greater_0_conv [of out]
    by (auto simp: strlcpy_int_def Let_def strlcpy_eq fits_def min_def simp del: length_greater_0_conv)
qed

lemma txt2obj_ok:
  assumes "\<And>n. alloc env n" "valid_oid arcs" "c_str s = oid_text arcs" "length (oid_text arcs) < 2 ^ 31"
  shows "OBJ_txt2obj env T s True os = Some (Some (new_object NID_undef (oid_der arcs) None None), os)"
  using create_object_ok [OF assms, of None None None os] by (simp add: OBJ_txt2obj_def)

lemma bytes_of_new: "length der < 2 ^ 31 \<Longrightarrow> bytes_of (obj_data (new_object nid der sn ln)) (obj_length (new_object nid der sn ln)) = der"
  by (simp add: new_object_def bytes_of_prefix)

lemma obj2txt_ok:
  assumes "\<And>n. alloc env n" "valid_oid arcs" "length (oid_text arcs) < 2 ^ 31" "length out < 2 ^ 31"
    and obj: "obj_length obj = word_of_nat (length (oid_der arcs))"
      "bytes_of (obj_data obj) (obj_length obj) = oid_der arcs"
  shows "\<exists>out'. OBJ_obj2txt env T os out (word_of_nat (length out)) (Some obj) True =
      Some (word_of_nat (length (oid_text arcs)), out') \<and> fits (oid_text arcs) out out'"
proof -
  have len: "length (oid_der arcs) < 2 ^ 31" "oid_der arcs \<noteq> []"
    using length_oid_der [OF assms(2)] assms(3) by simp_all
  have "unat (word_of_nat (length (oid_der arcs)) :: u32) = length (oid_der arcs)"
    using len(1) by (simp add: unat_of_nat take_bit_nat_eq_self)
  then have nz: "obj_length obj \<noteq> 0" using len(2) obj(1) by auto
  obtain r st' where t: "CBS_asn1_oid_to_text env 0 (oid_der arcs) local_cbb = Some (Some r, st')"
    "take (strlen r) r = oid_text arcs"
    using oid_to_text_ok [OF _ assms(2), of env 0 local_cbb] assms(1,3) by auto
  show ?thesis
    using strlcpy_int_fits [of r, OF _ assms(3,4) no_zero_oid_text] t nz obj(2)
    by (simp add: OBJ_obj2txt_def c_str_def CBS_init_def)
qed

section \<open>Writing identifiers\<close>

lemma nid2cbb_writes:
  assumes "open_cbb st i" "i \<noteq> k" "OBJ_nid2obj T os nid = Some obj"
    and "length (bytes_of (obj_data obj) (obj_length obj)) < 2 ^ 32 - 1"
    and "room env (st_base st) (length (der_element CBS_ASN1_OBJECT (bytes_of (obj_data obj) (obj_length obj))))"
  shows "\<exists>st'. OBJ_nid2cbb env T os i k nid st = Some (True, st') \<and> open_cbb st' i \<and>
    contents (st_base st') = contents (st_base st) @ der_element CBS_ASN1_OBJECT (bytes_of (obj_data obj) (obj_length obj))"
proof -
  let ?d = "bytes_of (obj_data obj) (obj_length obj)"
  have "cbb_emits env i {k} (asn1_child env i k CBS_ASN1_OBJECT (CBB_add_bytes env k ?d)) (der_element CBS_ASN1_OBJECT ?d)"
    by (rule cbb_emits_asn1_child) (use assms cbb_emits_bytes in auto)
  from cbb_emitsE [OF this assms(1,5)] obtain st1 st2 where
    "asn1_child env i k CBS_ASN1_OBJECT (CBB_add_bytes env k ?d) st = Some (True, st1)"
    "CBB_flush env i st1 = Some (True, st2)" "open_cbb st2 i" "extends env (der_element CBS_ASN1_OBJECT ?d) (st_base st) (st_base st2)"
    by blast
  then show ?thesis
    using assms(3) by (auto simp: OBJ_nid2cbb_def asn1_child_def extends_def and_then_opt_def)
qed

section \<open>Added objects by their bytes\<close>

lemma reach_objects:
  "obj_reach env os objs \<Longrightarrow> x \<in> set objs \<Longrightarrow>
     \<exists>nid arcs sn ln. x = added_object nid (oid_der arcs) sn ln \<and> valid_oid arcs \<and> length (oid_text arcs) < 2 ^ 31"
proof (induction rule: obj_reach.induct)
  case (obj_created os objs oid sn ln nid os' arcs)
  then show ?case using strlen_c_str [of oid] by auto
qed simp_all

lemma cbs2nid_added:
  assumes "registry os objs" "tables_ok T" "objs = new @ x # old" "\<forall>y\<in>set new. data_key y \<noteq> data_key x"
    and "x = added_object nid der sn ln" "length der < 2 ^ 31" "der \<noteq> []"
  shows "OBJ_cbs2nid T os der = obj_nid x"
proof -
  define obj where "obj = blank_obj\<lparr>obj_data := Some der, obj_length := word_of_nat (length der)\<rparr>"
  have "unat (word_of_nat (length der) :: u32) = length der"
    using assms(6) by (simp add: unat_of_nat take_bit_nat_eq_self)
  then have "has_data x" using assms(5,7) by (auto simp: added_object_def new_object_def)
  moreover have key: "data_key x = data_key obj"
    by (simp add: data_key_def obj_def assms(5) added_object_def new_object_def)
  ultimately have "find (same_data obj) objs = Some x"
    using assms(3,4) by (induction new arbitrary: objs) (auto simp: same_data_def)
  then have "OBJ_obj2nid T os (Some obj) = obj_nid x"
    using OBJ_obj2nid_found [OF assms(1,2), of obj] by (simp add: found_def obj_def blank_obj_def)
  then show ?thesis using assms(6) by (simp add: OBJ_cbs2nid_def CBS_len_def CBS_data_def obj_def)
qed

end
