(* ===== verification/Registry_Theorems.thy ===== *)
theory Registry_Theorems
  imports Obj_Registry Bytestring_Theorems
begin

text \<open>
  The properties of the hash table and of the registry of object identifiers, each with a witness.
\<close>

section \<open>The hash table\<close>

text \<open>C35. Whatever inserts, deletes, lookups and counts are made on a new table, and whichever of its
  allocations fail, their results are those of a map from keys to data: an insert returns what it
  replaced and fails only for lack of memory for the item, a delete returns what it removed.
  Resizing never shows.\<close>

theorem lhash_refines_map:
  assumes "lhash_keys cmp hash" "lh_new al hash cmp = Some lh" "length ops < 2 ^ 64"
  shows "map_option fst (lh_run ops lh) = Some (map_run cmp ops ((\<lambda>_. None), 0))"
  using lhash_keys.run_refines [OF assms(1) lhash_keys.lh_new(1) [OF assms(1,2)], of ops]
    lhash_keys.lh_new(2,3) [OF assms(1,2)] assms(3)
  by auto

theorem lhash_refines_map_witness:
  "map_option fst (lh_run
      [(\<lambda>_. True, LhInsert (blank_obj\<lparr>obj_nid := 5\<rparr>)), (\<lambda>_. False, LhInsert (blank_obj\<lparr>obj_nid := 21\<rparr>)),
       (\<lambda>_. True, LhRetrieve (blank_obj\<lparr>obj_nid := 5, obj_flags := 9\<rparr>)), (\<lambda>_. True, LhNum)]
      \<lparr>lh_items = 0, lh_buckets = replicate 16 [], lh_num_buckets = 16, lh_callback_depth = 0,
        lh_comp = cmp_nid, lh_hash = hash_nid\<rparr>) =
   Some [Inserted True None, Inserted False None, Retrieved (Some (blank_obj\<lparr>obj_nid := 5\<rparr>)), Counted 1]"
  using lhash_refines_map [OF by_nid.lhash_keys_axioms, of "\<lambda>_. True" _
    "[(\<lambda>_. True, LhInsert (blank_obj\<lparr>obj_nid := 5\<rparr>)), (\<lambda>_. False, LhInsert (blank_obj\<lparr>obj_nid := 21\<rparr>)),
       (\<lambda>_. True, LhRetrieve (blank_obj\<lparr>obj_nid := 5, obj_flags := 9\<rparr>)), (\<lambda>_. True, LhNum)]"]
  by (simp add: lh_new_def kMinNumBuckets_def map_put_def cmp_nid_def sint_eq_0)

text \<open>C36. Every run leaves a well-formed table: the items in the buckets of their hashes, no two equal,
  their number exact.\<close>

theorem lhash_well_formed:
  assumes "lhash_keys cmp hash" "lh_new al hash cmp = Some lh" "length ops < 2 ^ 64"
  shows "\<exists>rs lh'. lh_run ops lh = Some (rs, lh') \<and> lh_ok lh'"
  using lhash_keys.run_refines [OF assms(1) lhash_keys.lh_new(1) [OF assms(1,2)], of ops]
    lhash_keys.lh_new(3) [OF assms(1,2)] assms(3) lhash_keys.lh_inv_def [OF assms(1)]
  by auto

theorem lhash_well_formed_witness:
  "\<exists>rs lh'. lh_run [(\<lambda>_. False, LhDelete blank_obj), (\<lambda>n. n = 24, LhInsert blank_obj)]
      \<lparr>lh_items = 0, lh_buckets = replicate 16 [], lh_num_buckets = 16, lh_callback_depth = 0,
        lh_comp = cmp_nid, lh_hash = hash_nid\<rparr> = Some (rs, lh') \<and> lh_ok lh'"
  by (rule lhash_well_formed [OF by_nid.lhash_keys_axioms, of "\<lambda>_. True"])
    (simp_all add: lh_new_def kMinNumBuckets_def)

text \<open>C37. While memory is granted a table that has only been used through its operations has less than
  three items for a bucket, and more than the 16 buckets of a new table only if it has an item for each.\<close>

theorem lhash_load:
  assumes "lhash_keys cmp hash" "lh_new al hash cmp = Some lh" "length ops < 2 ^ 61"
    and "\<forall>p\<in>set ops. \<forall>n. fst p n" "lh_run ops lh = Some (rs, lh')"
  shows "unat (lh_num_items lh') < 3 * unat (lh_num_buckets lh') \<and>
    (lh_num_buckets lh' = kMinNumBuckets \<or> lh_num_buckets lh' \<le> lh_num_items lh')"
proof -
  have "lh_load_ok lh" "lh_callback_depth lh = 0"
    using assms(2) by (auto simp: lh_load_ok_def lh_new_def kMinNumBuckets_def lh_data_def split: if_splits)
  with lhash_keys.run_load [OF assms(1) lhash_keys.lh_new(1) [OF assms(1,2)], of ops rs lh']
  have "lh_load_ok lh' \<and> lh_ok lh'"
    using lhash_keys.lh_new(3) [OF assms(1,2)] assms(3-5) by (simp add: lhash_keys.lh_inv_def [OF assms(1)])
  then have ok: "lh_load_ok lh'" "lh_ok lh'" by simp_all
  then have "unat (lh_num_items lh') = length (lh_data lh')"
    by (simp add: lh_num_items_def lh_ok_def unat_of_nat take_bit_nat_eq_self)
  then show ?thesis using ok(1) by (auto simp: lh_load_ok_def word_le_nat_alt)
qed


theorem lhash_load_witness:
  "\<exists>lh. lh_run [(\<lambda>_. True, LhInsert blank_obj), (\<lambda>_. True, LhInsert (blank_obj\<lparr>obj_nid := 16\<rparr>))]
      \<lparr>lh_items = 0, lh_buckets = replicate 16 [], lh_num_buckets = 16, lh_callback_depth = 0,
        lh_comp = cmp_nid, lh_hash = hash_nid\<rparr> = Some ([Inserted True None, Inserted True None], lh) \<and>
    unat (lh_num_items lh) < 3 * unat (lh_num_buckets lh)"
proof -
  let ?ops = "[(\<lambda>_. True, LhInsert blank_obj), (\<lambda>_. True, LhInsert (blank_obj\<lparr>obj_nid := 16\<rparr>))]"
  let ?lh = "\<lparr>lh_items = 0, lh_buckets = replicate 16 [], lh_num_buckets = 16, lh_callback_depth = 0,
        lh_comp = cmp_nid, lh_hash = hash_nid\<rparr>"
  have new: "lh_new (\<lambda>_. True) hash_nid cmp_nid = Some ?lh" by (simp add: lh_new_def kMinNumBuckets_def)
  have "\<exists>lh. lh_run ?ops ?lh = Some (map_run cmp_nid ?ops (lh_map ?lh, length (lh_data ?lh)), lh)"
    using by_nid.run_refines [OF by_nid.lh_new(1) [OF new], of ?ops] by_nid.lh_new(3) [OF new] by auto
  moreover have "map_run cmp_nid ?ops (lh_map ?lh, length (lh_data ?lh)) = [Inserted True None, Inserted True None]"
    using by_nid.lh_new(2,3) [OF new] by (simp add: map_put_def cmp_nid_def sint_eq_0 blank_obj_def)
  ultimately obtain lh where "lh_run ?ops ?lh = Some ([Inserted True None, Inserted True None], lh)" by auto
  moreover from lhash_load [OF by_nid.lhash_keys_axioms new _ _ this]
  have "unat (lh_num_items lh) < 3 * unat (lh_num_buckets lh)" by simp
  ultimately show ?thesis by blast
qed

section \<open>The registry of object identifiers\<close>

text \<open>C32. The registry answers like a search of the added objects, the latest first, and then of the
  built-in tables: by short name, by long name, by the bytes of an identifier. Every added object is
  found under its nid.\<close>

theorem obj_registry_lookup:
  assumes "obj_reach env os objs" "\<forall>n. alloc env n" "length objs < 2 ^ 31 - 962" "tables_ok T"
  shows "found (named obj_sn s) objs T (OBJ_sn2nid T os s) \<and> found (named obj_ln s) objs T (OBJ_ln2nid T os s) \<and>
    (obj_nid obj = 0 \<longrightarrow> found (same_data obj) objs T (OBJ_obj2nid T os (Some obj))) \<and>
    (\<forall>x\<in>set objs. OBJ_nid2obj T os (obj_nid x) = Some x)"
proof -
  have len: "length objs < 2 ^ 31" using assms(3) by simp
  have r: "registry os objs" "numbered objs" using reach_registry [OF assms(1) _ len] assms(2) by simp_all
  then show ?thesis
    using OBJ_sn2nid_found OBJ_ln2nid_found OBJ_obj2nid_found OBJ_nid2obj_added assms(3,4) by blast
qed

text \<open>A small registry: one object, 1.2.3 under the short name x, beside the first built-in object.\<close>

definition tables_0 :: obj_tables where
  "tables_0 = \<lparr>kObjects = blank_obj\<lparr>obj_sn := Some [85], obj_ln := Some [117]\<rparr> # replicate 961 blank_obj,
     kNIDsInShortNameOrder = [0], kNIDsInLongNameOrder = [0], kNIDsInOIDOrder = []\<rparr>"

lemma tables_0_ok: "tables_ok tables_0"
  by (auto simp: tables_ok_def tables_0_def NUM_NID_def NID_undef_def order_ok_def blank_obj_def nth_Cons'
      split: if_splits)

lemma oid_123: "valid_oid [1, 2, 3]" "oid_text [1, 2, 3] = [49, 46, 50, 46, 51]" "oid_der [1, 2, 3] = [42, 3]"
  by (simp_all add: decimal_digit base128_def)

lemma reach_123:
  obtains os where "OBJ_create no_oom [49, 46, 50, 46, 51] (Some [120]) None obj_start = Some (962, os)"
    "obj_reach no_oom os [added_object 962 [42, 3] (Some [120]) None]"
proof -
  have c: "c_str [49, 46, 50, 46, 51] = oid_text [1, 2, 3]" unfolding oid_123 by simp
  have "length (oid_text [1, 2, 3]) < 2 ^ 31" unfolding oid_123 by simp
  from OBJ_create_ok [OF registry_start no_oom_alloc _ oid_123(1) c this, of "Some [120]" None]
  obtain os where os: "OBJ_create no_oom [49, 46, 50, 46, 51] (Some [120]) None obj_start =
      Some (global_next_nid obj_start, os)" by auto
  have nid: "global_next_nid obj_start = 962" by (simp add: obj_start_def NUM_NID_def)
  have "obj_reach no_oom os [added_object (global_next_nid obj_start) (oid_der [1, 2, 3]) (Some [120]) None]"
    by (rule obj_created [OF obj_none os _ _ oid_123(1) c]) (simp_all add: nid NID_undef_def)
  then have "obj_reach no_oom os [added_object 962 [42, 3] (Some [120]) None]" unfolding oid_123 nid .
  then show ?thesis using that os by (simp add: obj_start_def NUM_NID_def)
qed

theorem obj_registry_lookup_witness:
  "\<exists>os. OBJ_create no_oom [49, 46, 50, 46, 51] (Some [120]) None obj_start = Some (962, os) \<and>
     OBJ_sn2nid tables_0 os [120] = 962 \<and> OBJ_sn2nid tables_0 os [121] = NID_undef"
proof -
  obtain os where os: "OBJ_create no_oom [49, 46, 50, 46, 51] (Some [120]) None obj_start = Some (962, os)"
    "obj_reach no_oom os [added_object 962 [42, 3] (Some [120]) None]" by (rule reach_123)
  have f: "found (named obj_sn s) [added_object 962 [42, 3] (Some [120]) None] tables_0 (OBJ_sn2nid tables_0 os s)" for s
    using obj_registry_lookup [OF os(2) _ _ tables_0_ok, of s] by simp
  from f [of "[120]"] f [of "[121]"] os(1) show ?thesis
    by (simp add: found_def named_def added_object_def new_object_def built_in_def tables_0_def blank_obj_def NID_undef_def)
qed

text \<open>C34. The dotted text of an identifier makes an object of its DER contents, and that object is printed
  as the same text: whole and with a NUL if the buffer has room, else as much as fits, and with the
  length of the whole.\<close>

theorem obj_text_roundtrip:
  assumes "\<forall>n. alloc env n" "valid_oid arcs" "c_str s = oid_text arcs" "strlen s < 2 ^ 31" "length out < 2 ^ 31"
  shows "\<exists>obj out'. OBJ_txt2obj env T s True os = Some (Some obj, os) \<and> obj_data obj = Some (oid_der arcs) \<and>
    OBJ_obj2txt env T os out (word_of_nat (length out)) (Some obj) True = Some (word_of_nat (strlen s), out') \<and>
    length out' = length out \<and> (out \<noteq> [] \<longrightarrow> c_str out' = take (length out - 1) (c_str s))"
proof -
  have len: "length (oid_text arcs) < 2 ^ 31" using assms(3,4) strlen_c_str [of s] by simp
  have der: "length (oid_der arcs) < 2 ^ 31" using length_oid_der(1) [OF assms(2)] len by simp
  let ?obj = "new_object NID_undef (oid_der arcs) None None"
  have b: "bytes_of (obj_data ?obj) (obj_length ?obj) = oid_der arcs" by (rule bytes_of_new [OF der])
  have l: "obj_length ?obj = word_of_nat (length (oid_der arcs))" "obj_data ?obj = Some (oid_der arcs)"
    by (simp_all add: new_object_def)
  have a: "\<And>n. alloc env n" using assms(1) by simp
  from txt2obj_ok [OF a assms(2,3) len, of T os] obj2txt_ok [OF a assms(2) len assms(5) l(1) b, of T os] l(2)
  show ?thesis using assms(3) strlen_c_str [of s] by (auto simp: fits_def)
qed

theorem obj_text_roundtrip_witness:
  "\<exists>obj out'. OBJ_txt2obj no_oom tables_0 [49, 46, 50, 46, 51] True obj_start = Some (Some obj, obj_start) \<and>
     OBJ_obj2txt no_oom tables_0 obj_start [9, 9, 9, 9] 4 (Some obj) True = Some (5, out') \<and> c_str out' = [49, 46, 50]"
proof -
  have "c_str [49, 46, 50, 46, 51] = oid_text [1, 2, 3]" unfolding oid_123 by simp
  from obj_text_roundtrip [OF _ oid_123(1) this, of no_oom "[9, 9, 9, 9]" tables_0 obj_start]
  have "\<exists>obj out'. OBJ_txt2obj no_oom tables_0 [49, 46, 50, 46, 51] True obj_start = Some (Some obj, obj_start) \<and>
      obj_data obj = Some (oid_der [1, 2, 3]) \<and>
      OBJ_obj2txt no_oom tables_0 obj_start [9, 9, 9, 9] 4 (Some obj) True = Some (5, out') \<and>
      length out' = Suc (Suc (Suc (Suc 0))) \<and> c_str out' = [49, 46, 50]"
    by simp
  then show ?thesis by blast
qed

text \<open>C33. An added object keeps its identity on the wire: \<open>OBJ_nid2cbb\<close> appends the OBJECT IDENTIFIER
  element of its bytes, \<open>CBS_get_asn1\<close> reads those back, and \<open>OBJ_cbs2nid\<close> gives the nid, unless
  a later object has the same bytes.\<close>

theorem obj_wire_roundtrip:
  assumes "obj_reach env os objs" "\<forall>n. alloc env n" "length objs < 2 ^ 31 - 962" "tables_ok T"
    and "objs = new @ x # old" "\<forall>y\<in>set new. data_key y \<noteq> data_key x"
    and "open_cbb st i" "i \<noteq> k"
      "room env (st_base st) (length (der_element CBS_ASN1_OBJECT (bytes_of (obj_data x) (obj_length x))))"
  shows "\<exists>st' e der. OBJ_nid2cbb env T os i k (obj_nid x) st = Some (True, st') \<and>
    contents (st_base st') = contents (st_base st) @ e \<and>
    CBS_get_asn1 CBS_ASN1_OBJECT (e @ rest) = (Some der, rest) \<and> OBJ_cbs2nid T os der = obj_nid x"
proof -
  let ?d = "bytes_of (obj_data x) (obj_length x)" and ?e = "der_element CBS_ASN1_OBJECT (bytes_of (obj_data x) (obj_length x))"
  have len: "length objs < 2 ^ 31" using assms(3) by simp
  have r: "registry os objs" "numbered objs" using reach_registry [OF assms(1) _ len] assms(2) by simp_all
  obtain nid arcs sn ln where x: "x = added_object nid (oid_der arcs) sn ln" "valid_oid arcs" "length (oid_text arcs) < 2 ^ 31"
    using reach_objects [OF assms(1), of x] assms(5) by auto
  have der: "length (oid_der arcs) < 2 ^ 31" using length_oid_der(1) [OF x(2)] x(3) by simp
  have d: "?d = oid_der arcs" using bytes_of_new [OF der, of nid sn ln] by (simp add: x(1) added_object_def)
  have nid: "OBJ_nid2obj T os (obj_nid x) = Some x" using OBJ_nid2obj_added [OF r assms(3)] assms(5) by simp
  from nid2cbb_writes [OF assms(7,8) nid _ assms(9)] der d obtain st' where
    "OBJ_nid2cbb env T os i k (obj_nid x) st = Some (True, st')" "contents (st_base st') = contents (st_base st) @ ?e"
    by auto
  moreover have "CBS_get_asn1 CBS_ASN1_OBJECT (?e @ rest) = (Some ?d, rest)"
    using der d by (intro asn1.read_enc) simp
  moreover have "OBJ_cbs2nid T os ?d = obj_nid x"
    unfolding d by (rule cbs2nid_added [OF r(1) assms(4-6) x(1) der length_oid_der(2) [OF x(2)]])
  ultimately show ?thesis by blast
qed


theorem obj_wire_roundtrip_witness:
  "\<exists>os st' der. OBJ_create no_oom [49, 46, 50, 46, 51] (Some [120]) None obj_start = Some (962, os) \<and>
     OBJ_nid2cbb no_oom tables_0 os 0 1 962 \<lparr>st_base = \<lparr>bb_buf = replicate 9 0, bb_len = 0, bb_cap = 9,
       bb_can_resize = False, bb_error = False\<rparr>, st_cbb = \<lambda>_. zero_cbb\<lparr>cb_base := True\<rparr>\<rparr> = Some (True, st') \<and>
     CBS_get_asn1 CBS_ASN1_OBJECT (contents (st_base st')) = (Some der, []) \<and> OBJ_cbs2nid tables_0 os der = 962"
proof -
  let ?st = "\<lparr>st_base = \<lparr>bb_buf = replicate 9 0, bb_len = 0, bb_cap = 9,
       bb_can_resize = False, bb_error = False\<rparr>, st_cbb = \<lambda>_. zero_cbb\<lparr>cb_base := True\<rparr>\<rparr>"
  let ?x = "added_object 962 [42, 3] (Some [120]) None"
  obtain os where os: "OBJ_create no_oom [49, 46, 50, 46, 51] (Some [120]) None obj_start = Some (962, os)"
    "obj_reach no_oom os [?x]" by (rule reach_123)
  have x: "obj_nid ?x = 962" "bytes_of (obj_data ?x) (obj_length ?x) = [42, 3]"
    by (simp_all add: added_object_def new_object_def bytes_of_def int_size_def)
  have c: "contents (st_base ?st) = []" by (simp add: contents_def)
  have "open_cbb ?st 0" by (simp add: open_cbb_def buf_ok_def zero_cbb_def)
  moreover have "room no_oom (st_base ?st) (length (der_element CBS_ASN1_OBJECT [42, 3]))"
    by (simp add: room_def der_element_def der_tag_def der_len_def tag_class_def tag_num_def asn1_tag_defs)
  ultimately obtain st' e der where
    w: "OBJ_nid2cbb no_oom tables_0 os 0 1 962 ?st = Some (True, st')" "contents (st_base st') = e"
      "CBS_get_asn1 CBS_ASN1_OBJECT (e @ []) = (Some der, [])" "OBJ_cbs2nid tables_0 os der = 962"
    using obj_wire_roundtrip [OF os(2) _ _ tables_0_ok, of "[]" ?x "[]" ?st 0 1 "[]"]
    unfolding x c by auto
  then show ?thesis using os(1) by auto
qed

text \<open>The first registration assumes that its tables are there: if \<open>lh_new\<close> has no memory, an
  insert into a NULL table follows.\<close>

lemma obj_add_object_no_memory:
  "global_added_by_nid os = None \<Longrightarrow> \<not> alloc env 48 \<Longrightarrow> obj_add_object env obj os = None"
  by (simp add: obj_add_object_def lh_new_def lh_insert_ptr_def Let_def)

end
