(* ===== verification/Stack.thy ===== *)
theory Stack
  imports Cbb_Set_Of
begin

text \<open>
  BoringSSL's stacks, \<open>crypto/stack/stack.c\<close>: arrays of pointers that grow, with an optional
  comparison function and a flag that says whether they are sorted by it. A pointer is a number with
  NULL = 0; a function pointer is one too, \<open>call_cmp\<close>, \<open>call_copy\<close> and \<open>call_free\<close> say what its
  function does. \<open>sk_data\<close> is the whole array: \<open>num_alloc\<close> slots, of which the first \<open>num\<close> are in
  use. \<open>env\<close> is the memory of \<open>Cbb\<close>; fresh slots hold whatever \<open>fresh_slots\<close> gives. A stack that may be
  NULL is an option; \<open>sk_push\<close> and \<open>sk_set_cmp_func\<close> read theirs at once. A result \<open>None\<close> of an insertion or a
  deletion is an access past the array. \<open>qsort\<close>, the C library's, leaves elements that compare equal in
  the order an insertion gives; no theorem depends on it.
\<close>

type_synonym ptr = u64

record stack_st =
  sk_count :: u64
  sk_data :: "ptr list"
  sk_sorted :: bool
  sk_num_alloc :: u64
  sk_comp :: ptr

definition kMinSize :: u64 where "kMinSize = 4"

definition sizeof_ptr :: u64 where "sizeof_ptr = 8"

definition sk_new :: "cbb_env \<Rightarrow> ptr \<Rightarrow> stack_st option" where
  "sk_new env cmp_func =
     (if \<not> alloc env 40 then None
      else if \<not> alloc env (sizeof_ptr * kMinSize) then None
      else Some \<lparr>sk_count = 0, sk_data = replicate (unat kMinSize) 0, sk_sorted = False,
        sk_num_alloc = kMinSize, sk_comp = cmp_func\<rparr>)"

definition sk_new_null :: "cbb_env \<Rightarrow> stack_st option" where
  "sk_new_null env = sk_new env 0"

definition sk_num :: "stack_st option \<Rightarrow> u64" where
  "sk_num sk = (case sk of None \<Rightarrow> 0 | Some sk \<Rightarrow> sk_count sk)"

definition sk_zero :: "stack_st option \<Rightarrow> stack_st option" where
  "sk_zero sk =
     (case sk of None \<Rightarrow> None
      | Some sk \<Rightarrow> Some (if sk_count sk = 0 then sk
          else sk\<lparr>sk_data := replicate (unat (sk_count sk)) 0 @ drop (unat (sk_count sk)) (sk_data sk),
            sk_count := 0, sk_sorted := False\<rparr>))"

definition sk_value :: "stack_st option \<Rightarrow> u64 \<Rightarrow> ptr" where
  "sk_value sk i =
     (case sk of None \<Rightarrow> 0 | Some sk \<Rightarrow> if i \<ge> sk_count sk then 0 else sk_data sk ! unat i)"

definition sk_set :: "stack_st option \<Rightarrow> u64 \<Rightarrow> ptr \<Rightarrow> ptr \<times> stack_st option" where
  "sk_set sk i v =
     (case sk of None \<Rightarrow> (0, None)
      | Some sk \<Rightarrow> if i \<ge> sk_count sk then (0, Some sk)
          else (v, Some (sk\<lparr>sk_data := (sk_data sk)[unat i := v]\<rparr>)))"

definition sk_is_sorted :: "stack_st option \<Rightarrow> bool" where
  "sk_is_sorted sk = (case sk of None \<Rightarrow> True | Some sk \<Rightarrow> sk_sorted sk)"

definition sk_pop_free_ex :: "(ptr \<Rightarrow> 's \<Rightarrow> 's) \<Rightarrow> stack_st option \<Rightarrow> 's \<Rightarrow> 's" where
  "sk_pop_free_ex call_free sk s =
     (case sk of None \<Rightarrow> s
      | Some sk \<Rightarrow> fold (\<lambda>p s. if p \<noteq> 0 then call_free p s else s) (take (unat (sk_count sk)) (sk_data sk)) s)"

section \<open>Inserting and deleting\<close>

text \<open>A \<open>memmove\<close> of \<open>n\<close> slots within the array, and a store to a slot.\<close>

definition move_slots :: "nat \<Rightarrow> nat \<Rightarrow> nat \<Rightarrow> ptr list \<Rightarrow> ptr list option" where
  "move_slots dst src n d =
     (if dst + n \<le> length d \<and> src + n \<le> length d
      then Some (take dst d @ take n (drop src d) @ drop (dst + n) d) else None)"

definition put_slot :: "nat \<Rightarrow> ptr \<Rightarrow> ptr list \<Rightarrow> ptr list option" where
  "put_slot i p d = (if i < length d then Some (d[i := p]) else None)"

text \<open>\<open>OPENSSL_realloc\<close> of the array to \<open>n\<close> slots.\<close>

definition fresh_slots :: "cbb_env \<Rightarrow> nat \<Rightarrow> ptr list" where
  "fresh_slots env n = replicate n (0x0101010101010101 * ucast (junk env))"

definition resize_slots :: "cbb_env \<Rightarrow> nat \<Rightarrow> ptr list \<Rightarrow> ptr list" where
  "resize_slots env n d = take n d @ fresh_slots env (n - length d)"

text \<open>\<open>unless_null\<close> is the check \<open>if (sk == NULL) return NULL\<close> or \<open>0\<close> in front of an operation.\<close>

definition unless_null :: "(stack_st \<Rightarrow> (u64 \<times> stack_st) option) \<Rightarrow> stack_st option \<Rightarrow> (u64 \<times> stack_st option) option" where
  "unless_null f sk =
     (case sk of None \<Rightarrow> Some (0, None) | Some sk \<Rightarrow> map_option (\<lambda>(r, sk). (r, Some sk)) (f sk))"

definition grow :: "cbb_env \<Rightarrow> stack_st \<Rightarrow> stack_st option" where
  "grow env sk =
     (if sk_num_alloc sk \<le> sk_count sk + 1 then
        (let new_alloc = push_bit 1 (sk_num_alloc sk);
             alloc_size = new_alloc * sizeof_ptr;
             (new_alloc, alloc_size) =
               (if new_alloc < sk_num_alloc sk \<or> alloc_size div sizeof_ptr \<noteq> new_alloc
                then (sk_num_alloc sk + 1, (sk_num_alloc sk + 1) * sizeof_ptr)
                else (new_alloc, alloc_size))
         in if new_alloc < sk_num_alloc sk \<or> alloc_size div sizeof_ptr \<noteq> new_alloc then None
            else if \<not> alloc env alloc_size then None
            else Some (sk\<lparr>sk_data := resize_slots env (unat new_alloc) (sk_data sk), sk_num_alloc := new_alloc\<rparr>))
      else Some sk)"

definition place :: "ptr \<Rightarrow> u64 \<Rightarrow> stack_st \<Rightarrow> ptr list option" where
  "place p where' sk =
     (if where' \<ge> sk_count sk then put_slot (unat (sk_count sk)) p (sk_data sk)
      else do {
        d \<leftarrow> move_slots (unat (where' + 1)) (unat where') (unat (sk_count sk - where')) (sk_data sk);
        put_slot (unat where') p d })"

definition insert_into :: "cbb_env \<Rightarrow> ptr \<Rightarrow> u64 \<Rightarrow> stack_st \<Rightarrow> (u64 \<times> stack_st) option" where
  "insert_into env p where' sk =
     (case grow env sk of None \<Rightarrow> Some (0, sk)
      | Some sk \<Rightarrow> do {
          data \<leftarrow> place p where' sk;
          Some (sk_count sk + 1, sk\<lparr>sk_data := data, sk_count := sk_count sk + 1, sk_sorted := False\<rparr>)
        })"

definition sk_insert :: "cbb_env \<Rightarrow> stack_st option \<Rightarrow> ptr \<Rightarrow> u64 \<Rightarrow> (u64 \<times> stack_st option) option" where
  "sk_insert env sk p where' = unless_null (insert_into env p where') sk"

definition delete_at :: "u64 \<Rightarrow> stack_st \<Rightarrow> (ptr \<times> stack_st) option" where
  "delete_at where' sk =
     (if where' \<ge> sk_count sk then Some (0, sk)
      else do {
        let ret = sk_data sk ! unat where';
        data \<leftarrow>
          (if where' \<noteq> sk_count sk - 1
           then move_slots (unat where') (unat (where' + 1)) (unat (sk_count sk - where' - 1)) (sk_data sk)
           else Some (sk_data sk));
        Some (ret, sk\<lparr>sk_data := data, sk_count := sk_count sk - 1\<rparr>)
      })"

fun index_from :: "(ptr \<Rightarrow> bool) \<Rightarrow> nat \<Rightarrow> ptr list \<Rightarrow> nat option" where
  "index_from P i [] = None"
| "index_from P i (x # xs) = (if P x then Some i else index_from P (Suc i) xs)"

definition sk_delete :: "stack_st option \<Rightarrow> u64 \<Rightarrow> (ptr \<times> stack_st option) option" where
  "sk_delete sk where' = unless_null (delete_at where') sk"

definition sk_delete_ptr :: "stack_st option \<Rightarrow> ptr \<Rightarrow> (ptr \<times> stack_st option) option" where
  "sk_delete_ptr sk p = unless_null (\<lambda>sk.
     case index_from (\<lambda>x. x = p) 0 (take (unat (sk_count sk)) (sk_data sk)) of
       Some i \<Rightarrow> delete_at (word_of_nat i) sk
     | None \<Rightarrow> Some (0, sk)) sk"

definition sk_shift :: "stack_st option \<Rightarrow> (ptr \<times> stack_st option) option" where
  "sk_shift sk = unless_null (\<lambda>sk. if sk_count sk = 0 then Some (0, sk) else delete_at 0 sk) sk"

definition sk_push :: "cbb_env \<Rightarrow> stack_st \<Rightarrow> ptr \<Rightarrow> (u64 \<times> stack_st option) option" where
  "sk_push env sk p = sk_insert env (Some sk) p (sk_count sk)"

definition sk_pop :: "stack_st option \<Rightarrow> (ptr \<times> stack_st option) option" where
  "sk_pop sk = unless_null (\<lambda>sk.
     if sk_count sk = 0 then Some (0, sk) else delete_at (sk_count sk - 1) sk) sk"

section \<open>Searching and sorting\<close>

text \<open>The binary search of \<open>sk_find\<close>; \<open>cmp\<close> compares the wanted element with the one of a slot. \<open>Err\<close>
  is a failed assertion.\<close>

datatype 'r search = Found 'r | Missing | Err

function search_loop :: "(ptr \<Rightarrow> int) \<Rightarrow> ptr list \<Rightarrow> nat \<Rightarrow> nat \<Rightarrow> nat search" where
  "search_loop cmp d lo hi =
     (if lo < hi then
        let mid = lo + (hi - lo - 1) div 2 in
        if \<not> (lo \<le> mid \<and> mid < hi) then Err
        else let r = cmp (d ! mid) in
          if r > 0 then search_loop cmp d (mid + 1) hi
          else if r < 0 then search_loop cmp d lo mid
          else if hi - lo = 1 then Found mid
          else if \<not> mid + 1 < hi then Err
          else search_loop cmp d lo (mid + 1)
      else if lo = hi then Missing else Err)"
  by pat_completeness auto
termination by (relation "measure (\<lambda>(cmp, d, lo, hi). hi - lo)") auto

declare search_loop.simps [simp del]

definition sk_find :: "(ptr \<Rightarrow> ptr \<Rightarrow> ptr \<Rightarrow> int) \<Rightarrow> stack_st option \<Rightarrow> ptr \<Rightarrow> u64 search" where
  "sk_find call_cmp sk p =
     (let found = (\<lambda>r. case r of None \<Rightarrow> Missing | Some i \<Rightarrow> Found (word_of_nat i)) in
      case sk of None \<Rightarrow> Missing
      | Some sk \<Rightarrow>
        let used = take (unat (sk_count sk)) (sk_data sk) in
        if sk_comp sk = 0 then found (index_from (\<lambda>x. x = p) 0 used)
        else if p = 0 then Missing
        else if \<not> sk_is_sorted (Some sk) then found (index_from (\<lambda>x. call_cmp (sk_comp sk) p x = 0) 0 used)
        else case search_loop (call_cmp (sk_comp sk) p) (sk_data sk) 0 (unat (sk_count sk)) of
            Found i \<Rightarrow> Found (word_of_nat i) | Missing \<Rightarrow> Missing | Err \<Rightarrow> Err)"

definition sk_sort :: "(ptr \<Rightarrow> ptr \<Rightarrow> ptr \<Rightarrow> int) \<Rightarrow> stack_st option \<Rightarrow> stack_st option" where
  "sk_sort call_cmp sk = map_option (\<lambda>sk.
      if sk_comp sk = 0 \<or> sk_sorted sk then sk
      else let n = unat (sk_count sk);
               sk = (if sk_count sk \<ge> 2 then sk\<lparr>sk_data := qsort (call_cmp (sk_comp sk)) (take n (sk_data sk)) @
                       drop n (sk_data sk)\<rparr> else sk)
           in sk\<lparr>sk_sorted := True\<rparr>) sk"

definition sk_set_cmp_func :: "stack_st \<Rightarrow> ptr \<Rightarrow> ptr \<times> stack_st" where
  "sk_set_cmp_func sk cmp_func =
     (let old = sk_comp sk;
          sk = (if sk_comp sk \<noteq> cmp_func then sk\<lparr>sk_sorted := False\<rparr> else sk)
      in (old, sk\<lparr>sk_comp := cmp_func\<rparr>))"

section \<open>Copying\<close>

definition sk_dup :: "cbb_env \<Rightarrow> stack_st option \<Rightarrow> stack_st option" where
  "sk_dup env sk =
     (case sk of None \<Rightarrow> None
      | Some sk \<Rightarrow> (case sk_new env (sk_comp sk) of None \<Rightarrow> None
        | Some ret \<Rightarrow>
          if \<not> alloc env (sizeof_ptr * sk_num_alloc sk) then None
          else let n = unat (sk_count sk);
                   s = resize_slots env (unat (sk_num_alloc sk)) (sk_data ret)
               in Some (ret\<lparr>sk_data := take n (sk_data sk) @ drop n s, sk_count := sk_count sk,
                    sk_sorted := sk_sorted sk, sk_num_alloc := sk_num_alloc sk, sk_comp := sk_comp sk\<rparr>)))"

text \<open>The loop of \<open>sk_deep_copy\<close>: \<open>done\<close> are the slots that are copied, \<open>xs\<close> those that are not. The
  callbacks work on a state of their own.\<close>

fun deep_copy_loop ::
  "(ptr \<Rightarrow> 's \<Rightarrow> ptr \<times> 's) \<Rightarrow> (ptr \<Rightarrow> 's \<Rightarrow> 's) \<Rightarrow> ptr list \<Rightarrow> ptr list \<Rightarrow> 's \<Rightarrow> ptr list option \<times> 's" where
  "deep_copy_loop call_copy call_free copied [] s = (Some copied, s)"
| "deep_copy_loop call_copy call_free copied (x # xs) s =
     (if x = 0 then deep_copy_loop call_copy call_free (copied @ [x]) xs s
      else let (y, s) = call_copy x s in
        if y = 0 then (None, fold (\<lambda>p s. if p \<noteq> 0 then call_free p s else s) copied s)
        else deep_copy_loop call_copy call_free (copied @ [y]) xs s)"

definition sk_deep_copy ::
  "cbb_env \<Rightarrow> (ptr \<Rightarrow> 's \<Rightarrow> ptr \<times> 's) \<Rightarrow> (ptr \<Rightarrow> 's \<Rightarrow> 's) \<Rightarrow> stack_st option \<Rightarrow> 's \<Rightarrow> stack_st option \<times> 's" where
  "sk_deep_copy env call_copy call_free sk s =
     (case sk_dup env sk of None \<Rightarrow> (None, s)
      | Some ret \<Rightarrow>
        let n = unat (sk_count ret) in
        (case deep_copy_loop call_copy call_free [] (take n (sk_data ret)) s of
           (None, s) \<Rightarrow> (None, s)
         | (Some d, s) \<Rightarrow> (Some (ret\<lparr>sk_data := d @ drop n (sk_data ret)\<rparr>), s)))"

end
