(* ===== verification/Stack_Spec.thy ===== *)
theory Stack_Spec
  imports Stack Ordered "HOL-Library.Multiset"
begin

text \<open>
  Stacks as lists. \<open>sk_ok\<close> is the invariant of the array, \<open>sorted_ok\<close> what the flag \<open>sorted\<close> promises;
  both are kept by every operation but \<open>sk_set\<close>, which breaks the second. \<open>list_step\<close> is the abstract
  specification of the operations, on a list and a comparison function.
\<close>

section \<open>The invariant and the contents\<close>

definition elems :: "stack_st \<Rightarrow> ptr list" where
  "elems sk = take (unat (sk_count sk)) (sk_data sk)"

definition sk_ok :: "stack_st \<Rightarrow> bool" where
  "sk_ok sk \<longleftrightarrow> length (sk_data sk) = unat (sk_num_alloc sk) \<and> sk_count sk < sk_num_alloc sk \<and>
     sk_num_alloc sk < 2 ^ 61"

definition sorted_ok :: "(ptr \<Rightarrow> ptr \<Rightarrow> ptr \<Rightarrow> int) \<Rightarrow> stack_st \<Rightarrow> bool" where
  "sorted_ok call_cmp sk \<longleftrightarrow> (sk_sorted sk \<longrightarrow>
     sk_comp sk \<noteq> 0 \<and> sorted_wrt (\<lambda>x y. call_cmp (sk_comp sk) x y \<le> 0) (elems sk))"

lemma sk_okD:
  assumes "sk_ok sk"
  shows "length (elems sk) = unat (sk_count sk)" "unat (sk_count sk) < unat (sk_num_alloc sk)"
    "length (sk_data sk) = unat (sk_num_alloc sk)" "unat (sk_num_alloc sk) < 2 ^ 61"
    "unat (sk_count sk + 1) = Suc (unat (sk_count sk))"
proof -
  show *: "unat (sk_count sk) < unat (sk_num_alloc sk)" "length (sk_data sk) = unat (sk_num_alloc sk)"
    "unat (sk_num_alloc sk) < 2 ^ 61"
    using assms by (simp_all add: sk_ok_def word_less_nat_alt)
  then show "length (elems sk) = unat (sk_count sk)" by (simp add: elems_def)
  show "unat (sk_count sk + 1) = Suc (unat (sk_count sk))"
    using * by (simp add: unat_word_ariths)
qed

lemma sk_new_ok: "sk_new env c = Some sk \<Longrightarrow> sk_ok sk \<and> elems sk = [] \<and> sorted_ok call_cmp sk \<and> sk_comp sk = c"
  by (auto simp: sk_new_def sk_ok_def elems_def sorted_ok_def kMinSize_def split: if_splits)

section \<open>Inserting and deleting\<close>

lemma grow_size:
  assumes n: "unat n < 2 ^ 61" "0 < unat n"
    and m: "(m, s) = (if push_bit 1 n < n \<or> push_bit 1 n * sizeof_ptr div sizeof_ptr \<noteq> push_bit 1 n
       then (n + 1, (n + 1) * sizeof_ptr) else (push_bit 1 n, push_bit 1 n * sizeof_ptr))"
    and "\<not> (m < n \<or> s div sizeof_ptr \<noteq> m)"
  shows "unat n < unat m" "unat m < 2 ^ 61"
proof -
  have "unat (push_bit 1 n) = 2 * unat n"
    using n(1) unat_mult_lem [of n 2] by (simp add: push_bit_eq_mult mult.commute)
  moreover have "unat (n + 1) = Suc (unat n)" using n(1) by (simp add: unat_word_ariths)
  ultimately show "unat n < unat m" using m n(2) by (auto split: if_splits)
  have "unat m = unat s div 8" using assms(4) by (auto simp: sizeof_ptr_def unat_div dest: arg_cong [of _ _ unat])
  then show "unat m < 2 ^ 61" using unat_lt_64 [of s] by (simp add: less_mult_imp_div_less)
qed

text \<open>An insertion puts the element in its place or, without memory, changes nothing.\<close>

lemma resize_slots_prefix:
  "unat n \<le> length d \<Longrightarrow> length d \<le> m \<Longrightarrow> take (unat n) (resize_slots env m d) = take (unat n) d"
  "length (resize_slots env m d) = m"
  by (simp_all add: resize_slots_def fresh_slots_def)


lemma move_up:
  assumes "w < c" "c < length d"
  obtains e where "move_slots (Suc w) w (c - w) d = Some e" "length e = length d"
    "take (Suc c) (e[w := p]) = take w d @ p # drop w (take c d)"
proof (rule that)
  let ?e = "take w d @ [d ! w] @ take (c - w) (drop w d) @ drop (Suc c) d"
  have "take (Suc w) d = take w d @ [d ! w]" using assms by (simp add: take_Suc_conv_app_nth)
  then show "move_slots (Suc w) w (c - w) d = Some ?e" using assms by (simp add: move_slots_def)
  show "length ?e = length d" using assms by simp
  show "take (Suc c) (?e[w := p]) = take w d @ p # drop w (take c d)"
    using assms by (simp add: list_update_append drop_take Suc_diff_le)
qed

lemma place_spec:
  assumes "sk_ok sk"
  obtains d where "place p w sk = Some d" "length d = length (sk_data sk)"
    "take (Suc (unat (sk_count sk))) d = take (unat w) (elems sk) @ p # drop (unat w) (elems sk)"
proof (cases "w \<ge> sk_count sk")
  case True
  then show ?thesis using sk_okD [OF assms] that
    by (simp add: place_def put_slot_def take_Suc_conv_app_nth elems_def word_le_nat_alt)
next
  case False
  then have w: "unat w < unat (sk_count sk)" by (simp add: word_le_nat_alt)
  have u: "unat (w + 1) = Suc (unat w)" "unat (sk_count sk - w) = unat (sk_count sk) - unat w"
    using w sk_okD [OF assms] by (simp_all add: unat_word_ariths unat_sub word_le_nat_alt)
  obtain e where "move_slots (Suc (unat w)) (unat w) (unat (sk_count sk) - unat w) (sk_data sk) = Some e"
    "length e = length (sk_data sk)" "take (Suc (unat (sk_count sk))) (e[unat w := p]) =
       take (unat w) (sk_data sk) @ p # drop (unat w) (take (unat (sk_count sk)) (sk_data sk))"
    using move_up [OF w] sk_okD [OF assms] by metis
  moreover have "unat w < length (sk_data sk)" using w sk_okD [OF assms] by simp
  ultimately show ?thesis
    using False w u by (intro that [of "e[unat w := p]"]) (simp_all add: place_def put_slot_def elems_def min_def)
qed

lemma grow_spec:
  assumes ok: "sk_ok sk" and g: "grow env sk = Some sk1"
  shows "sk_ok sk1 \<and> elems sk1 = elems sk \<and> sk_count sk1 = sk_count sk \<and> sk_comp sk1 = sk_comp sk \<and>
    sk_count sk + 1 < sk_num_alloc sk1"
proof (cases "sk_num_alloc sk \<le> sk_count sk + 1")
  case True
  obtain m s where m: "(m, s) = (if push_bit 1 (sk_num_alloc sk) < sk_num_alloc sk \<or>
         push_bit 1 (sk_num_alloc sk) * sizeof_ptr div sizeof_ptr \<noteq> push_bit 1 (sk_num_alloc sk)
       then (sk_num_alloc sk + 1, (sk_num_alloc sk + 1) * sizeof_ptr)
       else (push_bit 1 (sk_num_alloc sk), push_bit 1 (sk_num_alloc sk) * sizeof_ptr))" by (metis surj_pair)
  then have c: "\<not> (m < sk_num_alloc sk \<or> s div sizeof_ptr \<noteq> m)"
    and sk1: "sk1 = sk\<lparr>sk_data := resize_slots env (unat m) (sk_data sk), sk_num_alloc := m\<rparr>"
    using g True unfolding grow_def Let_def m [symmetric] by (auto split: if_splits)
  have "unat (sk_num_alloc sk) < unat m" "unat m < 2 ^ 61"
    using grow_size [OF _ _ m c] sk_okD [OF ok] by simp_all
  moreover have "unat (sk_count sk + 1) \<le> unat (sk_num_alloc sk)" using sk_okD [OF ok] by simp
  ultimately show ?thesis using sk_okD [OF ok]
    by (simp add: sk1 sk_ok_def elems_def word_less_nat_alt resize_slots_prefix)
next
  case False
  then show ?thesis using g ok by (simp add: grow_def)
qed

lemma insert_into_spec:
  assumes ok: "sk_ok sk"
  shows "\<exists>n sk'. insert_into env p w sk = Some (n, sk') \<and> sk_ok sk' \<and> sk_comp sk' = sk_comp sk \<and>
    (if n = 0 then sk' = sk
     else unat n = Suc (length (elems sk)) \<and> \<not> sk_sorted sk' \<and>
       elems sk' = take (unat w) (elems sk) @ p # drop (unat w) (elems sk))"
proof (cases "grow env sk")
  case None
  then show ?thesis using ok by (simp add: insert_into_def)
next
  case (Some sk1)
  note g = grow_spec [OF ok Some]
  obtain d where d: "place p w sk1 = Some d" "length d = length (sk_data sk1)"
    "take (Suc (unat (sk_count sk1))) d = take (unat w) (elems sk1) @ p # drop (unat w) (elems sk1)"
    using place_spec g by blast
  have "unat (sk_count sk + 1) = Suc (unat (sk_count sk))" using sk_okD [OF ok] by simp
  moreover from this have "sk_count sk + 1 \<noteq> 0" by (metis Zero_not_Suc unat_0)
  moreover have "elems (sk1\<lparr>sk_data := d, sk_count := sk_count sk + 1, sk_sorted := False\<rparr>) =
      take (unat w) (elems sk) @ p # drop (unat w) (elems sk)"
    using d g sk_okD [OF ok] by (simp add: elems_def [of "sk1\<lparr>sk_data := d, sk_count := n, sk_sorted := b\<rparr>" for n b])
  ultimately show ?thesis using g d Some sk_okD [OF ok]
    by (simp add: insert_into_def sk_ok_def)
qed

text \<open>A deletion returns the element and takes it out.\<close>

lemma delete_at_spec:
  assumes ok: "sk_ok sk"
  shows "\<exists>sk'. delete_at w sk = Some (if unat w < length (elems sk) then elems sk ! unat w else 0, sk') \<and> sk_ok sk' \<and>
    sk_comp sk' = sk_comp sk \<and> sk_sorted sk' = sk_sorted sk \<and>
    elems sk' = take (unat w) (elems sk) @ drop (Suc (unat w)) (elems sk)"
proof (cases "unat w < unat (sk_count sk)")
  case w: True
  let ?c = "unat (sk_count sk)" and ?d = "sk_data sk"
  have c: "unat (sk_count sk - 1) = ?c - 1" using w by (simp add: unat_sub word_le_nat_alt)
  have len: "?c < length ?d" using sk_okD [OF ok] by simp
  have ok': "sk_ok (sk\<lparr>sk_data := d, sk_count := sk_count sk - 1\<rparr>)" if "length d = length ?d" for d
    using ok that c w by (simp add: sk_ok_def word_less_nat_alt less_imp_diff_less)
  have e: "elems sk ! unat w = ?d ! unat w" using w by (simp add: elems_def)
  show ?thesis
  proof (cases "w = sk_count sk - 1")
    case True
    then show ?thesis using w ok' [of ?d] c e sk_okD [OF ok]
      by (simp add: delete_at_def word_le_nat_alt elems_def min_def)
  next
    case False
    then have w1: "Suc (unat w) < ?c" using w c False by (metis Suc_lessI diff_Suc_1 unat_arith_simps(3))
    have u: "unat (w + 1) = Suc (unat w)" "unat (sk_count sk - w - 1) = ?c - unat w - 1"
      using w w1 sk_okD [OF ok] by (simp_all add: unat_word_ariths unat_sub word_le_nat_alt)
    let ?m = "take (unat w) ?d @ take (?c - unat w - 1) (drop (Suc (unat w)) ?d) @ drop (?c - 1) ?d"
    have "move_slots (unat w) (unat (w + 1)) (unat (sk_count sk - w - 1)) ?d = Some ?m"
      using u w1 len by (simp add: move_slots_def)
    moreover have "length ?m = length ?d" using w1 len by simp
    moreover have "take (?c - 1) ?m = take (unat w) (take ?c ?d) @ drop (Suc (unat w)) (take ?c ?d)"
      using w1 len by (auto simp: drop_take min_def not_le)
    ultimately show ?thesis using w ok' c e False sk_okD [OF ok]
      by (simp add: delete_at_def word_le_nat_alt elems_def)
  qed
next
  case False
  then show ?thesis using ok sk_okD [OF ok] by (simp add: delete_at_def word_le_nat_alt)
qed

section \<open>Searching\<close>

definition first_match :: "(ptr \<Rightarrow> bool) \<Rightarrow> ptr list \<Rightarrow> nat \<Rightarrow> bool" where
  "first_match P xs i \<longleftrightarrow> i < length xs \<and> P (xs ! i) \<and> (\<forall>j<i. \<not> P (xs ! j))"

lemma index_from_first:
  "(case index_from P k xs of None \<Rightarrow> \<forall>x\<in>set xs. \<not> P x | Some n \<Rightarrow> \<exists>i. n = k + i \<and> first_match P xs i)"
proof (induction xs arbitrary: k)
  case (Cons x xs)
  show ?case
  proof (cases "P x")
    case True
    then show ?thesis by (simp add: first_match_def)
  next
    case False
    have "first_match P (x # xs) (Suc i)" if "first_match P xs i" for i
      using that False by (auto simp: first_match_def nth_Cons' less_Suc_eq_0_disj)
    then show ?thesis using Cons [of "Suc k"] False by (fastforce split: option.splits)
  qed
qed simp

lemma first_match_unique: "first_match P xs i \<Longrightarrow> first_match P xs j \<Longrightarrow> i = j"
  by (metis first_match_def nat_neq_iff)

lemma index_from_eq:
  "index_from P 0 xs = Some i \<longleftrightarrow> first_match P xs i"
  "index_from P 0 xs = None \<longleftrightarrow> (\<forall>x\<in>set xs. \<not> P x)"
proof -
  have none: "\<forall>x\<in>set xs. \<not> P x \<Longrightarrow> \<not> first_match P xs i" for i
    using nth_mem [of i xs] by (auto simp: first_match_def)
  show "index_from P 0 xs = Some i \<longleftrightarrow> first_match P xs i"
    using index_from_first [where P = P and k = 0 and xs = xs] none first_match_unique
    by (auto split: option.splits)
  have "first_match P xs j \<Longrightarrow> \<exists>x\<in>set xs. P x" for j by (auto simp: first_match_def)
  then show "index_from P 0 xs = None \<longleftrightarrow> (\<forall>x\<in>set xs. \<not> P x)"
    using index_from_first [where P = P and k = 0 and xs = xs] by (auto split: option.splits)
qed

text \<open>The binary search finds the first match, and no assertion fails. Its interval keeps a match below
  its upper end if there is one from there on.\<close>

lemma search_loop_first:
  assumes "ascending cmp (take n d)" "n \<le> length d" "lo \<le> hi" "hi \<le> n"
    and "\<forall>i<lo. cmp (d ! i) \<noteq> 0"
    and "\<forall>i. hi \<le> i \<longrightarrow> i < n \<longrightarrow> cmp (d ! i) = 0 \<longrightarrow> (\<exists>j. lo \<le> j \<and> j < hi \<and> cmp (d ! j) = 0)"
  shows "search_loop cmp d lo hi =
    (case index_from (\<lambda>x. cmp x = 0) 0 (take n d) of None \<Rightarrow> Missing | Some i \<Rightarrow> Found i)"
  using assms
proof (induction cmp d lo hi rule: search_loop.induct)
  case (1 cmp d lo hi)
  show ?case
  proof (cases "lo < hi")
    case False
    then have "\<forall>x\<in>set (take n d). cmp x \<noteq> 0"
      using "1.prems" by (auto simp: in_set_conv_nth) (metis le_antisym not_le)
    then have "index_from (\<lambda>x. cmp x = 0) 0 (take n d) = None" by (simp add: index_from_eq)
    then show ?thesis using False "1.prems" by (simp add: search_loop.simps)
  next
    case True
    define mid where "mid = lo + (hi - lo - 1) div 2"
    have mid: "lo \<le> mid" "mid < hi" "mid < n" using True "1.prems" by (auto simp: mid_def)
    have up: "cmp (d ! i) > 0" if "i \<le> mid" "cmp (d ! mid) > 0" for i
      using ascending_nth(2) [OF "1.prems"(1) that(1)] that mid "1.prems" by simp
    have down: "cmp (d ! i) < 0" if "mid \<le> i" "i < n" "cmp (d ! mid) < 0" for i
      using ascending_nth(1) [OF "1.prems"(1) that(1)] that mid "1.prems" by simp
    note step = search_loop.simps [of cmp d lo hi, folded mid_def]
    consider "cmp (d ! mid) > 0" | "cmp (d ! mid) < 0" | "cmp (d ! mid) = 0" "hi - lo = 1"
      | "cmp (d ! mid) = 0" "hi - lo \<noteq> 1" by linarith
    then show ?thesis
    proof cases
      case 1
      have "search_loop cmp d (mid + 1) hi =
        (case index_from (\<lambda>x. cmp x = 0) 0 (take n d) of None \<Rightarrow> Missing | Some i \<Rightarrow> Found i)"
      proof (rule "1.IH"(1) [OF True mid_def _ refl])
        show "\<forall>i<mid + 1. cmp (d ! i) \<noteq> 0" using up [OF _ 1] by (metis Suc_eq_plus1 less_Suc_eq_le less_irrefl)
        show "\<forall>i\<ge>hi. i < n \<longrightarrow> cmp (d ! i) = 0 \<longrightarrow> (\<exists>j\<ge>mid + 1. j < hi \<and> cmp (d ! j) = 0)"
          using "1.prems"(6) up [OF _ 1] by (metis less_irrefl not_less_eq_eq Suc_eq_plus1)
      qed (use 1 mid "1.prems" in auto)
      then show ?thesis using True mid 1 by (simp add: step Let_def)
    next
      case 2
      have "search_loop cmp d lo mid =
        (case index_from (\<lambda>x. cmp x = 0) 0 (take n d) of None \<Rightarrow> Missing | Some i \<Rightarrow> Found i)"
      proof (rule "1.IH"(2) [OF True mid_def _ refl])
        show "\<forall>i\<ge>mid. i < n \<longrightarrow> cmp (d ! i) = 0 \<longrightarrow> (\<exists>j\<ge>lo. j < mid \<and> cmp (d ! j) = 0)"
          using down 2 by fastforce
      qed (use 2 mid "1.prems" in auto)
      then show ?thesis using True mid 2 by (simp add: step Let_def)
    next
      case 3
      then have "mid = lo" by (simp add: mid_def)
      then have "first_match (\<lambda>x. cmp x = 0) (take n d) mid" using "1.prems" 3 mid by (simp add: first_match_def)
      then have "index_from (\<lambda>x. cmp x = 0) 0 (take n d) = Some mid" by (simp add: index_from_eq)
      then show ?thesis using True mid 3 by (simp add: step Let_def)
    next
      case 4
      then have "mid + 1 < hi" using True by (simp add: mid_def)
      have "search_loop cmp d lo (mid + 1) =
        (case index_from (\<lambda>x. cmp x = 0) 0 (take n d) of None \<Rightarrow> Missing | Some i \<Rightarrow> Found i)"
        by (rule "1.IH"(3) [OF True mid_def _ refl])
          (use 4 mid "1.prems" \<open>mid + 1 < hi\<close> in auto)
      then show ?thesis using True mid 4 \<open>mid + 1 < hi\<close> by (simp add: step Let_def)
    qed
  qed
qed

text \<open>What \<open>sk_find\<close> looks for, and what it finds.\<close>

definition find_in :: "(ptr \<Rightarrow> ptr \<Rightarrow> ptr \<Rightarrow> int) \<Rightarrow> ptr \<Rightarrow> ptr \<Rightarrow> ptr list \<Rightarrow> u64 search" where
  "find_in call_cmp c p xs =
     (if c \<noteq> 0 \<and> p = 0 then Missing
      else case index_from (\<lambda>x. if c = 0 then x = p else call_cmp c p x = 0) 0 xs of
        None \<Rightarrow> Missing | Some i \<Rightarrow> Found (word_of_nat i))"

lemma sk_find_spec:
  assumes ok: "sk_ok sk" "sorted_ok call_cmp sk" and cmp: "\<And>c. c \<noteq> 0 \<Longrightarrow> comparison (call_cmp c)"
  shows "sk_find call_cmp (Some sk) p = find_in call_cmp (sk_comp sk) p (elems sk)"
proof (cases "sk_comp sk = 0 \<or> p = 0 \<or> \<not> sk_sorted sk")
  case True
  then show ?thesis
    by (cases "sk_comp sk = 0") (auto simp: sk_find_def find_in_def elems_def sk_is_sorted_def Let_def)
next
  case False
  then have s: "sorted_wrt (\<lambda>x y. call_cmp (sk_comp sk) x y \<le> 0) (elems sk)"
    using ok(2) by (simp add: sorted_ok_def)
  have "ascending (call_cmp (sk_comp sk) p) (take (unat (sk_count sk)) (sk_data sk))"
    using comparison.sorted_ascending [OF cmp s] False by (simp add: elems_def)
  then have "search_loop (call_cmp (sk_comp sk) p) (sk_data sk) 0 (unat (sk_count sk)) =
    (case index_from (\<lambda>x. call_cmp (sk_comp sk) p x = 0) 0 (elems sk) of None \<Rightarrow> Missing | Some i \<Rightarrow> Found i)"
    unfolding elems_def by (rule search_loop_first) (use sk_okD [OF ok(1)] in auto)
  then show ?thesis using False
    by (auto simp: sk_find_def find_in_def sk_is_sorted_def split: option.splits)
qed

text \<open>A store by \<open>sk_set\<close>, which keeps the flag \<open>sorted\<close>: when the element in the middle is replaced by
  one greater than \<open>p\<close>, the search only looks at the elements before it.\<close>

lemma sk_set_elems:
  assumes "sk_ok sk" "k < length (elems sk)"
  shows "sk_set (Some sk) (word_of_nat k) v = (v, Some (sk\<lparr>sk_data := (sk_data sk)[k := v]\<rparr>))"
    "elems (sk\<lparr>sk_data := (sk_data sk)[k := v]\<rparr>) = (elems sk)[k := v]"
proof -
  have k: "k < unat (sk_count sk)" and "unat (sk_count sk) < 2 ^ 61"
    using assms(2) sk_okD [OF assms(1)] by auto
  then have "unat (word_of_nat k :: u64) = k"
    by (simp add: unat_of_nat take_bit_nat_eq_self)
  then show "sk_set (Some sk) (word_of_nat k) v = (v, Some (sk\<lparr>sk_data := (sk_data sk)[k := v]\<rparr>))"
    using k by (simp add: sk_set_def word_le_nat_alt)
  show "elems (sk\<lparr>sk_data := (sk_data sk)[k := v]\<rparr>) = (elems sk)[k := v]"
    by (simp add: elems_def take_update_swap)
qed

lemma find_after_store:
  assumes ok: "sk_ok sk" "sorted_ok call_cmp sk" "sk_sorted sk" "comparison (call_cmp (sk_comp sk))"
    and p: "p \<noteq> 0" "call_cmp (sk_comp sk) p v < 0"
    and mid: "mid = (length (elems sk) - 1) div 2" "mid < length (elems sk)"
    and before: "\<forall>i < mid. call_cmp (sk_comp sk) p (elems sk ! i) \<noteq> 0"
  shows "sk_find call_cmp (Some (sk\<lparr>sk_data := (sk_data sk)[mid := v]\<rparr>)) p = Missing"
proof -
  let ?cmp = "call_cmp (sk_comp sk) p" and ?d = "(sk_data sk)[mid := v]"
  let ?n = "unat (sk_count sk)"
  have n: "?n < length (sk_data sk)" "length (elems sk) = ?n"
    using sk_okD [OF ok(1)] by auto
  have c: "sk_comp sk \<noteq> 0" and s: "sorted_wrt (\<lambda>x y. call_cmp (sk_comp sk) x y \<le> 0) (elems sk)"
    using ok(2,3) by (simp_all add: sorted_ok_def)
  have same: "take mid ?d = take mid (elems sk)"
    using mid n by (simp add: elems_def)
  have "sorted_wrt (\<lambda>x y. call_cmp (sk_comp sk) x y \<le> 0) (take mid (elems sk))"
    using s by (rule sorted_wrt_take)
  then have "ascending ?cmp (take mid ?d)"
    unfolding same by (rule comparison.sorted_ascending [OF ok(4)])
  then have "search_loop ?cmp ?d 0 mid =
    (case index_from (\<lambda>x. ?cmp x = 0) 0 (take mid ?d) of None \<Rightarrow> Missing | Some i \<Rightarrow> Found i)"
    by (rule search_loop_first) (use mid n in auto)
  also have "index_from (\<lambda>x. ?cmp x = 0) 0 (take mid ?d) = None"
    unfolding same index_from_eq using before mid(2) by (auto simp: in_set_conv_nth)
  finally have "search_loop ?cmp ?d 0 mid = Missing" by simp
  then have "search_loop ?cmp ?d 0 ?n = Missing"
    using mid n p(2) by (subst search_loop.simps) (auto simp: Let_def)
  then show ?thesis
    using c p(1) ok(3) by (simp add: sk_find_def sk_is_sorted_def Let_def)
qed

section \<open>The operations, and lists\<close>

text \<open>The calls, without \<open>sk_set\<close>; \<open>Found\<close> holds a result, \<open>Found 0\<close> that of a function without one.\<close>

datatype sk_call = Num | Value u64 | Find ptr | Insert ptr u64 | Push ptr | Delete u64 | Delete_ptr ptr
  | Pop | Shift | Zero | Sort | Set_cmp ptr

definition found :: "(u64 \<times> stack_st option) option \<Rightarrow> (u64 search \<times> stack_st) option" where
  "found r = (case r of Some (n, Some sk) \<Rightarrow> Some (Found n, sk) | _ \<Rightarrow> None)"

fun sk_do :: "cbb_env \<Rightarrow> (ptr \<Rightarrow> ptr \<Rightarrow> ptr \<Rightarrow> int) \<Rightarrow> sk_call \<Rightarrow> stack_st \<Rightarrow> (u64 search \<times> stack_st) option" where
  "sk_do env call_cmp Num sk = Some (Found (sk_num (Some sk)), sk)"
| "sk_do env call_cmp (Value i) sk = Some (Found (sk_value (Some sk) i), sk)"
| "sk_do env call_cmp (Find p) sk = Some (sk_find call_cmp (Some sk) p, sk)"
| "sk_do env call_cmp (Insert p w) sk = found (sk_insert env (Some sk) p w)"
| "sk_do env call_cmp (Push p) sk = found (sk_push env sk p)"
| "sk_do env call_cmp (Delete w) sk = found (sk_delete (Some sk) w)"
| "sk_do env call_cmp (Delete_ptr p) sk = found (sk_delete_ptr (Some sk) p)"
| "sk_do env call_cmp Pop sk = found (sk_pop (Some sk))"
| "sk_do env call_cmp Shift sk = found (sk_shift (Some sk))"
| "sk_do env call_cmp Zero sk = found (Some (0, sk_zero (Some sk)))"
| "sk_do env call_cmp Sort sk = found (Some (0, sk_sort call_cmp (Some sk)))"
| "sk_do env call_cmp (Set_cmp c) sk = (let (old, sk) = sk_set_cmp_func sk c in Some (Found old, sk))"

fun sk_run :: "cbb_env \<Rightarrow> (ptr \<Rightarrow> ptr \<Rightarrow> ptr \<Rightarrow> int) \<Rightarrow> sk_call list \<Rightarrow> stack_st \<Rightarrow> (u64 search list \<times> stack_st) option" where
  "sk_run env call_cmp [] sk = Some ([], sk)"
| "sk_run env call_cmp (c # cs) sk =
     (case sk_do env call_cmp c sk of None \<Rightarrow> None
      | Some (r, sk) \<Rightarrow> map_option (\<lambda>(rs, sk). (r # rs, sk)) (sk_run env call_cmp cs sk))"

text \<open>The specification: a list and a comparison function.\<close>

definition removed :: "nat \<Rightarrow> ptr list \<Rightarrow> ptr list" where
  "removed i xs = take i xs @ drop (Suc i) xs"

definition nth_or_null :: "nat \<Rightarrow> ptr list \<Rightarrow> ptr" where
  "nth_or_null i xs = (if i < length xs then xs ! i else 0)"

inductive list_step ::
  "(ptr \<Rightarrow> ptr \<Rightarrow> ptr \<Rightarrow> int) \<Rightarrow> sk_call \<Rightarrow> ptr \<times> ptr list \<Rightarrow> u64 search \<Rightarrow> ptr \<times> ptr list \<Rightarrow> bool"
  for call_cmp where
  Num: "list_step call_cmp Num (c, xs) (Found (word_of_nat (length xs))) (c, xs)"
| Value: "list_step call_cmp (Value i) (c, xs) (Found (nth_or_null (unat i) xs)) (c, xs)"
| Find: "list_step call_cmp (Find p) (c, xs) (find_in call_cmp c p xs) (c, xs)"
| Insert: "list_step call_cmp (Insert p w) (c, xs) (Found (word_of_nat (Suc (length xs))))
    (c, take (unat w) xs @ p # drop (unat w) xs)"
| Insert_fails: "list_step call_cmp (Insert p w) (c, xs) (Found 0) (c, xs)"
| Push: "list_step call_cmp (Push p) (c, xs) (Found (word_of_nat (Suc (length xs)))) (c, xs @ [p])"
| Push_fails: "list_step call_cmp (Push p) (c, xs) (Found 0) (c, xs)"
| Delete: "list_step call_cmp (Delete w) (c, xs) (Found (nth_or_null (unat w) xs)) (c, removed (unat w) xs)"
| Delete_ptr: "list_step call_cmp (Delete_ptr p) (c, xs) (Found (if p \<in> set xs then p else 0)) (c, remove1 p xs)"
| Pop: "list_step call_cmp Pop (c, xs) (Found (if xs = [] then 0 else last xs)) (c, butlast xs)"
| Shift: "list_step call_cmp Shift (c, xs) (Found (nth_or_null 0 xs)) (c, tl xs)"
| Zero: "list_step call_cmp Zero (c, xs) (Found 0) (c, [])"
| Sort: "mset ys = mset xs \<Longrightarrow> (if c = 0 then ys = xs else sorted_wrt (\<lambda>x y. call_cmp c x y \<le> 0) ys) \<Longrightarrow>
    list_step call_cmp Sort (c, xs) (Found 0) (c, ys)"
| Set_cmp: "list_step call_cmp (Set_cmp c') (c, xs) (Found c) (c', xs)"

inductive list_run ::
  "(ptr \<Rightarrow> ptr \<Rightarrow> ptr \<Rightarrow> int) \<Rightarrow> sk_call list \<Rightarrow> ptr \<times> ptr list \<Rightarrow> u64 search list \<Rightarrow> ptr \<times> ptr list \<Rightarrow> bool"
  for call_cmp where
  stop: "list_run call_cmp [] l [] l"
| step: "list_step call_cmp k l r l' \<Longrightarrow> list_run call_cmp ks l' rs l'' \<Longrightarrow> list_run call_cmp (k # ks) l (r # rs) l''"

definition sk_abs :: "stack_st \<Rightarrow> ptr \<times> ptr list" where
  "sk_abs sk = (sk_comp sk, elems sk)"


lemma sk_insert_step:
  assumes "sk_ok sk" "sorted_ok call_cmp sk"
  obtains r sk' where "found (sk_insert env (Some sk) p w) = Some (r, sk')" "sk_ok sk'" "sorted_ok call_cmp sk'"
    "list_step call_cmp (Insert p w) (sk_abs sk) r (sk_abs sk')"
    "r = Found 0 \<and> sk' = sk \<or> r = Found (word_of_nat (Suc (length (elems sk)))) \<and> sk_comp sk' = sk_comp sk \<and>
       elems sk' = take (unat w) (elems sk) @ p # drop (unat w) (elems sk)"
proof -
  obtain n sk' where i: "insert_into env p w sk = Some (n, sk')" "sk_ok sk'" "sk_comp sk' = sk_comp sk"
    "if n = 0 then sk' = sk
     else unat n = Suc (length (elems sk)) \<and> \<not> sk_sorted sk' \<and>
       elems sk' = take (unat w) (elems sk) @ p # drop (unat w) (elems sk)"
    using insert_into_spec [OF assms(1)] by blast
  have n: "n \<noteq> 0 \<Longrightarrow> n = word_of_nat (Suc (length (elems sk)))" using i(4) by (metis of_nat_unat ucast_id)
  show ?thesis
  proof (cases "n = 0")
    case True
    then show ?thesis using i assms by (intro that) (auto simp: sk_insert_def unless_null_def found_def sk_abs_def intro: list_step.intros)
  next
    case False
    then show ?thesis using i n list_step.Insert [of call_cmp p w "sk_comp sk" "elems sk"]
      by (intro that [of "Found n" sk']) (auto simp: sk_insert_def unless_null_def found_def sk_abs_def sorted_ok_def)
  qed
qed

lemma removed_facts:
  "removed 0 xs = tl xs" "removed (length xs - 1) xs = butlast xs" "length xs \<le> i \<Longrightarrow> removed i xs = xs"
  "sorted_wrt P xs \<Longrightarrow> sorted_wrt P (removed i xs)"
  "first_match (\<lambda>x. x = p) xs i \<Longrightarrow> removed i xs = remove1 p xs"
proof -
  show "removed 0 xs = tl xs" "removed (length xs - 1) xs = butlast xs" "length xs \<le> i \<Longrightarrow> removed i xs = xs"
    by (auto simp: removed_def drop_Suc butlast_conv_take)
  have "sorted_wrt P (take i xs @ drop i xs) \<Longrightarrow> sorted_wrt P (removed i xs)"
    using set_drop_subset_set_drop [of i "Suc i" xs] sorted_wrt_drop [of P "drop i xs" 1]
    by (auto simp: removed_def sorted_wrt_append simp del: append_take_drop_id)
  then show "sorted_wrt P xs \<Longrightarrow> sorted_wrt P (removed i xs)" by simp
  show "first_match (\<lambda>x. x = p) xs i \<Longrightarrow> removed i xs = remove1 p xs"
  proof (induction xs arbitrary: i)
    case (Cons x xs)
    show ?case
    proof (cases i)
      case 0
      then show ?thesis using Cons.prems by (simp add: first_match_def removed_def)
    next
      case (Suc j)
      then have "first_match (\<lambda>x. x = p) xs j" "x \<noteq> p"
        using Cons.prems by (auto simp: first_match_def)
      then show ?thesis using Suc Cons.IH [of j] by (simp add: removed_def)
    qed
  qed (simp add: first_match_def)
qed

lemma sk_delete_step:
  assumes "sk_ok sk" "sorted_ok call_cmp sk"
  obtains sk' where "delete_at w sk = Some (nth_or_null (unat w) (elems sk), sk')" "sk_ok sk'"
    "sorted_ok call_cmp sk'" "sk_abs sk' = (sk_comp sk, removed (unat w) (elems sk))"
  using delete_at_spec [OF assms(1), of w] assms(2) removed_facts(4)
  by (auto simp: nth_or_null_def removed_def sk_abs_def sorted_ok_def)

lemma mset_qsort: "mset (qsort cmp xs) = mset xs"
proof -
  have "mset (insert_elem cmp x ys) = add_mset x (mset ys)" for x ys by (induction ys) auto
  then show ?thesis by (induction xs) (simp_all add: qsort_def)
qed

lemma sk_sort_step:
  assumes ok: "sk_ok sk" "sorted_ok call_cmp sk" and cmp: "\<And>c. c \<noteq> 0 \<Longrightarrow> comparison (call_cmp c)"
  obtains sk' where "sk_sort call_cmp (Some sk) = Some sk'" "sk_ok sk'" "sorted_ok call_cmp sk'"
    "list_step call_cmp Sort (sk_abs sk) (Found 0) (sk_abs sk')"
proof (cases "sk_comp sk = 0 \<or> sk_sorted sk")
  case True
  then have "sk_sort call_cmp (Some sk) = Some sk" by (auto simp: sk_sort_def)
  moreover have "list_step call_cmp Sort (sk_abs sk) (Found 0) (sk_abs sk)"
    using True ok(2) by (auto simp: sk_abs_def sorted_ok_def intro: list_step.Sort)
  ultimately show ?thesis using that ok by blast
next
  case False
  define ys where "ys = (if sk_count sk \<ge> 2 then qsort (call_cmp (sk_comp sk)) (elems sk) else elems sk)"
  define sk' where "sk' = sk\<lparr>sk_data := ys @ drop (unat (sk_count sk)) (sk_data sk), sk_sorted := True\<rparr>"
  note c = cmp [of "sk_comp sk"]
  have ys: "length ys = unat (sk_count sk)" "mset ys = mset (elems sk)"
    using sk_okD [OF ok(1)] by (auto simp: ys_def mset_qsort)
  have s: "sorted_wrt (\<lambda>x y. call_cmp (sk_comp sk) x y \<le> 0) ys"
  proof (cases "sk_count sk \<ge> 2")
    case True
    then show ?thesis using comparison.qsort_sorted [OF c] False by (simp add: ys_def)
  next
    case short: False
    then have "length (elems sk) < 2" using sk_okD [OF ok(1)] by (simp add: word_le_nat_alt)
    then show ?thesis using short by (cases "elems sk") (auto simp: ys_def length_Suc_conv)
  qed
  have e: "elems sk' = ys" using ys by (simp add: elems_def sk'_def)
  have "sk_sort call_cmp (Some sk) = Some sk'"
    using False append_take_drop_id [of "unat (sk_count sk)" "sk_data sk"]
    by (auto simp: sk_sort_def sk'_def ys_def elems_def Let_def)
  moreover have "sk_ok sk'" using ok(1) ys sk_okD [OF ok(1)] by (simp add: sk_ok_def sk'_def)
  moreover have "sorted_ok call_cmp sk'" using s e False by (simp add: sorted_ok_def) (simp add: sk'_def)
  moreover have "list_step call_cmp Sort (sk_abs sk) (Found 0) (sk_abs sk')"
    using s e ys False by (auto simp: sk_abs_def sk'_def intro!: list_step.Sort)
  ultimately show ?thesis using that by blast
qed

lemma delete_found:
  "delete_at w sk = Some (r, sk') \<Longrightarrow> found (unless_null (delete_at w) (Some sk)) = Some (Found r, sk')"
  by (simp add: found_def unless_null_def)

lemma sk_do_step:
  assumes ok: "sk_ok sk" "sorted_ok call_cmp sk" and cmp: "\<And>c. c \<noteq> 0 \<Longrightarrow> comparison (call_cmp c)"
  shows "\<exists>r sk'. sk_do env call_cmp k sk = Some (r, sk') \<and> sk_ok sk' \<and> sorted_ok call_cmp sk' \<and>
    list_step call_cmp k (sk_abs sk) r (sk_abs sk')"
proof (cases k)
  case Num
  have "Found (sk_count sk) = Found (word_of_nat (length (elems sk)))"
    using sk_okD [OF ok(1)] by simp
  then show ?thesis using ok Num list_step.Num [of call_cmp] by (simp add: sk_num_def sk_abs_def)
next
  case (Value i)
  have "sk_value (Some sk) i = nth_or_null (unat i) (elems sk)"
    using sk_okD [OF ok(1)] by (auto simp: sk_value_def nth_or_null_def elems_def word_le_nat_alt)
  then show ?thesis using ok Value list_step.Value [of call_cmp] by (simp add: sk_abs_def)
next
  case (Find p)
  then show ?thesis using ok list_step.Find [of call_cmp] by (simp add: sk_find_spec [OF ok cmp] sk_abs_def)
next
  case (Insert p w)
  then show ?thesis using sk_insert_step [OF ok, of env p w] by (metis sk_do.simps(4))
next
  case (Push p)
  obtain r sk' where i: "found (sk_insert env (Some sk) p (sk_count sk)) = Some (r, sk')" "sk_ok sk'" "sorted_ok call_cmp sk'"
    "r = Found 0 \<and> sk' = sk \<or> r = Found (word_of_nat (Suc (length (elems sk)))) \<and> sk_comp sk' = sk_comp sk \<and>
       elems sk' = elems sk @ [p]"
    using sk_insert_step [OF ok, of env p "sk_count sk"] sk_okD [OF ok(1)] by (metis append_Nil2 drop_all order_refl take_all)
  then have "list_step call_cmp (Push p) (sk_abs sk) r (sk_abs sk')"
    using list_step.Push [of call_cmp] list_step.Push_fails [of call_cmp] by (auto simp: sk_abs_def)
  then show ?thesis using i Push by (simp add: sk_push_def)
next
  case (Delete w)
  obtain sk' where d: "delete_at w sk = Some (nth_or_null (unat w) (elems sk), sk')" "sk_ok sk'"
    "sorted_ok call_cmp sk'" "sk_abs sk' = (sk_comp sk, removed (unat w) (elems sk))"
    using sk_delete_step [OF ok] by blast
  then show ?thesis using Delete list_step.Delete [of call_cmp] delete_found [OF d(1)]
    by (simp add: sk_delete_def sk_abs_def [of sk])
next
  case (Delete_ptr p)
  show ?thesis
  proof (cases "index_from (\<lambda>x. x = p) 0 (elems sk)")
    case None
    then have "p \<notin> set (elems sk)" by (auto simp: index_from_eq)
    then show ?thesis using ok None Delete_ptr list_step.Delete_ptr [of call_cmp p "sk_comp sk" "elems sk"]
      by (simp add: sk_delete_ptr_def unless_null_def found_def sk_abs_def elems_def remove1_idem)
  next
    case (Some i)
    then have f: "first_match (\<lambda>x. x = p) (elems sk) i" by (simp add: index_from_eq)
    then have i: "unat (word_of_nat i :: u64) = i" and p: "p \<in> set (elems sk)" "nth_or_null i (elems sk) = p"
      using sk_okD [OF ok(1)] by (auto simp: first_match_def unat_of_nat nth_or_null_def)
    obtain sk' where d: "delete_at (word_of_nat i) sk = Some (p, sk')" "sk_ok sk'"
      "sorted_ok call_cmp sk'" "sk_abs sk' = (sk_comp sk, remove1 p (elems sk))"
      using sk_delete_step [OF ok, of "word_of_nat i"] i p removed_facts(5) [OF f] by metis
    then show ?thesis using Some p Delete_ptr list_step.Delete_ptr [of call_cmp p "sk_comp sk" "elems sk"]
      by (simp add: sk_delete_ptr_def unless_null_def found_def sk_abs_def [of sk] elems_def)
  qed
next
  case Pop
  show ?thesis
  proof (cases "sk_count sk = 0")
    case True
    then show ?thesis using ok Pop list_step.Pop [of call_cmp "sk_comp sk" "elems sk"]
      by (simp add: sk_pop_def unless_null_def found_def sk_abs_def elems_def)
  next
    case False
    then have "unat (sk_count sk) > 0" by (simp add: unat_gt_0)
    then have c: "unat (sk_count sk - 1) = length (elems sk) - 1" "elems sk \<noteq> []"
      using sk_okD [OF ok(1)] by (auto simp: unat_sub word_le_nat_alt)
    obtain sk' where d: "delete_at (sk_count sk - 1) sk = Some (last (elems sk), sk')" "sk_ok sk'"
      "sorted_ok call_cmp sk'" "sk_abs sk' = (sk_comp sk, butlast (elems sk))"
      using sk_delete_step [OF ok, of "sk_count sk - 1", unfolded c removed_facts(2)] c(2)
      by (metis nth_or_null_def last_conv_nth diff_less length_greater_0_conv zero_less_one)
    then show ?thesis using False c Pop list_step.Pop [of call_cmp "sk_comp sk" "elems sk"]
      by (simp add: sk_pop_def unless_null_def found_def sk_abs_def [of sk])
  qed
next
  case Shift
  show ?thesis
  proof (cases "sk_count sk = 0")
    case True
    then show ?thesis using ok Shift list_step.Shift [of call_cmp "sk_comp sk" "elems sk"]
      by (simp add: sk_shift_def unless_null_def found_def sk_abs_def elems_def nth_or_null_def)
  next
    case False
    obtain sk' where d: "delete_at 0 sk = Some (nth_or_null 0 (elems sk), sk')" "sk_ok sk'"
      "sorted_ok call_cmp sk'" "sk_abs sk' = (sk_comp sk, tl (elems sk))"
      using sk_delete_step [OF ok, of 0] by (auto simp: removed_facts)
    then show ?thesis using False Shift list_step.Shift [of call_cmp "sk_comp sk" "elems sk"]
      by (simp add: sk_shift_def unless_null_def found_def sk_abs_def [of sk])
  qed
next
  case Zero
  have "sk_zero (Some sk) = Some sk' \<Longrightarrow> sk_ok sk' \<and> sorted_ok call_cmp sk' \<and> sk_abs sk' = (sk_comp sk, [])" for sk'
    using ok sk_okD [OF ok(1)] by (cases "sk_count sk = 0")
      (auto simp: sk_zero_def sk_ok_def sorted_ok_def sk_abs_def elems_def word_less_nat_alt)
  moreover obtain sk' where "sk_zero (Some sk) = Some sk'" by (auto simp: sk_zero_def)
  ultimately show ?thesis using Zero list_step.Zero [of call_cmp "sk_comp sk" "elems sk"]
    by (simp add: found_def sk_abs_def [of sk])
next
  case Sort
  obtain sk' where "sk_sort call_cmp (Some sk) = Some sk'" "sk_ok sk'" "sorted_ok call_cmp sk'"
    "list_step call_cmp Sort (sk_abs sk) (Found 0) (sk_abs sk')" using sk_sort_step [OF ok cmp] by blast
  then show ?thesis using Sort by (simp add: found_def)
next
  case (Set_cmp c)
  have "sk_set_cmp_func sk c = (sk_comp sk, sk\<lparr>sk_sorted := (sk_comp sk = c \<and> sk_sorted sk), sk_comp := c\<rparr>)"
    by (simp add: sk_set_cmp_func_def)
  then show ?thesis using ok Set_cmp list_step.Set_cmp [of call_cmp c "sk_comp sk" "elems sk"]
    by (auto simp: sk_ok_def sorted_ok_def sk_abs_def elems_def)
qed

lemma sk_run_step:
  assumes cmp: "\<And>c. c \<noteq> 0 \<Longrightarrow> comparison (call_cmp c)"
  shows "sk_ok sk \<Longrightarrow> sorted_ok call_cmp sk \<Longrightarrow>
    \<exists>rs sk'. sk_run env call_cmp ks sk = Some (rs, sk') \<and> sk_ok sk' \<and> list_run call_cmp ks (sk_abs sk) rs (sk_abs sk')"
proof (induction ks arbitrary: sk)
  case Nil
  then show ?case by (auto intro: list_run.stop)
next
  case (Cons k ks)
  obtain r sk1 where 1: "sk_do env call_cmp k sk = Some (r, sk1)" "sk_ok sk1" "sorted_ok call_cmp sk1"
    "list_step call_cmp k (sk_abs sk) r (sk_abs sk1)"
    using sk_do_step [OF Cons.prems cmp] by blast
  moreover obtain rs sk' where "sk_run env call_cmp ks sk1 = Some (rs, sk')" "sk_ok sk'"
    "list_run call_cmp ks (sk_abs sk1) rs (sk_abs sk')"
    using Cons.IH [OF 1(2,3)] by blast
  ultimately show ?case by (auto intro: list_run.step)
qed

section \<open>Copying\<close>

text \<open>Callbacks that allocate and release elements: \<open>s\<close> is the multiset of the elements alive.\<close>

definition tracks :: "(ptr \<Rightarrow> ptr multiset \<Rightarrow> ptr \<times> ptr multiset) \<Rightarrow> (ptr \<Rightarrow> ptr multiset \<Rightarrow> ptr multiset) \<Rightarrow> bool" where
  "tracks call_copy call_free \<longleftrightarrow>
     (\<forall>x s. snd (call_copy x s) = (if fst (call_copy x s) = 0 then s else add_mset (fst (call_copy x s)) s)) \<and>
     (\<forall>y s. call_free y s = s - {#y#})"

definition allocated :: "ptr list \<Rightarrow> ptr multiset" where
  "allocated xs = mset (filter (\<lambda>x. x \<noteq> 0) xs)"

lemma free_all:
  assumes "tracks call_copy call_free"
  shows "fold (\<lambda>p s. if p \<noteq> 0 then call_free p s else s) xs (s + allocated xs) = s"
  using assms by (induction xs) (auto simp: tracks_def allocated_def)

lemma deep_copy_loop_spec:
  assumes t: "tracks call_copy call_free"
  shows "deep_copy_loop call_copy call_free copied xs (s + allocated copied) = (r, s') \<Longrightarrow>
    (case r of None \<Rightarrow> s' = s
     | Some ys \<Rightarrow> \<exists>zs. ys = copied @ zs \<and> s' = s + allocated ys \<and> list_all2 (\<lambda>x z. z = 0 \<longleftrightarrow> x = 0) xs zs)"
proof (induction xs arbitrary: copied)
  case Nil
  then show ?case by (auto split: option.splits)
next
  case (Cons x xs)
  show ?case
  proof (cases "x = 0")
    case True
    have "deep_copy_loop call_copy call_free (copied @ [0]) xs (s + allocated (copied @ [0])) = (r, s')"
      using Cons.prems True by (simp add: allocated_def)
    from Cons.IH [OF this] show ?thesis using True
      by (auto split: option.splits)
  next
    case False
    obtain y s1 where y: "call_copy x (s + allocated copied) = (y, s1)" by fastforce
    have "snd (call_copy x c) = (if fst (call_copy x c) = 0 then c else add_mset (fst (call_copy x c)) c)" for c
      using t unfolding tracks_def by blast
    from this [of "s + allocated copied"]
    have s1: "s1 = (if y = 0 then s + allocated copied else add_mset y (s + allocated copied))"
      unfolding y fst_conv snd_conv .
    show ?thesis
    proof (cases "y = 0")
      case True
      then show ?thesis using Cons.prems False y s1 free_all [OF t, of copied s] by auto
    next
      case y0: False
      have "deep_copy_loop call_copy call_free (copied @ [y]) xs (s + allocated (copied @ [y])) = (r, s')"
        using Cons.prems False y y0 s1 by (simp add: allocated_def)
      from Cons.IH [OF this] show ?thesis using False y0
        by (auto split: option.splits)
    qed
  qed
qed

lemma sk_dup_spec:
  assumes ok: "sk_ok sk" and dup: "sk_dup env (Some sk) = Some ret"
  shows "sk_ok ret \<and> elems ret = elems sk \<and> sk_comp ret = sk_comp sk \<and> sk_sorted ret = sk_sorted sk"
  using dup sk_okD [OF ok] ok
  by (auto simp: sk_dup_def sk_new_def elems_def sk_ok_def resize_slots_def fresh_slots_def Let_def split: if_splits)

lemma deep_copy_tracks:
  assumes "sk_ok sk" "tracks call_copy call_free"
    and "sk_deep_copy env call_copy call_free (Some sk) s = (r, s')"
  shows "case r of None \<Rightarrow> s' = s
    | Some sk' \<Rightarrow> sk_ok sk' \<and> s' = s + allocated (elems sk') \<and>
        list_all2 (\<lambda>x y. y = 0 \<longleftrightarrow> x = 0) (elems sk) (elems sk')"
proof (cases "sk_dup env (Some sk)")
  case None
  then show ?thesis using assms(3) by (simp add: sk_deep_copy_def)
next
  case (Some ret)
  note d = sk_dup_spec [OF assms(1) Some]
  obtain r' s1 where l: "deep_copy_loop call_copy call_free [] (elems sk) s = (r', s1)" by fastforce
  have c: "case r' of None \<Rightarrow> s1 = s
     | Some ys \<Rightarrow> s1 = s + allocated ys \<and> list_all2 (\<lambda>x y. y = 0 \<longleftrightarrow> x = 0) (elems sk) ys"
    using deep_copy_loop_spec [OF assms(2), of "[]" "elems sk" s r' s1] l
    by (auto simp: allocated_def split: option.splits)
  have e: "take (unat (sk_count ret)) (sk_data ret) = elems sk" using d by (simp add: elems_def)
  show ?thesis
  proof (cases r')
    case None
    then show ?thesis using c assms(3) Some l e by (simp add: sk_deep_copy_def Let_def)
  next
    case (Some ys)
    let ?sk = "ret\<lparr>sk_data := ys @ drop (unat (sk_count ret)) (sk_data ret)\<rparr>"
    have ys: "s1 = s + allocated ys" "list_all2 (\<lambda>x y. y = 0 \<longleftrightarrow> x = 0) (elems sk) ys"
      using c Some by simp_all
    have "length ys = unat (sk_count ret)"
      using list_all2_lengthD [OF ys(2)] d sk_okD [of ret] by simp
    then have "elems ?sk = ys" "sk_ok ?sk" using d sk_okD [of ret] by (simp_all add: elems_def sk_ok_def)
    moreover have "r = Some ?sk" "s' = s1"
      using assms(3) \<open>sk_dup env (Some sk) = Some ret\<close> l e Some by (simp_all add: sk_deep_copy_def Let_def)
    ultimately show ?thesis using ys by simp
  qed
qed

end
