(* ===== verification/Stack_Theorems.thy ===== *)
theory Stack_Theorems
  imports Stack_Spec Bytestring_Theorems
begin

text \<open>
  The properties of stacks, with the comparison of numbers for the witnesses.
\<close>

definition numbers :: "ptr \<Rightarrow> ptr \<Rightarrow> ptr \<Rightarrow> int" where "numbers c x y = uint x - uint y"

definition three :: stack_st where
  "three = \<lparr>sk_count = 3, sk_data = [5, 0, 3, 7], sk_sorted = False, sk_num_alloc = 4, sk_comp = 0\<rparr>"

definition copy_next :: "ptr \<Rightarrow> ptr multiset \<Rightarrow> ptr \<times> ptr multiset" where
  "copy_next x s = (if x = 3 \<or> x = - 1 then (0, s) else (x + 1, add_mset (x + 1) s))"

definition free_one :: "ptr \<Rightarrow> ptr multiset \<Rightarrow> ptr multiset" where
  "free_one y s = s - {#y#}"

definition sorted_three :: stack_st where
  "sorted_three = \<lparr>sk_count = 3, sk_data = [1, 2, 5, 0], sk_sorted = True, sk_num_alloc = 4, sk_comp = 9\<rparr>"

lemma comparison_numbers: "comparison (numbers c)"
  by unfold_locales (auto simp: numbers_def)

definition calls :: "sk_call list" where
  "calls = [Push 7, Insert 3 0, Push 5, Sort, Find 5, Value 2, Delete_ptr 3, Pop, Num]"

text \<open>C38. Whatever operations but \<open>sk_set\<close> are made on a new stack, with whatever memory, every access is
  within the array, no assertion fails and the results are those of a list: positions, searches for
  the first match and removals; an insertion without memory changes nothing and a sorted stack holds
  what it held, in ascending order.\<close>

theorem stack_refines_list:
  assumes "sk_new env c = Some sk" and "\<And>c. c \<noteq> 0 \<Longrightarrow> comparison (call_cmp c)"
  shows "\<exists>rs sk' c' xs. sk_run env call_cmp ks sk = Some (rs, sk') \<and> list_run call_cmp ks (c, []) rs (c', xs) \<and>
    sk_comp sk' = c' \<and> take (unat (sk_count sk')) (sk_data sk') = xs"
proof -
  have new: "sk_ok sk" "sorted_ok call_cmp sk" "sk_abs sk = (c, [])"
    using sk_new_ok [OF assms(1), of call_cmp] by (simp_all add: sk_abs_def)
  obtain rs sk' where "sk_run env call_cmp ks sk = Some (rs, sk')" "list_run call_cmp ks (c, []) rs (sk_abs sk')"
    using sk_run_step [OF assms(2) new(1,2)] new(3) by metis
  then show ?thesis by (auto simp: sk_abs_def elems_def)
qed

lemma stack_refines_list_witness:
  "(\<exists>sk' rs c' xs. sk_run no_oom numbers calls (the (sk_new no_oom 9)) = Some (rs, sk') \<and>
      list_run numbers calls (9, []) rs (c', xs) \<and> sk_comp sk' = c' \<and>
      take (unat (sk_count sk')) (sk_data sk') = xs) \<and>
    map_option fst (sk_run no_oom numbers calls (the (sk_new no_oom 9))) =
      Some [Found 1, Found 2, Found 3, Found 0, Found 1, Found 7, Found 3, Found 7, Found 1]"
proof
  have "\<exists>sk. sk_new no_oom 9 = Some sk" by (simp add: sk_new_def no_oom_def)
  then show "\<exists>sk' rs c' xs. sk_run no_oom numbers calls (the (sk_new no_oom 9)) = Some (rs, sk') \<and>
      list_run numbers calls (9, []) rs (c', xs) \<and> sk_comp sk' = c' \<and> take (unat (sk_count sk')) (sk_data sk') = xs"
    using stack_refines_list [of no_oom 9 _ numbers calls] comparison_numbers by fastforce
  show "map_option fst (sk_run no_oom numbers calls (the (sk_new no_oom 9))) =
      Some [Found 1, Found 2, Found 3, Found 0, Found 1, Found 7, Found 3, Found 7, Found 1]"
    by code_simp
qed

text \<open>C40. \<open>sk_set\<close> keeps the flag \<open>sorted\<close> and so breaks \<open>sk_find\<close>. In any well-formed sorted stack, with any
  comparison functions, let \<open>p\<close> be an element of the second half that nothing in the first half, the middle
  included, is equal to. Storing a greater \<open>v\<close> in the middle succeeds and leaves \<open>p\<close> where it was, and the
  stack is still flagged as sorted; but a search for \<open>p\<close> finds nothing.\<close>

theorem sk_set_breaks_find:
  assumes "sk_ok sk" "sorted_ok call_cmp sk" "sk_sorted sk" "comparison (call_cmp (sk_comp sk))"
    and "mid = (length (elems sk) - 1) div 2" "mid < j" "j < length (elems sk)" "elems sk ! j = p" "p \<noteq> 0"
    and "\<forall>i \<le> mid. call_cmp (sk_comp sk) p (elems sk ! i) \<noteq> 0" "call_cmp (sk_comp sk) p v < 0"
  shows "\<exists>sk'. sk_set (Some sk) (word_of_nat mid) v = (v, Some sk') \<and> sk_sorted sk' \<and>
    elems sk' = (elems sk)[mid := v] \<and> elems sk' ! j = p \<and> sk_find call_cmp (Some sk') p = Missing"
proof -
  have mid: "mid < length (elems sk)" using assms(6,7) by simp
  have before: "\<forall>i < mid. call_cmp (sk_comp sk) p (elems sk ! i) \<noteq> 0" using assms(10) by simp
  show ?thesis
    using sk_set_elems [OF assms(1) mid] find_after_store [OF assms(1-4,9,11,5) mid before] assms(3,6,8)
    by simp
qed

lemma sk_set_breaks_find_witness:
  "\<exists>sk'. sk_set (Some sorted_three) 1 7 = (7, Some sk') \<and> sk_sorted sk' \<and>
    elems sk' = [1, 7, 5] \<and> sk_find numbers (Some sk') 5 = Missing"
proof -
  have e: "elems sorted_three = [1, 2, 5]"
    by (simp add: elems_def sorted_three_def)
  have "sk_ok sorted_three" "sorted_ok numbers sorted_three" "sk_sorted sorted_three"
    by (simp_all add: sk_ok_def sorted_ok_def e) (simp_all add: sorted_three_def numbers_def)
  moreover have "\<forall>i \<le> 1. numbers (sk_comp sorted_three) 5 (elems sorted_three ! i) \<noteq> 0"
    by (auto simp: e numbers_def nth_Cons split: nat.split)
  ultimately show ?thesis
    using sk_set_breaks_find [of sorted_three numbers 1 2 5 7] comparison_numbers
    by (simp add: e numbers_def) blast
qed

text \<open>C39. A deep copy that fails, for whatever reason, releases each copy it made and nothing else; one that
  succeeds holds a copy for each element, NULL for NULL.\<close>

theorem sk_deep_copy_no_leak:
  assumes "sk_ok sk" "tracks call_copy call_free"
    and "sk_deep_copy env call_copy call_free (Some sk) s = (r, s')"
  shows "case r of None \<Rightarrow> s' = s
    | Some sk' \<Rightarrow> sk_ok sk' \<and> s' = s + allocated (elems sk') \<and>
        list_all2 (\<lambda>x y. y = 0 \<longleftrightarrow> x = 0) (elems sk) (elems sk')"
  by (rule deep_copy_tracks [OF assms])

lemma sk_deep_copy_no_leak_witness:
  "sk_deep_copy no_oom copy_next free_one (Some three) {#8#} = (None, {#8#})"
proof -
  let ?r = "sk_deep_copy no_oom copy_next free_one (Some three) {#8#}"
  have "fst ?r = None"
    by (simp add: sk_deep_copy_def sk_dup_def sk_new_def no_oom_def kMinSize_def sizeof_ptr_def resize_slots_def
      fresh_slots_def Let_def three_def copy_next_def)
  then have r: "?r = (None, snd ?r)" by (cases ?r) simp
  have "sk_ok three" by (simp add: sk_ok_def three_def)
  moreover have "tracks copy_next free_one"
    by (auto simp: tracks_def copy_next_def free_one_def simp flip: eq_neg_iff_add_eq_0)
  ultimately have "snd ?r = {#8#}" using sk_deep_copy_no_leak [OF _ _ r] by simp
  then show ?thesis by (subst r) simp
qed

end
