(* ===== verification/Ber.thy ===== *)
theory Ber
  imports Cbb Cbs_Der
begin

text \<open>
  \<open>crypto/bytestring/ber.c\<close>, the conversion of BER to DER, and \<open>asn1_compat.c\<close>. The local variable
  \<open>out_contents_storage\<close> of the frame at depth \<open>d\<close> is CBB \<open>Suc d\<close>, the one of the caller is 0. \<open>None\<close> is a
  failed assertion or a write past a buffer.
\<close>

section \<open>Finding BER\<close>

definition kMaxDepth :: nat where "kMaxDepth = 2048"

definition CBS_ASN1_BITSTRING :: u32 where "CBS_ASN1_BITSTRING = 0x3"
definition CBS_ASN1_UTF8STRING :: u32 where "CBS_ASN1_UTF8STRING = 0xc"
definition CBS_ASN1_NUMERICSTRING :: u32 where "CBS_ASN1_NUMERICSTRING = 0x12"
definition CBS_ASN1_PRINTABLESTRING :: u32 where "CBS_ASN1_PRINTABLESTRING = 0x13"
definition CBS_ASN1_T61STRING :: u32 where "CBS_ASN1_T61STRING = 0x14"
definition CBS_ASN1_VIDEOTEXSTRING :: u32 where "CBS_ASN1_VIDEOTEXSTRING = 0x15"
definition CBS_ASN1_IA5STRING :: u32 where "CBS_ASN1_IA5STRING = 0x16"
definition CBS_ASN1_GRAPHICSTRING :: u32 where "CBS_ASN1_GRAPHICSTRING = 0x19"
definition CBS_ASN1_VISIBLESTRING :: u32 where "CBS_ASN1_VISIBLESTRING = 0x1a"
definition CBS_ASN1_GENERALSTRING :: u32 where "CBS_ASN1_GENERALSTRING = 0x1b"
definition CBS_ASN1_UNIVERSALSTRING :: u32 where "CBS_ASN1_UNIVERSALSTRING = 0x1c"
definition CBS_ASN1_BMPSTRING :: u32 where "CBS_ASN1_BMPSTRING = 0x1e"

lemmas string_tag_defs = CBS_ASN1_BITSTRING_def CBS_ASN1_OCTETSTRING_def CBS_ASN1_UTF8STRING_def
  CBS_ASN1_NUMERICSTRING_def CBS_ASN1_PRINTABLESTRING_def CBS_ASN1_T61STRING_def CBS_ASN1_VIDEOTEXSTRING_def
  CBS_ASN1_IA5STRING_def CBS_ASN1_GRAPHICSTRING_def CBS_ASN1_VISIBLESTRING_def CBS_ASN1_GENERALSTRING_def
  CBS_ASN1_UNIVERSALSTRING_def CBS_ASN1_BMPSTRING_def

definition is_string_type :: "u32 \<Rightarrow> bool" where
  "is_string_type tag =
     (tag AND NOT CBS_ASN1_CONSTRUCTED \<in> {CBS_ASN1_BITSTRING, CBS_ASN1_OCTETSTRING, CBS_ASN1_UTF8STRING,
        CBS_ASN1_NUMERICSTRING, CBS_ASN1_PRINTABLESTRING, CBS_ASN1_T61STRING, CBS_ASN1_VIDEOTEXSTRING,
        CBS_ASN1_IA5STRING, CBS_ASN1_GRAPHICSTRING, CBS_ASN1_VISIBLESTRING, CBS_ASN1_GENERALSTRING,
        CBS_ASN1_UNIVERSALSTRING, CBS_ASN1_BMPSTRING})"

text \<open>The test for an indefinite length, on an element and the length of its header.\<close>

definition is_indefinite :: "cbs \<Rightarrow> u64 \<Rightarrow> bool" where
  "is_indefinite contents hlen \<longleftrightarrow> CBS_len contents = unat hlen \<and> hlen > 0 \<and>
     CBS_data contents ! (unat hlen - 1) = 0x80"

lemma is_element_header:
  assumes "is_element ber (e, tag, h)"
  shows "0 < unat h" "e \<noteq> []"
proof -
  consider (der) body where "length body < 2 ^ 32" "e = der_element tag body"
      "h = word_of_nat (header_len tag (length body))"
    | (indef) "e = der_tag tag @ [0x80]" "h = word_of_nat (length e)"
    using assms by (auto simp: is_element_def)
  then have "0 < unat h \<and> e \<noteq> []"
  proof cases
    case der
    then have "unat h = header_len tag (length body)" by (simp add: unat_header_len)
    then show ?thesis using der length_der_tag [of tag] by (simp add: header_len_def der_element_def)
  next
    case indef
    then have "unat h = length e"
      unfolding indef(2) using length_der_tag [of tag] by (intro unat_of_nat_64) simp
    then show ?thesis using indef by simp
  qed
  then show "0 < unat h" "e \<noteq> []" by auto
qed

lemma ber_element_shorter:
  assumes "CBS_get_any_ber_asn1_element s = (Some (e, tag, h), s')"
  shows "length s' < length s"
    and "CBS_skip (unat h) e = (Some u, e') \<Longrightarrow> length e' < length s"
  using assms is_element_header [of True e tag h]
  by (auto simp: CBS_get_any_ber_asn1_element_def any_element_iff CBS_skip_def cbs_get_def split: if_splits)

text \<open>\<open>cbs_find_ber\<close> and its loop: \<open>None\<close> is failure, \<open>Some found\<close> success with \<open>*ber_found\<close>.\<close>

function cbs_find_ber :: "cbs \<Rightarrow> nat \<Rightarrow> bool option"
  and find_ber_loop :: "cbs \<Rightarrow> bool \<Rightarrow> nat \<Rightarrow> bool option" where
  "cbs_find_ber orig_in depth =
     (if depth > kMaxDepth then None else find_ber_loop orig_in False depth)"
| "find_ber_loop cbs ber_found depth =
     (if CBS_len cbs > 0 then
        (case CBS_get_any_ber_asn1_element cbs of (None, cbs) \<Rightarrow> None
         | (Some (contents, tag, hlen), cbs) \<Rightarrow>
             if is_indefinite contents hlen then Some True
             else if tag AND CBS_ASN1_CONSTRUCTED \<noteq> 0 then
               if is_string_type tag then Some True
               else (case CBS_skip (unat hlen) contents of (None, contents) \<Rightarrow> None
                 | (Some _, contents) \<Rightarrow>
                     (case cbs_find_ber contents (depth + 1) of None \<Rightarrow> None
                      | Some ber_found \<Rightarrow> find_ber_loop cbs ber_found depth))
             else find_ber_loop cbs ber_found depth)
      else Some ber_found)"
  by pat_completeness auto
termination
  by (relation "measure (case_sum (\<lambda>(s, d). 2 * length s + 1) (\<lambda>(s, f, d). 2 * length s))")
    (auto simp: eq_commute [of "(_, _)"] dest!: ber_element_shorter(2) [rotated]
      dest: ber_element_shorter(1))

declare cbs_find_ber.simps [simp del] find_ber_loop.simps [simp del]

section \<open>Converting\<close>

definition is_eoc :: "u64 \<Rightarrow> cbs \<Rightarrow> bool" where
  "is_eoc hlen contents \<longleftrightarrow> hlen = 2 \<and> CBS_len contents = 2 \<and>
     CBS_data contents = [0, 0]"

text \<open>Every turn of the loop starts as the function does: the assertion and the check of the depth,
  which do not change, are repeated. The result is the one of the C function, what is left of \<open>in\<close> and
  the CBBs.\<close>

partial_function (option) cbs_convert_ber ::
  "cbb_env \<Rightarrow> cbs \<Rightarrow> cbb_id \<Rightarrow> u32 \<Rightarrow> bool \<Rightarrow> nat \<Rightarrow> cbb_state \<Rightarrow> (bool \<times> cbs \<times> cbb_state) option" where
  "cbs_convert_ber env cbs out string_tag looking_for_eoc depth st =
     (if string_tag AND CBS_ASN1_CONSTRUCTED \<noteq> 0 then None
      else if depth > kMaxDepth then Some (False, cbs, st)
      else if CBS_len cbs > 0 then
        (case CBS_get_any_ber_asn1_element cbs of (None, cbs) \<Rightarrow> Some (False, cbs, st)
         | (Some (contents, tag, hlen), cbs) \<Rightarrow>
           if is_eoc hlen contents then Some (looking_for_eoc, cbs, st)
           else if string_tag \<noteq> 0 \<and> tag AND NOT CBS_ASN1_CONSTRUCTED \<noteq> string_tag then Some (False, cbs, st)
           else
             let constructed_string = (string_tag = 0 \<and> tag AND CBS_ASN1_CONSTRUCTED \<noteq> 0 \<and> is_string_type tag);
                 out_tag = (if constructed_string then tag AND NOT CBS_ASN1_CONSTRUCTED else tag);
                 child_string_tag = (if constructed_string then out_tag else string_tag);
                 out_contents = (if string_tag \<noteq> 0 then out else Suc depth)
             in do {
               (ok, st) \<leftarrow> (if string_tag \<noteq> 0 then Some (True, st) else CBB_add_asn1 env out (Suc depth) out_tag st);
               if \<not> ok then Some (False, cbs, st)
               else do {
                 (ok, cbs, st) \<leftarrow>
                   (if is_indefinite contents hlen
                    then cbs_convert_ber env cbs out_contents child_string_tag True (depth + 1) st
                    else (case CBS_skip (unat hlen) contents of (None, contents) \<Rightarrow> Some (False, cbs, st)
                      | (Some _, contents) \<Rightarrow>
                        if tag AND CBS_ASN1_CONSTRUCTED \<noteq> 0 then do {
                          (ok, contents, st) \<leftarrow>
                            cbs_convert_ber env contents out_contents child_string_tag False (depth + 1) st;
                          Some (ok, cbs, st) }
                        else do {
                          (ok, st) \<leftarrow> CBB_add_bytes env out_contents (CBS_data contents) st;
                          Some (ok, cbs, st) }));
                 if \<not> ok then Some (False, cbs, st)
                 else do {
                   (ok, st) \<leftarrow> CBB_flush env out st;
                   if \<not> ok then Some (False, cbs, st)
                   else cbs_convert_ber env cbs out string_tag looking_for_eoc depth st } } })
      else Some (\<not> looking_for_eoc, cbs, st))"

text \<open>\<open>locals\<close> is the memory of the local CBBs, of which \<open>cbb\<close> is 0; releasing them on failure leaves
  nothing. The result is \<open>out\<close> and \<open>*out_storage\<close>.\<close>

definition CBS_asn1_ber_to_der :: "cbb_env \<Rightarrow> cbb_state \<Rightarrow> cbs \<Rightarrow> (cbs \<times> u8 list option) parse option" where
  "CBS_asn1_ber_to_der env locals cbs =
     (case cbs_find_ber cbs 0 of None \<Rightarrow> Some (None, cbs)
      | Some conversion_needed \<Rightarrow>
        if \<not> conversion_needed then
          Some (p_then (CBS_get_any_asn1_element cbs) (\<lambda>(out, tag, hlen) cbs. (Some (out, None), cbs)))
        else (case CBB_init env 0 (word_of_nat (CBS_len cbs)) locals of (False, st) \<Rightarrow> Some (None, cbs)
          | (True, st) \<Rightarrow> do {
              (ok, cbs, st) \<leftarrow> cbs_convert_ber env cbs 0 0 False 0 st;
              if \<not> ok then Some (None, cbs)
              else do {
                (r, st) \<leftarrow> CBB_finish env 0 True st;
                (case r of None \<Rightarrow> Some (None, cbs)
                 | Some (out_storage, len) \<Rightarrow>
                     Some (Some (CBS_init (take (unat len) out_storage), Some out_storage), cbs)) } }))"

section \<open>Implicitly tagged strings\<close>

lemma get_asn1_shorter: "CBS_get_asn1 tag s = (Some x, s') \<Longrightarrow> length s' < length s"
  by (simp add: asn1.read_iff der_element_def)

function implicit_chunks :: "cbb_env \<Rightarrow> u32 \<Rightarrow> cbs \<Rightarrow> cbb_op" where
  "implicit_chunks env inner_tag child st =
     (if CBS_len child > 0 then
        (case CBS_get_asn1 inner_tag child of (None, child) \<Rightarrow> Some (False, st)
         | (Some chunk, child) \<Rightarrow>
             and_then_opt (CBB_add_bytes env 0 (CBS_data chunk) st) (implicit_chunks env inner_tag child))
      else Some (True, st))"
  by pat_completeness auto
termination
  by (relation "measure (\<lambda>(env, tag, s, st). length s)") (auto dest: get_asn1_shorter [OF sym])

declare implicit_chunks.simps [simp del]

definition CBS_get_asn1_implicit_string ::
  "cbb_env \<Rightarrow> cbb_state \<Rightarrow> u32 \<Rightarrow> u32 \<Rightarrow> cbs \<Rightarrow> (cbs \<times> u8 list option) parse option" where
  "CBS_get_asn1_implicit_string env locals outer_tag inner_tag cbs =
     (if outer_tag AND CBS_ASN1_CONSTRUCTED \<noteq> 0 \<or> inner_tag AND CBS_ASN1_CONSTRUCTED \<noteq> 0 \<or>
         \<not> is_string_type inner_tag then None
      else if CBS_peek_asn1_tag cbs outer_tag then
        Some (p_then (CBS_get_asn1 outer_tag cbs) (\<lambda>out cbs. (Some (out, None), cbs)))
      else (case CBB_init env 0 (word_of_nat (CBS_len cbs)) locals of (False, st) \<Rightarrow> Some (None, cbs)
        | (True, st) \<Rightarrow>
          (case CBS_get_asn1 (outer_tag OR CBS_ASN1_CONSTRUCTED) cbs of (None, cbs) \<Rightarrow> Some (None, cbs)
           | (Some child, cbs) \<Rightarrow> do {
               (ok, st) \<leftarrow> implicit_chunks env inner_tag child st;
               if \<not> ok then Some (None, cbs)
               else do {
                 (r, st) \<leftarrow> CBB_finish env 0 True st;
                 (case r of None \<Rightarrow> Some (None, cbs)
                  | Some (data, len) \<Rightarrow> Some (Some (CBS_init (take (unat len) data), Some data), cbs)) } })))"

section \<open>Finishing in the style of OpenSSL\<close>

text \<open>\<open>outp\<close> is \<open>None\<close> for NULL, \<open>Some None\<close> when \<open>*outp\<close> is NULL, and otherwise holds the bytes from
  \<open>*outp\<close> on. Beside the result: \<open>*outp\<close> or what it pointed to, and how far it has been advanced.\<close>

definition CBB_finish_i2d :: "cbb_env \<Rightarrow> cbb_id \<Rightarrow> u8 list option option \<Rightarrow> cbb_state \<Rightarrow>
    (int \<times> u8 list option option \<times> nat \<times> cbb_state) option" where
  "CBB_finish_i2d env cbb outp st =
     (if \<not> bb_can_resize (st_base st) then None
      else do {
        (r, st) \<leftarrow> CBB_finish env cbb True st;
        (case r of None \<Rightarrow> Some (- 1, outp, 0, CBB_cleanup cbb st)
         | Some (der, dlen) \<Rightarrow>
           let n = unat dlen in
           if dlen > 0x7fffffff then Some (- 1, outp, 0, st)
           else (case outp of None \<Rightarrow> Some (int n, None, 0, st)
             | Some None \<Rightarrow> Some (int n, Some (Some der), 0, st)
             | Some (Some dst) \<Rightarrow>
                 if length dst < n then None
                 else Some (int n, Some (Some (take n der @ drop n dst)), n, st)))
      })"

end
