(* ===== verification/Ber_Spec.thy ===== *)
theory Ber_Spec
  imports Ber Cbb_Values
begin

text \<open>
  What \<open>ber.c\<close> converts. \<open>ber\<close> is the type of BER values, \<open>ber_enc\<close> and \<open>ber_der\<close> their encodings,
  \<open>ber_ok\<close> the values within the limits of the code. \<open>spots\<close> is what the first walk finds, which is less
  than it should. \<open>convert_trees\<close>: the recursive conversion writes the DER encoding, whatever the
  nesting of indefinite lengths and constructed strings.
\<close>

section \<open>Writing and flushing\<close>

text \<open>The contract \<open>cbb_emits\<close> for code that leaves nothing pending, and for code that also reads: \<open>keep rest\<close>
  fixes what it leaves of its input.\<close>

definition writes :: "cbb_env \<Rightarrow> cbb_id \<Rightarrow> cbb_id set \<Rightarrow> cbb_op \<Rightarrow> u8 list \<Rightarrow> bool" where
  "writes env i own f bs \<longleftrightarrow> (\<forall>st. open_cbb st i \<and> room env (st_base st) (length bs) \<longrightarrow>
     (\<exists>st'. f st = Some (True, st') \<and> open_cbb st' i \<and> extends env bs (st_base st) (st_base st') \<and>
        (\<forall>j. j \<notin> own \<longrightarrow> st_cbb st' j = st_cbb st j)))"

definition keep :: "cbs \<Rightarrow> (cbb_state \<Rightarrow> (bool \<times> cbs \<times> cbb_state) option) \<Rightarrow> cbb_op" where
  "keep rest f st = (case f st of Some (ok, s, st') \<Rightarrow> if ok \<and> s \<noteq> rest then None else Some (ok, st') | None \<Rightarrow> None)"

lemma keep_True: "keep rest f st = Some (True, st') \<longleftrightarrow> f st = Some (True, rest, st')"
  by (auto simp: keep_def split: option.splits)

lemma writesI:
  assumes "\<And>st. open_cbb st i \<Longrightarrow> room env (st_base st) (length bs) \<Longrightarrow>
    \<exists>st'. f st = Some (True, st') \<and> open_cbb st' i \<and> extends env bs (st_base st) (st_base st') \<and>
      (\<forall>j. j \<notin> own \<longrightarrow> st_cbb st' j = st_cbb st j)"
  shows "writes env i own f bs"
  using assms by (auto simp: writes_def)

lemma writesE:
  assumes "writes env i own f bs" "open_cbb st i" "room env (st_base st) (length bs)"
  obtains st' where "f st = Some (True, st')" "open_cbb st' i" "extends env bs (st_base st) (st_base st')"
    "\<And>j. j \<notin> own \<Longrightarrow> st_cbb st' j = st_cbb st j"
  using assms unfolding writes_def by blast

lemma writes_mono:
  assumes "writes env i own f bs" "own \<subseteq> own'" "\<And>st st'. f st = Some (True, st') \<Longrightarrow> g st = Some (True, st')"
  shows "writes env i own' g bs"
proof (rule writesI)
  fix st assume "open_cbb st i" "room env (st_base st) (length bs)"
  then obtain st' where "f st = Some (True, st')" "open_cbb st' i" "extends env bs (st_base st) (st_base st')"
    "\<And>j. j \<notin> own \<Longrightarrow> st_cbb st' j = st_cbb st j"
    using writesE [OF assms(1)] by metis
  then show "\<exists>st'. g st = Some (True, st') \<and> open_cbb st' i \<and> extends env bs (st_base st) (st_base st') \<and>
      (\<forall>j. j \<notin> own' \<longrightarrow> st_cbb st' j = st_cbb st j)"
    using assms(2,3) by blast
qed

lemma extends_nil: "open_cbb st i \<Longrightarrow> extends env [] (st_base st) (st_base st)"
  by (simp add: open_cbb_def extends_def)

lemma writes_nothing: "writes env i own (\<lambda>st. Some (True, st)) []"
  by (rule writesI) (auto simp: extends_nil)

lemma writes_seq:
  assumes f: "writes env i own f as" and g: "writes env i own g bs"
  shows "writes env i own (\<lambda>st. and_then_opt (f st) g) (as @ bs)"
proof (rule writesI)
  fix st assume st: "open_cbb st i" "room env (st_base st) (length (as @ bs))"
  then have ok: "buf_ok (st_base st)" by (simp add: open_cbb_def)
  have "room env (st_base st) (length as)" using st(2) by (rule room_mono) simp
  then obtain st1 where 1: "f st = Some (True, st1)" "open_cbb st1 i" "extends env as (st_base st) (st_base st1)"
    "\<And>j. j \<notin> own \<Longrightarrow> st_cbb st1 j = st_cbb st j"
    using writesE [OF f st(1)] by blast
  have "room env (st_base st1) (length bs)" using extends_room [OF 1(3) ok] st(2) by simp
  then obtain st2 where 2: "g st1 = Some (True, st2)" "open_cbb st2 i" "extends env bs (st_base st1) (st_base st2)"
    "\<And>j. j \<notin> own \<Longrightarrow> st_cbb st2 j = st_cbb st1 j"
    using writesE [OF g 1(2)] by blast
  show "\<exists>st'. and_then_opt (f st) g = Some (True, st') \<and> open_cbb st' i \<and>
      extends env (as @ bs) (st_base st) (st_base st') \<and> (\<forall>j. j \<notin> own \<longrightarrow> st_cbb st' j = st_cbb st j)"
    using 1 2 extends_trans [OF 1(3) 2(3)] by auto
qed

lemma writes_appends: "appends env i f bs \<Longrightarrow> writes env i own f bs"
  by (rule writesI) (metis appendsE set_base_simps(1,2))

lemma writes_flush: "writes env i own (CBB_flush env i) []"
  by (rule writesI) (auto simp: flush_open extends_nil)

lemma emits_writes:
  assumes "cbb_emits env i own f bs"
  shows "writes env i own (\<lambda>st. and_then_opt (f st) (CBB_flush env i)) bs"
proof (rule writesI)
  fix st assume "open_cbb st i" "room env (st_base st) (length bs)"
  then show "\<exists>st'. and_then_opt (f st) (CBB_flush env i) = Some (True, st') \<and> open_cbb st' i \<and>
      extends env bs (st_base st) (st_base st') \<and> (\<forall>j. j \<notin> own \<longrightarrow> st_cbb st' j = st_cbb st j)"
    using cbb_emitsE [OF assms] by (metis and_then_opt_simps(2))
qed

lemma writes_emits:
  assumes f: "writes env i own f bs" and i: "i \<notin> own"
  shows "cbb_emits env i own (\<lambda>st. and_then_opt (CBB_flush env i st) f) bs"
proof (rule cbb_emitsI [OF flush_first_and_then])
  fix st assume st: "open_cbb st i" "room env (st_base st) (length bs)"
  then obtain st' where s: "f st = Some (True, st')" "open_cbb st' i" "extends env bs (st_base st) (st_base st')"
    "\<And>j. j \<notin> own \<Longrightarrow> st_cbb st' j = st_cbb st j"
    using writesE [OF f] by blast
  moreover have "cbb_pending i own st st'"
    using s i by (auto simp: cbb_pending_def open_cbb_def intro: exI [of _ "cb_child (st_cbb st i)"])
  ultimately show "\<exists>st1 st2. and_then_opt (CBB_flush env i st) f = Some (True, st1) \<and>
      cbb_pending i own st st1 \<and> CBB_flush env i st1 = Some (True, st2) \<and> open_cbb st2 i \<and>
      extends env bs (st_base st) (st_base st2) \<and> (\<forall>j. j \<notin> own \<longrightarrow> st_cbb st2 j = st_cbb st j)"
    using flush_open [OF s(2)] flush_open [OF st(1)] by auto
qed

lemma flush_started:
  assumes "CBB_add_asn1 env i k tag st = Some (True, st0)" "i \<noteq> k" "CBB_flush env k st0 = Some (True, st1)"
  shows "st1 = st0"
proof -
  have "cb_child (st_cbb st0 k) = None"
    using assms(1,2) by (auto simp: CBB_add_asn1_eq Let_def and_then_opt_True start_child_def set_cbb_def zero_cbb_def)
  then show ?thesis using assms(3) by (subst (asm) CBB_flush.simps) (simp split: if_splits)
qed

lemma writes_child:
  assumes "writes env k own f bs" "i \<noteq> k" "k \<notin> own" "i \<notin> own" "length bs < 2 ^ 32 - 1"
  shows "writes env i (insert k own) (\<lambda>st. and_then_opt (and_then_opt (CBB_add_asn1 env i k tag st) f) (CBB_flush env i))
    (der_element tag bs)"
  by (rule writes_mono [OF emits_writes [OF cbb_emits_asn1_child
        [OF writes_emits [OF assms(1,3)] assms(2-5)]] order_refl])
    (auto simp: asn1_child_def and_then_opt_True dest: flush_started [OF _ assms(2)])

section \<open>BER values\<close>

datatype ber = Primitive u32 "u8 list" | Constructed u32 "ber list" | Indefinite u32 "ber list"

text \<open>The encoding, the contents of a string and the DER encoding of a value.\<close>

fun ber_enc :: "ber \<Rightarrow> u8 list" where
  "ber_enc (Primitive t b) = der_element t b"
| "ber_enc (Constructed t ks) = der_element t (concat (map ber_enc ks))"
| "ber_enc (Indefinite t ks) = der_tag t @ 0x80 # concat (map ber_enc ks) @ [0, 0]"

fun string_body :: "ber \<Rightarrow> u8 list" where
  "string_body (Primitive t b) = b"
| "string_body (Constructed t ks) = concat (map string_body ks)"
| "string_body (Indefinite t ks) = concat (map string_body ks)"

abbreviation untag :: "u32 \<Rightarrow> u32" where
  "untag t \<equiv> t AND NOT CBS_ASN1_CONSTRUCTED"

fun ber_der :: "ber \<Rightarrow> u8 list" where
  "ber_der (Primitive t b) = der_element t b"
| "ber_der (Constructed t ks) =
     (if is_string_type t then der_element (untag t) (concat (map string_body ks))
      else der_element t (concat (map ber_der ks)))"
| "ber_der (Indefinite t ks) =
     (if is_string_type t then der_element (untag t) (concat (map string_body ks))
      else der_element t (concat (map ber_der ks)))"

text \<open>What is written for a value within a constructed string of tag \<open>s\<close>, or outside any if \<open>s\<close> is 0, and
  the tag for the values within it.\<close>

definition ber_out :: "u32 \<Rightarrow> ber \<Rightarrow> u8 list" where
  "ber_out s k = (if s \<noteq> 0 then string_body k else ber_der k)"

definition child_tag :: "u32 \<Rightarrow> u32 \<Rightarrow> u32" where
  "child_tag s t = (if s = 0 \<and> is_string_type t then untag t else s)"

text \<open>Values \<open>cbs_convert_ber\<close> can convert: tags fit their forms, the parts of a string have its tag,
  lengths fit and the nesting is within the limit; the end-of-contents octets are no value.\<close>

fun ber_ok :: "u32 \<Rightarrow> nat \<Rightarrow> ber \<Rightarrow> bool" where
  "ber_ok s d (Primitive t b) \<longleftrightarrow> t AND CBS_ASN1_CONSTRUCTED = 0 \<and> (s \<noteq> 0 \<longrightarrow> t = s) \<and> \<not> (t = 0 \<and> b = []) \<and>
     length b < 2 ^ 32 - 1"
| "ber_ok s d (Constructed t ks) \<longleftrightarrow> t AND CBS_ASN1_CONSTRUCTED \<noteq> 0 \<and> (s \<noteq> 0 \<longrightarrow> untag t = s) \<and> d < kMaxDepth \<and>
     length (concat (map ber_enc ks)) < 2 ^ 32 \<and>
     length (concat (map (ber_out (child_tag s t)) ks)) < 2 ^ 32 - 1 \<and>
     (\<forall>k\<in>set ks. ber_ok (child_tag s t) (Suc d) k)"
| "ber_ok s d (Indefinite t ks) \<longleftrightarrow> t AND CBS_ASN1_CONSTRUCTED \<noteq> 0 \<and> (s \<noteq> 0 \<longrightarrow> untag t = s) \<and> d < kMaxDepth \<and>
     length (concat (map (ber_out (child_tag s t)) ks)) < 2 ^ 32 - 1 \<and>
     (\<forall>k\<in>set ks. ber_ok (child_tag s t) (Suc d) k)"

section \<open>Reading the elements\<close>

lemma untag_facts:
  "untag t AND CBS_ASN1_CONSTRUCTED = 0" "t AND CBS_ASN1_CONSTRUCTED = 0 \<Longrightarrow> untag t = t"
  "is_string_type t \<Longrightarrow> untag t \<noteq> 0"
proof -
  show "untag t AND CBS_ASN1_CONSTRUCTED = 0" by (simp add: and.assoc)
  show "t AND CBS_ASN1_CONSTRUCTED = 0 \<Longrightarrow> untag t = t"
  proof -
    have "t = (t AND CBS_ASN1_CONSTRUCTED) OR untag t"
      by (rule bit_word_eqI) (auto simp: bit_and_iff bit_or_iff bit_not_iff)
    then show "t AND CBS_ASN1_CONSTRUCTED = 0 \<Longrightarrow> untag t = t" by simp
  qed
  show "is_string_type t \<Longrightarrow> untag t \<noteq> 0"
    by (auto simp: is_string_type_def string_tag_defs)
qed

lemma read_der:
  assumes "length b < 2 ^ 32"
  shows "CBS_get_any_ber_asn1_element (der_element t b @ s) =
    (Some (der_element t b, t, word_of_nat (header_len t (length b))), s)"
  unfolding CBS_get_any_ber_asn1_element_def any_element_iff using assms by (auto simp: is_element_def)

lemma read_indefinite:
  assumes "t AND CBS_ASN1_CONSTRUCTED \<noteq> 0"
  shows "CBS_get_any_ber_asn1_element (der_tag t @ 0x80 # s) =
    (Some (der_tag t @ [0x80], t, word_of_nat (Suc (length (der_tag t)))), s)"
  unfolding CBS_get_any_ber_asn1_element_def any_element_iff using assms by (auto simp: is_element_def)

lemma der_len_nonempty: "der_len n \<noteq> []"
  by (simp add: der_len_def)

lemma read_eoc: "CBS_get_any_ber_asn1_element (0 # 0 # s) = (Some ([0, 0], 0, 2), s)"
proof -
  have e: "der_element 0 [] = [0, 0]"
    by (simp add: der_element_def der_tag_def der_len_def tag_num_def tag_class_def)
  moreover have "header_len 0 0 = 2"
    by (simp add: header_len_def der_tag_def der_len_def tag_num_def)
  ultimately show ?thesis using read_der [of "[]" 0 s] by simp
qed

lemma not_eoc:
  "t AND CBS_ASN1_CONSTRUCTED \<noteq> 0 \<Longrightarrow> \<not> is_eoc h (der_tag t @ [0x80])"
  "\<not> (t = 0 \<and> b = []) \<Longrightarrow> length b < 2 ^ 32 \<Longrightarrow> \<not> is_eoc h (der_element t b)"
proof -
  have "der_tag t @ [0x80] \<noteq> [0, 0]" by auto
  then show "\<not> is_eoc h (der_tag t @ [0x80])" by (simp add: is_eoc_def CBS_data_def)
  assume b: "\<not> (t = 0 \<and> b = [])" "length b < 2 ^ 32"
  have "der_element t b \<noteq> [0, 0]"
  proof
    assume e: "der_element t b = [0, 0]"
    then have "t = 0" using read_der [OF b(2), of t "[]"] read_eoc [of "[]"] by simp
    moreover have "length (der_tag t) + length (der_len (length b)) + length b = 2"
      using arg_cong [OF e, of length] by (simp add: der_element_def)
    then have "b = []" using length_der_tag(1) [of t] der_len_nonempty [of "length b"]
      by (cases "der_len (length b)"; cases "der_tag t") auto
    ultimately show False using b(1) by simp
  qed
  then show "\<not> is_eoc h (der_element t b)" by (simp add: is_eoc_def CBS_data_def)
qed

lemma indefinite_iff:
  "is_indefinite (der_tag t @ [0x80]) (word_of_nat (Suc (length (der_tag t))))"
  "length b < 2 ^ 32 \<Longrightarrow> \<not> is_indefinite (der_element t b) (word_of_nat (header_len t (length b)))"
proof -
  have "unat (word_of_nat (Suc (length (der_tag t))) :: u64) = Suc (length (der_tag t))"
    using length_der_tag [of t] by (intro unat_of_nat_64) simp
  then show "is_indefinite (der_tag t @ [0x80]) (word_of_nat (Suc (length (der_tag t))))"
    by (simp add: is_indefinite_def CBS_len_def CBS_data_def nth_append word_less_nat_alt del: of_nat_Suc)
  assume b: "length b < 2 ^ 32"
  show "\<not> is_indefinite (der_element t b) (word_of_nat (header_len t (length b)))"
  proof (cases "b = []")
    case True
    then show ?thesis using unat_header_len [of 0 t]
      by (simp add: is_indefinite_def CBS_len_def CBS_data_def der_element_def header_len_def der_len_def nth_append)
  next
    case False
    then show ?thesis using unat_header_len [OF b, of t]
      by (simp add: is_indefinite_def CBS_len_def der_element_def header_len_def)
  qed
qed

section \<open>What the first walk finds\<close>

text \<open>As the code has it: what a constructed element finds is forgotten at the next constructed element.\<close>

fun spots :: "bool \<Rightarrow> ber list \<Rightarrow> bool" where
  "spots b [] = b"
| "spots b (Primitive t x # ts) = spots b ts"
| "spots b (Constructed t ks # ts) =
     (is_string_type t \<or> (if spots False ks then spots True ts else spots False ts))"
| "spots b (Indefinite t ks # ts) = True"

lemma CBS_len_element [simp]: "0 < CBS_len (der_element t b @ s)" "0 < CBS_len (der_tag t @ s)"
  by (simp_all add: CBS_len_def der_element_def)

lemma find_trees:
  "\<forall>t\<in>set ts. ber_ok 0 d t \<Longrightarrow> find_ber_loop (concat (map ber_enc ts)) b d = Some (spots b ts)"
proof (induction ts arbitrary: b d rule: measure_induct_rule [of "size_list size"])
  case (less ts)
  show ?case
  proof (cases ts)
    case Nil
    then show ?thesis by (simp add: find_ber_loop.simps CBS_len_def)
  next
    case (Cons t us)
    have rec: "find_ber_loop (concat (map ber_enc us)) b d = Some (spots b us)" for b
      using less Cons by simp
    show ?thesis
    proof (cases t)
      case (Primitive tag x)
      then have "ber_ok 0 d (Primitive tag x)" using less.prems Cons by simp
      then show ?thesis using Cons Primitive rec read_der [of x tag "concat (map ber_enc us)"]
        by (subst find_ber_loop.simps)
          (simp add: indefinite_iff(2))
    next
      case (Constructed tag ks)
      let ?body = "concat (map ber_enc ks)"
      have ok: "ber_ok 0 d (Constructed tag ks)" using less.prems Cons Constructed by simp
      have sub: "cbs_find_ber ?body (d + 1) = Some (spots False ks)" if "\<not> is_string_type tag"
        using less.IH [of ks "Suc d" False] ok that Cons Constructed
        by (simp add: cbs_find_ber.simps child_tag_def)
      show ?thesis
        using Cons Constructed rec sub ok read_der [of ?body tag "concat (map ber_enc us)"]
          indefinite_iff(2) [of ?body tag] skip_header [of ?body tag]
        by (subst find_ber_loop.simps) auto
    next
      case (Indefinite tag ks)
      have ok: "ber_ok 0 d (Indefinite tag ks)" using less.prems Cons Indefinite by simp
      then show ?thesis
        using Cons Indefinite read_indefinite [of tag] indefinite_iff(1) [of tag]
        by (subst find_ber_loop.simps) simp
    qed
  qed
qed

section \<open>Converting\<close>

text \<open>What one turn of the loop does between starting a child and flushing it.\<close>

definition convert_body ::
  "cbb_env \<Rightarrow> cbs \<Rightarrow> cbb_id \<Rightarrow> u32 \<Rightarrow> nat \<Rightarrow> u8 list \<Rightarrow> u32 \<Rightarrow> u64 \<Rightarrow> cbb_state \<Rightarrow> (bool \<times> cbs \<times> cbb_state) option" where
  "convert_body env ys out s d e t h st =
     (if is_indefinite e h then cbs_convert_ber env ys out s True d st
      else (case CBS_skip (unat h) e of (None, c) \<Rightarrow> Some (False, ys, st)
        | (Some _, c) \<Rightarrow>
          if t AND CBS_ASN1_CONSTRUCTED \<noteq> 0 then do {
            (ok, c, st) \<leftarrow> cbs_convert_ber env c out s False d st; Some (ok, ys, st) }
          else do { (ok, st) \<leftarrow> CBB_add_bytes env out (CBS_data c) st; Some (ok, ys, st) }))"

lemma convert_unfold:
  assumes "s AND CBS_ASN1_CONSTRUCTED = 0" "d \<le> kMaxDepth" "s \<noteq> 0 \<longrightarrow> untag t = s"
    and "CBS_get_any_ber_asn1_element xs = (Some (e, t, h), ys)" "0 < CBS_len xs" "\<not> is_eoc h e"
  shows "cbs_convert_ber env xs i s eoc d st = do {
      (ok, st) \<leftarrow> (if s \<noteq> 0 then Some (True, st) else CBB_add_asn1 env i (Suc d)
        (if t AND CBS_ASN1_CONSTRUCTED \<noteq> 0 \<and> is_string_type t then untag t else t) st);
      if \<not> ok then Some (False, ys, st)
      else do {
        (ok, zs, st) \<leftarrow> convert_body env ys (if s \<noteq> 0 then i else Suc d)
          (if s = 0 \<and> t AND CBS_ASN1_CONSTRUCTED \<noteq> 0 \<and> is_string_type t then untag t else s) (Suc d) e t h st;
        if \<not> ok then Some (False, zs, st)
        else do {
          (ok, st) \<leftarrow> CBB_flush env i st;
          if \<not> ok then Some (False, zs, st) else cbs_convert_ber env zs i s eoc d st } } }"
  using assms unfolding convert_body_def
  by (subst cbs_convert_ber.simps, unfold Suc_eq_plus1 [symmetric])
    (simp add: Let_def cong: if_cong option.case_cong)

lemma convert_turn:
  assumes s: "s AND CBS_ASN1_CONSTRUCTED = 0" "d \<le> kMaxDepth" "i \<le> d" "s \<noteq> 0 \<longrightarrow> untag t = s"
    and e: "CBS_get_any_ber_asn1_element xs = (Some (e, t, h), ys)" "0 < CBS_len xs" "\<not> is_eoc h e"
    and len: "length bs < 2 ^ 32 - 1"
    and body: "writes env (if s \<noteq> 0 then i else Suc d) {j. Suc d < j}
      (keep zs (convert_body env ys (if s \<noteq> 0 then i else Suc d)
        (if s = 0 \<and> t AND CBS_ASN1_CONSTRUCTED \<noteq> 0 \<and> is_string_type t then untag t else s) (Suc d) e t h)) bs"
    and rest: "writes env i {j. d < j} (keep rest (cbs_convert_ber env zs i s eoc d)) cs"
    and out: "out = (if s \<noteq> 0 then bs
      else der_element (if t AND CBS_ASN1_CONSTRUCTED \<noteq> 0 \<and> is_string_type t then untag t else t) bs)"
  shows "writes env i {j. d < j} (keep rest (cbs_convert_ber env xs i s eoc d)) (out @ cs)"
proof (cases "s = 0")
  case True
  let ?tag = "if t AND CBS_ASN1_CONSTRUCTED \<noteq> 0 \<and> is_string_type t then untag t else t"
  have own: "insert (Suc d) {j. Suc d < j} = {j. d < j}" by auto
  have child: "writes env i {j. d < j} (\<lambda>st. and_then_opt (and_then_opt (CBB_add_asn1 env i (Suc d) ?tag st)
      (keep zs (convert_body env ys (Suc d)
        (if t AND CBS_ASN1_CONSTRUCTED \<noteq> 0 \<and> is_string_type t then untag t else s) (Suc d) e t h)))
      (CBB_flush env i)) (der_element ?tag bs)"
    unfolding own [symmetric] by (rule writes_child) (use body True s(3) len in auto)
  have "writes env i {j. d < j} (keep rest (cbs_convert_ber env xs i s eoc d)) (der_element ?tag bs @ cs)"
    by (rule writes_mono [OF writes_seq [OF child rest] order_refl])
      (use True in \<open>auto simp: and_then_opt_True keep_True convert_unfold [OF s(1,2,4) e, unfolded True]\<close>)
  then show ?thesis using True out by simp
next
  case False
  have body': "writes env i {j. d < j} (\<lambda>st. and_then_opt (keep zs (convert_body env ys i s (Suc d) e t h) st) (CBB_flush env i)) (bs @ [])"
  proof (rule writes_seq [OF _ writes_flush])
    have "writes env i {j. Suc d < j} (keep zs (convert_body env ys i s (Suc d) e t h)) bs"
      using body False by simp
    then show "writes env i {j. d < j} (keep zs (convert_body env ys i s (Suc d) e t h)) bs"
      by (rule writes_mono) auto
  qed
  have "writes env i {j. d < j} (keep rest (cbs_convert_ber env xs i s eoc d)) ((bs @ []) @ cs)"
    by (rule writes_mono [OF writes_seq [OF body' rest] order_refl])
      (use False in \<open>auto simp: and_then_opt_True keep_True convert_unfold [OF s(1,2,4) e]\<close>)
  then show ?thesis using False out by simp
qed

text \<open>A sequence of values, up to the end of the input or of the contents.\<close>

lemma convert_end:
  assumes "s AND CBS_ASN1_CONSTRUCTED = 0" "d \<le> kMaxDepth"
  shows "cbs_convert_ber env [] i s False d st = Some (True, [], st)"
    "cbs_convert_ber env (0 # 0 # rest) i s True d st = Some (True, rest, st)"
  using assms read_eoc [of rest]
  by (subst cbs_convert_ber.simps; simp add: CBS_len_def is_eoc_def CBS_data_def)+

definition ends_with :: "bool \<Rightarrow> cbs \<Rightarrow> cbs" where
  "ends_with eoc rest = (if eoc then 0 # 0 # rest else [])"

lemma out_constructed:
  assumes "t AND CBS_ASN1_CONSTRUCTED \<noteq> 0" "out = (if s \<noteq> 0 then concat (map (ber_out (child_tag s t)) ks)
    else der_element (if t AND CBS_ASN1_CONSTRUCTED \<noteq> 0 \<and> is_string_type t then untag t else t)
      (concat (map (ber_out (child_tag s t)) ks)))"
  shows "ber_out s (Constructed t ks) = out" "ber_out s (Indefinite t ks) = out"
proof -
  have "ber_out (child_tag s t) = (if s \<noteq> 0 \<or> is_string_type t then string_body else ber_der)"
    using untag_facts(3) by (auto simp: ber_out_def child_tag_def)
  then show "ber_out s (Constructed t ks) = out" "ber_out s (Indefinite t ks) = out"
    using assms by (auto simp: ber_out_def)
qed

lemma convert_trees:
  assumes "s AND CBS_ASN1_CONSTRUCTED = 0" "d \<le> kMaxDepth" "i \<le> d" "\<forall>t\<in>set ts. ber_ok s d t" "\<not> eoc \<Longrightarrow> rest = []"
  shows "writes env i {j. d < j}
    (keep rest (cbs_convert_ber env (concat (map ber_enc ts) @ ends_with eoc rest) i s eoc d)) (concat (map (ber_out s) ts))"
  using assms
proof (induction ts arbitrary: s d i eoc rest rule: measure_induct_rule [of "size_list size"])
  case (less ts)
  note s = less.prems(1,2,3)
  show ?case
  proof (cases ts)
    case Nil
    have "writes env i {j. d < j} (\<lambda>st. Some (True, st)) []" by (rule writes_nothing)
    then show ?thesis using Nil less.prems by (cases eoc)
      (auto elim!: writes_mono simp: keep_True convert_end ends_with_def)
  next
    case (Cons t us)
    let ?oc = "if s \<noteq> 0 then i else Suc d" and ?us = "concat (map ber_enc us) @ ends_with eoc rest"
    have rec: "writes env i {j. d < j} (keep rest (cbs_convert_ber env ?us i s eoc d)) (concat (map (ber_out s) us))"
      using less Cons by simp
    have ok: "ber_ok s d t" using less.prems Cons by simp
    have oc: "?oc \<le> Suc d" using s by simp
    show ?thesis
    proof (cases t)
      case (Primitive tag x)
      note ok = ok [unfolded Primitive, simplified]
      let ?h = "word_of_nat (header_len tag (length x))"
      have "writes env ?oc {j. Suc d < j} (CBB_add_bytes env ?oc x) x"
        by (rule writes_appends [OF appends_add_bytes])
      then have "writes env ?oc {j. Suc d < j} (keep ?us (convert_body env ?us ?oc s (Suc d) (der_element tag x) tag ?h)) x"
        by (rule writes_mono) (use ok in \<open>auto simp: keep_True convert_body_def indefinite_iff skip_header CBS_data_def\<close>)
      then have b: "writes env ?oc {j. Suc d < j} (keep ?us (convert_body env ?us ?oc
          (if s = 0 \<and> tag AND CBS_ASN1_CONSTRUCTED \<noteq> 0 \<and> is_string_type tag then untag tag else s)
          (Suc d) (der_element tag x) tag ?h)) x" using ok by simp
      have "writes env i {j. d < j} (keep rest (cbs_convert_ber env (der_element tag x @ ?us) i s eoc d))
          ((if s \<noteq> 0 then x else der_element
            (if tag AND CBS_ASN1_CONSTRUCTED \<noteq> 0 \<and> is_string_type tag then untag tag else tag) x) @
           concat (map (ber_out s) us))"
        by (rule convert_turn [OF s _ read_der CBS_len_element(1) not_eoc(2) _ b rec refl])
          (use ok untag_facts(2) [of tag] in auto)
      moreover have "ber_out s (Primitive tag x) = (if s \<noteq> 0 then x else der_element
            (if tag AND CBS_ASN1_CONSTRUCTED \<noteq> 0 \<and> is_string_type tag then untag tag else tag) x)"
        using ok by (simp add: ber_out_def)
      ultimately show ?thesis using Cons Primitive by (simp split del: if_split)
    next
      case (Constructed tag ks)
      note ok = ok [unfolded Constructed, simplified]
      let ?body = "concat (map ber_enc ks)" and ?s = "child_tag s tag"
      let ?h = "word_of_nat (header_len tag (length ?body))"
      have st: "?s AND CBS_ASN1_CONSTRUCTED = 0" using s(1) untag_facts by (simp add: child_tag_def)
      have "writes env ?oc {j. Suc d < j} (keep [] (cbs_convert_ber env (?body @ ends_with False []) ?oc ?s False (Suc d)))
          (concat (map (ber_out ?s) ks))"
        by (rule less.IH) (use Cons Constructed st ok oc in auto)
      then have "writes env ?oc {j. Suc d < j} (keep ?us (convert_body env ?us ?oc ?s (Suc d) (der_element tag ?body) tag ?h))
          (concat (map (ber_out ?s) ks))"
        by (rule writes_mono)
          (use ok in \<open>auto simp: keep_True convert_body_def indefinite_iff skip_header ends_with_def\<close>)
      then have b: "writes env ?oc {j. Suc d < j} (keep ?us (convert_body env ?us ?oc
          (if s = 0 \<and> tag AND CBS_ASN1_CONSTRUCTED \<noteq> 0 \<and> is_string_type tag then untag tag else s)
          (Suc d) (der_element tag ?body) tag ?h)) (concat (map (ber_out ?s) ks))"
        using ok by (simp add: child_tag_def)
      have "writes env i {j. d < j} (keep rest (cbs_convert_ber env (der_element tag ?body @ ?us) i s eoc d))
          ((if s \<noteq> 0 then concat (map (ber_out ?s) ks) else der_element
            (if tag AND CBS_ASN1_CONSTRUCTED \<noteq> 0 \<and> is_string_type tag then untag tag else tag)
            (concat (map (ber_out ?s) ks))) @ concat (map (ber_out s) us))"
        by (rule convert_turn [OF s _ read_der CBS_len_element(1) not_eoc(2) _ b rec refl]) (use ok in auto)
      then show ?thesis using Cons Constructed ok out_constructed(1) [OF _ refl, of tag s ks] by (simp split del: if_split)
    next
      case (Indefinite tag ks)
      note ok = ok [unfolded Indefinite, simplified]
      let ?body = "concat (map ber_enc ks)" and ?s = "child_tag s tag"
      let ?e = "der_tag tag @ [0x80]" and ?h = "word_of_nat (Suc (length (der_tag tag)))"
      have st: "?s AND CBS_ASN1_CONSTRUCTED = 0" using s(1) untag_facts by (simp add: child_tag_def)
      have "writes env ?oc {j. Suc d < j} (keep ?us (cbs_convert_ber env (?body @ ends_with True ?us) ?oc ?s True (Suc d)))
          (concat (map (ber_out ?s) ks))"
        by (rule less.IH) (use Cons Indefinite st ok oc in auto)
      then have "writes env ?oc {j. Suc d < j} (keep ?us (convert_body env (?body @ 0 # 0 # ?us) ?oc ?s (Suc d) ?e tag ?h))
          (concat (map (ber_out ?s) ks))"
        by (rule writes_mono)
          (use ok in \<open>auto simp: keep_True convert_body_def indefinite_iff ends_with_def simp del: of_nat_Suc\<close>)
      then have b: "writes env ?oc {j. Suc d < j} (keep ?us (convert_body env (?body @ 0 # 0 # ?us) ?oc
          (if s = 0 \<and> tag AND CBS_ASN1_CONSTRUCTED \<noteq> 0 \<and> is_string_type tag then untag tag else s)
          (Suc d) ?e tag ?h)) (concat (map (ber_out ?s) ks))"
        using ok by (simp add: child_tag_def)
      have "writes env i {j. d < j} (keep rest (cbs_convert_ber env (der_tag tag @ 0x80 # ?body @ 0 # 0 # ?us) i s eoc d))
          ((if s \<noteq> 0 then concat (map (ber_out ?s) ks) else der_element
            (if tag AND CBS_ASN1_CONSTRUCTED \<noteq> 0 \<and> is_string_type tag then untag tag else tag)
            (concat (map (ber_out ?s) ks))) @ concat (map (ber_out s) us))"
        by (rule convert_turn [OF s _ read_indefinite CBS_len_element(2) not_eoc(1) _ b rec refl]) (use ok in auto)
      then show ?thesis using Cons Indefinite ok out_constructed(2) [OF _ refl, of tag s ks] by (simp split del: if_split)
    qed
  qed
qed

section \<open>The whole conversion\<close>

lemma writes_built:
  assumes f: "writes env i own f bs" and a: "\<forall>c. alloc env c" "length bs < 2 ^ 64" "i \<notin> own"
  obtains st st1 st2 buf len where "CBB_init env i cap locals = (True, st)" "f st = Some (True, st1)"
    "CBB_finish env i True st1 = Some (Some (buf, len), st2)" "take (unat len) buf = bs" "unat len = length bs"
    "bb_can_resize (st_base st1)"
proof -
  obtain st where st: "CBB_init env i cap locals = (True, st)" "open_cbb st i"
      "room env (st_base st) (length bs)" "contents (st_base st) = []" "\<not> cb_is_child (st_cbb st i)"
    by (rule init_open [OF a(1,2)])
  have r: "bb_can_resize (st_base st)"
    using st(1) a(1) by (auto simp: CBB_init_def Let_def cbb_init_def CBB_zero_def set_cbb_def set_base_def)
  obtain st1 where 1: "f st = Some (True, st1)" "open_cbb st1 i" "extends env bs (st_base st) (st_base st1)"
      "\<And>j. j \<notin> own \<Longrightarrow> st_cbb st1 j = st_cbb st j"
    using writesE [OF f st(2,3)] by blast
  have "CBB_finish env i True st1 =
      Some (Some (bb_buf (st_base st1), bb_len (st_base st1)), CBB_cleanup i st1)"
    using 1(4) [OF a(3)] st(5) flush_open [OF 1(2)] by (simp add: CBB_finish_def)
  moreover have "take (unat (bb_len (st_base st1))) (bb_buf (st_base st1)) = bs"
    using 1(3) st(4) by (simp add: extends_def contents_def)
  moreover have "unat (bb_len (st_base st1)) = length bs" "bb_can_resize (st_base st1)"
    using 1(3) st(4) r length_contents [of "st_base st1"] by (simp_all add: extends_def)
  ultimately show ?thesis using that st(1) 1(1) by blast
qed

lemma convert_whole:
  assumes a: "\<forall>c. alloc env c" "length (concat (map ber_der ts)) < 2 ^ 64" and ok: "\<forall>t\<in>set ts. ber_ok 0 0 t"
    and found: "cbs_find_ber (concat (map ber_enc ts)) 0 = Some True"
  obtains storage where "CBS_asn1_ber_to_der env locals (concat (map ber_enc ts)) =
    Some (Some (concat (map ber_der ts), Some storage), [])"
proof -
  let ?in = "concat (map ber_enc ts)"
  have "ber_out 0 = ber_der" by (auto simp: ber_out_def)
  then have "writes env 0 {j. 0 < j} (keep [] (cbs_convert_ber env ?in 0 0 False 0)) (concat (map ber_der ts))"
    using convert_trees [of 0 0 0 ts False "[]" env] ok by (simp add: ends_with_def)
  then obtain st st1 st2 buf len where "CBB_init env 0 (word_of_nat (CBS_len ?in)) locals = (True, st)"
    "keep [] (cbs_convert_ber env ?in 0 0 False 0) st = Some (True, st1)"
    "CBB_finish env 0 True st1 = Some (Some (buf, len), st2)" "take (unat len) buf = concat (map ber_der ts)"
    by (rule writes_built [OF _ a]) (simp, blast)
  then show ?thesis using found that [of buf]
    by (simp add: CBS_asn1_ber_to_der_def keep_True CBS_init_def)
qed

text \<open>Values that are DER already.\<close>

fun is_der :: "ber \<Rightarrow> bool" where
  "is_der (Primitive t b) \<longleftrightarrow> True"
| "is_der (Constructed t ks) \<longleftrightarrow> \<not> is_string_type t \<and> (\<forall>k\<in>set ks. is_der k)"
| "is_der (Indefinite t ks) \<longleftrightarrow> False"

lemma is_der_same: "is_der t \<Longrightarrow> ber_der t = ber_enc t"
  by (induction t) (auto cong: map_cong)

lemma is_der_spots: "\<forall>t\<in>set ts. is_der t \<Longrightarrow> spots b ts \<Longrightarrow> b"
  by (induction b ts rule: spots.induct) (auto split: if_splits)

lemma find_whole: "\<forall>t\<in>set ts. ber_ok 0 0 t \<Longrightarrow> cbs_find_ber (concat (map ber_enc ts)) 0 = Some (spots False ts)"
  by (simp add: cbs_find_ber.simps find_trees)

lemma first_element:
  assumes "ber_ok 0 0 t" "\<not> spots False (t # ts)"
  obtains b tag where "ber_enc t = der_element tag b" "length b < 2 ^ 32"
  using assms by (cases t) auto

section \<open>The value of the result\<close>

text \<open>The value that \<open>ber_der\<close> encodes: strings put together, every length definite.\<close>

fun to_der :: "ber \<Rightarrow> ber" where
  "to_der (Primitive t b) = Primitive t b"
| "to_der (Constructed t ks) =
     (if is_string_type t then Primitive (untag t) (concat (map string_body ks)) else Constructed t (map to_der ks))"
| "to_der (Indefinite t ks) =
     (if is_string_type t then Primitive (untag t) (concat (map string_body ks)) else Constructed t (map to_der ks))"

lemma to_der_enc: "ber_enc (to_der t) = ber_der t"
  by (induction t) (auto simp: comp_def cong: map_cong)

lemma to_der_is_der: "is_der (to_der t)"
  by (induction t) auto

lemma ber_out_eq: "ber_out 0 = ber_der" "s \<noteq> 0 \<Longrightarrow> ber_out s = string_body"
  by (auto simp: ber_out_def)

lemma to_der_ok: "ber_ok 0 d t \<Longrightarrow> ber_ok 0 d (to_der t)"
proof (induction t arbitrary: d)
  case (Constructed t ks)
  then show ?case using untag_facts to_der_enc is_der_same [OF to_der_is_der]
    by (auto simp: child_tag_def ber_out_eq comp_def)
next
  case (Indefinite t ks)
  then show ?case using untag_facts to_der_enc is_der_same [OF to_der_is_der]
    by (auto simp: child_tag_def ber_out_eq comp_def)
qed simp

lemma not_converted:
  assumes "\<forall>t\<in>set (t # ts). ber_ok 0 0 t" "\<not> spots False (t # ts)"
  shows "CBS_asn1_ber_to_der env locals (concat (map ber_enc (t # ts))) =
    Some (Some (ber_enc t, None), concat (map ber_enc ts))"
proof -
  obtain b tag where b: "ber_enc t = der_element tag b" "length b < 2 ^ 32"
    using first_element assms by (metis list.set_intros(1))
  then have "CBS_get_any_asn1_element (ber_enc t @ concat (map ber_enc ts)) =
      (Some (ber_enc t, tag, word_of_nat (header_len tag (length b))), concat (map ber_enc ts))"
    by (auto simp: der_element_iff)
  then show ?thesis using assms(2) find_whole [OF assms(1)]
    by (auto simp: CBS_asn1_ber_to_der_def p_then_def)
qed

section \<open>Implicitly tagged strings\<close>

lemma CBS_ASN1_CONSTRUCTED_nonzero: "CBS_ASN1_CONSTRUCTED \<noteq> 0"
  by (simp add: asn1_tag_defs)

text \<open>The parts of a constructed string.\<close>

lemma implicit_chunks_writes:
  assumes "\<forall>x\<in>set bs. length x < 2 ^ 32"
  shows "writes env 0 {} (implicit_chunks env inner (concat (map (der_element inner) bs))) (concat bs)"
  using assms
proof (induction bs)
  case Nil
  have "writes env 0 {} (\<lambda>st. Some (True, st)) []" by (rule writes_nothing)
  then have "writes env 0 {} (implicit_chunks env inner []) []"
    by (rule writes_mono) (auto simp: implicit_chunks.simps CBS_len_def)
  then show ?case by simp
next
  case (Cons b bs)
  let ?rest = "concat (map (der_element inner) bs)"
  have "implicit_chunks env inner (der_element inner b @ ?rest) st =
      and_then_opt (CBB_add_bytes env 0 b st) (implicit_chunks env inner ?rest)" for st
    using Cons.prems asn1.read_enc [of b inner ?rest] by (subst implicit_chunks.simps) (simp add: CBS_data_def)
  then show ?case using writes_seq [OF writes_appends [OF appends_add_bytes] Cons.IH] Cons.prems
    by (simp add: fun_eq_iff)
qed

section \<open>Finishing\<close>

text \<open>What has been written is copied to where \<open>*outp\<close> points, which is advanced behind it.\<close>

lemma finish_i2d_copies:
  assumes f: "writes env i own f bs" and a: "\<forall>c. alloc env c" "length bs < 2 ^ 31" "i \<notin> own"
    and dst: "length bs \<le> length dst"
  obtains st st1 st2 where "CBB_init env i cap locals = (True, st)" "f st = Some (True, st1)"
    "CBB_finish_i2d env i (Some (Some dst)) st1 =
      Some (int (length bs), Some (Some (bs @ drop (length bs) dst)), length bs, st2)"
proof -
  have l: "length bs < 2 ^ 64" using a(2) by simp
  obtain st st1 st2 buf len where w: "CBB_init env i cap locals = (True, st)" "f st = Some (True, st1)"
    "CBB_finish env i True st1 = Some (Some (buf, len), st2)" "take (unat len) buf = bs" "unat len = length bs"
    "bb_can_resize (st_base st1)"
    by (rule writes_built [OF f a(1) l a(3)])
  have "\<not> len > 0x7fffffff" using w(5) a(2) by (simp add: word_less_nat_alt)
  then show ?thesis using that [OF w(1,2)] w(3-6) dst by (simp add: CBB_finish_i2d_def Let_def)
qed

end
