(* ===== verification/Ber_Theorems.thy ===== *)
theory Ber_Theorems
  imports Ber_Spec Bytestring_Theorems
begin

text \<open>
  The properties of the conversion of BER to DER, with the values of the witnesses.
\<close>

definition no_locals :: cbb_state where
  "no_locals = \<lparr>st_base = \<lparr>bb_buf = [], bb_len = 0, bb_cap = 0, bb_can_resize = True, bb_error = False\<rparr>,
     st_cbb = (\<lambda>_. zero_cbb)\<rparr>"

definition octets :: "u8 list \<Rightarrow> ber" where
  "octets b = Primitive CBS_ASN1_OCTETSTRING b"

definition split_octets :: "u8 list list \<Rightarrow> ber" where
  "split_octets bs = Constructed (CBS_ASN1_OCTETSTRING OR CBS_ASN1_CONSTRUCTED) (map octets bs)"

lemma demo_tags:
  "\<not> is_string_type CBS_ASN1_SEQUENCE" "is_string_type (CBS_ASN1_OCTETSTRING OR CBS_ASN1_CONSTRUCTED)"
  "is_string_type CBS_ASN1_OCTETSTRING"
  "CBS_ASN1_SEQUENCE AND CBS_ASN1_CONSTRUCTED \<noteq> 0" "CBS_ASN1_OCTETSTRING AND CBS_ASN1_CONSTRUCTED = 0"
  "CBS_ASN1_CONSTRUCTED \<noteq> 0" "CBS_ASN1_OCTETSTRING \<noteq> 0"
  "untag CBS_ASN1_OCTETSTRING = CBS_ASN1_OCTETSTRING"
  "untag (CBS_ASN1_OCTETSTRING OR CBS_ASN1_CONSTRUCTED) = CBS_ASN1_OCTETSTRING"
  by (simp_all add: is_string_type_def string_tag_defs asn1_tag_defs)

lemma demo_elements:
  "length b < 128 \<Longrightarrow> der_element CBS_ASN1_SEQUENCE b = 0x30 # word_of_nat (length b) # b"
  "length b < 128 \<Longrightarrow> der_element CBS_ASN1_OCTETSTRING b = 4 # word_of_nat (length b) # b"
  "length b < 128 \<Longrightarrow> der_element (CBS_ASN1_OCTETSTRING OR CBS_ASN1_CONSTRUCTED) b = 0x24 # word_of_nat (length b) # b"
  "length b < 128 \<Longrightarrow> der_element (0x80000001 OR CBS_ASN1_CONSTRUCTED) b = 0xa1 # word_of_nat (length b) # b"
  "der_tag CBS_ASN1_SEQUENCE = [0x30]"
  by (simp_all add: der_element_def der_tag_def der_len_def tag_num_def tag_class_def asn1_tag_defs)



text \<open>An input that the first walk misses: what a constructed element holds is forgotten when another constructed element follows: the
  sequence of a sequence with a constructed string and an empty sequence is returned unconverted, while with
  the two the other way round the string is found.\<close>

lemma ber_left_unconverted:
  "CBS_asn1_ber_to_der env locals [0x30, 8, 0x30, 4, 0x24, 2, 4, 0, 0x30, 0] =
     Some (Some ([0x30, 8, 0x30, 4, 0x24, 2, 4, 0, 0x30, 0], None), []) \<and>
   cbs_find_ber [0x30, 8, 0x30, 0, 0x30, 4, 0x24, 2, 4, 0] 0 = Some True \<and>
   (let t = Constructed CBS_ASN1_SEQUENCE [Constructed CBS_ASN1_SEQUENCE [split_octets [[]]], Constructed CBS_ASN1_SEQUENCE []]
    in ber_enc t = [0x30, 8, 0x30, 4, 0x24, 2, 4, 0, 0x30, 0] \<and> ber_ok 0 0 t \<and>
       ber_der t = [0x30, 6, 0x30, 2, 4, 0, 0x30, 0])"
proof (intro conjI)
  have "cbs_find_ber [0x30, 8, 0x30, 4, 0x24, 2, 4, 0, 0x30, 0] 0 = Some False" by code_simp
  moreover have "CBS_get_any_asn1_element [0x30, 8, 0x30, 4, 0x24, 2, 4, 0, 0x30, 0] =
      (Some ([0x30, 8, 0x30, 4, 0x24, 2, 4, 0, 0x30, 0], CBS_ASN1_SEQUENCE, 2), [])" by code_simp
  ultimately show "CBS_asn1_ber_to_der env locals [0x30, 8, 0x30, 4, 0x24, 2, 4, 0, 0x30, 0] =
     Some (Some ([0x30, 8, 0x30, 4, 0x24, 2, 4, 0, 0x30, 0], None), [])"
    by (simp add: CBS_asn1_ber_to_der_def p_then_def)
  show "cbs_find_ber [0x30, 8, 0x30, 0, 0x30, 4, 0x24, 2, 4, 0] 0 = Some True" by code_simp
qed (simp add: Let_def split_octets_def octets_def demo_tags demo_elements ber_out_def child_tag_def kMaxDepth_def)

text \<open>C28. The conversion is idempotent. For every BER value within the limits, a call of
  \<open>CBS_asn1_ber_to_der\<close> returns, with nothing left over; what it returns in a new buffer is an encoding of a value without
  indefinite lengths and constructed strings; and when it is called on its own result, it returns it
  unchanged and without a new buffer, even in an environment \<open>env'\<close> where no memory is left.\<close>

theorem ber_to_der_idempotent:
  assumes "\<forall>c. alloc env c" "ber_ok 0 0 t" "length (ber_der t) < 2 ^ 64"
  shows "\<exists>out storage. CBS_asn1_ber_to_der env locals (ber_enc t) = Some (Some (out, storage), []) \<and>
    (storage \<noteq> None \<longrightarrow> (\<exists>k. is_der k \<and> ber_ok 0 0 k \<and> out = ber_enc k)) \<and>
    CBS_asn1_ber_to_der env' locals' out = Some (Some (out, None), [])"
proof (cases "spots False [t]")
  case True
  have "cbs_find_ber (concat (map ber_enc [t])) 0 = Some True"
    using find_whole [of "[t]"] assms(2) True by simp
  then obtain storage where c: "CBS_asn1_ber_to_der env locals (ber_enc t) = Some (Some (ber_der t, Some storage), [])"
    using convert_whole [of env "[t]" locals] assms by auto
  have "\<not> spots False [to_der t]"
    using is_der_spots [of "[to_der t]" False] to_der_is_der by auto
  from not_converted [OF _ this, of env' locals'] c show ?thesis
    using to_der_is_der [of t] to_der_ok [OF assms(2)] to_der_enc [of t] by (auto intro: exI [of _ "to_der t"])
next
  case False
  from not_converted [OF _ this] assms(2) show ?thesis by auto
qed

lemma ber_to_der_idempotent_witness:
  "\<exists>out storage. CBS_asn1_ber_to_der no_oom no_locals [0x30, 0x80, 0x24, 7, 4, 2, 1, 2, 4, 1, 9, 0, 0] =
      Some (Some (out, storage), []) \<and>
    (storage \<noteq> None \<longrightarrow> (\<exists>k. is_der k \<and> ber_ok 0 0 k \<and> out = ber_enc k)) \<and>
    CBS_asn1_ber_to_der (no_oom\<lparr>alloc := \<lambda>_. False\<rparr>) no_locals out = Some (Some (out, None), [])"
proof -
  let ?t = "Indefinite CBS_ASN1_SEQUENCE [split_octets [[1, 2], [9]]]"
  note simps = split_octets_def octets_def demo_tags demo_elements
  have e: "ber_enc ?t = [0x30, 0x80, 0x24, 7, 4, 2, 1, 2, 4, 1, 9, 0, 0]" by (simp add: simps)
  have "ber_ok 0 0 ?t" "length (ber_der ?t) < 2 ^ 64"
    by (simp_all add: simps ber_out_def child_tag_def kMaxDepth_def)
  from ber_to_der_idempotent [OF _ this, of no_oom no_locals, unfolded e] show ?thesis by simp
qed

text \<open>C29. An implicitly tagged string is returned as it is when it is primitive, and put together from its
  parts when it is constructed.\<close>

theorem implicit_string_exact:
  assumes "\<forall>c. alloc env c" "outer AND CBS_ASN1_CONSTRUCTED = 0" "inner AND CBS_ASN1_CONSTRUCTED = 0"
    and "is_string_type inner" "length b < 2 ^ 32" "\<forall>x\<in>set bs. length x < 2 ^ 32"
    and "length (concat (map (der_element inner) bs)) < 2 ^ 32"
  shows "CBS_get_asn1_implicit_string env locals outer inner (der_element outer b @ rest) = Some (Some (b, None), rest) \<and>
    (\<exists>storage. CBS_get_asn1_implicit_string env locals outer inner
        (der_element (outer OR CBS_ASN1_CONSTRUCTED) (concat (map (der_element inner) bs)) @ rest) =
      Some (Some (concat bs, Some storage), rest))"
proof
  note tags = assms(2-4)
  have "parse_asn1_tag (der_element outer b @ rest) = (Some outer, der_len (length b) @ b @ rest)"
    by (simp add: tag.read_iff der_element_def)
  then have "CBS_peek_asn1_tag (der_element outer b @ rest) outer"
    using CBS_len_element(1) [of outer b rest] by (simp add: CBS_peek_asn1_tag_def)
  then show "CBS_get_asn1_implicit_string env locals outer inner (der_element outer b @ rest) = Some (Some (b, None), rest)"
    using tags asn1.read_enc [OF assms(5), of outer rest] by (simp add: CBS_get_asn1_implicit_string_def p_then_def)
  let ?c = "concat (map (der_element inner) bs)" and ?t = "outer OR CBS_ASN1_CONSTRUCTED"
  have "?t \<noteq> outer"
    using tags(1) by (metis CBS_ASN1_CONSTRUCTED_nonzero and.idem bit.conj_disj_distrib2 or.commute or.left_neutral)
  have "parse_asn1_tag (der_element ?t ?c @ rest) = (Some ?t, der_len (length ?c) @ ?c @ rest)"
    by (simp add: tag.read_iff der_element_def)
  then have peek: "\<not> CBS_peek_asn1_tag (der_element ?t ?c @ rest) outer"
    using \<open>?t \<noteq> outer\<close> by (simp add: CBS_peek_asn1_tag_def)
  have "length (concat bs) \<le> length ?c" by (induction bs) (auto simp: der_element_def)
  then have len: "length (concat bs) < 2 ^ 64" using assms(7) by simp
  obtain st st1 st2 buf len where "CBB_init env 0 (word_of_nat (CBS_len (der_element ?t ?c @ rest))) locals = (True, st)"
    "implicit_chunks env inner ?c st = Some (True, st1)"
    "CBB_finish env 0 True st1 = Some (Some (buf, len), st2)" "take (unat len) buf = concat bs"
    by (rule writes_built [OF implicit_chunks_writes [OF assms(6)] assms(1) len]) (simp, blast)
  then show "\<exists>storage. CBS_get_asn1_implicit_string env locals outer inner (der_element ?t ?c @ rest) =
      Some (Some (concat bs, Some storage), rest)"
    using tags peek asn1.read_enc [OF assms(7), of ?t rest]
    by (simp add: CBS_get_asn1_implicit_string_def CBS_init_def)
qed

lemma implicit_string_exact_witness:
  "\<exists>storage. CBS_get_asn1_implicit_string no_oom no_locals 0x80000001 CBS_ASN1_OCTETSTRING
      [0xa1, 7, 4, 2, 1, 2, 4, 1, 9, 5] = Some (Some ([1, 2, 9], Some storage), [5])"
proof -
  have "0x80000001 AND CBS_ASN1_CONSTRUCTED = 0" by (simp add: asn1_tag_defs)
  then show ?thesis
    using implicit_string_exact [of no_oom "0x80000001" CBS_ASN1_OCTETSTRING "[]" "[[1, 2], [9]]" no_locals "[5]"]
    by (simp add: demo_tags demo_elements)
qed

end
