(* ===== verification/Spec2Isabelle.thy ===== *)
theory Spec2Isabelle
  imports Pb_Encode_Theorems Pb_Decode_Theorems Base64_Theorems Bytestring_Theorems Bio_Theorems Registry_Theorems
    Stack_Theorems Ber_Theorems
begin

text \<open>
  A verification library for the C code that carries data in and out of the Reserv application:
  nanopb, the protocol buffer runtime under \<open>src/Reservation/Pods/nanopb\<close>, with which Firebase
  encodes and decodes everything it stores or sends, and the self-contained parts of BoringSSL under
  \<open>src/Reservation/Pods/BoringSSL-GRPC/src/crypto\<close> on which PEM and ASN.1 data pass.

  Configuration. The build defines \<open>PB_FIELD_32BIT\<close>, \<open>PB_NO_PACKED_STRUCTS\<close> and \<open>PB_ENABLE_MALLOC\<close>,
  the target is 64-bit and little endian: \<open>pb_size_t\<close> is \<open>32 word\<close>, \<open>size_t\<close> \<open>64 word\<close>, a pointer eight
  bytes. Words keep their width, so every wrap-around of the code is one of the model.

  The model. Memory is a function from addresses to bytes. A C function that mutates a stream or
  memory returns the new state beside its result; \<open>PB_RETURN_ERROR\<close> is \<open>False\<close> with the message in the
  stream. Loops are structural recursion or have a measure (bytes left in the stream, entries left in
  the descriptor array). Where a loop calls code through a pointer or follows a list in memory it is a
  \<open>partial_function (option)\<close>, and recursion through submessages takes a fuel \<open>d\<close>, the depth of the
  stack; \<open>None\<close> is running out of it. What is proved of these functions says that they return.

  Theories and the code they model:
  \<^item> \<open>Prelude\<close>: words as bytes, memory, loads and stores (interface \<open>cell\<close>), results with an error flag.
  \<^item> \<open>Pb_Types\<close> (\<open>pb.h\<close>), \<open>Pb_Common\<close> (\<open>pb_common.c\<close>): field descriptors, flags, the field iterator and
    its closed form: entry \<open>i\<close> stands at \<open>data_addr fs dest i\<close>.
  \<^item> \<open>Pb_Ostream\<close>, \<open>Pb_Encode\<close> (\<open>pb_encode.c\<close>): streams, primitives, field encoders, messages. Contract
    \<open>emits\<close>: count on a sizing stream, append to a sink, or fail with \<open>stream full\<close>; interface \<open>sink\<close>,
    interpreted on the buffer stream. \<open>Pb_Encode_Spec\<close>: the abstract serialisation \<open>msg_bytes\<close> and the
    refinement that \<open>pb_encode\<close> emits it. \<open>Pb_Encode_Theorems\<close>: the properties.
  \<^item> \<open>Pb_Istream\<close> (\<open>pb_decode.c\<close>, first part): input streams and decoding primitives.
    \<open>Pb_Istream_Spec\<close>: streams as byte strings, interface \<open>source\<close>, interpreted on the buffer stream;
    what each primitive does on every input or parses. \<open>Pb_Varint32\<close>: the 32-bit reader on every input
    of at most 36 bytes, behind which its one-byte \<open>bitpos\<close> may wrap around. \<open>Pb_Consumer\<close>: programs
    that read a stream, failing reads included. \<open>Pb_Wire_Theorems\<close>: the wire format.
  \<^item> \<open>Pb_Release\<close>, \<open>Pb_Decode\<close> (\<open>pb_decode.c\<close>): default values, releasing, field decoders, static,
    pointer and callback fields, extensions, the message loop, the entry points.
    \<open>Pb_Decode_Safe\<close>: memory safety and termination for static messages. \<open>Pb_Decode_Spec\<close>: required
    fields. \<open>Pb_Empty_Message\<close>: what the message loop does for a message type without fields.
    \<open>Pb_Decode_Theorems\<close>: the properties of the decoder.
  \<^item> \<open>Const_Time\<close> (\<open>crypto/internal.h\<close>), \<open>Base64\<close> (\<open>crypto/base64/base64.c\<close>), with \<open>Base64_Spec\<close>
    (alphabet, blocks, lengths), \<open>Base64_Stream\<close> (streaming against the whole input) and
    \<open>Base64_Theorems\<close>.
  \<^item> \<open>Crypto_Mem\<close> (\<open>crypto/mem.c\<close>, the portable byte swaps of \<open>crypto/internal.h\<close>): the allocator with its
    size prefix, comparisons, strings.
  \<^item> \<open>Cbs\<close>, \<open>Cbs_Der\<close>, \<open>Cbs_Values\<close> (\<open>crypto/bytestring/cbs.c\<close>): a CBS is the list of the bytes left.
    \<open>Cbs_Spec\<close>: what each reader parses, stated with the encodings \<open>be\<close>, \<open>base128\<close>, \<open>der_element\<close>.
    \<open>Cbb\<close>, \<open>Cbb_Values\<close> (\<open>cbb.c\<close>): the tree of builders over one buffer, growing or fixed. \<open>Cbb_Spec\<close>,
    \<open>Cbb_Emits\<close>: contract \<open>cbb_emits\<close>, an operation appends given bytes or reports failure; flushing a
    child puts its length in front. \<open>Cbb_Set_Of\<close>: sorting a SET OF. \<open>Unicode\<close> (\<open>unicode.c\<close>), \<open>Oid\<close>:
    interface \<open>codec\<close>, a reader with the writer that inverts it, interpreted on the UTF encodings.
    \<open>Bytestring_Theorems\<close>: the properties. \<open>Ber\<close> (\<open>ber.c\<close>, \<open>asn1_compat.c\<close>), \<open>Ber_Spec\<close>: BER values as trees and
    their conversion to DER, with nesting up to the 2048 of the code, and the value of the result
    (\<open>to_der\<close>); \<open>Ber_Theorems\<close>.
  \<^item> \<open>Bio_Pair\<close> (\<open>crypto/bio/pair.c\<close>, the part of \<open>bio.c\<close> a pair uses): two ends that share two ring
    buffers. \<open>Bio_Pair_Spec\<close>: each direction is a bounded queue. \<open>Bio_Theorems\<close>: runs of both ends.
  \<^item> \<open>Lhash\<close> (\<open>crypto/lhash/lhash.c\<close>): buckets as lists. \<open>Lhash_Spec\<close>: interface \<open>lhash_keys\<close>, equal keys
    have equal hashes; well-formedness, load, the map a table holds. \<open>Lhash_Run\<close>: runs of operations
    under allocation failures, against a map.
  \<^item> \<open>Obj\<close> (\<open>crypto/obj/obj.c\<close>, part of \<open>crypto/asn1/a_object.c\<close>): four hash tables of added objects in
    front of generated arrays. \<open>Obj_Spec\<close>: searching the arrays, interpretations of \<open>lhash_keys\<close> on the
    four tables. \<open>Obj_Registry\<close>: lookups, the wire and the text form. \<open>Registry_Theorems\<close>: the properties
    of both.
  \<^item> \<open>Ordered\<close>: interface \<open>comparison\<close>, a comparison function that orders, interpreted on SET OF elements;
    sorting and ascending arrays. \<open>Stack\<close> (\<open>crypto/stack/stack.c\<close>), \<open>Stack_Spec\<close>: stacks as lists.
    \<open>Stack_Theorems\<close>: their properties.

  How they meet. \<open>pb_encode\<close> writes through the stream it is given and \<open>pb_decode\<close> reads through one; the
  contracts of the streams (\<open>sink\<close>, \<open>source\<close>) are all the message code relies on. The registry of
  object identifiers reads text and DER through \<open>Cbs\<close> and \<open>Cbb\<close> and keeps its objects in hash tables;
  SET OF and stacks sort with the same \<open>qsort\<close>.

  Parameters. User callbacks, extension handlers, the descriptor arrays (generated code), \<open>realloc\<close>
  and \<open>free\<close> are arguments (\<open>enc_env\<close>, \<open>dec_env\<close>); the address of the local variable whose address the
  decoder takes is \<open>frame\<close>. In the BoringSSL theories \<open>cbb_env\<close> says which allocations succeed and what fresh memory
  holds; the generated arrays of \<open>obj_dat.h\<close> are \<open>obj_tables\<close>, of which \<open>tables_ok\<close> says that the indices
  are in range and in the order the search relies on; comparison, hash, copy and free callbacks are
  functions, of which the theorems ask that they order (\<open>comparison\<close>), that equal keys have equal hashes
  (\<open>lhash_keys\<close>) and that a copy is released by free (\<open>tracks\<close>).

  Bounds. Lengths are \<open>size_t\<close>; a theorem that needs one bounded says so (\<open>2 ^ 61\<close> slots are more than an
  address space holds, a run of fewer than \<open>2 ^ 64\<close> operations keeps a counter from wrapping). The fuel
  of the message code is the nesting of the descriptors and the theorems give one that is enough.

  Not modelled: the descriptor macros of \<open>pb.h\<close>; the other configurations (\<open>PB_WITHOUT_64BIT\<close>,
  \<open>PB_BUFFER_ONLY\<close>, \<open>PB_NO_ERRMSG\<close>, the old callback style); alignment and strict aliasing. Of the parts
  of BoringSSL above: functions that only release memory (\<open>lh_free\<close>, \<open>sk_free\<close>), locks and threads,
  callbacks that edit the table \<open>lh_doall_arg\<close> walks, BIO chains and the other BIO methods. The rest of
  BoringSSL (ciphers, curves and hashes with their assembly, X.509, TLS in C++), gRPC, Abseil, leveldb
  and the Firebase libraries, which are C++ and Objective-C on threads and sockets; the generated
  tables; the Swift application.
\<close>

end
